(* ===== verification/Prelude.thy ===== *)
theory Prelude
  imports Main "HOL-Library.Word"
begin

text \<open>
  Shared vocabulary of the development: names for the machine integers and byte strings of the
  program, the outcome types for its error paths, Rust's slice indexing, big-endian integers, and
  the interface of a self-delimiting wire codec. The collections declared here are filled by the
  component theories and read by their proofs.
\<close>

unbundle bit_operations_syntax

type_synonym u8 = "8 word"
type_synonym u16 = "16 word"
type_synonym u32 = "32 word"
type_synonym u64 = "64 word"
type_synonym byte = "8 word"
type_synonym bytes = "byte list"

named_theorems wire_simps \<open>lengths and inverses of the byte encodings\<close>
named_theorems slice_simps \<open>slice access on concatenations\<close>

section \<open>Outcomes\<close>

text \<open>
  A Rust function that may stop the process (an \<open>unwrap\<close> on \<open>None\<close>, an index out of range) has an
  outcome; a function that returns \<open>Result\<close> is a sum with the error on the left.
\<close>

datatype 'a outcome = Return 'a | Panic

fun unwrap :: "'a option \<Rightarrow> 'a outcome" where
  "unwrap (Some x) = Return x"
| "unwrap None = Panic"

fun bind_outcome :: "'a outcome \<Rightarrow> ('a \<Rightarrow> 'b outcome) \<Rightarrow> 'b outcome" where
  "bind_outcome (Return x) f = f x"
| "bind_outcome Panic f = Panic"

fun bind_result :: "'e + 'a \<Rightarrow> ('a \<Rightarrow> 'e + 'b) \<Rightarrow> 'e + 'b" where
  "bind_result (Inl e) f = Inl e"
| "bind_result (Inr x) f = f x"

fun ok_or :: "'a option \<Rightarrow> 'e \<Rightarrow> 'e + 'a" where
  "ok_or None e = Inl e"
| "ok_or (Some x) e = Inr x"

lemma bind_outcome_Return_iff:
  "bind_outcome m f = Return y \<longleftrightarrow> (\<exists>x. m = Return x \<and> f x = Return y)"
  by (cases m) auto

lemma bind_result_Inr_iff [simp]:
  "bind_result m f = Inr y \<longleftrightarrow> (\<exists>x. m = Inr x \<and> f x = Inr y)"
  by (cases m) auto

lemma unwrap_Return_iff [simp]: "unwrap m = Return x \<longleftrightarrow> m = Some x"
  by (cases m) auto

lemma unwrap_Panic_iff [simp]: "unwrap m = Panic \<longleftrightarrow> m = None"
  by (cases m) auto

lemma ok_or_Inr_iff [simp]: "ok_or m e = Inr x \<longleftrightarrow> m = Some x"
  by (cases m) auto

section \<open>Slices\<close>

text \<open>
  \<open>slice.get(i)\<close>, \<open>slice.get(..n)\<close> and \<open>slice.get(a..b)\<close>: \<open>None\<close> when the range does not lie inside
  the slice.
\<close>

definition get :: "'a list \<Rightarrow> nat \<Rightarrow> 'a option" where
  "get xs i = (if i < length xs then Some (xs ! i) else None)"

definition get_to :: "'a list \<Rightarrow> nat \<Rightarrow> 'a list option" where
  "get_to xs n = (if n \<le> length xs then Some (take n xs) else None)"

definition get_range :: "'a list \<Rightarrow> nat \<Rightarrow> nat \<Rightarrow> 'a list option" where
  "get_range xs a b = (if a \<le> b \<and> b \<le> length xs then Some (take (b - a) (drop a xs)) else None)"

definition get_from :: "'a list \<Rightarrow> nat \<Rightarrow> 'a list option" where
  "get_from xs n = (if n \<le> length xs then Some (drop n xs) else None)"

lemma get_Some_iff: "get xs i = Some x \<longleftrightarrow> i < length xs \<and> xs ! i = x"
  by (auto simp: get_def)

lemma get_in_range [slice_simps]: "i < length xs \<Longrightarrow> get xs i = Some (xs ! i)"
  by (simp add: get_def)

lemma get_to_append [slice_simps]: "n = length xs \<Longrightarrow> get_to (xs @ ys) n = Some xs"
  by (simp add: get_to_def)

lemma get_to_Some_iff: "get_to xs n = Some ys \<longleftrightarrow> n \<le> length xs \<and> ys = take n xs"
  by (auto simp: get_to_def)

lemma get_from_append [slice_simps]: "n = length xs \<Longrightarrow> get_from (xs @ ys) n = Some ys"
  by (simp add: get_from_def)

lemma get_range_append3 [slice_simps]:
  "a = length xs \<Longrightarrow> b = length xs + length ys \<Longrightarrow> get_range (xs @ ys @ zs) a b = Some ys"
  by (simp add: get_range_def)

section \<open>Machine integers\<close>

lemma unat_bound: "unat w < 2 ^ LENGTH('a)" for w :: "'a::len word"
  by (rule unsigned_less)

lemma uint_bound: "uint w < 2 ^ LENGTH('a)" for w :: "'a::len word"
  by (rule unsigned_less)

lemma byte_bound: "unat b < 256" for b :: byte
  using unat_bound [of b] by simp

lemma u16_bound: "unat w < 65536" for w :: u16
  using unat_bound [of w] by simp

lemma u32_bound: "unat w < 4294967296" for w :: u32
  using unat_bound [of w] by simp

lemma u64_bound: "unat w < 18446744073709551616" for w :: u64
  using unat_bound [of w] by simp

text \<open>The arithmetic of words where nothing wraps.\<close>

lemma unat_add_fits: "unat a + unat b < 2 ^ LENGTH('a) \<Longrightarrow> unat (a + b) = unat a + unat b"
  for a b :: "'a::len word"
  by (rule unat_add_lem [THEN iffD1])

lemma unat_mult_fits: "unat a * unat b < 2 ^ LENGTH('a) \<Longrightarrow> unat (a * b) = unat a * unat b"
  for a b :: "'a::len word"
  by (rule unat_mult_lem [THEN iffD1])

lemma unat_ucast_fits: "unat w < 2 ^ LENGTH('b) \<Longrightarrow> unat (ucast w :: 'b word) = unat w"
  for w :: "'a::len word" and b :: "'b::len word"
  by (simp add: unsigned_ucast_eq take_bit_eq_mod)

lemma unat_ucast_u32 [simp]: "unat (ucast w :: u64) = unat w" for w :: u32
  using u32_bound [of w] by (intro unat_ucast_fits) simp

lemma unat_word_of_nat_fits: "n < 2 ^ LENGTH('a::len) \<Longrightarrow> unat (word_of_nat n :: 'a word) = n"
  by (simp add: unat_of_nat)

lemma unat_u32_of_nat: "n < 2 ^ 32 \<Longrightarrow> unat (word_of_nat n :: u32) = n"
  by (simp add: unat_of_nat)

lemma u32_of_nat_eq_iff:
  "a < 2 ^ 32 \<Longrightarrow> b < 2 ^ 32 \<Longrightarrow> word_of_nat a = (word_of_nat b :: u32) \<longleftrightarrow> a = b"
  by (metis unat_u32_of_nat)

lemma unat_pos_iff: "0 < unat w \<longleftrightarrow> w \<noteq> 0" for w :: "'a::len word"
  by (simp add: unat_gt_0)

section \<open>Big-endian integers\<close>

text \<open>
  \<open>to_be n x\<close> is the \<open>n\<close>-byte big-endian form of \<open>x\<close> (Rust's \<open>to_be_bytes\<close>, \<open>BE::write_u32\<close>) and
  \<open>from_be\<close> reads it back. Integers of a fixed width go through their value.
\<close>

fun to_be :: "nat \<Rightarrow> nat \<Rightarrow> bytes" where
  "to_be 0 x = []"
| "to_be (Suc n) x = to_be n (x div 256) @ [word_of_nat x]"

definition from_be :: "bytes \<Rightarrow> nat" where
  "from_be bs = foldl (\<lambda>acc b. acc * 256 + unat b) 0 bs"

lemma length_to_be [simp, wire_simps]: "length (to_be n x) = n"
  by (induction n arbitrary: x) auto

lemma from_be_Nil [simp]: "from_be [] = 0"
  by (simp add: from_be_def)

lemma from_be_snoc [simp]: "from_be (bs @ [b]) = from_be bs * 256 + unat b"
  by (simp add: from_be_def)

lemma from_be_less: "from_be bs < 256 ^ length bs"
proof (induction bs rule: rev_induct)
  case Nil
  show ?case by simp
next
  case (snoc b bs)
  have step: "x < y \<Longrightarrow> x * 256 + n < 256 * y" if "n < 256" for x y n :: nat
    using that by simp
  show ?case
    using step [OF byte_bound [of b] snoc.IH] by simp
qed

lemma from_be_to_be [wire_simps]: "from_be (to_be n x) = x mod 256 ^ n"
proof (induction n arbitrary: x)
  case 0
  show ?case by simp
next
  case (Suc n)
  have "(x div 256) mod 256 ^ n * 256 + x mod 256 = x mod (256 * 256 ^ n)"
    by (simp add: mod_mult2_eq)
  with Suc show ?case by (simp add: unat_of_nat)
qed

lemma to_be_from_be: "to_be (length bs) (from_be bs) = bs"
proof (induction bs rule: rev_induct)
  case Nil
  show ?case by simp
next
  case (snoc b bs)
  have b: "unat b < 256"
    by (rule byte_bound)
  have "word_of_nat (from_be bs * 256 + unat b) = b"
  proof -
    have "(256 :: byte) = 0" by simp
    then show ?thesis by (simp only: of_nat_add of_nat_mult of_nat_numeral mult_zero_right) simp
  qed
  with snoc b show ?case by simp
qed

definition be16 :: "u16 \<Rightarrow> bytes" where "be16 w = to_be 2 (unat w)"
definition be32 :: "u32 \<Rightarrow> bytes" where "be32 w = to_be 4 (unat w)"
definition be64 :: "u64 \<Rightarrow> bytes" where "be64 w = to_be 8 (unat w)"
definition of_be16 :: "bytes \<Rightarrow> u16" where "of_be16 bs = word_of_nat (from_be bs)"
definition of_be32 :: "bytes \<Rightarrow> u32" where "of_be32 bs = word_of_nat (from_be bs)"
definition of_be64 :: "bytes \<Rightarrow> u64" where "of_be64 bs = word_of_nat (from_be bs)"

lemma length_be [simp, wire_simps]:
  "length (be16 a) = 2" "length (be32 b) = 4" "length (be64 c) = 8"
  by (simp_all add: be16_def be32_def be64_def)

lemma of_be_be [simp, wire_simps]:
  "of_be16 (be16 a) = a" "of_be32 (be32 b) = b" "of_be64 (be64 c) = c"
  by (simp_all add: be16_def be32_def be64_def of_be16_def of_be32_def of_be64_def from_be_to_be
      u16_bound u32_bound u64_bound)

lemma be32_of_be32: "length bs = 4 \<Longrightarrow> be32 (of_be32 bs) = bs"
  using from_be_less [of bs] to_be_from_be [of bs]
  by (simp add: be32_def of_be32_def unat_of_nat)

lemma be64_of_be64: "length bs = 8 \<Longrightarrow> be64 (of_be64 bs) = bs"
  using from_be_less [of bs] to_be_from_be [of bs]
  by (simp add: be64_def of_be64_def unat_of_nat)

lemma be16_of_be16: "length bs = 2 \<Longrightarrow> be16 (of_be16 bs) = bs"
  using from_be_less [of bs] to_be_from_be [of bs]
  by (simp add: be16_def of_be16_def unat_of_nat)

lemma be32_inj [simp]: "be32 a = be32 b \<longleftrightarrow> a = b"
  by (metis of_be_be(2))

section \<open>Names and addresses\<close>

text \<open>The bytes of an ASCII literal, and Rust's socket addresses.\<close>

definition ascii :: "string \<Rightarrow> bytes" where
  "ascii s = map of_char s"

datatype ip_addr = IpV4 u32 | IpV6 "128 word"

datatype socket_addr = SocketV4 u32 u16 | SocketV6 "128 word" u16

fun port_of :: "socket_addr \<Rightarrow> u16" where
  "port_of (SocketV4 ip p) = p"
| "port_of (SocketV6 ip p) = p"

lemma ascii_simps [simp]: "ascii [] = []" "ascii (c # s) = of_char c # ascii s"
  by (simp_all add: ascii_def)

end
