(* ===== verification/Bencode.thy ===== *)
theory Bencode
  imports Prelude "HOL-Library.List_Lexorder"
begin

text \<open>
  Model of the \<open>bencode\<close> crate: the serializer (\<open>serde_bencode_ser.rs\<close>), the deserializer
  (\<open>serde_bencode_de.rs\<close>) with the state it threads (remaining buffer, key path, the torrent-info
  hook), the dynamic value type (\<open>bencode_value.rs\<close>), and the way serde drives the deserializer for
  ignored values and for derived structs. SHA-1 is a parameter, as it lives in a foreign library.
  The path kept in an \<open>Error\<close> is for display only and is not modelled; the reason of an error is.
\<close>

section \<open>Decimal numbers\<close>

definition ch :: "char \<Rightarrow> byte" where
  "ch c = of_char c"

definition is_digit :: "byte \<Rightarrow> bool" where
  "is_digit b \<longleftrightarrow> 48 \<le> unat b \<and> unat b \<le> 57"

text \<open>\<open>Display\<close> of an integer, and \<open>str::parse\<close> for \<open>usize\<close> and \<open>i64\<close>.\<close>

fun show_nat :: "nat \<Rightarrow> bytes" where
  "show_nat n = (if n < 10 then [word_of_nat (48 + n)]
                 else show_nat (n div 10) @ [word_of_nat (48 + n mod 10)])"

declare show_nat.simps [simp del]

definition show_int :: "int \<Rightarrow> bytes" where
  "show_int i = (if i < 0 then 45 # show_nat (nat (- i)) else show_nat (nat i))"

definition digits_value :: "bytes \<Rightarrow> nat" where
  "digits_value bs = foldl (\<lambda>acc b. acc * 10 + (unat b - 48)) 0 bs"

definition parse_digits :: "bytes \<Rightarrow> nat option" where
  "parse_digits bs = (if bs \<noteq> [] \<and> list_all is_digit bs then Some (digits_value bs) else None)"

definition parse_usize :: "bytes \<Rightarrow> nat option" where
  "parse_usize bs =
     (case parse_digits (case bs of b # r \<Rightarrow> if b = 43 then r else bs | [] \<Rightarrow> []) of
        None \<Rightarrow> None
      | Some n \<Rightarrow> if n < 2 ^ 64 then Some n else None)"

definition in_i64 :: "int \<Rightarrow> bool" where
  "in_i64 i \<longleftrightarrow> - (2 ^ 63) \<le> i \<and> i < 2 ^ 63"

definition parse_i64 :: "bytes \<Rightarrow> int option" where
  "parse_i64 bs =
     (let v = (case bs of
          [] \<Rightarrow> None
        | b # r \<Rightarrow>
            if b = 45 then map_option (\<lambda>n. - int n) (parse_digits r)
            else if b = 43 then map_option int (parse_digits r)
            else map_option int (parse_digits bs))
      in case v of None \<Rightarrow> None | Some i \<Rightarrow> if in_i64 i then Some i else None)"

section \<open>Values and the serializer\<close>

text \<open>
  \<open>Dict\<close> is a hash map in the source. The model keeps it as an association list ordered by key:
  a canonical form, since no modelled operation observes the iteration order of the hash map.
  \<open>btree_insert\<close> is \<open>insert\<close> of a map (the old value of an equal key is replaced).
\<close>

datatype bencode_value =
    BBytes bytes
  | BInteger int
  | BList "bencode_value list"
  | BDict "(bytes \<times> bencode_value) list"

fun btree_insert :: "'k::linorder \<Rightarrow> 'v \<Rightarrow> ('k \<times> 'v) list \<Rightarrow> ('k \<times> 'v) list" where
  "btree_insert k v [] = [(k, v)]"
| "btree_insert k v ((k', v') # m) =
     (if k < k' then (k, v) # (k', v') # m
      else if k = k' then (k, v) # m
      else (k', v') # btree_insert k v m)"

definition write_number :: "int \<Rightarrow> bytes" where
  "write_number i = 105 # show_int i @ [101]"

definition write_bytes :: "bool \<Rightarrow> bytes \<Rightarrow> bytes" where
  "write_bytes hack b = (if hack then b else show_nat (length b) @ [58] @ b)"

text \<open>
  \<open>SerializeMap::end\<close>: the serialized entries were collected in a \<open>BTreeMap\<close> keyed by the bare key
  (\<open>hack_no_bytestring_prefix\<close>) and are written in key order. \<open>SerializeStruct::end\<close> is the same
  over the field names.
\<close>

definition serialize_map_end :: "bool \<Rightarrow> (bytes \<times> bytes) list \<Rightarrow> bytes" where
  "serialize_map_end hack entries =
     (let tmp = fold (\<lambda>(k, v). btree_insert k v) entries [] in
      concat (map (\<lambda>(k, v). write_bytes hack k @ v) tmp) @ [101])"

fun serialize_value :: "bool \<Rightarrow> bencode_value \<Rightarrow> bytes" where
  "serialize_value hack (BBytes b) = write_bytes hack b"
| "serialize_value hack (BInteger i) = write_number i"
| "serialize_value hack (BList l) = [108] @ concat (map (serialize_value hack) l) @ [101]"
| "serialize_value hack (BDict d) =
     [100] @ serialize_map_end hack
       (map (\<lambda>(k, v). (write_bytes True k, serialize_value False v)) d)"

definition bencode_serialize :: "bencode_value \<Rightarrow> bytes" where
  "bencode_serialize v = serialize_value False v"

definition serialize_struct :: "(bytes \<times> bytes) list \<Rightarrow> bytes" where
  "serialize_struct flds = [100] @ serialize_map_end False flds"

section \<open>The deserializer\<close>

record de_state =
  de_buf :: bytes
  field_context :: "bytes list"
  parsing_key :: bool
  is_torrent_info :: bool
  torrent_info_digest :: "bytes option"

datatype de_error =
    IntEof | IntParse | BytesEof | BytesLenParse | BytesRange
  | ExpectedBytesEof | ExpectedBytes | EmptyInput | ExpectedInt | ExpectedList | ExpectedDict
  | ExpectedStrEof | ExpectedStr | NotUtf8 | NotSupported
  | InvalidType | InvalidValue | DuplicateField bytes | MissingField bytes | TrailingBytes nat

text \<open>A run of the deserializer fails with an error, stops the process, or runs out of the fuel.\<close>

datatype de_fail = DeError de_error | DePanic | DeFuel

type_synonym 'a de = "de_state \<Rightarrow> de_fail + ('a \<times> de_state)"

definition de_bind :: "'a de \<Rightarrow> ('a \<Rightarrow> 'b de) \<Rightarrow> 'b de" where
  "de_bind m f st = (case m st of Inl e \<Rightarrow> Inl e | Inr (x, st') \<Rightarrow> f x st')"

definition de_return :: "'a \<Rightarrow> 'a de" where
  "de_return x st = Inr (x, st)"

definition de_fail :: "de_error \<Rightarrow> 'a de" where
  "de_fail e st = Inl (DeError e)"

definition new_from_buf :: "bytes \<Rightarrow> de_state" where
  "new_from_buf buf = \<lparr>de_buf = buf, field_context = [], parsing_key = False,
     is_torrent_info = False, torrent_info_digest = None\<rparr>"

fun position :: "byte \<Rightarrow> bytes \<Rightarrow> nat option" where
  "position b [] = None"
| "position b (x # xs) = (if x = b then Some 0 else map_option Suc (position b xs))"

definition starts_with :: "bytes \<Rightarrow> byte \<Rightarrow> bool" where
  "starts_with bs b \<longleftrightarrow> (case bs of [] \<Rightarrow> False | x # _ \<Rightarrow> x = b)"

text \<open>The slice \<open>&self.buf[1..end]\<close> panics when the buffer starts with the \<open>e\<close>.\<close>

definition parse_integer :: "int de" where
  "parse_integer st =
     (case position 101 (de_buf st) of
        None \<Rightarrow> Inl (DeError IntEof)
      | Some end \<Rightarrow>
          if end < 1 then Inl DePanic
          else
          (case parse_i64 (drop 1 (take end (de_buf st))) of
             None \<Rightarrow> Inl (DeError IntParse)
           | Some value \<Rightarrow> Inr (value, st\<lparr>de_buf := drop (end + 1) (de_buf st)\<rparr>)))"

definition parse_bytes :: "bytes de" where
  "parse_bytes st =
     (case position 58 (de_buf st) of
        None \<Rightarrow> Inl (DeError BytesEof)
      | Some length_delim \<Rightarrow>
          (case parse_usize (take length_delim (de_buf st)) of
             None \<Rightarrow> Inl (DeError BytesLenParse)
           | Some len \<Rightarrow>
               let bytes_start = length_delim + 1;
                   bytes_end = (bytes_start + len) mod 2 ^ 64 in
               (case get_range (de_buf st) bytes_start bytes_end of
                  None \<Rightarrow> Inl (DeError BytesRange)
                | Some b \<Rightarrow> Inr (b, st\<lparr>de_buf := drop bytes_end (de_buf st)\<rparr>))))"

definition parse_bytes_checked :: "bytes de" where
  "parse_bytes_checked st =
     (case de_buf st of
        [] \<Rightarrow> Inl (DeError ExpectedBytesEof)
      | first # _ \<Rightarrow>
          if \<not> is_digit first then Inl (DeError ExpectedBytes)
          else
            (case parse_bytes st of
               Inl e \<Rightarrow> Inl e
             | Inr (b, st') \<Rightarrow>
                 Inr (b, if parsing_key st' then st'\<lparr>field_context := field_context st' @ [b]\<rparr>
                         else st')))"

definition deserialize_i64 :: "int de" where
  "deserialize_i64 st =
     (if \<not> starts_with (de_buf st) 105 then Inl (DeError ExpectedInt) else parse_integer st)"

text \<open>
  \<open>MapAccess::next_key_seed\<close> for a key read as bytes (\<open>&[u8]\<close>, a byte buffer or a field
  identifier), \<open>MapAccess::next_value_seed\<close> and \<open>SeqAccess::next_element_seed\<close>.
\<close>

definition next_key :: "bytes option de" where
  "next_key st =
     (if starts_with (de_buf st) 101 then Inr (None, st\<lparr>de_buf := drop 1 (de_buf st)\<rparr>)
      else
        (case parse_bytes_checked (st\<lparr>parsing_key := True\<rparr>) of
           Inl e \<Rightarrow> Inl e
         | Inr (k, st') \<Rightarrow> Inr (Some k, st'\<lparr>parsing_key := False\<rparr>)))"

definition info_key :: bytes where
  "info_key = [105, 110, 102, 111]"

definition next_value :: "(bytes \<Rightarrow> bytes) \<Rightarrow> 'a de \<Rightarrow> 'a de" where
  "next_value sha1 seed st =
     (case seed st of
        Inl e \<Rightarrow> Inl e
      | Inr (value, st') \<Rightarrow>
          let len = length (de_buf st) - length (de_buf st');
              st'' = (if is_torrent_info st' \<and> field_context st' = [info_key]
                      then st'\<lparr>torrent_info_digest := Some (sha1 (take len (de_buf st)))\<rparr>
                      else st')
          in Inr (value, st''\<lparr>field_context := butlast (field_context st'')\<rparr>))"

text \<open>
  \<open>BencodeValue::deserialize\<close>: \<open>deserialize_any\<close> with the visitor of \<open>bencode_value.rs\<close>. The
  recursion of the source is on the input; the model counts it with fuel, and
  \<open>de_value_fuel\<close> shows that twice the length of the input is enough.
\<close>

fun de_value :: "(bytes \<Rightarrow> bytes) \<Rightarrow> nat \<Rightarrow> bencode_value de"
  and de_seq :: "(bytes \<Rightarrow> bytes) \<Rightarrow> nat \<Rightarrow> bencode_value list \<Rightarrow> bencode_value de"
  and de_map :: "(bytes \<Rightarrow> bytes) \<Rightarrow> nat \<Rightarrow> (bytes \<times> bencode_value) list \<Rightarrow> bencode_value de" where
  "de_value sha1 0 st = Inl DeFuel"
| "de_value sha1 (Suc n) st =
     (case de_buf st of
        [] \<Rightarrow> Inl (DeError EmptyInput)
      | b # r \<Rightarrow>
          if b = 100 then de_map sha1 n [] (st\<lparr>de_buf := r\<rparr>)
          else if b = 105 then
            (case deserialize_i64 st of Inl e \<Rightarrow> Inl e | Inr (i, st') \<Rightarrow> Inr (BInteger i, st'))
          else if b = 108 then de_seq sha1 n [] (st\<lparr>de_buf := r\<rparr>)
          else
            (case parse_bytes_checked st of
               Inl e \<Rightarrow> Inl e
             | Inr (x, st') \<Rightarrow> Inr (BBytes x, st')))"
| "de_seq sha1 0 v st = Inl DeFuel"
| "de_seq sha1 (Suc n) v st =
     (if starts_with (de_buf st) 101 then Inr (BList v, st\<lparr>de_buf := drop 1 (de_buf st)\<rparr>)
      else
        (case de_value sha1 n st of
           Inl e \<Rightarrow> Inl e
         | Inr (x, st') \<Rightarrow> de_seq sha1 n (v @ [x]) st'))"
| "de_map sha1 0 m st = Inl DeFuel"
| "de_map sha1 (Suc n) m st =
     (case next_key st of
        Inl e \<Rightarrow> Inl e
      | Inr (None, st') \<Rightarrow> Inr (BDict m, st')
      | Inr (Some k, st') \<Rightarrow>
          (case next_value sha1 (de_value sha1 n) st' of
             Inl e \<Rightarrow> Inl e
           | Inr (x, st'') \<Rightarrow> de_map sha1 n (btree_insert k x m) st''))"

text \<open>\<open>from_bytes\<close>, for any typed reader: the whole input must be consumed.\<close>

definition fuel_for :: "bytes \<Rightarrow> nat" where
  "fuel_for buf = 2 * length buf + 2"

definition from_bytes :: "'a de \<Rightarrow> bytes \<Rightarrow> de_fail + 'a" where
  "from_bytes reader buf =
     (case reader (new_from_buf buf) of
        Inl e \<Rightarrow> Inl e
      | Inr (v, st) \<Rightarrow>
          if de_buf st \<noteq> [] then Inl (DeError (TrailingBytes (length (de_buf st)))) else Inr v)"

definition dyn_from_bytes :: "(bytes \<Rightarrow> bytes) \<Rightarrow> bytes \<Rightarrow> de_fail + bencode_value" where
  "dyn_from_bytes sha1 buf = from_bytes (de_value sha1 (fuel_for buf)) buf"


section \<open>Decimal round trip\<close>

lemma digits_value_snoc [simp]: "digits_value (bs @ [b]) = digits_value bs * 10 + (unat b - 48)"
  by (simp add: digits_value_def)

lemma unat_digit: "d < 10 \<Longrightarrow> unat (word_of_nat (48 + d) :: byte) = 48 + d"
  by (simp add: unat_of_nat del: of_nat_add)

lemma digit_is_digit: "d < 10 \<Longrightarrow> is_digit (word_of_nat (48 + d))"
  by (simp add: is_digit_def unat_digit del: of_nat_add)

lemma show_nat_digits: "list_all is_digit (show_nat n) \<and> show_nat n \<noteq> [] \<and> digits_value (show_nat n) = n"
proof (induction n rule: show_nat.induct)
  case (1 n)
  show ?case
  proof (cases "n < 10")
    case True
    then show ?thesis
      by (subst (1 2 3) show_nat.simps)
        (simp add: digit_is_digit digits_value_def unat_digit del: of_nat_add)
  next
    case False
    with 1 have IH: "list_all is_digit (show_nat (n div 10))"
      "digits_value (show_nat (n div 10)) = n div 10" by simp_all
    have eq: "show_nat n = show_nat (n div 10) @ [word_of_nat (48 + n mod 10)]"
      using False by (subst show_nat.simps) simp
    show ?thesis
      unfolding eq using IH digit_is_digit [of "n mod 10"] unat_digit [of "n mod 10"]
      by (simp del: of_nat_add)
  qed
qed

lemma parse_digits_show_nat [simp]: "parse_digits (show_nat n) = Some n"
  using show_nat_digits [of n] by (simp add: parse_digits_def)

lemma is_digit_cases:
  "is_digit b \<Longrightarrow> b \<noteq> 43 \<and> b \<noteq> 45 \<and> b \<noteq> 58 \<and> b \<noteq> 100 \<and> b \<noteq> 101 \<and> b \<noteq> 105 \<and> b \<noteq> 108"
  by (auto simp: is_digit_def)

lemma show_nat_hd: "is_digit (hd (show_nat n))"
  using show_nat_digits [of n] by (cases "show_nat n") auto

lemma show_nat_Cons: "show_nat n = b # r \<Longrightarrow> is_digit b"
  using show_nat_hd [of n] by simp

lemma parse_usize_show_nat [simp]: "n < 2 ^ 64 \<Longrightarrow> parse_usize (show_nat n) = Some n"
  using show_nat_digits [of n] is_digit_cases [OF show_nat_hd [of n]]
  by (cases "show_nat n") (auto simp: parse_usize_def parse_digits_def)

lemma parse_i64_show_int [simp]: "in_i64 i \<Longrightarrow> parse_i64 (show_int i) = Some i"
proof (cases "i < 0")
  case True
  assume "in_i64 i"
  with True show ?thesis by (simp add: show_int_def parse_i64_def)
next
  case False
  assume "in_i64 i"
  obtain b r where br: "show_nat (nat i) = b # r"
    using show_nat_digits [of "nat i"] by (cases "show_nat (nat i)") auto
  have "parse_digits (b # r) = Some (nat i)" by (simp flip: br)
  moreover have "b \<noteq> 45" "b \<noteq> 43" using is_digit_cases [OF show_nat_Cons [OF br]] by simp_all
  ultimately show ?thesis
    using False \<open>in_i64 i\<close> by (simp add: show_int_def parse_i64_def br)
qed

lemma no_delimiter_show_nat: "58 \<notin> set (show_nat n)" "101 \<notin> set (show_nat n)"
  using show_nat_digits [of n] is_digit_cases by (auto simp: list_all_iff)

lemma no_e_show_int: "101 \<notin> set (show_int i)"
  using no_delimiter_show_nat(2) by (simp add: show_int_def)

lemma position_append: "b \<notin> set xs \<Longrightarrow> position b (xs @ b # ys) = Some (length xs)"
  by (induction xs) auto

lemma position_Some: "position b xs = Some n \<Longrightarrow> n < length xs \<and> xs ! n = b"
  by (induction xs arbitrary: n) (auto split: if_splits)

section \<open>Reading back the primitives\<close>

lemma parse_integer_write_number:
  assumes "de_buf st = write_number i @ rest" "in_i64 i"
  shows "parse_integer st = Inr (i, st\<lparr>de_buf := rest\<rparr>)"
proof -
  have "position 101 (de_buf st) = Some (Suc (length (show_int i)))"
    using position_append [of 101 "105 # show_int i" rest] no_e_show_int [of i]
    by (simp add: assms(1) write_number_def)
  with assms show ?thesis
    by (simp add: parse_integer_def write_number_def)
qed

lemma deserialize_i64_write_number:
  assumes "de_buf st = write_number i @ rest" "in_i64 i"
  shows "deserialize_i64 st = Inr (i, st\<lparr>de_buf := rest\<rparr>)"
  using parse_integer_write_number [OF assms]
  by (simp add: deserialize_i64_def assms(1) starts_with_def write_number_def)

lemma parse_bytes_write_bytes:
  assumes "de_buf st = write_bytes False b @ rest" "length (de_buf st) < 2 ^ 64"
  shows "parse_bytes st = Inr (b, st\<lparr>de_buf := rest\<rparr>)"
proof -
  let ?n = "show_nat (length b)"
  have buf: "de_buf st = ?n @ 58 # b @ rest"
    using assms(1) by (simp add: write_bytes_def)
  have pos: "position 58 (de_buf st) = Some (length ?n)"
    unfolding buf using no_delimiter_show_nat(1) by (rule position_append)
  have small: "length ?n + 1 + length b < 2 ^ 64" "length b < 2 ^ 64"
    using assms(2) buf by simp_all
  then have bend: "(length ?n + 1 + length b) mod 2 ^ 64 = length ?n + 1 + length b" by simp
  have range: "get_range (de_buf st) (length ?n + 1) (length ?n + 1 + length b) = Some b"
    using get_range_append3 [of _ "?n @ [58]" _ b rest] by (simp add: buf)
  show ?thesis
    unfolding parse_bytes_def pos using small range by (simp add: Let_def bend buf)
qed

lemma write_bytes_hd: "\<exists>d r. write_bytes False b @ rest = d # r \<and> is_digit d"
  using show_nat_digits [of "length b"]
  by (cases "show_nat (length b)") (auto simp: write_bytes_def)

lemma parse_bytes_checked_write_bytes:
  assumes "de_buf st = write_bytes False b @ rest" "length (de_buf st) < 2 ^ 64"
  shows "parse_bytes_checked st = Inr (b, st\<lparr>de_buf := rest, field_context :=
    (if parsing_key st then field_context st @ [b] else field_context st)\<rparr>)"
proof -
  obtain d r where "de_buf st = d # r" "is_digit d"
    using write_bytes_hd [of b rest] assms(1) by auto
  then show ?thesis
    using parse_bytes_write_bytes [OF assms] by (simp add: parse_bytes_checked_def)
qed

lemma next_key_write_bytes:
  assumes "de_buf st = write_bytes False k @ rest" "length (de_buf st) < 2 ^ 64"
    and "\<not> parsing_key st"
  shows "next_key st = Inr (Some k, st\<lparr>de_buf := rest, field_context := field_context st @ [k]\<rparr>)"
proof -
  have "\<not> starts_with (de_buf st) 101"
    using write_bytes_hd [of k rest] assms(1) is_digit_cases by (auto simp: starts_with_def)
  then show ?thesis
    using parse_bytes_checked_write_bytes [of "st\<lparr>parsing_key := True\<rparr>" k rest] assms
    by (simp add: next_key_def)
qed

lemma next_key_end:
  "de_buf st = 101 # rest \<Longrightarrow> next_key st = Inr (None, st\<lparr>de_buf := rest\<rparr>)"
  by (simp add: next_key_def starts_with_def)


section \<open>Ordered maps\<close>

abbreviation keys_sorted :: "('k::linorder \<times> 'v) list \<Rightarrow> bool" where
  "keys_sorted m \<equiv> sorted_wrt (<) (map fst m)"

lemma btree_insert_last:
  "\<forall>x \<in> fst ` set m. x < k \<Longrightarrow> btree_insert k v m = m @ [(k, v)]"
  by (induction m) force+

lemma fold_btree_insert_sorted:
  "keys_sorted (m @ es) \<Longrightarrow> fold (\<lambda>(k, v). btree_insert k v) es m = m @ es"
proof (induction es arbitrary: m)
  case Nil
  show ?case by simp
next
  case (Cons e es)
  obtain k v where e: "e = (k, v)" by (cases e)
  have "btree_insert k v m = m @ [(k, v)]"
    using Cons.prems by (intro btree_insert_last) (auto simp: e sorted_wrt_append)
  with Cons.IH [of "m @ [e]"] Cons.prems show ?case by (simp add: e)
qed

lemma set_keys_btree_insert: "fst ` set (btree_insert k v m) = insert k (fst ` set m)"
  by (induction k v m rule: btree_insert.induct) auto

lemma keys_sorted_btree_insert: "keys_sorted m \<Longrightarrow> keys_sorted (btree_insert k v m)"
proof (induction k v m rule: btree_insert.induct)
  case (2 k v k' v' m)
  show ?case
  proof (cases "k' < k")
    case True
    have "set (map fst (btree_insert k v m)) = insert k (set (map fst m))"
      using set_keys_btree_insert [of k v m] by simp
    with True 2 show ?thesis by auto
  qed (use "2.prems" in auto)
qed simp

lemma map_of_btree_insert: "keys_sorted m \<Longrightarrow> map_of (btree_insert k v m) = (map_of m)(k \<mapsto> v)"
  by (induction k v m rule: btree_insert.induct) (auto simp: fun_eq_iff)

lemma in_set_btree_insert: "x \<in> set (btree_insert k v m) \<Longrightarrow> x = (k, v) \<or> x \<in> set m"
  by (induction k v m rule: btree_insert.induct) (auto split: if_splits)

lemma keys_sorted_fold_btree_insert:
  "keys_sorted m \<Longrightarrow> keys_sorted (fold (\<lambda>(k, v). btree_insert k v) es m)"
  by (induction es arbitrary: m) (auto simp: keys_sorted_btree_insert)

lemma fold_btree_insert_map_of:
  "keys_sorted m \<Longrightarrow> map_of (fold (\<lambda>(k, v). btree_insert k v) es m) = map_of m ++ map_of (rev es)"
proof (induction es arbitrary: m)
  case (Cons e es)
  obtain k v where e: "e = (k, v)" by (cases e)
  show ?case
    using Cons keys_sorted_btree_insert [OF Cons.prems, of k v] map_of_btree_insert [OF Cons.prems]
    by (simp add: e map_add_def fun_eq_iff split: option.splits)
qed simp

lemma keys_sorted_unique: "keys_sorted a \<Longrightarrow> keys_sorted b \<Longrightarrow> map_of a = map_of b \<Longrightarrow> a = b"
proof -
  assume s: "keys_sorted a" "keys_sorted b" and eq: "map_of a = map_of b"
  have d: "distinct (map fst a)" "distinct (map fst b)"
    using s strict_sorted_iff by blast+
  then have "set a = set b"
    using eq by (metis map_of_inject_set)
  moreover have "inj_on fst (set a \<union> set b)"
    using d(1) \<open>set a = set b\<close> by (simp add: distinct_map)
  ultimately show ?thesis
    using s d by (intro map_sorted_distinct_set_unique [of fst]) (simp_all add: strict_sorted_iff)
qed


section \<open>Round trip\<close>

fun wf_value :: "bencode_value \<Rightarrow> bool" where
  "wf_value (BBytes b) = True"
| "wf_value (BInteger i) = in_i64 i"
| "wf_value (BList l) = list_all wf_value l"
| "wf_value (BDict d) = (keys_sorted d \<and> list_all (\<lambda>(k, v). wf_value v) d)"

text \<open>The entries of a dictionary as they are written: length-prefixed key, then the value.\<close>

definition ser_entries :: "(bytes \<times> bencode_value) list \<Rightarrow> bytes" where
  "ser_entries d = concat (map (\<lambda>(k, v). write_bytes False k @ serialize_value False v) d)"

lemma serialize_map_end_sorted:
  "keys_sorted entries \<Longrightarrow> serialize_map_end False entries =
     concat (map (\<lambda>(k, v). write_bytes False k @ v) entries) @ [101]"
  using fold_btree_insert_sorted [of "[]" entries] by (simp add: serialize_map_end_def)

lemma serialize_dict:
  assumes "keys_sorted d"
  shows "serialize_value False (BDict d) = 100 # ser_entries d @ [101]"
proof -
  have "keys_sorted (map (\<lambda>(k, v). (write_bytes True k, serialize_value False v)) d)"
    using assms by (simp add: write_bytes_def comp_def case_prod_unfold)
  then show ?thesis
    by (simp add: serialize_map_end_sorted ser_entries_def comp_def case_prod_unfold)
      (simp add: write_bytes_def)
qed

lemma serialize_value_nonempty: "serialize_value False v \<noteq> []"
proof (cases v)
  case (BBytes b)
  then show ?thesis using write_bytes_hd [of b "[]"] by auto
qed (simp_all add: write_number_def)

text \<open>A value never starts with the terminator of a list or dictionary.\<close>

lemma serialize_value_hd: "\<not> starts_with (serialize_value False v @ rest) 101"
proof (cases v)
  case (BBytes b)
  then show ?thesis
    using write_bytes_hd [of b rest] is_digit_cases by (auto simp: starts_with_def)
qed (simp_all add: write_number_def starts_with_def)

text \<open>The torrent-info hook does nothing below a key, or when it is switched off.\<close>

definition hook_idle :: "de_state \<Rightarrow> bool" where
  "hook_idle st \<longleftrightarrow> \<not> is_torrent_info st \<or> field_context st \<noteq> []"

lemma hook_idle_simps [simp]:
  "hook_idle (st\<lparr>de_buf := b\<rparr>) = hook_idle st"
  "hook_idle (st\<lparr>field_context := ctx @ [k]\<rparr>)"
  by (simp_all add: hook_idle_def)


lemma de_value_BBytes:
  assumes "de_buf st = write_bytes False b @ rest" "length (de_buf st) < 2 ^ 64" "\<not> parsing_key st"
  shows "de_value sha1 (Suc n) st = Inr (BBytes b, st\<lparr>de_buf := rest\<rparr>)"
proof -
  obtain d r where dr: "de_buf st = d # r" "is_digit d"
    using write_bytes_hd [of b rest] assms(1) by auto
  then show ?thesis
    using parse_bytes_checked_write_bytes [OF assms(1,2)] is_digit_cases [OF dr(2)] assms(3) by simp
qed

lemma de_value_BInteger:
  assumes "de_buf st = write_number i @ rest" "in_i64 i"
  shows "de_value sha1 (Suc n) st = Inr (BInteger i, st\<lparr>de_buf := rest\<rparr>)"
  using deserialize_i64_write_number [OF assms] by (simp add: assms(1) write_number_def)

definition reads_back :: "(bytes \<Rightarrow> bytes) \<Rightarrow> bencode_value \<Rightarrow> bool" where
  "reads_back sha1 v \<longleftrightarrow> (\<forall>st rest n. de_buf st = serialize_value False v @ rest \<longrightarrow>
     length (de_buf st) < 2 ^ 64 \<longrightarrow> \<not> parsing_key st \<longrightarrow> hook_idle st \<longrightarrow>
     2 * length (serialize_value False v) \<le> n \<longrightarrow>
     de_value sha1 n st = Inr (v, st\<lparr>de_buf := rest\<rparr>))"

lemma reads_backD:
  "reads_back sha1 v \<Longrightarrow> de_buf st = serialize_value False v @ rest \<Longrightarrow>
   length (de_buf st) < 2 ^ 64 \<Longrightarrow> \<not> parsing_key st \<Longrightarrow> hook_idle st \<Longrightarrow>
   2 * length (serialize_value False v) \<le> n \<Longrightarrow> de_value sha1 n st = Inr (v, st\<lparr>de_buf := rest\<rparr>)"
  unfolding reads_back_def by blast

lemma de_seq_reads:
  assumes "list_all (reads_back sha1) l"
    and "de_buf st = concat (map (serialize_value False) l) @ 101 # rest"
    and "length (de_buf st) < 2 ^ 64" "\<not> parsing_key st" "hook_idle st"
    and "2 * length (concat (map (serialize_value False) l)) < n"
  shows "de_seq sha1 n acc st = Inr (BList (acc @ l), st\<lparr>de_buf := rest\<rparr>)"
  using assms
proof (induction l arbitrary: n acc st)
  case Nil
  then show ?case by (cases n) (simp_all add: starts_with_def)
next
  case (Cons x l)
  obtain m where n: "n = Suc m" using Cons.prems(6) by (cases n) simp_all
  define tail where "tail = concat (map (serialize_value False) l) @ 101 # rest"
  have pos: "0 < length (serialize_value False x)"
    using serialize_value_nonempty [of x] by simp
  have buf: "de_buf st = serialize_value False x @ tail"
    using Cons.prems(2) by (simp add: tail_def)
  have val: "de_value sha1 m st = Inr (x, st\<lparr>de_buf := tail\<rparr>)"
    using Cons.prems n pos by (intro reads_backD [OF _ buf]) simp_all
  have fuel: "2 * length (concat (map (serialize_value False) l)) < m"
    using Cons.prems(6) pos by (simp add: n del: length_greater_0_conv)
  have "de_seq sha1 m (acc @ [x]) (st\<lparr>de_buf := tail\<rparr>) =
      Inr (BList ((acc @ [x]) @ l), (st\<lparr>de_buf := tail\<rparr>)\<lparr>de_buf := rest\<rparr>)"
    using Cons.prems fuel buf by (intro Cons.IH) (simp_all add: tail_def hook_idle_def)
  with val n buf serialize_value_hd [of x tail] show ?case by simp
qed


lemma butlast_field_context: "st\<lparr>field_context := butlast (field_context st @ [k])\<rparr> = st"
  by simp

lemma next_value_idle:
  assumes "seed (st\<lparr>field_context := ctx @ [k]\<rparr>) =
      Inr (v, st\<lparr>field_context := ctx @ [k], de_buf := rest\<rparr>)"
    and "\<not> is_torrent_info st \<or> ctx \<noteq> [] \<or> k \<noteq> info_key"
  shows "next_value sha1 seed (st\<lparr>field_context := ctx @ [k]\<rparr>) =
    Inr (v, st\<lparr>field_context := ctx, de_buf := rest\<rparr>)"
  using assms by (auto simp: next_value_def Let_def)

lemma de_map_reads:
  assumes "list_all (\<lambda>(k, v). reads_back sha1 v) d"
    and "keys_sorted (acc @ d)"
    and "de_buf st = ser_entries d @ 101 # rest"
    and "length (de_buf st) < 2 ^ 64" "\<not> parsing_key st" "hook_idle st"
    and "2 * length (ser_entries d) < n"
  shows "de_map sha1 n acc st = Inr (BDict (acc @ d), st\<lparr>de_buf := rest\<rparr>)"
  using assms
proof (induction d arbitrary: n acc st)
  case Nil
  then show ?case by (cases n) (simp_all add: next_key_end ser_entries_def)
next
  case (Cons e d)
  obtain k x where e: "e = (k, x)" by (cases e)
  obtain m where n: "n = Suc m" using Cons.prems(7) by (cases n) simp_all
  define tail where "tail = ser_entries d @ 101 # rest"
  define ctx where "ctx = field_context st"
  have pos: "0 < length (write_bytes False k)"
    using write_bytes_hd [of k "[]"] by auto
  have buf: "de_buf st = write_bytes False k @ serialize_value False x @ tail"
    using Cons.prems(3) by (simp add: tail_def e ser_entries_def)
  have fuel: "2 * length (serialize_value False x) \<le> m" "2 * length (ser_entries d) < m"
    using Cons.prems(7) pos by (simp_all add: n e ser_entries_def del: length_greater_0_conv)
  let ?st = "st\<lparr>de_buf := serialize_value False x @ tail\<rparr>"
  have key: "next_key st = Inr (Some k, ?st\<lparr>field_context := ctx @ [k]\<rparr>)"
    using next_key_write_bytes [OF buf Cons.prems(4,5)] by (simp add: ctx_def)
  have "de_value sha1 m (?st\<lparr>field_context := ctx @ [k]\<rparr>) =
      Inr (x, (?st\<lparr>field_context := ctx @ [k]\<rparr>)\<lparr>de_buf := tail\<rparr>)"
    using Cons.prems(1,4,5) fuel buf by (intro reads_backD) (simp_all add: e hook_idle_def)
  then have val: "next_value sha1 (de_value sha1 m) (?st\<lparr>field_context := ctx @ [k]\<rparr>) =
      Inr (x, st\<lparr>de_buf := tail\<rparr>)"
    using Cons.prems(6) next_value_idle [of "de_value sha1 m" ctx k ?st x tail sha1]
    by (auto simp: hook_idle_def ctx_def)
  have ins: "btree_insert k x acc = acc @ [(k, x)]"
    using Cons.prems(2) by (intro btree_insert_last) (auto simp: e sorted_wrt_append)
  have "de_map sha1 m (acc @ [(k, x)]) (st\<lparr>de_buf := tail\<rparr>) =
      Inr (BDict ((acc @ [(k, x)]) @ d), (st\<lparr>de_buf := tail\<rparr>)\<lparr>de_buf := rest\<rparr>)"
    using Cons.prems fuel buf by (intro Cons.IH) (simp_all add: e tail_def hook_idle_def)
  with key val n ins show ?case by (simp add: e)
qed

lemma wf_value_reads_back: "wf_value v \<Longrightarrow> reads_back sha1 v"
proof (induction v rule: wf_value.induct)
  case (1 b)
  show ?case
    unfolding reads_back_def
  proof (intro allI impI)
    fix st :: de_state and rest n
    assume a: "de_buf st = serialize_value False (BBytes b) @ rest" "length (de_buf st) < 2 ^ 64"
      "\<not> parsing_key st" "2 * length (serialize_value False (BBytes b)) \<le> n"
    then obtain m where "n = Suc m"
      using serialize_value_nonempty [of "BBytes b"] by (cases n) auto
    with a show "de_value sha1 n st = Inr (BBytes b, st\<lparr>de_buf := rest\<rparr>)"
      using de_value_BBytes by simp
  qed
next
  case (2 i)
  show ?case
    unfolding reads_back_def
  proof (intro allI impI)
    fix st :: de_state and rest n
    assume a: "de_buf st = serialize_value False (BInteger i) @ rest"
      "2 * length (serialize_value False (BInteger i)) \<le> n"
    then obtain m where "n = Suc m"
      using serialize_value_nonempty [of "BInteger i"] by (cases n) auto
    with a 2 show "de_value sha1 n st = Inr (BInteger i, st\<lparr>de_buf := rest\<rparr>)"
      using de_value_BInteger by simp
  qed
next
  case (3 l)
  then have all: "list_all (reads_back sha1) l" by (simp add: list_all_iff)
  show ?case
    unfolding reads_back_def
  proof (intro allI impI)
    fix st :: de_state and rest n
    assume a: "de_buf st = serialize_value False (BList l) @ rest" "length (de_buf st) < 2 ^ 64"
      "\<not> parsing_key st" "hook_idle st" "2 * length (serialize_value False (BList l)) \<le> n"
    then obtain m where "n = Suc m" by (cases n) auto
    with a show "de_value sha1 n st = Inr (BList l, st\<lparr>de_buf := rest\<rparr>)"
      using de_seq_reads [OF all, of "st\<lparr>de_buf := tl (de_buf st)\<rparr>" rest m "[]"]
      by (simp add: hook_idle_def)
  qed
next
  case (4 d)
  then have all: "list_all (\<lambda>(k, v). reads_back sha1 v) d" and sorted: "keys_sorted ([] @ d)"
    by (auto simp: list_all_iff)
  show ?case
    unfolding reads_back_def
  proof (intro allI impI)
    fix st :: de_state and rest n
    assume a: "de_buf st = serialize_value False (BDict d) @ rest" "length (de_buf st) < 2 ^ 64"
      "\<not> parsing_key st" "hook_idle st" "2 * length (serialize_value False (BDict d)) \<le> n"
    have ser: "serialize_value False (BDict d) = 100 # ser_entries d @ [101]"
      using sorted serialize_dict [of d] by simp
    with a(5) obtain m where "n = Suc m" by (cases n) auto
    with a show "de_value sha1 n st = Inr (BDict d, st\<lparr>de_buf := rest\<rparr>)"
      using de_map_reads [OF all sorted, of "st\<lparr>de_buf := tl (de_buf st)\<rparr>" rest m]
      by (simp add: ser hook_idle_def del: serialize_value.simps)
  qed
qed


section \<open>What every run of the deserializer keeps\<close>

text \<open>A successful step reads a non-empty prefix of the buffer and leaves the flags as they were.\<close>

definition advanced :: "de_state \<Rightarrow> de_state \<Rightarrow> bool" where
  "advanced st st' \<longleftrightarrow> (\<exists>p. p \<noteq> [] \<and> de_buf st = p @ de_buf st') \<and>
     is_torrent_info st' = is_torrent_info st \<and> parsing_key st' = parsing_key st"

lemma advanced_length: "advanced st st' \<Longrightarrow> length (de_buf st') < length (de_buf st)"
  by (auto simp: advanced_def)

lemma advanced_trans: "advanced a b \<Longrightarrow> advanced b c \<Longrightarrow> advanced a c"
  unfolding advanced_def by (metis append_assoc append_is_Nil_conv)

lemma advanced_drop:
  "0 < n \<Longrightarrow> n \<le> length (de_buf st) \<Longrightarrow> advanced st (st\<lparr>de_buf := drop n (de_buf st)\<rparr>)"
  unfolding advanced_def by (intro conjI exI [of _ "take n (de_buf st)"]) auto

lemma starts_with_iff: "starts_with bs b \<longleftrightarrow> (\<exists>r. bs = b # r)"
  by (auto simp: starts_with_def split: list.splits)

lemma parse_integer_advanced:
  assumes "parse_integer st = Inr (i, st')"
  shows "advanced st st' \<and> field_context st' = field_context st \<and> in_i64 i"
proof -
  from assms obtain e where "position 101 (de_buf st) = Some e"
    and "st' = st\<lparr>de_buf := drop (e + 1) (de_buf st)\<rparr>" and "in_i64 i"
    by (auto simp: parse_integer_def parse_i64_def Let_def split: option.splits if_splits)
  then show ?thesis
    using position_Some advanced_drop [of "e + 1" st] by fastforce
qed

lemma parse_bytes_advanced:
  assumes "parse_bytes st = Inr (b, st')"
  shows "advanced st st' \<and> field_context st' = field_context st"
  using assms
  by (auto simp: parse_bytes_def Let_def get_range_def split: option.splits if_splits
      intro!: advanced_drop)

lemma parse_bytes_checked_advanced:
  assumes "parse_bytes_checked st = Inr (b, st')"
  shows "advanced st st' \<and>
    field_context st' = (if parsing_key st then field_context st @ [b] else field_context st)"
proof -
  from assms obtain st1 where st1: "parse_bytes st = Inr (b, st1)"
    and st': "st' = (if parsing_key st1 then st1\<lparr>field_context := field_context st1 @ [b]\<rparr> else st1)"
    by (auto simp: parse_bytes_checked_def split: list.splits if_splits sum.splits)
  from parse_bytes_advanced [OF st1] show ?thesis
    by (auto simp: st' advanced_def)
qed

lemma deserialize_i64_advanced:
  "deserialize_i64 st = Inr (i, st') \<Longrightarrow>
   advanced st st' \<and> field_context st' = field_context st \<and> in_i64 i"
  by (auto simp: deserialize_i64_def parse_integer_advanced split: if_splits)

lemma next_key_advanced:
  assumes "next_key st = Inr (k, st')" "\<not> parsing_key st"
  shows "advanced st st' \<and> field_context st' =
    (case k of None \<Rightarrow> field_context st | Some x \<Rightarrow> field_context st @ [x])"
proof (cases "starts_with (de_buf st) 101")
  case True
  with assms show ?thesis
    using advanced_drop [of 1 st] by (auto simp: next_key_def starts_with_iff)
next
  case False
  with assms obtain x st1 where x: "k = Some x"
    and st1: "parse_bytes_checked (st\<lparr>parsing_key := True\<rparr>) = Inr (x, st1)"
    and st': "st' = st1\<lparr>parsing_key := False\<rparr>"
    by (auto simp: next_key_def split: sum.splits)
  from parse_bytes_checked_advanced [OF st1] assms(2) show ?thesis
    by (auto simp: st' x advanced_def)
qed

lemma next_value_advanced:
  assumes "next_value sha1 seed st = Inr (v, st')"
    and "\<And>w st1. seed st = Inr (w, st1) \<Longrightarrow> advanced st st1 \<and> field_context st1 = field_context st"
  shows "advanced st st' \<and> field_context st' = butlast (field_context st)"
proof -
  from assms(1) obtain st1 where "seed st = Inr (v, st1)"
    by (auto simp: next_value_def Let_def split: sum.splits)
  with assms(2) have "advanced st st1" "field_context st1 = field_context st" by blast+
  with assms(1) \<open>seed st = Inr (v, st1)\<close> show ?thesis
    by (auto simp: next_value_def Let_def advanced_def split: if_splits)
qed

lemma next_value_seed:
  "next_value sha1 seed st = Inr (v, st') \<Longrightarrow> \<exists>st1. seed st = Inr (v, st1)"
  by (auto simp: next_value_def Let_def split: sum.splits)

lemma de_value_advanced:
  "de_value sha1 n st = Inr (v, st') \<Longrightarrow> \<not> parsing_key st \<Longrightarrow>
     advanced st st' \<and> field_context st' = field_context st \<and> wf_value v"
  "de_seq sha1 n acc st = Inr (v, st') \<Longrightarrow> \<not> parsing_key st \<Longrightarrow> list_all wf_value acc \<Longrightarrow>
     advanced st st' \<and> field_context st' = field_context st \<and> wf_value v"
  "de_map sha1 n m st = Inr (v, st') \<Longrightarrow> \<not> parsing_key st \<Longrightarrow> wf_value (BDict m) \<Longrightarrow>
     advanced st st' \<and> field_context st' = field_context st \<and> wf_value v"
proof (induction sha1 n st and sha1 n acc st and sha1 n m st
    arbitrary: v st' and v st' and v st' rule: de_value_de_seq_de_map.induct)
  case (2 sha1 n st)
  show ?case
  proof (cases "de_buf st")
    case Nil
    with "2.prems" show ?thesis by simp
  next
    case (Cons b r)
    have adv: "advanced st (st\<lparr>de_buf := r\<rparr>)"
      using advanced_drop [of 1 st] Cons by simp
    consider "b = 100" | "b = 105" | "b = 108" | "b \<noteq> 100" "b \<noteq> 105" "b \<noteq> 108" by blast
    then show ?thesis
    proof cases
      case 1
      with "2.prems" Cons have "de_map sha1 n [] (st\<lparr>de_buf := r\<rparr>) = Inr (v, st')" by simp
      with "2.IH"(1) [OF Cons 1] "2.prems"(2) adv show ?thesis
        by (auto intro: advanced_trans)
    next
      case 2
      with "2.prems" Cons show ?thesis
        using deserialize_i64_advanced by (auto split: sum.splits)
    next
      case 3
      with "2.prems" Cons have "de_seq sha1 n [] (st\<lparr>de_buf := r\<rparr>) = Inr (v, st')" by simp
      with "2.IH"(2) [OF Cons _ _ 3] 3 "2.prems"(2) adv show ?thesis
        by (auto intro: advanced_trans)
    next
      case 4
      with "2.prems" Cons show ?thesis
        using parse_bytes_checked_advanced by (fastforce split: sum.splits)
    qed
  qed
next
  case (4 sha1 n acc st)
  show ?case
  proof (cases "starts_with (de_buf st) 101")
    case True
    with "4.prems" show ?thesis
      using advanced_drop [of 1 st] by (auto simp: starts_with_iff)
  next
    case False
    with "4.prems"(1) obtain x st1 where x: "de_value sha1 n st = Inr (x, st1)"
      and r: "de_seq sha1 n (acc @ [x]) st1 = Inr (v, st')"
      by (auto split: sum.splits)
    from "4.IH"(1) [OF False x "4.prems"(2)]
    have *: "advanced st st1" "field_context st1 = field_context st" "wf_value x" by blast+
    then have "\<not> parsing_key st1" using "4.prems"(2) by (simp add: advanced_def)
    with "4.IH"(2) [OF False x refl r] * "4.prems"(3) show ?thesis
      by (auto intro: advanced_trans)
  qed
next
  case (6 sha1 n m st)
  from "6.prems"(1) obtain k st1 where k: "next_key st = Inr (k, st1)"
    by (auto split: sum.splits)
  note key = next_key_advanced [OF k "6.prems"(2)]
  have pk: "\<not> parsing_key st1" using key "6.prems"(2) by (simp add: advanced_def)
  show ?case
  proof (cases k)
    case None
    with "6.prems" k key show ?thesis by simp
  next
    case (Some x)
    with "6.prems"(1) k obtain w st2 where w: "next_value sha1 (de_value sha1 n) st1 = Inr (w, st2)"
      and r: "de_map sha1 n (btree_insert x w m) st2 = Inr (v, st')"
      by (auto split: sum.splits)
    have IH: "\<And>u st3. de_value sha1 n st1 = Inr (u, st3) \<Longrightarrow>
        advanced st1 st3 \<and> field_context st3 = field_context st1 \<and> wf_value u"
      using "6.IH"(1) [OF k refl Some] pk by blast
    have wf: "wf_value w" using next_value_seed [OF w] IH by blast
    have adv: "advanced st1 st2 \<and> field_context st2 = butlast (field_context st1)"
      using IH by (intro next_value_advanced [OF w]) blast
    have "wf_value (BDict (btree_insert x w m))"
      using "6.prems"(3) wf
      by (auto simp: keys_sorted_btree_insert list_all_iff dest!: in_set_btree_insert)
    moreover have "\<not> parsing_key st2" using adv pk by (simp add: advanced_def)
    ultimately have "advanced st2 st' \<and> field_context st' = field_context st2 \<and> wf_value v"
      using "6.IH"(2) [OF k refl Some w refl r] by blast
    with key adv Some show ?thesis by (auto intro: advanced_trans)
  qed
qed simp_all


text \<open>No input makes the dynamic reader stop the process, and the fuel is enough.\<close>

definition clean_failure :: "de_fail + 'a \<Rightarrow> bool" where
  "clean_failure r \<longleftrightarrow> (case r of Inl e \<Rightarrow> (\<exists>k. e = DeError k) | Inr _ \<Rightarrow> True)"

lemma clean_failure_simps [simp]:
  "clean_failure (Inl (DeError k))" "\<not> clean_failure (Inl DePanic)" "\<not> clean_failure (Inl DeFuel)"
  "clean_failure (Inr x)"
  by (simp_all add: clean_failure_def)

lemma parse_bytes_clean: "clean_failure (parse_bytes st)"
  by (simp add: parse_bytes_def Let_def split: option.splits)

lemma parse_bytes_checked_clean: "clean_failure (parse_bytes_checked st)"
  using parse_bytes_clean [of st]
  by (auto simp: parse_bytes_checked_def clean_failure_def split: list.splits sum.splits)

lemma deserialize_i64_clean: "clean_failure (deserialize_i64 st)"
  using position_Some [of 101 "de_buf st" 0]
  by (auto simp: deserialize_i64_def parse_integer_def starts_with_iff split: option.splits)

lemma next_key_clean: "clean_failure (next_key st)"
  using parse_bytes_checked_clean [of "st\<lparr>parsing_key := True\<rparr>"]
  by (auto simp: next_key_def clean_failure_def split: sum.splits)

lemma next_value_clean: "clean_failure (seed st) \<Longrightarrow> clean_failure (next_value sha1 seed st)"
  by (auto simp: next_value_def clean_failure_def Let_def split: sum.splits)

lemma de_value_clean:
  "\<not> parsing_key st \<Longrightarrow> 2 * length (de_buf st) < n \<Longrightarrow> clean_failure (de_value sha1 n st)"
  "\<not> parsing_key st \<Longrightarrow> 2 * length (de_buf st) + 1 < n \<Longrightarrow> clean_failure (de_seq sha1 n acc st)"
  "\<not> parsing_key st \<Longrightarrow> 2 * length (de_buf st) + 1 < n \<Longrightarrow> clean_failure (de_map sha1 n m st)"
proof (induction sha1 n st and sha1 n acc st and sha1 n m st rule: de_value_de_seq_de_map.induct)
  case (2 sha1 n st)
  show ?case
  proof (cases "de_buf st")
    case Nil
    then show ?thesis by simp
  next
    case (Cons b r)
    have "clean_failure (de_map sha1 n [] (st\<lparr>de_buf := r\<rparr>))" if "b = 100"
      using "2.IH"(1) [OF Cons that] "2.prems" Cons by simp
    moreover have "clean_failure (de_seq sha1 n [] (st\<lparr>de_buf := r\<rparr>))" if "b = 108"
      using "2.IH"(2) [OF Cons _ _ that] that "2.prems" Cons by simp
    ultimately show ?thesis
      using Cons deserialize_i64_clean [of st] parse_bytes_checked_clean [of st]
      by (auto simp: clean_failure_def split: sum.splits)
  qed
next
  case (4 sha1 n acc st)
  show ?case
  proof (cases "starts_with (de_buf st) 101")
    case False
    have v: "clean_failure (de_value sha1 n st)"
      using "4.IH"(1) [OF False] "4.prems" by simp
    have "clean_failure (de_seq sha1 n (acc @ [x]) st1)" if x: "de_value sha1 n st = Inr (x, st1)" for x st1
    proof -
      have "advanced st st1" using de_value_advanced(1) [OF x "4.prems"(1)] by blast
      then have "\<not> parsing_key st1" "length (de_buf st1) < length (de_buf st)"
        using "4.prems"(1) advanced_length by (auto simp: advanced_def)
      then show ?thesis using "4.IH"(2) [OF False x refl] "4.prems"(2) by simp
    qed
    with v False show ?thesis by (auto simp: clean_failure_def split: sum.splits)
  qed simp
next
  case (6 sha1 n m st)
  have "clean_failure (case next_value sha1 (de_value sha1 n) st1 of Inl e \<Rightarrow> Inl e
      | Inr (x, st'') \<Rightarrow> de_map sha1 n (btree_insert k x m) st'')"
    if k: "next_key st = Inr (Some k, st1)" for k st1
  proof -
    have adv: "advanced st st1" using next_key_advanced [OF k "6.prems"(1)] by blast
    then have st1: "\<not> parsing_key st1" "length (de_buf st1) < length (de_buf st)"
      using "6.prems"(1) advanced_length by (auto simp: advanced_def)
    then have v: "clean_failure (next_value sha1 (de_value sha1 n) st1)"
      using "6.IH"(1) [OF k refl refl] "6.prems"(2) by (intro next_value_clean) simp
    have "clean_failure (de_map sha1 n (btree_insert k w m) st2)"
      if w: "next_value sha1 (de_value sha1 n) st1 = Inr (w, st2)" for w st2
    proof -
      have "advanced st1 st2 \<and> field_context st2 = butlast (field_context st1)"
        using de_value_advanced(1) st1(1) by (intro next_value_advanced [OF w]) blast
      then have "\<not> parsing_key st2" "length (de_buf st2) < length (de_buf st1)"
        using st1(1) advanced_length by (auto simp: advanced_def)
      then show ?thesis using "6.IH"(2) [OF k refl refl w refl] st1(2) "6.prems"(2) by simp
    qed
    with v show ?thesis by (auto simp: clean_failure_def split: sum.splits)
  qed
  then show ?case
    using next_key_clean [of st] by (auto simp: clean_failure_def split: sum.splits option.splits)
qed simp_all


declare de_value.simps [simp del] de_seq.simps [simp del] de_map.simps [simp del]

section \<open>Ignored values and derived structs\<close>

text \<open>
  A value nobody asked for is read with serde's \<open>IgnoredAny\<close>: \<open>deserialize_any\<close> once more, but
  here the keys of a dictionary are \<open>IgnoredAny\<close> too, so any value may stand for a key. While a key
  is read the deserializer has \<open>parsing_key\<close> set, and every byte string read then is pushed on the
  key path, which \<open>next_value\<close> shortens by one element whatever the key pushed.
\<close>

fun de_ignored :: "(bytes \<Rightarrow> bytes) \<Rightarrow> nat \<Rightarrow> unit de"
  and de_ignored_seq :: "(bytes \<Rightarrow> bytes) \<Rightarrow> nat \<Rightarrow> unit de"
  and de_ignored_map :: "(bytes \<Rightarrow> bytes) \<Rightarrow> nat \<Rightarrow> unit de" where
  "de_ignored sha1 0 st = Inl DeFuel"
| "de_ignored sha1 (Suc n) st =
     (case de_buf st of
        [] \<Rightarrow> Inl (DeError EmptyInput)
      | b # r \<Rightarrow>
          if b = 100 then de_ignored_map sha1 n (st\<lparr>de_buf := r\<rparr>)
          else if b = 105 then
            (case deserialize_i64 st of Inl e \<Rightarrow> Inl e | Inr (i, st') \<Rightarrow> Inr ((), st'))
          else if b = 108 then de_ignored_seq sha1 n (st\<lparr>de_buf := r\<rparr>)
          else
            (case parse_bytes_checked st of
               Inl e \<Rightarrow> Inl e
             | Inr (x, st') \<Rightarrow> Inr ((), st')))"
| "de_ignored_seq sha1 0 st = Inl DeFuel"
| "de_ignored_seq sha1 (Suc n) st =
     (if starts_with (de_buf st) 101 then Inr ((), st\<lparr>de_buf := drop 1 (de_buf st)\<rparr>)
      else
        (case de_ignored sha1 n st of
           Inl e \<Rightarrow> Inl e
         | Inr (x, st') \<Rightarrow> de_ignored_seq sha1 n st'))"
| "de_ignored_map sha1 0 st = Inl DeFuel"
| "de_ignored_map sha1 (Suc n) st =
     (if starts_with (de_buf st) 101 then Inr ((), st\<lparr>de_buf := drop 1 (de_buf st)\<rparr>)
      else
        (case de_ignored sha1 n (st\<lparr>parsing_key := True\<rparr>) of
           Inl e \<Rightarrow> Inl e
         | Inr (_, st') \<Rightarrow>
             (case next_value sha1 (de_ignored sha1 n) (st'\<lparr>parsing_key := False\<rparr>) of
                Inl e \<Rightarrow> Inl e
              | Inr (x, st'') \<Rightarrow> de_ignored_map sha1 n st'')))"

text \<open>
  The visitor serde derives for a struct, over this crate's \<open>deserialize_struct\<close>: the fields in
  the order they come, each at most once, unknown keys ignored. Missing fields are the business of
  the struct's own conversion. \<open>flds\<close> gives each field its reader.
\<close>

fun struct_loop :: "(bytes \<Rightarrow> bytes) \<Rightarrow> (bytes \<rightharpoonup> 'v de) \<Rightarrow> nat \<Rightarrow> (bytes \<times> 'v) list \<Rightarrow>
    (bytes \<times> 'v) list de" where
  "struct_loop sha1 flds 0 acc st = Inl DeFuel"
| "struct_loop sha1 flds (Suc n) acc st =
     (case next_key st of
        Inl e \<Rightarrow> Inl e
      | Inr (None, st') \<Rightarrow> Inr (acc, st')
      | Inr (Some k, st') \<Rightarrow>
          (case flds k of
             Some reader \<Rightarrow>
               if k \<in> fst ` set acc then Inl (DeError (DuplicateField k))
               else (case next_value sha1 reader st' of
                       Inl e \<Rightarrow> Inl e
                     | Inr (v, st'') \<Rightarrow> struct_loop sha1 flds n (acc @ [(k, v)]) st'')
           | None \<Rightarrow>
               (case next_value sha1 (de_ignored sha1 (fuel_for (de_buf st'))) st' of
                  Inl e \<Rightarrow> Inl e
                | Inr (_, st'') \<Rightarrow> struct_loop sha1 flds n acc st'')))"

definition deserialize_struct ::
  "(bytes \<Rightarrow> bytes) \<Rightarrow> (bytes \<rightharpoonup> 'v de) \<Rightarrow> (bytes \<times> 'v) list de" where
  "deserialize_struct sha1 flds st =
     (if \<not> starts_with (de_buf st) 100 then Inl (DeError ExpectedDict)
      else struct_loop sha1 flds (fuel_for (de_buf st)) [] (st\<lparr>de_buf := drop 1 (de_buf st)\<rparr>))"

text \<open>
  \<open>Vec<T>\<close> through \<open>deserialize_seq\<close>. Its error message reads the first byte of the buffer, which
  panics when the input ends where the list should begin.
\<close>

fun vec_loop :: "nat \<Rightarrow> 'v de \<Rightarrow> 'v list \<Rightarrow> 'v list de" where
  "vec_loop 0 elem acc st = Inl DeFuel"
| "vec_loop (Suc n) elem acc st =
     (if starts_with (de_buf st) 101 then Inr (acc, st\<lparr>de_buf := drop 1 (de_buf st)\<rparr>)
      else
        (case elem st of
           Inl e \<Rightarrow> Inl e
         | Inr (x, st') \<Rightarrow> vec_loop n elem (acc @ [x]) st'))"

definition deserialize_vec :: "'v de \<Rightarrow> 'v list de" where
  "deserialize_vec elem st =
     (if \<not> starts_with (de_buf st) 108
      then (if de_buf st = [] then Inl DePanic else Inl (DeError ExpectedList))
      else vec_loop (fuel_for (de_buf st)) elem [] (st\<lparr>de_buf := drop 1 (de_buf st)\<rparr>))"

text \<open>\<open>HashMap<K, V>\<close> with byte-string keys, and the primitive readers a struct uses.\<close>

fun hashmap_loop :: "(bytes \<Rightarrow> bytes) \<Rightarrow> nat \<Rightarrow> 'v de \<Rightarrow> (bytes \<times> 'v) list \<Rightarrow>
    (bytes \<times> 'v) list de" where
  "hashmap_loop sha1 0 elem m st = Inl DeFuel"
| "hashmap_loop sha1 (Suc n) elem m st =
     (case next_key st of
        Inl e \<Rightarrow> Inl e
      | Inr (None, st') \<Rightarrow> Inr (m, st')
      | Inr (Some k, st') \<Rightarrow>
          (case next_value sha1 elem st' of
             Inl e \<Rightarrow> Inl e
           | Inr (x, st'') \<Rightarrow> hashmap_loop sha1 n elem (btree_insert k x m) st''))"

definition deserialize_hashmap :: "(bytes \<Rightarrow> bytes) \<Rightarrow> 'v de \<Rightarrow> (bytes \<times> 'v) list de" where
  "deserialize_hashmap sha1 elem st =
     (if \<not> starts_with (de_buf st) 100 then Inl (DeError ExpectedDict)
      else hashmap_loop sha1 (fuel_for (de_buf st)) elem [] (st\<lparr>de_buf := drop 1 (de_buf st)\<rparr>))"

text \<open>An unsigned integer of \<open>w\<close> bits, a signed one, and bytes turned into a value or refused.\<close>

definition deserialize_uint :: "nat \<Rightarrow> int de" where
  "deserialize_uint w st =
     (case deserialize_i64 st of
        Inl e \<Rightarrow> Inl e
      | Inr (i, st') \<Rightarrow> if 0 \<le> i \<and> i < 2 ^ w then Inr (i, st') else Inl (DeError InvalidValue))"

definition deserialize_sint :: "nat \<Rightarrow> int de" where
  "deserialize_sint w st =
     (case deserialize_i64 st of
        Inl e \<Rightarrow> Inl e
      | Inr (i, st') \<Rightarrow>
          if - (2 ^ (w - 1)) \<le> i \<and> i < 2 ^ (w - 1) then Inr (i, st')
          else Inl (DeError InvalidValue))"

definition deserialize_bytes_as :: "(bytes \<Rightarrow> 'v option) \<Rightarrow> 'v de" where
  "deserialize_bytes_as f st =
     (case parse_bytes_checked st of
        Inl e \<Rightarrow> Inl e
      | Inr (b, st') \<Rightarrow>
          (case f b of None \<Rightarrow> Inl (DeError InvalidValue) | Some v \<Rightarrow> Inr (v, st')))"


section \<open>Typed readers fail cleanly\<close>

text \<open>
  A good reader never stops the process, never runs out of fuel, and consumes something when it
  succeeds. All readers of this theory but \<open>deserialize_vec\<close> are good.
\<close>

definition good_reader :: "'v de \<Rightarrow> bool" where
  "good_reader rd \<longleftrightarrow> (\<forall>st. clean_failure (rd st) \<and>
     (\<forall>v st'. rd st = Inr (v, st') \<longrightarrow> length (de_buf st') < length (de_buf st)))"

lemma good_readerI:
  "(\<And>st. clean_failure (rd st)) \<Longrightarrow>
   (\<And>st v st'. rd st = Inr (v, st') \<Longrightarrow> length (de_buf st') < length (de_buf st)) \<Longrightarrow> good_reader rd"
  by (simp add: good_reader_def)

lemma good_readerD:
  "good_reader rd \<Longrightarrow> clean_failure (rd st)"
  "good_reader rd \<Longrightarrow> rd st = Inr (v, st') \<Longrightarrow> length (de_buf st') < length (de_buf st)"
  by (auto simp: good_reader_def)

lemma clean_failure_Inl: "clean_failure (Inl e) \<longleftrightarrow> (\<exists>k. e = DeError k)"
  by (simp add: clean_failure_def)

lemma clean_failure_iff: "clean_failure r \<longleftrightarrow> (\<forall>e. r = Inl e \<longrightarrow> (\<exists>k. e = DeError k))"
  by (cases r) (auto simp: clean_failure_def)

lemma good_deserialize_i64: "good_reader deserialize_i64"
  using deserialize_i64_clean deserialize_i64_advanced advanced_length
  by (blast intro: good_readerI)

lemma good_parse_bytes_checked: "good_reader parse_bytes_checked"
  using parse_bytes_checked_clean parse_bytes_checked_advanced advanced_length
  by (blast intro: good_readerI)

lemma good_deserialize_uint: "good_reader (deserialize_uint w)"
  using good_readerD [OF good_deserialize_i64]
  by (intro good_readerI)
    (auto simp: deserialize_uint_def clean_failure_iff split: sum.splits if_splits)

lemma good_deserialize_sint: "good_reader (deserialize_sint w)"
  using good_readerD [OF good_deserialize_i64]
  by (intro good_readerI)
    (auto simp: deserialize_sint_def clean_failure_iff split: sum.splits if_splits)

lemma good_deserialize_bytes_as: "good_reader (deserialize_bytes_as f)"
  using good_readerD [OF good_parse_bytes_checked]
  by (intro good_readerI)
    (auto simp: deserialize_bytes_as_def clean_failure_iff split: sum.splits option.splits)

lemma next_key_shrinks: "next_key st = Inr (k, st') \<Longrightarrow> length (de_buf st') < length (de_buf st)"
  using good_readerD(2) [OF good_parse_bytes_checked, of "st\<lparr>parsing_key := True\<rparr>"]
  by (auto simp: next_key_def starts_with_iff split: if_splits sum.splits)

lemma good_next_value: "good_reader seed \<Longrightarrow> good_reader (next_value sha1 seed)"
  by (rule good_readerI)
    (auto simp: next_value_clean good_readerD,
     auto simp: next_value_def Let_def dest: good_readerD split: sum.splits if_splits)

lemma de_ignored_good:
  "2 * length (de_buf st) < n \<Longrightarrow> clean_failure (de_ignored sha1 n st) \<and>
     (\<forall>v st'. de_ignored sha1 n st = Inr (v, st') \<longrightarrow> length (de_buf st') < length (de_buf st))"
  "2 * length (de_buf st) + 1 < n \<Longrightarrow> clean_failure (de_ignored_seq sha1 n st) \<and>
     (\<forall>v st'. de_ignored_seq sha1 n st = Inr (v, st') \<longrightarrow> length (de_buf st') < length (de_buf st))"
  "2 * length (de_buf st) + 1 < n \<Longrightarrow> clean_failure (de_ignored_map sha1 n st) \<and>
     (\<forall>v st'. de_ignored_map sha1 n st = Inr (v, st') \<longrightarrow> length (de_buf st') < length (de_buf st))"
proof (induction sha1 n st and sha1 n st and sha1 n st
    rule: de_ignored_de_ignored_seq_de_ignored_map.induct)
  case (2 sha1 n st)
  show ?case
  proof (cases "de_buf st")
    case Nil
    then show ?thesis by simp
  next
    case (Cons b r)
    have d: "clean_failure (de_ignored_map sha1 n (st\<lparr>de_buf := r\<rparr>)) \<and>
        (\<forall>v st'. de_ignored_map sha1 n (st\<lparr>de_buf := r\<rparr>) = Inr (v, st') \<longrightarrow> length (de_buf st') < length r)"
      if "b = 100"
      using "2.IH"(1) [OF Cons that] "2.prems" Cons by simp
    have l: "clean_failure (de_ignored_seq sha1 n (st\<lparr>de_buf := r\<rparr>)) \<and>
        (\<forall>v st'. de_ignored_seq sha1 n (st\<lparr>de_buf := r\<rparr>) = Inr (v, st') \<longrightarrow> length (de_buf st') < length r)"
      if "b = 108"
      using "2.IH"(2) [OF Cons _ _ that] that "2.prems" Cons by simp
    consider "b = 100" | "b = 105" | "b = 108" | "b \<noteq> 100" "b \<noteq> 105" "b \<noteq> 108" by blast
    then show ?thesis
    proof cases
      case 2
      then show ?thesis
        using Cons good_readerD [OF good_deserialize_i64, of st]
        by (auto simp: clean_failure_def split: sum.splits)
    next
      case 4
      then show ?thesis
        using Cons good_readerD [OF good_parse_bytes_checked, of st]
        by (auto simp: clean_failure_def split: sum.splits)
    qed (use Cons d l in \<open>auto simp: less_SucI\<close>)
  qed
next
  case (4 sha1 n st)
  show ?case
  proof (cases "starts_with (de_buf st) 101")
    case False
    have v: "clean_failure (de_ignored sha1 n st)"
      "\<And>v st1. de_ignored sha1 n st = Inr (v, st1) \<Longrightarrow> length (de_buf st1) < length (de_buf st)"
      using "4.IH"(1) [OF False] "4.prems" by simp_all
    have "clean_failure (de_ignored_seq sha1 n st1) \<and>
        (\<forall>v st'. de_ignored_seq sha1 n st1 = Inr (v, st') \<longrightarrow> length (de_buf st') < length (de_buf st1))"
      if x: "de_ignored sha1 n st = Inr (x, st1)" for x st1
      using "4.IH"(2) [OF False x refl] v(2) [OF x] "4.prems" by simp
    with v False show ?thesis
      by (fastforce simp: clean_failure_def split: sum.splits intro: less_trans)
  qed (auto simp: starts_with_iff)
next
  case (6 sha1 n st)
  show ?case
  proof (cases "starts_with (de_buf st) 101")
    case False
    define st0 where "st0 = st\<lparr>parsing_key := True\<rparr>"
    have k: "clean_failure (de_ignored sha1 n st0)"
      "\<And>v st1. de_ignored sha1 n st0 = Inr (v, st1) \<Longrightarrow> length (de_buf st1) < length (de_buf st)"
      using "6.IH"(1) [OF False] "6.prems" by (simp_all add: st0_def)
    have step: "clean_failure (de_ignored_map sha1 n st3) \<and> length (de_buf st3) < length (de_buf st) \<and>
        (\<forall>v st'. de_ignored_map sha1 n st3 = Inr (v, st') \<longrightarrow> length (de_buf st') < length (de_buf st3))"
      if x: "de_ignored sha1 n st0 = Inr (x, st1)"
        and w: "next_value sha1 (de_ignored sha1 n) (st1\<lparr>parsing_key := False\<rparr>) = Inr (y, st3)"
      for x y st1 st3
    proof -
      from next_value_seed [OF w] obtain st2
        where s2: "de_ignored sha1 n (st1\<lparr>parsing_key := False\<rparr>) = Inr (y, st2)" by blast
      then have "de_buf st3 = de_buf st2"
        using w by (auto simp: next_value_def Let_def split: if_splits)
      moreover have "length (de_buf st2) < length (de_buf st1)"
        using "6.IH"(2) [OF False x [unfolded st0_def] refl, of "st1\<lparr>parsing_key := False\<rparr>"]
          s2 k(2) [OF x] "6.prems" by simp
      ultimately show ?thesis
        using "6.IH"(3) [OF False x [unfolded st0_def] refl w refl] k(2) [OF x] "6.prems" by simp
    qed
    have val: "clean_failure (next_value sha1 (de_ignored sha1 n) (st1\<lparr>parsing_key := False\<rparr>))"
      if x: "de_ignored sha1 n st0 = Inr (x, st1)" for x st1
      using "6.IH"(2) [OF False x [unfolded st0_def] refl, of "st1\<lparr>parsing_key := False\<rparr>"]
        k(2) [OF x] "6.prems"
      by (intro next_value_clean) simp
    show ?thesis
      using k val step False unfolding st0_def
      by (fastforce simp: clean_failure_def split: sum.splits intro: less_trans)
  qed (auto simp: starts_with_iff)
qed simp_all

declare de_ignored.simps [simp del] de_ignored_seq.simps [simp del] de_ignored_map.simps [simp del]

lemma good_de_ignored: "good_reader (\<lambda>st. de_ignored sha1 (fuel_for (de_buf st)) st)"
proof -
  have "2 * length (de_buf st) < fuel_for (de_buf st)" for st :: de_state
    by (simp add: fuel_for_def)
  from de_ignored_good(1) [OF this] show ?thesis by (intro good_readerI) blast+
qed

lemma next_value_fuel:
  "next_value sha1 (de_ignored sha1 (fuel_for (de_buf st))) st =
   next_value sha1 (\<lambda>st. de_ignored sha1 (fuel_for (de_buf st)) st) st"
  by (simp add: next_value_def)

text \<open>A loop over the entries of a dictionary: every round takes a key off the buffer.\<close>

lemma struct_loop_good:
  assumes "\<And>k rd. flds k = Some rd \<Longrightarrow> good_reader rd"
  shows "length (de_buf st) < n \<Longrightarrow> clean_failure (struct_loop sha1 flds n acc st) \<and>
    (\<forall>v st'. struct_loop sha1 flds n acc st = Inr (v, st') \<longrightarrow> length (de_buf st') < length (de_buf st))"
proof (induction n arbitrary: acc st)
  case (Suc n)
  have rec: "clean_failure (struct_loop sha1 flds n acc' st2) \<and>
      (\<forall>v st'. struct_loop sha1 flds n acc' st2 = Inr (v, st') \<longrightarrow> length (de_buf st') < length (de_buf st))"
    if "length (de_buf st2) < length (de_buf st)" for acc' st2
    using Suc.IH [of st2 acc'] Suc.prems that by (auto intro: less_trans)
  have good: "good_reader (next_value sha1 rd)" if "flds k = Some rd" for k rd
    using assms [OF that] by (rule good_next_value)
  have ign: "good_reader (next_value sha1 (\<lambda>st. de_ignored sha1 (fuel_for (de_buf st)) st))"
    by (rule good_next_value) (rule good_de_ignored)
  show ?case
  proof (cases "next_key st")
    case (Inl e)
    then show ?thesis using next_key_clean [of st] by (simp add: clean_failure_iff)
  next
    case (Inr r)
    obtain k st1 where r: "r = (k, st1)" by (cases r)
    have st1: "length (de_buf st1) < length (de_buf st)"
      using next_key_shrinks Inr r by blast
    show ?thesis
    proof (cases k)
      case None
      with Inr r st1 show ?thesis by simp
    next
      case (Some x)
      show ?thesis
      proof (cases "flds x")
        case None
        show ?thesis
        proof (cases "next_value sha1 (de_ignored sha1 (fuel_for (de_buf st1))) st1")
          case (Inl e)
          with Inr r Some None show ?thesis
            using good_readerD(1) [OF ign, of st1] by (simp add: next_value_fuel clean_failure_Inl)
        next
          case (Inr q)
          obtain y st2 where q: "q = (y, st2)" by (cases q)
          have "length (de_buf st2) < length (de_buf st1)"
            using good_readerD(2) [OF ign] Inr q by (simp add: next_value_fuel)
          with \<open>next_key st = Inr r\<close> r Some None Inr q rec [of st2 acc] st1 show ?thesis by simp
        qed
      next
        case (Some rd)
        show ?thesis
        proof (cases "next_value sha1 rd st1")
          case (Inl e)
          with \<open>next_key st = Inr r\<close> r \<open>k = Some x\<close> Some show ?thesis
            using good_readerD(1) [OF good [OF Some], of st1] by (simp add: clean_failure_Inl)
        next
          case (Inr q)
          obtain y st2 where q: "q = (y, st2)" by (cases q)
          have "length (de_buf st2) < length (de_buf st1)"
            using good_readerD(2) [OF good [OF Some]] Inr q by simp
          with \<open>next_key st = Inr r\<close> r \<open>k = Some x\<close> Some Inr q rec [of st2 "acc @ [(x, y)]"] st1
          show ?thesis by simp
        qed
      qed
    qed
  qed
qed simp

lemma good_deserialize_struct:
  assumes "\<And>k rd. flds k = Some rd \<Longrightarrow> good_reader rd"
  shows "good_reader (deserialize_struct sha1 flds)"
proof (rule good_readerI)
  fix st
  note loop = struct_loop_good [of flds "st\<lparr>de_buf := drop 1 (de_buf st)\<rparr>"
      "fuel_for (de_buf st)" sha1 "[]", OF assms]
  show "clean_failure (deserialize_struct sha1 flds st)"
    using loop by (simp add: deserialize_struct_def fuel_for_def)
  show "length (de_buf st') < length (de_buf st)" if "deserialize_struct sha1 flds st = Inr (v, st')" for v st'
    using loop that
    by (auto simp: deserialize_struct_def fuel_for_def starts_with_iff split: if_splits
        intro: less_trans)
qed

lemma hashmap_loop_good:
  assumes "good_reader elem"
  shows "length (de_buf st) < n \<Longrightarrow> clean_failure (hashmap_loop sha1 n elem m st) \<and>
    (\<forall>v st'. hashmap_loop sha1 n elem m st = Inr (v, st') \<longrightarrow> length (de_buf st') < length (de_buf st))"
proof (induction n arbitrary: m st)
  case (Suc n)
  have rec: "clean_failure (hashmap_loop sha1 n elem m' st2) \<and>
      (\<forall>v st'. hashmap_loop sha1 n elem m' st2 = Inr (v, st') \<longrightarrow> length (de_buf st') < length (de_buf st))"
    if "length (de_buf st2) < length (de_buf st)" for m' st2
    using Suc.IH [of st2 m'] Suc.prems that by (auto intro: less_trans)
  have good: "good_reader (next_value sha1 elem)" using assms by (rule good_next_value)
  show ?case
  proof (cases "next_key st")
    case (Inl e)
    then show ?thesis using next_key_clean [of st] by (simp add: clean_failure_iff)
  next
    case (Inr r)
    obtain k st1 where r: "r = (k, st1)" by (cases r)
    have st1: "length (de_buf st1) < length (de_buf st)"
      using next_key_shrinks Inr r by blast
    show ?thesis
    proof (cases k)
      case (Some x)
      show ?thesis
      proof (cases "next_value sha1 elem st1")
        case (Inl e)
        with \<open>next_key st = Inr r\<close> r Some show ?thesis
          using good_readerD(1) [OF good, of st1] by (simp add: clean_failure_Inl)
      next
        case (Inr q)
        obtain y st2 where q: "q = (y, st2)" by (cases q)
        have "length (de_buf st2) < length (de_buf st1)"
          using good_readerD(2) [OF good] Inr q by simp
        with \<open>next_key st = Inr r\<close> r Some Inr q rec [of st2 "btree_insert x y m"] st1
        show ?thesis by simp
      qed
    qed (use Inr r st1 in simp)
  qed
qed simp

lemma good_deserialize_hashmap:
  assumes "good_reader elem"
  shows "good_reader (deserialize_hashmap sha1 elem)"
proof (rule good_readerI)
  fix st
  note loop = hashmap_loop_good [OF assms, of "st\<lparr>de_buf := drop 1 (de_buf st)\<rparr>"
      "fuel_for (de_buf st)" sha1 "[]"]
  show "clean_failure (deserialize_hashmap sha1 elem st)"
    using loop by (simp add: deserialize_hashmap_def fuel_for_def)
  show "length (de_buf st') < length (de_buf st)" if "deserialize_hashmap sha1 elem st = Inr (v, st')" for v st'
    using loop that
    by (auto simp: deserialize_hashmap_def fuel_for_def starts_with_iff split: if_splits
        intro: less_trans)
qed

lemma from_bytes_clean: "good_reader rd \<Longrightarrow> clean_failure (from_bytes rd buf)"
  using good_readerD(1) [of rd "new_from_buf buf"]
  by (auto simp: from_bytes_def clean_failure_iff split: sum.splits)

section \<open>Reading back a struct\<close>

definition reads :: "'v de \<Rightarrow> bytes \<Rightarrow> 'v \<Rightarrow> bool" where
  "reads rd b v \<longleftrightarrow> (\<forall>st rest. de_buf st = b @ rest \<longrightarrow> length (de_buf st) < 2 ^ 64 \<longrightarrow>
     \<not> parsing_key st \<longrightarrow> hook_idle st \<longrightarrow> rd st = Inr (v, st\<lparr>de_buf := rest\<rparr>))"

lemma readsD:
  "reads rd b v \<Longrightarrow> de_buf st = b @ rest \<Longrightarrow> length (de_buf st) < 2 ^ 64 \<Longrightarrow> \<not> parsing_key st \<Longrightarrow>
   hook_idle st \<Longrightarrow> rd st = Inr (v, st\<lparr>de_buf := rest\<rparr>)"
  by (simp add: reads_def)

lemma readsI:
  "(\<And>st rest. de_buf st = b @ rest \<Longrightarrow> length (de_buf st) < 2 ^ 64 \<Longrightarrow> \<not> parsing_key st \<Longrightarrow>
     hook_idle st \<Longrightarrow> rd st = Inr (v, st\<lparr>de_buf := rest\<rparr>)) \<Longrightarrow> reads rd b v"
  by (simp add: reads_def)

lemma reads_deserialize_uint:
  "w \<le> 63 \<Longrightarrow> 0 \<le> i \<Longrightarrow> i < 2 ^ w \<Longrightarrow> reads (deserialize_uint w) (write_number i) i"
proof (rule readsI)
  fix st :: de_state and rest
  assume w: "w \<le> 63" "0 \<le> i" "i < 2 ^ w" and buf: "de_buf st = write_number i @ rest"
  have "(2::int) ^ w \<le> 2 ^ 63" using w(1) by (intro power_increasing) simp_all
  with w have "in_i64 i" by (simp add: in_i64_def)
  with w deserialize_i64_write_number [OF buf] show "deserialize_uint w st = Inr (i, st\<lparr>de_buf := rest\<rparr>)"
    by (simp add: deserialize_uint_def)
qed

lemma reads_deserialize_sint32:
  "- (2 ^ 31) \<le> i \<Longrightarrow> i < 2 ^ 31 \<Longrightarrow> reads (deserialize_sint 32) (write_number i) i"
  by (rule readsI) (simp add: deserialize_sint_def deserialize_i64_write_number in_i64_def)

lemma reads_deserialize_bytes_as:
  "f b = Some v \<Longrightarrow> reads (deserialize_bytes_as f) (write_bytes False b) v"
  by (rule readsI) (simp add: deserialize_bytes_as_def parse_bytes_checked_write_bytes)

lemma reads_de_value:
  "wf_value v \<Longrightarrow> reads (\<lambda>st. de_value sha1 (fuel_for (de_buf st)) st) (serialize_value False v) v"
  by (rule readsI, rule reads_backD [OF wf_value_reads_back])
    (simp_all add: hook_idle_def fuel_for_def)

text \<open>A field of a struct: its name, its serialized form and its value.\<close>

type_synonym 'v field_form = "bytes \<times> bytes \<times> 'v"

definition field_entries :: "'v field_form list \<Rightarrow> (bytes \<times> bytes) list" where
  "field_entries fs = map (\<lambda>(k, b, v). (k, b)) fs"

definition field_values :: "'v field_form list \<Rightarrow> (bytes \<times> 'v) list" where
  "field_values fs = map (\<lambda>(k, b, v). (k, v)) fs"

definition fields_readable :: "(bytes \<rightharpoonup> 'v de) \<Rightarrow> 'v field_form list \<Rightarrow> bool" where
  "fields_readable flds fs \<longleftrightarrow> (\<forall>(k, b, v) \<in> set fs. \<exists>rd. flds k = Some rd \<and> reads rd b v)"

lemma field_keys [simp]:
  "map fst (field_entries fs) = map fst fs" "map fst (field_values fs) = map fst fs"
  by (simp_all add: field_entries_def field_values_def case_prod_unfold comp_def)

text \<open>One entry of a dictionary: its key, then its value. Above all keys \<open>info\<close> sets the digest.\<close>

lemma reads_entry:
  assumes "reads rd b v" "de_buf st = write_bytes False k @ b @ tail" "length (de_buf st) < 2 ^ 64" "\<not> parsing_key st"
  obtains st1 where "next_key st = Inr (Some k, st1)"
    "next_value sha1 rd st1 = Inr (v, st\<lparr>de_buf := tail, torrent_info_digest :=
       (if is_torrent_info st \<and> field_context st = [] \<and> k = info_key then Some (sha1 b) else torrent_info_digest st)\<rparr>)"
proof -
  let ?st = "st\<lparr>de_buf := b @ tail, field_context := field_context st @ [k]\<rparr>"
  have "next_key st = Inr (Some k, ?st)" using next_key_write_bytes [OF assms(2-4)] .
  moreover have "rd ?st = Inr (v, ?st\<lparr>de_buf := tail\<rparr>)"
    using assms by (intro readsD [OF assms(1)]) (simp_all add: hook_idle_def)
  then have "next_value sha1 rd ?st = Inr (v, st\<lparr>de_buf := tail, torrent_info_digest :=
       (if is_torrent_info st \<and> field_context st = [] \<and> k = info_key then Some (sha1 b) else torrent_info_digest st)\<rparr>)"
    by (simp add: next_value_def Let_def)
  ultimately show thesis by (rule that)
qed

lemma reads_entry_below:
  assumes "reads rd b v" "de_buf st = write_bytes False k @ b @ tail" "length (de_buf st) < 2 ^ 64" "\<not> parsing_key st"
    and "hook_idle st"
  obtains st1 where "next_key st = Inr (Some k, st1)" "next_value sha1 rd st1 = Inr (v, st\<lparr>de_buf := tail\<rparr>)"
proof -
  define d where "d = (if is_torrent_info st \<and> field_context st = [] \<and> k = info_key then Some (sha1 b)
    else torrent_info_digest st)"
  have "d = torrent_info_digest st" using assms(5) by (auto simp: d_def hook_idle_def)
  then have d: "st\<lparr>de_buf := tail, torrent_info_digest := d\<rparr> = st\<lparr>de_buf := tail\<rparr>" by simp
  obtain st1 where "next_key st = Inr (Some k, st1)"
    "next_value sha1 rd st1 = Inr (v, st\<lparr>de_buf := tail, torrent_info_digest := d\<rparr>)"
    unfolding d_def by (rule reads_entry [OF assms(1-4), of sha1])
  then show thesis unfolding d by (rule that)
qed

lemma struct_loop_reads:
  assumes "fields_readable flds fs"
    and "distinct (map fst acc @ map fst fs)"
    and "de_buf st = concat (map (\<lambda>(k, b, v). write_bytes False k @ b) fs) @ 101 # rest"
    and "length (de_buf st) < 2 ^ 64" "\<not> parsing_key st" "hook_idle st" "length fs < n"
  shows "struct_loop sha1 flds n acc st = Inr (acc @ field_values fs, st\<lparr>de_buf := rest\<rparr>)"
  using assms
proof (induction fs arbitrary: n acc st)
  case Nil
  then show ?case by (cases n) (simp_all add: next_key_end field_values_def)
next
  case (Cons f fs)
  obtain k b v where f: "f = (k, b, v)" by (cases f)
  obtain m where n: "n = Suc m" using Cons.prems(7) by (cases n) simp_all
  from Cons.prems(1) f obtain rd where rd: "flds k = Some rd" "reads rd b v"
    by (auto simp: fields_readable_def)
  define tail where "tail = concat (map (\<lambda>(k, b, v). write_bytes False k @ b) fs) @ 101 # rest"
  have buf: "de_buf st = write_bytes False k @ b @ tail"
    using Cons.prems(3) by (simp add: tail_def f)
  obtain st1 where key: "next_key st = Inr (Some k, st1)"
    and val: "next_value sha1 rd st1 = Inr (v, st\<lparr>de_buf := tail\<rparr>)"
    by (rule reads_entry_below [OF rd(2) buf Cons.prems(4-6)])
  have "struct_loop sha1 flds m (acc @ [(k, v)]) (st\<lparr>de_buf := tail\<rparr>) =
      Inr ((acc @ [(k, v)]) @ field_values fs, (st\<lparr>de_buf := tail\<rparr>)\<lparr>de_buf := rest\<rparr>)"
    using Cons.prems buf
    by (intro Cons.IH) (auto simp: n f tail_def fields_readable_def)
  moreover have "k \<notin> fst ` set acc" using Cons.prems(2) f by auto
  ultimately show ?case
    by (simp add: n f key rd val field_values_def)
qed

text \<open>
  The fields come back in key order; what counts is the map from names to values, which is the one
  that was serialized.
\<close>

lemma sorted_fields:
  assumes "distinct (map fst fs)"
  obtains es where "set es = set fs" "distinct (map fst es)"
    "serialize_struct (field_entries fs) =
       100 # concat (map (\<lambda>(k, b, v). write_bytes False k @ b) es) @ [101]"
proof -
  define es where "es = sort_key fst fs"
  have 1: "set es = set fs" "distinct (map fst es)"
    using assms by (simp_all add: es_def distinct_map)
  then have "keys_sorted es" by (simp add: es_def strict_sorted_iff)
  have "serialize_struct (field_entries fs) = serialize_struct (field_entries es)"
  proof -
    have sorted: "keys_sorted (fold (\<lambda>(k, v). btree_insert k v) (field_entries l) [])" for l :: "'a field_form list"
      by (simp add: keys_sorted_fold_btree_insert)
    have "map_of (rev (field_entries fs)) = map_of (rev (field_entries es))"
      using 1 assms
      by (subst map_of_inject_set) (simp_all add: rev_map [symmetric], simp add: field_entries_def)
    then have "map_of (fold (\<lambda>(k, v). btree_insert k v) (field_entries fs) []) =
        map_of (fold (\<lambda>(k, v). btree_insert k v) (field_entries es) [])"
      by (simp add: fold_btree_insert_map_of)
    then have "fold (\<lambda>(k, v). btree_insert k v) (field_entries fs) [] =
        fold (\<lambda>(k, v). btree_insert k v) (field_entries es) []"
      by (rule keys_sorted_unique [OF sorted sorted])
    then show ?thesis by (simp add: serialize_struct_def serialize_map_end_def)
  qed
  also have "\<dots> = 100 # concat (map (\<lambda>(k, b, v). write_bytes False k @ b) es) @ [101]"
    using \<open>keys_sorted es\<close>
    by (simp add: serialize_struct_def serialize_map_end_sorted)
      (simp add: field_entries_def comp_def case_prod_unfold)
  finally show ?thesis using that [OF 1] by blast
qed

lemma struct_roundtrip:
  assumes "fields_readable flds fs" "distinct (map fst fs)"
    and "de_buf st = serialize_struct (field_entries fs) @ rest" "length (de_buf st) < 2 ^ 64"
    and "\<not> parsing_key st" "hook_idle st"
  shows "\<exists>acc. deserialize_struct sha1 flds st = Inr (acc, st\<lparr>de_buf := rest\<rparr>) \<and>
    map_of acc = map_of (field_values fs)"
proof -
  from assms(2) obtain es where es: "set es = set fs" "distinct (map fst es)"
    and ser: "serialize_struct (field_entries fs) =
      100 # concat (map (\<lambda>(k, b, v). write_bytes False k @ b) es) @ [101]"
    by (rule sorted_fields)
  have "length es \<le> length (concat (map (\<lambda>(k, b, v). write_bytes False k @ b) es))"
  proof (induction es)
    case (Cons e es)
    have "0 < length (write_bytes False (fst e))"
      using write_bytes_hd [of "fst e" "[]"] by auto
    then have "1 \<le> length (write_bytes False (fst e))" by (simp del: length_greater_0_conv)
    with Cons show ?case by (simp add: case_prod_unfold)
  qed simp
  then have len: "length es < fuel_for (de_buf st)"
    using assms(3) ser by (simp add: fuel_for_def)
  have "struct_loop sha1 flds (fuel_for (de_buf st)) [] (st\<lparr>de_buf := drop 1 (de_buf st)\<rparr>) =
      Inr ([] @ field_values es, (st\<lparr>de_buf := drop 1 (de_buf st)\<rparr>)\<lparr>de_buf := rest\<rparr>)"
    using assms es ser len
    by (intro struct_loop_reads) (auto simp: fields_readable_def)
  moreover have "map_of (field_values es) = map_of (field_values fs)"
    using es assms(2)
    by (subst map_of_inject_set) (simp_all, simp add: field_values_def)
  ultimately show ?thesis
    using assms(3) ser by (simp add: deserialize_struct_def starts_with_def)
qed

section \<open>Correctness\<close>

lemma new_from_buf_simps [simp]:
  "de_buf (new_from_buf buf) = buf" "\<not> parsing_key (new_from_buf buf)"
  "\<not> is_torrent_info (new_from_buf buf)" "hook_idle (new_from_buf buf)"
  "(new_from_buf buf)\<lparr>de_buf := r\<rparr> = new_from_buf r"
  by (simp_all add: new_from_buf_def hook_idle_def)

lemma de_value_serialize:
  assumes "wf_value v" "length (bencode_serialize v @ rest) < 2 ^ 64"
    and "2 * length (bencode_serialize v) \<le> n"
  shows "de_value sha1 n (new_from_buf (bencode_serialize v @ rest)) = Inr (v, new_from_buf rest)"
  using reads_backD [OF wf_value_reads_back [OF assms(1)], of "new_from_buf (bencode_serialize v @ rest)"]
    assms(2,3)
  by (simp add: bencode_serialize_def)

lemma dyn_reads:
  "wf_value v \<Longrightarrow> length (bencode_serialize v) < 2 ^ 64 \<Longrightarrow>
   dyn_from_bytes sha1 (bencode_serialize v) = Inr v"
  using de_value_serialize [of v "[]" "fuel_for (bencode_serialize v)" sha1]
  by (simp add: dyn_from_bytes_def from_bytes_def fuel_for_def)

text \<open>
  Serializing a bencode value and reading it back gives the same value, and the encoding is
  self-delimiting. Reading the serialized form of any well-formed value (64-bit integers, one entry
  per key) followed by arbitrary further bytes yields exactly that value and leaves exactly the
  further bytes; with nothing behind it, \<open>dyn_from_bytes\<close> returns the value.
\<close>
theorem bencode_roundtrip:
  assumes "wf_value v" "length (bencode_serialize v @ rest) < 2 ^ 64"
  shows "de_value sha1 (fuel_for (bencode_serialize v @ rest)) (new_from_buf (bencode_serialize v @ rest)) =
      Inr (v, new_from_buf rest) \<and>
    dyn_from_bytes sha1 (bencode_serialize v) = Inr v"
  using de_value_serialize [OF assms] de_value_serialize [OF assms(1), of "[]"] assms(2)
  by (simp add: dyn_from_bytes_def from_bytes_def fuel_for_def)

definition sample_value :: bencode_value where
  "sample_value = BDict [(info_key, BList [BInteger (- 7), BBytes [1, 2, 3]]), ([107], BInteger 0)]"

theorem bencode_roundtrip_witness:
  "dyn_from_bytes (\<lambda>_. []) (bencode_serialize sample_value) = Inr sample_value"
proof -
  have "wf_value sample_value"
    by (simp add: sample_value_def info_key_def in_i64_def)
  moreover have "length (bencode_serialize sample_value) = 25"
    by code_simp
  then have "length (bencode_serialize sample_value @ []) < 2 ^ 64"
    by simp
  ultimately show ?thesis
    using bencode_roundtrip by blast
qed

text \<open>
  C38: the dynamic reader is total on arbitrary input. Whatever bytes arrive, \<open>dyn_from_bytes\<close> ends
  with an ordinary error or a value, it never stops the process and never needs more steps than the
  fuel of the model, and a value it returns is well-formed, so that serializing it gives bytes that
  read back as the same value (the canonical form of the input).
\<close>
theorem dyn_from_bytes_total:
  "(\<exists>k. dyn_from_bytes sha1 buf = Inl (DeError k)) \<or>
   (\<exists>v. dyn_from_bytes sha1 buf = Inr v \<and> wf_value v)"
proof -
  have clean: "clean_failure (de_value sha1 (fuel_for buf) (new_from_buf buf))"
    by (rule de_value_clean(1)) (simp_all add: fuel_for_def)
  show ?thesis
  proof (cases "de_value sha1 (fuel_for buf) (new_from_buf buf)")
    case (Inl e)
    with clean show ?thesis
      by (auto simp: dyn_from_bytes_def from_bytes_def clean_failure_def)
  next
    case (Inr r)
    obtain v st where r: "r = (v, st)" by (cases r)
    from de_value_advanced(1) [OF Inr [unfolded r]] have "wf_value v" by simp
    with Inr r show ?thesis by (auto simp: dyn_from_bytes_def from_bytes_def)
  qed
qed

text \<open>
  The bencode form of a struct is canonical. Whatever order the fields are serialized in, the
  output is the same, and it lists every field exactly once under strictly ascending keys, as the
  bencode specification demands (info hashes depend on it).
\<close>
theorem serialize_struct_canonical:
  assumes "distinct (map fst flds)"
  shows "\<exists>es. keys_sorted es \<and> set es = set flds \<and>
    (\<forall>flds'. distinct (map fst flds') \<and> set flds' = set flds \<longrightarrow>
       serialize_struct flds' = 100 # concat (map (\<lambda>(k, v). write_bytes False k @ v) es) @ [101])"
proof -
  define sorted_of where "sorted_of = (\<lambda>l :: (bytes \<times> bytes) list.
    fold (\<lambda>(k, v). btree_insert k v) l [])"
  have s: "keys_sorted (sorted_of l)" for l
    by (simp add: sorted_of_def keys_sorted_fold_btree_insert)
  have m: "map_of (sorted_of l) = map_of l" if "distinct (map fst l)" for l
  proof -
    have "map_of (rev l) = map_of l"
      using that map_of_inject_set [of "rev l" l] by (simp add: rev_map [symmetric])
    then show ?thesis by (simp add: sorted_of_def fold_btree_insert_map_of)
  qed
  have "set (sorted_of flds) = set flds"
    using s [of flds] m [OF assms] assms strict_sorted_iff map_of_inject_set by blast
  moreover have "serialize_struct l = 100 # concat (map (\<lambda>(k, v). write_bytes False k @ v)
      (sorted_of flds)) @ [101]" if "distinct (map fst l) \<and> set l = set flds" for l
  proof -
    have "sorted_of l = sorted_of flds"
      using that assms m s map_of_inject_set by (intro keys_sorted_unique) auto
    then show ?thesis
      by (simp add: serialize_struct_def serialize_map_end_def sorted_of_def)
  qed
  ultimately show ?thesis using s by blast
qed

theorem serialize_struct_canonical_witness:
  "\<exists>es. keys_sorted es \<and> set es = {([107], [1]), ([106], [2])} \<and>
     serialize_struct [([107], [1]), ([106], [2])] =
       100 # concat (map (\<lambda>(k, v). write_bytes False k @ v) es) @ [101]"
  using serialize_struct_canonical [of "[([107], [1]), ([106], [2])]"] by auto

end
