(* ===== verification/Extended.thy ===== *)
theory Extended
  imports Bencode
begin

text \<open>
  Model of the extension protocol messages of the peer wire protocol
  (\<open>crates/peer_binary_protocol/src/extended/\<close>): the extended handshake, \<open>ut_metadata\<close> and the dynamic
  messages, with their bencode forms. A serializer that meets \<open>todo!()\<close> stops the process.
\<close>

section \<open>Data\<close>

record ext_handshake =
  hs_m :: "(bytes \<times> u8) list"
  hs_p :: "u32 option"
  hs_v :: "bytes option"
  hs_yourip :: "ip_addr option"
  hs_ipv6 :: "bytes option"
  hs_ipv4 :: "bytes option"
  hs_reqq :: "u32 option"
  hs_metadata_size :: "u32 option"
  hs_complete_ago :: "int option"
  hs_upload_only :: "u32 option"

datatype ut_metadata =
    UtRequest u32
  | UtData u32 u32 bytes
  | UtReject u32

datatype ext_message =
    ExtHandshake ext_handshake
  | ExtUtMetadata ut_metadata
  | ExtDyn u8 bencode_value

text \<open>The errors of message parsing (\<open>MessageDeserializeError\<close>); \<open>Other\<close> carries its reason.\<close>

datatype msg_other =
    BencodeFailed de_fail
  | EmptyExtended
  | UtTrailingBytes
  | UtMissingTotalSize
  | UtUnknownType u32
  | WrongPstrLen u8
  | WrongPstr
  | BincodeFailed

datatype msg_error =
    NotEnoughData nat string
  | UnsupportedMessageId u8
  | IncorrectLenPrefix u32 u32 u8
  | OtherError msg_other

definition MY_EXTENDED_UT_METADATA :: u8 where
  "MY_EXTENDED_UT_METADATA = 3"

definition empty_handshake :: ext_handshake where
  "empty_handshake = \<lparr>hs_m = [], hs_p = None, hs_v = None, hs_yourip = None, hs_ipv6 = None,
     hs_ipv4 = None, hs_reqq = None, hs_metadata_size = None, hs_complete_ago = None,
     hs_upload_only = None\<rparr>"

definition ext_handshake_new :: ext_handshake where
  "ext_handshake_new = empty_handshake\<lparr>hs_m := [(ascii ''ut_metadata'', MY_EXTENDED_UT_METADATA)]\<rparr>"

definition get_msgid :: "ext_handshake \<Rightarrow> bytes \<Rightarrow> u8 option" where
  "get_msgid h msg_type = map_option snd (find (\<lambda>(k, v). k = msg_type) (hs_m h))"

definition hs_ut_metadata :: "ext_handshake \<Rightarrow> u8 option" where
  "hs_ut_metadata h = get_msgid h (ascii ''ut_metadata'')"

section \<open>The extended handshake\<close>

definition serialize_your_ip :: "ip_addr \<Rightarrow> bytes outcome" where
  "serialize_your_ip ip = (case ip of IpV4 a \<Rightarrow> Return (write_bytes False (be32 a)) | IpV6 _ \<Rightarrow> Panic)"

definition your_ip_of :: "bytes \<Rightarrow> ip_addr option" where
  "your_ip_of b =
     (if length b = 4 then Some (IpV4 (of_be32 b))
      else if length b = 16 then Some (IpV6 (word_of_nat (from_be b)))
      else None)"

definition serialize_u8_map :: "(bytes \<times> u8) list \<Rightarrow> bytes" where
  "serialize_u8_map m = [100] @ serialize_map_end False
     (map (\<lambda>(k, v). (write_bytes True k, write_number (uint v))) m)"

text \<open>\<open>skip_serializing_if = Option::is_none\<close>: an absent option is no field at all.\<close>

fun opt_field :: "string \<Rightarrow> ('a \<Rightarrow> bytes) \<Rightarrow> 'a option \<Rightarrow> (bytes \<times> bytes) list" where
  "opt_field name ser None = []"
| "opt_field name ser (Some x) = [(ascii name, ser x)]"

definition handshake_fields :: "ext_handshake \<Rightarrow> bytes option \<Rightarrow> (bytes \<times> bytes) list" where
  "handshake_fields h yourip =
     [(ascii ''m'', serialize_u8_map (hs_m h))]
     @ opt_field ''p'' (write_number \<circ> uint) (hs_p h)
     @ opt_field ''v'' (write_bytes False) (hs_v h)
     @ opt_field ''yourip'' id yourip
     @ opt_field ''ipv6'' (write_bytes False) (hs_ipv6 h)
     @ opt_field ''ipv4'' (write_bytes False) (hs_ipv4 h)
     @ opt_field ''reqq'' (write_number \<circ> uint) (hs_reqq h)
     @ opt_field ''metadata_size'' (write_number \<circ> uint) (hs_metadata_size h)
     @ opt_field ''complete_ago'' write_number (hs_complete_ago h)
     @ opt_field ''upload_only'' (write_number \<circ> uint) (hs_upload_only h)"

definition serialize_handshake :: "ext_handshake \<Rightarrow> bytes outcome" where
  "serialize_handshake h =
     (case hs_yourip h of
        None \<Rightarrow> Return (serialize_struct (handshake_fields h None))
      | Some ip \<Rightarrow>
          bind_outcome (serialize_your_ip ip)
            (\<lambda>b. Return (serialize_struct (handshake_fields h (Some b)))))"

datatype hs_field = FMap "(bytes \<times> u8) list" | FU32 u32 | FBytes bytes | FIp ip_addr | FI32 int

definition de_map_with :: "('a \<Rightarrow> 'b) \<Rightarrow> 'a de \<Rightarrow> 'b de" where
  "de_map_with f rd st = (case rd st of Inl e \<Rightarrow> Inl e | Inr (x, st') \<Rightarrow> Inr (f x, st'))"

definition deserialize_u32 :: "u32 de" where
  "deserialize_u32 = de_map_with word_of_int (deserialize_uint 32)"

definition deserialize_u8 :: "u8 de" where
  "deserialize_u8 = de_map_with word_of_int (deserialize_uint 8)"

definition handshake_readers :: "(bytes \<Rightarrow> bytes) \<Rightarrow> bytes \<Rightarrow> hs_field de option" where
  "handshake_readers sha1 k =
     (if k = ascii ''m'' then Some (de_map_with FMap (deserialize_hashmap sha1 deserialize_u8))
      else if k \<in> {ascii ''p'', ascii ''reqq'', ascii ''metadata_size'', ascii ''upload_only''}
      then Some (de_map_with FU32 deserialize_u32)
      else if k \<in> {ascii ''v'', ascii ''ipv6'', ascii ''ipv4''}
      then Some (deserialize_bytes_as (\<lambda>b. Some (FBytes b)))
      else if k = ascii ''yourip'' then Some (deserialize_bytes_as (\<lambda>b. map_option FIp (your_ip_of b)))
      else if k = ascii ''complete_ago'' then Some (de_map_with FI32 (deserialize_sint 32))
      else None)"

fun as_u32 :: "hs_field option \<Rightarrow> u32 option" where
  "as_u32 (Some (FU32 x)) = Some x" | "as_u32 _ = None"

fun as_bytes :: "hs_field option \<Rightarrow> bytes option" where
  "as_bytes (Some (FBytes x)) = Some x" | "as_bytes _ = None"

fun as_ip :: "hs_field option \<Rightarrow> ip_addr option" where
  "as_ip (Some (FIp x)) = Some x" | "as_ip _ = None"

fun as_i32 :: "hs_field option \<Rightarrow> int option" where
  "as_i32 (Some (FI32 x)) = Some x" | "as_i32 _ = None"

definition handshake_of_fields :: "(bytes \<rightharpoonup> hs_field) \<Rightarrow> de_fail + ext_handshake" where
  "handshake_of_fields f =
     (case f (ascii ''m'') of
        Some (FMap m) \<Rightarrow> Inr \<lparr>hs_m = m, hs_p = as_u32 (f (ascii ''p'')), hs_v = as_bytes (f (ascii ''v'')),
          hs_yourip = as_ip (f (ascii ''yourip'')), hs_ipv6 = as_bytes (f (ascii ''ipv6'')),
          hs_ipv4 = as_bytes (f (ascii ''ipv4'')), hs_reqq = as_u32 (f (ascii ''reqq'')),
          hs_metadata_size = as_u32 (f (ascii ''metadata_size'')),
          hs_complete_ago = as_i32 (f (ascii ''complete_ago'')),
          hs_upload_only = as_u32 (f (ascii ''upload_only''))\<rparr>
      | _ \<Rightarrow> Inl (DeError (MissingField (ascii ''m''))))"

definition deserialize_handshake :: "(bytes \<Rightarrow> bytes) \<Rightarrow> ext_handshake de" where
  "deserialize_handshake sha1 st =
     (case deserialize_struct sha1 (handshake_readers sha1) st of
        Inl e \<Rightarrow> Inl e
      | Inr (acc, st') \<Rightarrow>
          (case handshake_of_fields (map_of acc) of Inl e \<Rightarrow> Inl e | Inr h \<Rightarrow> Inr (h, st')))"

section \<open>Metadata messages\<close>

definition ut_message :: "u32 \<Rightarrow> u32 \<Rightarrow> u32 option \<Rightarrow> bytes" where
  "ut_message msg_type piece total_size =
     serialize_struct
       ([(ascii ''msg_type'', write_number (uint msg_type)), (ascii ''piece'', write_number (uint piece))]
        @ opt_field ''total_size'' (write_number \<circ> uint) total_size)"

fun ut_serialize :: "ut_metadata \<Rightarrow> bytes" where
  "ut_serialize (UtRequest piece) = ut_message 0 piece None"
| "ut_serialize (UtData piece total_size d) = ut_message 1 piece (Some total_size) @ d"
| "ut_serialize (UtReject piece) = ut_message 2 piece None"

definition ut_readers :: "bytes \<Rightarrow> u32 de option" where
  "ut_readers k =
     (if k \<in> {ascii ''msg_type'', ascii ''piece'', ascii ''total_size''} then Some deserialize_u32 else None)"

definition ut_of_fields :: "(bytes \<rightharpoonup> u32) \<Rightarrow> bytes \<Rightarrow> msg_error + ut_metadata" where
  "ut_of_fields f remaining =
     (case f (ascii ''msg_type'') of
        None \<Rightarrow> Inl (OtherError (BencodeFailed (DeError (MissingField (ascii ''msg_type'')))))
      | Some t \<Rightarrow>
        (case f (ascii ''piece'') of
           None \<Rightarrow> Inl (OtherError (BencodeFailed (DeError (MissingField (ascii ''piece'')))))
         | Some piece \<Rightarrow>
             if t = 0 then (if remaining \<noteq> [] then Inl (OtherError UtTrailingBytes) else Inr (UtRequest piece))
             else if t = 1 then
               (case f (ascii ''total_size'') of
                  None \<Rightarrow> Inl (OtherError UtMissingTotalSize)
                | Some sz \<Rightarrow> Inr (UtData piece sz remaining))
             else if t = 2 then
               (if remaining \<noteq> [] then Inl (OtherError UtTrailingBytes) else Inr (UtReject piece))
             else Inl (OtherError (UtUnknownType t))))"

definition ut_deserialize :: "(bytes \<Rightarrow> bytes) \<Rightarrow> bytes \<Rightarrow> msg_error + ut_metadata" where
  "ut_deserialize sha1 buf =
     (case deserialize_struct sha1 ut_readers (new_from_buf buf) of
        Inl e \<Rightarrow> Inl (OtherError (BencodeFailed e))
      | Inr (acc, st) \<Rightarrow> ut_of_fields (map_of acc) (de_buf st))"

section \<open>Extended messages\<close>

text \<open>
  \<open>ExtendedMessage::serialize\<close> appends to the buffer; the result is what it appends. \<open>None\<close> is the
  error that the peer's handshake is missing.
\<close>

definition ext_serialize :: "ext_message \<Rightarrow> u8 option \<Rightarrow> bytes option outcome" where
  "ext_serialize msg peer_ut_metadata =
     (case msg of
        ExtDyn msg_id v \<Rightarrow> Return (Some (msg_id # bencode_serialize v))
      | ExtHandshake h \<Rightarrow> bind_outcome (serialize_handshake h) (\<lambda>b. Return (Some (0 # b)))
      | ExtUtMetadata u \<Rightarrow>
          (case peer_ut_metadata of
             None \<Rightarrow> Return None
           | Some emsg_id \<Rightarrow> Return (Some (emsg_id # ut_serialize u))))"

definition bencode_result :: "de_fail + 'a \<Rightarrow> msg_error + 'a" where
  "bencode_result r = (case r of Inl e \<Rightarrow> Inl (OtherError (BencodeFailed e)) | Inr x \<Rightarrow> Inr x)"

definition ext_deserialize :: "(bytes \<Rightarrow> bytes) \<Rightarrow> bytes \<Rightarrow> msg_error + ext_message" where
  "ext_deserialize sha1 buf =
     (case buf of
        [] \<Rightarrow> Inl (OtherError EmptyExtended)
      | emsg_id # rest \<Rightarrow>
          if emsg_id = 0 then
            bind_result (bencode_result (from_bytes (deserialize_handshake sha1) rest))
              (\<lambda>h. Inr (ExtHandshake h))
          else if emsg_id = MY_EXTENDED_UT_METADATA then
            bind_result (ut_deserialize sha1 rest) (\<lambda>u. Inr (ExtUtMetadata u))
          else
            bind_result (bencode_result (dyn_from_bytes sha1 rest)) (\<lambda>v. Inr (ExtDyn emsg_id v)))"


section \<open>Reading back\<close>

lemma reads_de_map_with: "reads rd b x \<Longrightarrow> reads (de_map_with f rd) b (f x)"
  by (simp add: reads_def de_map_with_def)

lemma reads_deserialize_u32: "reads deserialize_u32 (write_number (uint x)) x"
proof -
  have "reads (deserialize_uint 32) (write_number (uint x)) (uint x)"
    using uint_bound [of x] by (intro reads_deserialize_uint) simp_all
  from reads_de_map_with [OF this, of "word_of_int :: int \<Rightarrow> u32"] show ?thesis
    by (simp add: deserialize_u32_def ucast_id)
qed

lemma reads_deserialize_u8: "reads deserialize_u8 (write_number (uint x)) x"
proof -
  have "reads (deserialize_uint 8) (write_number (uint x)) (uint x)"
    using uint_bound [of x] by (intro reads_deserialize_uint) simp_all
  from reads_de_map_with [OF this, of "word_of_int :: int \<Rightarrow> u8"] show ?thesis
    by (simp add: deserialize_u8_def ucast_id)
qed

lemma hashmap_loop_reads:
  assumes "\<And>x. reads elem (ser x) x"
    and "keys_sorted (m @ es)"
    and "de_buf st = concat (map (\<lambda>(k, x). write_bytes False k @ ser x) es) @ 101 # rest"
    and "length (de_buf st) < 2 ^ 64" "\<not> parsing_key st" "hook_idle st" "length es < n"
  shows "hashmap_loop sha1 n elem m st = Inr (m @ es, st\<lparr>de_buf := rest\<rparr>)"
  using assms(2-)
proof (induction es arbitrary: n m st)
  case Nil
  then show ?case by (cases n) (simp_all add: next_key_end)
next
  case (Cons e es)
  obtain k x where e: "e = (k, x)" by (cases e)
  obtain j where n: "n = Suc j" using Cons.prems(6) by (cases n) simp_all
  define tail where "tail = concat (map (\<lambda>(k, x). write_bytes False k @ ser x) es) @ 101 # rest"
  have buf: "de_buf st = write_bytes False k @ ser x @ tail"
    using Cons.prems(2) by (simp add: tail_def e)
  obtain st1 where key: "next_key st = Inr (Some k, st1)"
    and val: "next_value sha1 elem st1 = Inr (x, st\<lparr>de_buf := tail\<rparr>)"
    by (rule reads_entry_below [OF assms(1) buf Cons.prems(3-5)])
  have ins: "btree_insert k x m = m @ [(k, x)]"
    using Cons.prems(1) by (intro btree_insert_last) (auto simp: e sorted_wrt_append)
  have "hashmap_loop sha1 j elem (m @ [(k, x)]) (st\<lparr>de_buf := tail\<rparr>) =
      Inr ((m @ [(k, x)]) @ es, (st\<lparr>de_buf := tail\<rparr>)\<lparr>de_buf := rest\<rparr>)"
    using Cons.prems buf by (intro Cons.IH) (simp_all add: e n tail_def)
  then show ?case by (simp add: n e key val ins)
qed

lemma length_entries:
  "length es \<le> length (concat (map (\<lambda>(k, x). write_bytes False k @ ser x) es))"
proof (induction es)
  case (Cons e es)
  have "0 < length (write_bytes False (fst e))"
    using write_bytes_hd [of "fst e" "[]"] by auto
  then have "1 \<le> length (write_bytes False (fst e))" by (simp del: length_greater_0_conv)
  with Cons show ?case by (simp add: case_prod_unfold)
qed simp

lemma reads_u8_map:
  assumes "keys_sorted m"
  shows "reads (deserialize_hashmap sha1 deserialize_u8) (serialize_u8_map m) m"
proof (rule readsI)
  fix st :: de_state and rest
  assume st: "de_buf st = serialize_u8_map m @ rest" "length (de_buf st) < 2 ^ 64"
    "\<not> parsing_key st" "hook_idle st"
  define ser :: "u8 \<Rightarrow> bytes" where "ser = (\<lambda>x. write_number (uint x))"
  have buf: "de_buf st = 100 # concat (map (\<lambda>(k, x). write_bytes False k @ ser x) m) @ 101 # rest"
    using assms st(1) serialize_map_end_sorted [of "map (\<lambda>(k, v). (write_bytes True k, ser v)) m"]
    by (simp add: serialize_u8_map_def ser_def comp_def case_prod_unfold)
      (simp add: write_bytes_def comp_def)
  have "hashmap_loop sha1 (fuel_for (de_buf st)) deserialize_u8 [] (st\<lparr>de_buf := drop 1 (de_buf st)\<rparr>) =
      Inr ([] @ m, (st\<lparr>de_buf := drop 1 (de_buf st)\<rparr>)\<lparr>de_buf := rest\<rparr>)"
    using assms st buf length_entries [of m ser]
    by (intro hashmap_loop_reads [of _ ser])
      (simp_all add: ser_def reads_deserialize_u8 fuel_for_def)
  then show "deserialize_hashmap sha1 deserialize_u8 st = Inr (m, st\<lparr>de_buf := rest\<rparr>)"
    using buf by (simp add: deserialize_hashmap_def starts_with_def)
qed

text \<open>The fields of each message with their values, ready for \<open>struct_roundtrip\<close>.\<close>

fun opt_form :: "string \<Rightarrow> ('a \<Rightarrow> bytes) \<Rightarrow> ('a \<Rightarrow> 'v) \<Rightarrow> 'a option \<Rightarrow> 'v field_form list" where
  "opt_form name ser val None = []"
| "opt_form name ser val (Some x) = [(ascii name, ser x, val x)]"

lemma opt_form_keys: "map fst (opt_form name ser val x) = (case x of None \<Rightarrow> [] | Some _ \<Rightarrow> [ascii name])"
  by (cases x) simp_all

lemma opt_form_mem: "x \<in> fst ` set (opt_form name ser val z) \<longleftrightarrow> z \<noteq> None \<and> x = ascii name"
  by (cases z) auto

lemma distinct_opt_form:
  "distinct (map fst (opt_form name ser val z) @ r) \<longleftrightarrow>
     distinct r \<and> (z \<noteq> None \<longrightarrow> ascii name \<notin> set r)"
  "distinct (map fst (opt_form name ser val z))"
  by (cases z; simp; blast)+

lemma opt_form_entries: "field_entries (opt_form name ser val x) = opt_field name ser x"
  by (cases x) (simp_all add: field_entries_def)

lemma opt_form_values:
  "field_values (opt_form name ser val x) = (case x of None \<Rightarrow> [] | Some y \<Rightarrow> [(ascii name, val y)])"
  by (cases x) (simp_all add: field_values_def)

lemma field_append [simp]:
  "field_entries (a @ b) = field_entries a @ field_entries b"
  "field_values (a @ b) = field_values a @ field_values b"
  "fields_readable flds (a @ b) \<longleftrightarrow> fields_readable flds a \<and> fields_readable flds b"
  by (simp_all add: field_entries_def field_values_def fields_readable_def ball_Un)

lemma opt_form_readable:
  "(\<And>x. z = Some x \<Longrightarrow> reads rd (ser x) (val x)) \<Longrightarrow> flds (ascii name) = Some rd \<Longrightarrow>
   fields_readable flds (opt_form name ser val z)"
  by (cases z) (auto simp: fields_readable_def)


definition ut_forms :: "u32 \<Rightarrow> u32 \<Rightarrow> u32 option \<Rightarrow> u32 field_form list" where
  "ut_forms t piece sz =
     [(ascii ''msg_type'', write_number (uint t), t), (ascii ''piece'', write_number (uint piece), piece)]
     @ opt_form ''total_size'' (write_number \<circ> uint) id sz"

lemma ut_message_forms: "ut_message t piece sz = serialize_struct (field_entries (ut_forms t piece sz))"
  unfolding ut_message_def ut_forms_def field_append opt_form_entries by (simp add: field_entries_def)

lemma ut_message_reads:
  assumes "length (ut_message t piece sz @ rest) < 2 ^ 64"
  shows "\<exists>acc. deserialize_struct sha1 ut_readers (new_from_buf (ut_message t piece sz @ rest)) =
      Inr (acc, new_from_buf rest) \<and>
    map_of acc (ascii ''msg_type'') = Some t \<and> map_of acc (ascii ''piece'') = Some piece \<and>
    map_of acc (ascii ''total_size'') = sz"
proof -
  have readable: "fields_readable ut_readers (ut_forms t piece sz)"
    unfolding ut_forms_def field_append
    by (intro conjI opt_form_readable [where rd = deserialize_u32])
      (simp_all add: fields_readable_def ut_readers_def reads_deserialize_u32)
  have dist: "distinct (map fst (ut_forms t piece sz))"
    by (cases sz) (simp_all add: ut_forms_def)
  have vals: "map_of (field_values (ut_forms t piece sz)) (ascii ''msg_type'') = Some t"
    "map_of (field_values (ut_forms t piece sz)) (ascii ''piece'') = Some piece"
    "map_of (field_values (ut_forms t piece sz)) (ascii ''total_size'') = sz"
    by (cases sz; simp add: ut_forms_def field_values_def)+
  show ?thesis
    using struct_roundtrip [OF readable dist, of "new_from_buf (ut_message t piece sz @ rest)" rest sha1]
      assms vals
    by (auto simp: ut_message_forms)
qed

lemma ut_metadata_reads:
  assumes "length (ut_serialize u) < 2 ^ 64"
  shows "ut_deserialize sha1 (ut_serialize u) = Inr u"
proof (cases u)
  case (UtRequest piece)
  with assms show ?thesis
    using ut_message_reads [of 0 piece None "[]" sha1]
    by (auto simp: ut_deserialize_def ut_of_fields_def)
next
  case (UtData piece sz d)
  with assms show ?thesis
    using ut_message_reads [of 1 piece "Some sz" d sha1]
    by (auto simp: ut_deserialize_def ut_of_fields_def)
next
  case (UtReject piece)
  with assms show ?thesis
    using ut_message_reads [of 2 piece None "[]" sha1]
    by (auto simp: ut_deserialize_def ut_of_fields_def)
qed

section \<open>The handshake comes back\<close>

definition wf_handshake :: "ext_handshake \<Rightarrow> bool" where
  "wf_handshake h \<longleftrightarrow> keys_sorted (hs_m h) \<and>
     (case hs_yourip h of Some (IpV6 _) \<Rightarrow> False | _ \<Rightarrow> True) \<and>
     (case hs_complete_ago h of Some i \<Rightarrow> - (2 ^ 31) \<le> i \<and> i < 2 ^ 31 | None \<Rightarrow> True)"

definition hs_forms :: "ext_handshake \<Rightarrow> bytes option \<Rightarrow> hs_field field_form list" where
  "hs_forms h yourip =
     [(ascii ''m'', serialize_u8_map (hs_m h), FMap (hs_m h))]
     @ opt_form ''p'' (write_number \<circ> uint) FU32 (hs_p h)
     @ opt_form ''v'' (write_bytes False) FBytes (hs_v h)
     @ opt_form ''yourip'' id (\<lambda>_. FIp (the (hs_yourip h))) yourip
     @ opt_form ''ipv6'' (write_bytes False) FBytes (hs_ipv6 h)
     @ opt_form ''ipv4'' (write_bytes False) FBytes (hs_ipv4 h)
     @ opt_form ''reqq'' (write_number \<circ> uint) FU32 (hs_reqq h)
     @ opt_form ''metadata_size'' (write_number \<circ> uint) FU32 (hs_metadata_size h)
     @ opt_form ''complete_ago'' write_number FI32 (hs_complete_ago h)
     @ opt_form ''upload_only'' (write_number \<circ> uint) FU32 (hs_upload_only h)"

lemma hs_forms_entries: "handshake_fields h yourip = field_entries (hs_forms h yourip)"
  unfolding handshake_fields_def hs_forms_def field_append opt_form_entries
  by (simp add: field_entries_def)

lemma hs_forms_distinct: "distinct (map fst (hs_forms h yourip))"
  unfolding hs_forms_def map_append
  by (simp add: distinct_opt_form opt_form_mem del: distinct_append)

lemma hs_forms_readable:
  assumes "keys_sorted (hs_m h)"
    and "yourip = map_option (\<lambda>ip. case ip of IpV4 a \<Rightarrow> write_bytes False (be32 a) | IpV6 _ \<Rightarrow> []) (hs_yourip h)"
    and "\<And>x. hs_yourip h \<noteq> Some (IpV6 x)"
    and "\<And>i. hs_complete_ago h = Some i \<Longrightarrow> - (2 ^ 31) \<le> i \<and> i < 2 ^ 31"
  shows "fields_readable (handshake_readers sha1) (hs_forms h yourip)"
proof -
  note u32 = reads_de_map_with [OF reads_deserialize_u32, where f = FU32]
  have u: "fields_readable (handshake_readers sha1) (opt_form name (write_number \<circ> uint) FU32 z)"
    if "handshake_readers sha1 (ascii name) = Some (de_map_with FU32 deserialize_u32)" for name z
    using that u32 by (intro opt_form_readable) auto
  have b: "fields_readable (handshake_readers sha1) (opt_form name (write_bytes False) FBytes z)"
    if "handshake_readers sha1 (ascii name) = Some (deserialize_bytes_as (\<lambda>b. Some (FBytes b)))" for name z
    using that by (intro opt_form_readable) (auto intro: reads_deserialize_bytes_as)
  have ip: "fields_readable (handshake_readers sha1)
      (opt_form ''yourip'' id (\<lambda>_. FIp (the (hs_yourip h))) yourip)"
  proof (cases "hs_yourip h")
    case (Some i)
    then obtain a where a: "i = IpV4 a" using assms(3) by (cases i) auto
    then have "your_ip_of (be32 a) = Some i" by (simp add: your_ip_of_def)
    with Some a assms(2) show ?thesis
      by (auto simp: fields_readable_def handshake_readers_def intro!: reads_deserialize_bytes_as)
  qed (use assms(2) in \<open>simp add: fields_readable_def\<close>)
  show ?thesis
    unfolding hs_forms_def field_append
    using reads_u8_map [OF assms(1), of sha1] assms(4)
    by (intro conjI u b ip opt_form_readable [where rd = "de_map_with FI32 (deserialize_sint 32)"])
      (auto simp: handshake_readers_def fields_readable_def
        intro!: reads_de_map_with reads_deserialize_sint32)
qed

lemma map_of_opt:
  "map_of (field_values (opt_form name ser val z) @ r) k =
     (if k = ascii name \<and> z \<noteq> None then map_option val z else map_of r k)"
  by (cases z) (auto simp: field_values_def)

lemma hs_forms_values:
  assumes "yourip = map_option f (hs_yourip h)"
  shows "handshake_of_fields (map_of (field_values (hs_forms h yourip))) = Inr h"
proof -
  have head: "field_values [(k, b, v)] = [(k, v)]" for k b and v :: hs_field
    by (simp add: field_values_def)
  have last: "map_of (field_values (opt_form name ser val z)) k =
      (if k = ascii name \<and> z \<noteq> None then map_option val z else None)"
    for name ser k and val :: "'a \<Rightarrow> hs_field" and z
    using map_of_opt [of name ser val z "[]" k] by simp
  have conv: "as_u32 (map_option FU32 u) = u" "as_bytes (map_option FBytes b) = b"
    "as_i32 (map_option FI32 i) = i" "as_u32 None = None" "as_bytes None = None" "as_i32 None = None"
    for u b i
    by (cases u; cases b; cases i; simp)+
  have ip: "as_ip (map_option (\<lambda>_. FIp (the (hs_yourip h))) (map_option f (hs_yourip h))) = hs_yourip h"
    by (cases "hs_yourip h") simp_all
  show ?thesis
    unfolding hs_forms_def field_append head handshake_of_fields_def assms
    using ip by (simp add: map_of_opt last conv del: map_of_append split: if_splits)
qed


lemma handshake_reads:
  assumes "wf_handshake h"
  shows "\<exists>b. serialize_handshake h = Return b \<and> b \<noteq> [] \<and>
    (length b < 2 ^ 64 \<longrightarrow> from_bytes (deserialize_handshake sha1) b = Inr h)"
proof -
  define f where "f = (\<lambda>ip. case ip of IpV4 a \<Rightarrow> write_bytes False (be32 a) | IpV6 _ \<Rightarrow> [])"
  define yourip where "yourip = map_option f (hs_yourip h)"
  have v4: "hs_yourip h \<noteq> Some (IpV6 x)" for x
    using assms by (auto simp: wf_handshake_def split: option.splits ip_addr.splits)
  have ser: "serialize_handshake h = Return (serialize_struct (field_entries (hs_forms h yourip)))"
    using v4
    by (auto simp: serialize_handshake_def yourip_def f_def serialize_your_ip_def hs_forms_entries
        split: option.splits ip_addr.splits)
  have readable: "fields_readable (handshake_readers sha1) (hs_forms h yourip)"
    using assms v4
    by (intro hs_forms_readable) (auto simp: wf_handshake_def yourip_def f_def)
  have "from_bytes (deserialize_handshake sha1) (serialize_struct (field_entries (hs_forms h yourip))) = Inr h"
    if "length (serialize_struct (field_entries (hs_forms h yourip))) < 2 ^ 64"
    using struct_roundtrip [OF readable hs_forms_distinct, of
        "new_from_buf (serialize_struct (field_entries (hs_forms h yourip)))" "[]" sha1]
      hs_forms_values [OF yourip_def] that
    by (auto simp: from_bytes_def deserialize_handshake_def)
  with ser show ?thesis by (auto simp: serialize_struct_def)
qed

lemma ext_reads:
  assumes "case msg of ExtHandshake h \<Rightarrow> wf_handshake h | ExtUtMetadata _ \<Rightarrow> True
      | ExtDyn i v \<Rightarrow> i \<noteq> 0 \<and> i \<noteq> MY_EXTENDED_UT_METADATA \<and> wf_value v"
    and "case msg of ExtUtMetadata _ \<Rightarrow> peer_id = Some MY_EXTENDED_UT_METADATA | _ \<Rightarrow> True"
  shows "\<exists>b. ext_serialize msg peer_id = Return (Some b) \<and> b \<noteq> [] \<and>
    (length b < 2 ^ 64 \<longrightarrow> ext_deserialize sha1 b = Inr msg)"
proof (cases msg)
  case (ExtHandshake h)
  with handshake_reads [of h sha1] assms(1) show ?thesis
    by (auto simp: ext_serialize_def ext_deserialize_def bencode_result_def)
next
  case (ExtUtMetadata u)
  with assms(2) show ?thesis
    using ut_metadata_reads by (auto simp: ext_serialize_def ext_deserialize_def MY_EXTENDED_UT_METADATA_def)
next
  case (ExtDyn i v)
  with assms(1) dyn_reads [of v sha1] show ?thesis
    by (auto simp: ext_serialize_def ext_deserialize_def bencode_result_def)
qed


section \<open>Clean failure\<close>

lemma good_de_map_with: "good_reader rd \<Longrightarrow> good_reader (de_map_with f rd)"
  by (auto simp: good_reader_def de_map_with_def clean_failure_iff split: sum.splits)

lemma good_deserialize_words: "good_reader deserialize_u32" "good_reader deserialize_u8"
  by (simp_all add: deserialize_u32_def deserialize_u8_def good_de_map_with good_deserialize_uint)

lemma good_deserialize_handshake: "good_reader (deserialize_handshake sha1)"
proof -
  have "good_reader rd" if "handshake_readers sha1 k = Some rd" for k rd
    using that
    by (auto simp: handshake_readers_def split: if_splits
        intro!: good_de_map_with good_deserialize_hashmap good_deserialize_words
          good_deserialize_bytes_as good_deserialize_sint)
  then have "good_reader (deserialize_struct sha1 (handshake_readers sha1))"
    by (rule good_deserialize_struct)
  then show ?thesis
    by (auto simp: good_reader_def deserialize_handshake_def handshake_of_fields_def clean_failure_iff
        split: sum.splits option.splits hs_field.splits)
qed

lemma dyn_from_bytes_clean: "clean_failure (dyn_from_bytes sha1 buf)"
  using de_value_clean(1) [of "new_from_buf buf" "fuel_for buf" sha1]
  by (auto simp: dyn_from_bytes_def from_bytes_def clean_failure_iff fuel_for_def split: sum.splits)

text \<open>No extension message makes its parser stop the process.\<close>

lemma ut_deserialize_clean:
  "ut_deserialize sha1 buf = Inl (OtherError (BencodeFailed e)) \<Longrightarrow> \<exists>k. e = DeError k"
proof -
  assume r: "ut_deserialize sha1 buf = Inl (OtherError (BencodeFailed e))"
  have ut: "good_reader (deserialize_struct sha1 ut_readers)"
    by (rule good_deserialize_struct)
      (auto simp: ut_readers_def good_deserialize_words split: if_splits)
  show ?thesis
  proof (cases "deserialize_struct sha1 ut_readers (new_from_buf buf)")
    case (Inl e')
    with r good_readerD(1) [OF ut, of "new_from_buf buf"] show ?thesis
      by (simp add: ut_deserialize_def clean_failure_Inl)
  next
    case (Inr x)
    with r show ?thesis
      by (auto simp: ut_deserialize_def ut_of_fields_def split: prod.splits option.splits if_splits)
  qed
qed

lemma bencode_result_clean:
  "clean_failure r \<Longrightarrow> bencode_result r = Inl (OtherError (BencodeFailed e)) \<Longrightarrow> \<exists>k. e = DeError k"
  by (cases r) (simp_all add: bencode_result_def clean_failure_Inl)

lemma bind_result_Inl: "bind_result m (\<lambda>x. Inr (f x)) = Inl e \<longleftrightarrow> m = Inl e"
  by (cases m) simp_all

lemma ext_deserialize_clean:
  assumes "ext_deserialize sha1 buf = Inl (OtherError (BencodeFailed e))"
  shows "\<exists>k. e = DeError k"
proof (cases buf)
  case Nil
  with assms show ?thesis by (simp add: ext_deserialize_def)
next
  case (Cons i rest)
  note hs = bencode_result_clean [OF from_bytes_clean [OF good_deserialize_handshake], of sha1 rest e]
  note dyn = bencode_result_clean [OF dyn_from_bytes_clean, of sha1 rest e]
  show ?thesis
    using assms Cons hs dyn ut_deserialize_clean [of sha1 rest e]
    by (simp add: ext_deserialize_def bind_result_Inl split: if_splits)
qed

end
