(* ===== verification/HashId.thy ===== *)
theory HashId
  imports Prelude
begin

text \<open>
  Model of \<open>crates/librqbit_core/src/hash_id.rs\<close>: identifiers of \<open>N\<close> bytes, their xor distance, bit access
  and order, and the reading of an identifier from bytes or from hexadecimal text (the \<open>hex\<close> crate is
  a parameter). The second part shows that a 20-byte identifier is a 160-bit word: the other theories
  work with the words.
\<close>

section \<open>Operations on the bytes\<close>

definition id_distance :: "bytes \<Rightarrow> bytes \<Rightarrow> bytes" where
  "id_distance a b = map2 (\<lambda>s p. s XOR p) a b"

definition id_get_bit :: "bytes \<Rightarrow> nat \<Rightarrow> bool outcome" where
  "id_get_bit i k =
     bind_outcome (unwrap (get i (k div 8))) (\<lambda>n.
       let mask = push_bit (7 - k mod 8) 1 in Return (n AND mask > 0))"

definition id_set_bit :: "bytes \<Rightarrow> nat \<Rightarrow> bool \<Rightarrow> bytes outcome" where
  "id_set_bit i k v =
     bind_outcome (unwrap (get i (k div 8))) (\<lambda>n.
       Return (i[k div 8 :=
         (if v then n OR push_bit (7 - k mod 8) 1 else n AND NOT (push_bit (7 - k mod 8) 1))]))"

fun id_set_bits_range :: "bytes \<Rightarrow> nat list \<Rightarrow> bool \<Rightarrow> bytes outcome" where
  "id_set_bits_range i [] v = Return i"
| "id_set_bits_range i (k # ks) v = bind_outcome (id_set_bit i k v) (\<lambda>i'. id_set_bits_range i' ks v)"

datatype ordering = Less | Equal | Greater

fun id_cmp :: "bytes \<Rightarrow> bytes \<Rightarrow> ordering" where
  "id_cmp (s # a) (p # b) = (if s < p then Less else if p < s then Greater else id_cmp a b)"
| "id_cmp _ _ = Equal"

text \<open>\<open>FromStr\<close>, and the visitor of \<open>Deserialize\<close> on byte strings.\<close>

definition id_from_str :: "(string \<Rightarrow> bytes option) \<Rightarrow> nat \<Rightarrow> string \<Rightarrow> bytes option" where
  "id_from_str hex_decode n s = (if length s \<noteq> n * 2 then None else hex_decode s)"

definition id_visit_bytes :: "nat \<Rightarrow> bytes \<Rightarrow> bytes option" where
  "id_visit_bytes n v = (if length v \<noteq> n then None else Some v)"

section \<open>Identifiers as words\<close>

type_synonym id20 = "160 word"

definition id_word :: "bytes \<Rightarrow> id20" where
  "id_word b = word_of_nat (from_be b)"

definition word_set_bit :: "id20 \<Rightarrow> nat \<Rightarrow> bool \<Rightarrow> id20" where
  "word_set_bit w k v = (if v then set_bit (159 - k) w else unset_bit (159 - k) w)"

lemma bit_mult_256_add:
  assumes "b < (256 :: nat)"
  shows "bit (a * 256 + b) n \<longleftrightarrow> (if n < 8 then bit b n else bit a (n - 8))"
proof (cases "n < 8")
  case True
  have "take_bit 8 (a * 256 + b) = b" using assms by (simp add: take_bit_eq_mod)
  then show ?thesis using True by (metis bit_take_bit_iff)
next
  case False
  have "drop_bit 8 (a * 256 + b) = a" using assms by (simp add: drop_bit_eq_div)
  then show ?thesis using False bit_drop_bit_eq [of 8 "a * 256 + b"] by (auto simp: fun_eq_iff)
qed

lemma bit_unat: "bit (unat (w :: byte)) n \<longleftrightarrow> bit w n"
  by (simp add: bit_unsigned_iff bit_imp_possible_bit)

lemma bit_from_be:
  "bit (from_be bs) n \<longleftrightarrow> n < 8 * length bs \<and> bit (bs ! (length bs - 1 - n div 8)) (n mod 8)"
proof (induction bs arbitrary: n rule: rev_induct)
  case Nil
  then show ?case by simp
next
  case (snoc b bs)
  show ?case
  proof (cases "n < 8")
    case True
    then show ?thesis by (simp add: bit_mult_256_add [OF byte_bound] bit_unat)
  next
    case False
    then obtain m where n: "n = m + 8" by (metis add.commute le_add_diff_inverse not_less)
    have nd: "n div 8 = Suc (m div 8)" "n mod 8 = m mod 8" by (simp_all add: n)
    have l: "bit (from_be (bs @ [b])) n = bit (from_be bs) m"
      by (simp add: n bit_mult_256_add [OF byte_bound])
    show ?thesis
    proof (cases "m < 8 * length bs")
      case True
      then have "m div 8 < length bs" by (simp add: div_less_iff_less_mult mult.commute)
      then have "length bs - Suc (m div 8) < length bs" by linarith
      then have "(bs @ [b]) ! (length (bs @ [b]) - 1 - n div 8) = bs ! (length bs - 1 - m div 8)"
        by (simp add: nd nth_append)
      then show ?thesis unfolding l snoc.IH [of m] using True by (simp add: n nd)
    next
      case False
      then show ?thesis unfolding l snoc.IH [of m] by (simp add: n)
    qed
  qed
qed

lemma bit_id_word:
  assumes "length a = 20"
  shows "bit (id_word a) n \<longleftrightarrow> n < 160 \<and> bit (a ! (19 - n div 8)) (n mod 8)"
  using assms by (auto simp: id_word_def bit_of_nat_iff possible_bit_word bit_from_be)

lemma nat_div_mod_mirror:
  fixes n :: nat
  assumes "n < 160"
  shows "(159 - n) div 8 = 19 - n div 8" "(159 - n) mod 8 = 7 - n mod 8"
proof -
  have n: "n = 8 * (n div 8) + n mod 8" by simp
  define q r where "q = 19 - n div 8" and "r = 7 - n mod 8"
  have "n div 8 < 20" "n mod 8 < 8" using assms by auto
  then have e: "159 - n = 8 * q + r" "r < 8" using n unfolding q_def r_def by linarith+
  show "(159 - n) div 8 = 19 - n div 8" "(159 - n) mod 8 = 7 - n mod 8"
    unfolding e(1) q_def [symmetric] r_def [symmetric] using e(2) by simp_all
qed

lemma id_get_bit_eq:
  assumes "length a = 20" "k < 160"
  shows "id_get_bit a k = Return (bit (id_word a) (159 - k))"
proof -
  have "k div 8 < 20" "k mod 8 < 8" "159 - k < 160" using assms(2) by auto
  moreover have "bit (id_word a) (159 - k) = bit (a ! (k div 8)) (7 - k mod 8)"
    using nat_div_mod_mirror [OF assms(2)] assms \<open>k div 8 < 20\<close> \<open>159 - k < 160\<close>
    by (simp only: bit_id_word [OF assms(1)] simp_thms) simp
  moreover have "(n AND push_bit j 1 > 0) = bit n j" for n :: byte and j
    by (metis and_exp_eq_0_iff_not_bit push_bit_of_1 word_gt_0)
  ultimately show ?thesis using assms(1) by (simp add: id_get_bit_def get_def Let_def)
qed

lemma id_set_bit_eq:
  assumes "length a = 20" "k < 160"
  shows "\<exists>a'. id_set_bit a k v = Return a' \<and> length a' = 20 \<and> id_word a' = word_set_bit (id_word a) k v"
proof -
  have kd: "k div 8 < 20" using assms(2) by auto
  define b where "b = (if v then a ! (k div 8) OR push_bit (7 - k mod 8) 1
    else a ! (k div 8) AND NOT (push_bit (7 - k mod 8) 1))"
  define a' where "a' = a[k div 8 := b]"
  have "id_set_bit a k v = Return a'"
    using kd assms(1) by (simp add: id_set_bit_def get_def a'_def b_def)
  moreover have l: "length a' = 20" using assms(1) by (simp add: a'_def)
  moreover have "id_word a' = word_set_bit (id_word a) k v"
  proof (rule bit_eqI)
    fix n assume "possible_bit TYPE(id20) n"
    then have n: "n < 160" by (simp add: possible_bit_word)
    have r8: "n mod 8 < 8" "k mod 8 < 8" by simp_all
    have nd: "n div 8 < 20" using n by auto
    have same: "n = 159 - k \<longleftrightarrow> 19 - n div 8 = k div 8 \<and> n mod 8 = 7 - k mod 8"
    proof
      assume "n = 159 - k"
      then show "19 - n div 8 = k div 8 \<and> n mod 8 = 7 - k mod 8"
        using nat_div_mod_mirror [OF assms(2)] kd by simp
    next
      assume h: "19 - n div 8 = k div 8 \<and> n mod 8 = 7 - k mod 8"
      have "n = 8 * (n div 8) + n mod 8" "k = 8 * (k div 8) + k mod 8" by simp_all
      with h nd r8 show "n = 159 - k" by linarith
    qed
    have bb: "bit b j = (if j = 7 - k mod 8 then v else bit (a ! (k div 8)) j)" if "j < 8" for j
      using that r8 by (auto simp: b_def bit_or_iff bit_and_iff bit_not_iff bit_push_bit_iff bit_1_iff bit_exp_iff possible_bit_word)
    have "bit (id_word a') n = bit (a' ! (19 - n div 8)) (n mod 8)" using n l by (simp add: bit_id_word)
    also have "\<dots> = (if n = 159 - k then v else bit (id_word a) n)"
    proof (cases "19 - n div 8 = k div 8")
      case True
      then have "a' ! (19 - n div 8) = b" using kd assms(1) by (simp add: a'_def)
      then show ?thesis using bb [OF r8(1)] same True n assms(1) by (simp add: bit_id_word)
    next
      case False
      then have "a' ! (19 - n div 8) = a ! (19 - n div 8)" by (simp add: a'_def)
      then show ?thesis using same False n assms(1) by (simp add: bit_id_word)
    qed
    also have "\<dots> = bit (word_set_bit (id_word a) k v) n"
      using n assms(2) by (auto simp: word_set_bit_def bit_set_bit_iff bit_unset_bit_iff possible_bit_word)
    finally show "bit (id_word a') n = bit (word_set_bit (id_word a) k v) n" .
  qed
  ultimately show ?thesis by blast
qed

lemma id_distance_eq:
  assumes "length a = 20" "length b = 20"
  shows "length (id_distance a b) = 20" "id_word (id_distance a b) = id_word a XOR id_word b"
proof -
  show l: "length (id_distance a b) = 20" using assms by (simp add: id_distance_def)
  show "id_word (id_distance a b) = id_word a XOR id_word b"
    by (rule bit_eqI)
      (auto simp: bit_id_word [OF l] bit_id_word assms bit_xor_iff id_distance_def possible_bit_word)
qed

lemma from_be_Cons: "from_be (b # bs) = unat b * 256 ^ length bs + from_be bs"
  by (induction bs rule: rev_induct) (simp_all add: from_be_def algebra_simps)

lemma id_cmp_eq:
  "length a = length b \<Longrightarrow> id_cmp a b =
    (if from_be a < from_be b then Less else if from_be a = from_be b then Equal else Greater)"
proof (induction a b rule: list_induct2)
  case Nil
  then show ?case by simp
next
  case (Cons s a p b)
  define M where "M = (256 :: nat) ^ length b"
  have lt: "from_be a < M" "from_be b < M"
    using from_be_less [of a] from_be_less [of b] Cons.hyps by (simp_all add: M_def)
  have eqs: "from_be (s # a) = unat s * M + from_be a" "from_be (p # b) = unat p * M + from_be b"
    using Cons.hyps by (simp_all add: from_be_Cons M_def)
  have less: "x * M + u < y * M + w" if "x < y" "u < M" for x y u w
  proof -
    have "Suc x * M \<le> y * M" using that(1) by (intro mult_le_mono1) simp
    then show ?thesis using that(2) by simp
  qed
  consider "unat s < unat p" | "unat p < unat s" | "s = p" by (metis linorder_neqE_nat word_unat_eq_iff)
  then show ?case
  proof cases
    case 1
    then show ?thesis using less [OF 1 lt(1)] by (simp add: eqs word_less_nat_alt)
  next
    case 2
    then show ?thesis using less [OF 2 lt(2), of "from_be a"] by (simp add: eqs word_less_nat_alt)
  next
    case 3
    then show ?thesis unfolding eqs using Cons.IH by simp
  qed
qed

lemma unat_id_word: "length a = 20 \<Longrightarrow> unat (id_word a) = from_be a"
  using from_be_less [of a] by (simp add: id_word_def unat_of_nat)

lemma id_word_inj: "length a = 20 \<Longrightarrow> length b = 20 \<Longrightarrow> id_word a = id_word b \<longleftrightarrow> a = b"
  by (metis to_be_from_be unat_id_word)

text \<open>
  C40: an identifier is a 160-bit number. On byte arrays of length 20 the xor distance, reading a bit,
  setting a bit and the comparison byte by byte are the exclusive or, the bit access (from the most
  significant bit), the bit update and the unsigned order of the words they spell, and different
  arrays are different words.
\<close>
theorem id_is_160_bit_word:
  assumes "length a = 20" "length b = 20" "k < 160"
  shows "id_word (id_distance a b) = id_word a XOR id_word b \<and>
    id_get_bit a k = Return (bit (id_word a) (159 - k)) \<and>
    (\<exists>a'. id_set_bit a k v = Return a' \<and> length a' = 20 \<and> id_word a' = word_set_bit (id_word a) k v) \<and>
    id_cmp a b = (if id_word a < id_word b then Less else if id_word a = id_word b then Equal else Greater) \<and>
    (id_word a = id_word b \<longleftrightarrow> a = b)"
  using id_distance_eq [OF assms(1,2)] id_get_bit_eq [OF assms(1,3)] id_set_bit_eq [OF assms(1,3)]
    id_cmp_eq [of a b] id_word_inj [OF assms(1,2)] assms
  by (simp add: unat_id_word word_less_nat_alt word_unat_eq_iff)

theorem id_is_160_bit_word_witness:
  "id_word (id_distance (replicate 20 1) (replicate 20 2)) = id_word (replicate 20 1) XOR id_word (replicate 20 2)"
  by (rule conjunct1 [OF id_is_160_bit_word [of _ _ 7 True]]) simp_all

lemma xor_le_add: "u XOR v \<le> u + v" for u v :: nat
proof (induction u arbitrary: v rule: less_induct)
  case (less u)
  show ?case
  proof (cases "u = 0")
    case False
    then have "(u div 2) XOR (v div 2) \<le> u div 2 + v div 2" by (intro less) simp
    moreover have "u XOR v = (u mod 2 + v mod 2) mod 2 + 2 * ((u div 2) XOR (v div 2))"
      by (subst xor_nat_unfold) auto
    moreover have "u = u mod 2 + 2 * (u div 2)" "v = v mod 2 + 2 * (v div 2)" by simp_all
    moreover have "(u mod 2 + v mod 2) mod 2 \<le> u mod 2 + v mod 2" by simp
    ultimately show ?thesis by linarith
  qed simp
qed

text \<open>
  The distance of identifiers is a metric. It is symmetric, zero exactly on equal identifiers, it
  satisfies the triangle inequality over the integers, and for every identifier and every distance
  there is exactly one identifier at that distance.
\<close>
theorem distance_is_metric:
  assumes "length a = 20" "length b = 20" "length c = 20"
  shows "id_distance a b = id_distance b a \<and>
    (id_distance a b = replicate 20 0 \<longleftrightarrow> a = b) \<and>
    from_be (id_distance a c) \<le> from_be (id_distance a b) + from_be (id_distance b c) \<and>
    id_distance a (id_distance a b) = b"
proof -
  define x y z where "x = id_word a" and "y = id_word b" and "z = id_word c"
  have d: "from_be (id_distance u v) = unat (id_word u XOR id_word v)"
    if "length u = 20" "length v = 20" for u v
    using unat_id_word [OF id_distance_eq(1) [OF that]] id_distance_eq(2) [OF that] by simp
  have "x XOR z = (x XOR y) XOR (y XOR z)" by (simp add: xor.assoc [symmetric]) (simp add: xor.assoc)
  then have "unat (x XOR z) \<le> unat (x XOR y) + unat (y XOR z)"
    using xor_le_add [of "unat (x XOR y)" "unat (y XOR z)"] by (simp add: unsigned_xor_eq)
  then have tri: "from_be (id_distance a c) \<le> from_be (id_distance a b) + from_be (id_distance b c)"
    using assms by (simp add: d x_def y_def z_def)
  have "id_word (id_distance a (id_distance a b)) = id_word b"
    using assms id_distance_eq [of a b] id_distance_eq [of a "id_distance a b"] by (simp add: xor.assoc [symmetric])
  then have inv: "id_distance a (id_distance a b) = b"
    using assms id_distance_eq(1) id_word_inj by metis
  have sym: "id_distance a b = id_distance b a"
    by (rule nth_equalityI) (simp_all add: id_distance_def xor.commute)
  have zero: "id_distance a a = replicate 20 0"
    using assms(1) by (intro nth_equalityI) (simp_all add: id_distance_def)
  have right: "id_distance a (replicate 20 0) = a"
    using assms(1) by (intro nth_equalityI) (simp_all add: id_distance_def)
  have "id_distance a b = replicate 20 0 \<longleftrightarrow> a = b" using inv zero right by metis
  with tri inv sym show ?thesis by blast
qed

theorem distance_is_metric_witness:
  "from_be (id_distance (replicate 20 1) (replicate 20 3)) \<le>
     from_be (id_distance (replicate 20 1) (replicate 20 2)) +
     from_be (id_distance (replicate 20 2) (replicate 20 3))"
proof -
  have l: "length (replicate 20 x) = 20" for x :: byte by simp
  from distance_is_metric [OF l l l, of 1 2 3] show ?thesis by (elim conjE)
qed

end
