(* ===== verification/Readers.thy ===== *)
theory Readers
  imports Extended HashId
begin

text \<open>
  More about typed readers of bencode, shared by the DHT messages, the torrent files and the tracker
  responses: lists, identifiers, and the value serde throws away. A \<open>plain\<close> byte string is the
  serialized form of some value; the reader of ignored values accepts each of them.
\<close>

section \<open>Ignored values\<close>

lemmas walk = de_value.simps de_seq.simps de_map.simps de_ignored.simps de_ignored_seq.simps de_ignored_map.simps

lemma next_value_ignored:
  assumes "next_value sha1 rd st = Inr (x, st')"
    and "\<And>y s'. rd st = Inr (y, s') \<Longrightarrow> ig st = Inr ((), s')"
  shows "next_value sha1 ig st = Inr ((), st')"
  using assms by (auto simp: next_value_def Let_def split: sum.splits prod.splits)

lemma next_key_ignored:
  assumes "next_key st = Inr (Some k, st')"
  shows "\<exists>s. de_ignored sha1 (Suc n) (st\<lparr>parsing_key := True\<rparr>) = Inr ((), s) \<and> s\<lparr>parsing_key := False\<rparr> = st' \<and>
    \<not> starts_with (de_buf st) 101"
proof -
  have ne: "\<not> starts_with (de_buf st) 101" using assms by (auto simp: next_key_def split: if_splits)
  with assms obtain s where s: "parse_bytes_checked (st\<lparr>parsing_key := True\<rparr>) = Inr (k, s)"
    "s\<lparr>parsing_key := False\<rparr> = st'"
    by (auto simp: next_key_def split: sum.splits)
  then obtain b r where b: "de_buf st = b # r" "is_digit b"
    by (auto simp: parse_bytes_checked_def split: list.splits if_splits)
  then have "b \<noteq> 100" "b \<noteq> 105" "b \<noteq> 108" by (auto simp: is_digit_def)
  with s b ne show ?thesis by (auto simp: walk)
qed

lemma de_ignored_of_value:
  shows "de_value sha1 n st = Inr (v, st') \<Longrightarrow> de_ignored sha1 n st = Inr ((), st')"
    and "de_seq sha1 n vs st = Inr (v, st') \<Longrightarrow> de_ignored_seq sha1 n st = Inr ((), st')"
    and "de_map sha1 n m st = Inr (v, st') \<Longrightarrow> de_ignored_map sha1 n st = Inr ((), st')"
proof (induction sha1 n st and sha1 n vs st and sha1 n m st arbitrary: v st' and v st' and v st'
    rule: de_value_de_seq_de_map.induct)
  case (2 sha1 n st)
  then show ?case by (auto simp: walk split: list.splits if_splits sum.splits)
next
  case (4 sha1 n vs st)
  then show ?case by (auto simp: walk
      split: if_splits sum.splits prod.splits)
next
  case (6 sha1 n m st)
  show ?case
  proof (cases "next_key st")
    case (Inl e)
    then show ?thesis using "6.prems" by (simp add: walk)
  next
    case (Inr r)
    show ?thesis
    proof (cases "fst r")
      case None
      then show ?thesis
        using "6.prems" Inr by (cases r) (auto simp: next_key_def walk split: if_splits sum.splits)
    next
      case (Some k)
      then obtain st1 where key: "next_key st = Inr (Some k, st1)" using Inr by (cases r) simp
      with "6.prems" obtain x st2 where val: "next_value sha1 (de_value sha1 n) st1 = Inr (x, st2)"
        and rest: "de_map sha1 n (btree_insert k x m) st2 = Inr (v, st')"
        by (auto simp: walk split: sum.splits)
      from val obtain n' where n: "n = Suc n'" by (cases n) (auto simp: next_value_def walk)
      have "next_value sha1 (de_ignored sha1 n) st1 = Inr ((), st2)"
        using next_value_ignored [OF val] "6.IH"(1) [OF key refl refl] by blast
      moreover have "de_ignored_map sha1 n st2 = Inr ((), st')"
        using "6.IH"(2) [OF key refl refl val refl rest] .
      moreover note next_key_ignored [OF key, of sha1 n']
      ultimately show ?thesis by (auto simp: n de_ignored_map.simps(2))
    qed
  qed
qed (simp_all add: walk)

definition plain :: "bytes \<Rightarrow> bool" where
  "plain b \<longleftrightarrow> (\<exists>v. wf_value v \<and> b = serialize_value False v)"

definition ignored :: "(bytes \<Rightarrow> bytes) \<Rightarrow> unit de" where
  "ignored sha1 st = de_ignored sha1 (fuel_for (de_buf st)) st"

lemma reads_ignored: "plain b \<Longrightarrow> reads (ignored sha1) b ()"
proof -
  assume "plain b"
  then obtain v where v: "wf_value v" "b = serialize_value False v" by (auto simp: plain_def)
  show ?thesis
  proof (rule readsI)
    fix st :: de_state and rest
    assume "de_buf st = b @ rest" "length (de_buf st) < 2 ^ 64" "\<not> parsing_key st" "hook_idle st"
    from readsD [OF reads_de_value [OF v(1)] this [unfolded v(2)], of sha1]
    show "ignored sha1 st = Inr ((), st\<lparr>de_buf := rest\<rparr>)"
      unfolding ignored_def by (rule de_ignored_of_value(1))
  qed
qed

lemma plain_bytes: "plain (write_bytes False b)"
  unfolding plain_def by (rule exI [of _ "BBytes b"]) simp

lemma plain_number: "in_i64 i \<Longrightarrow> plain (write_number i)"
  unfolding plain_def by (intro exI [of _ "BInteger i"]) simp

lemma plain_number_word:
  "LENGTH('a::len) \<le> 63 \<Longrightarrow> plain (write_number (uint (x :: 'a word)))"
proof (rule plain_number)
  assume "LENGTH('a) \<le> 63"
  then have "(2 :: int) ^ LENGTH('a) \<le> 2 ^ 63" by (intro power_increasing) simp_all
  then have "uint x < 2 ^ 63" "- (2 ^ 63) \<le> uint x" using uint_bound [of x] uint_ge_0 [of x] by linarith+
  then show "in_i64 (uint x)" by (simp add: in_i64_def)
qed

lemma plain_list:
  assumes "\<And>x. x \<in> set xs \<Longrightarrow> plain (f x)"
  shows "plain (108 # concat (map f xs) @ [101])"
proof -
  have "\<exists>vs. list_all wf_value vs \<and> concat (map f xs) = concat (map (serialize_value False) vs)"
    using assms
  proof (induction xs)
    case (Cons x xs)
    then obtain vs v where "list_all wf_value vs" "concat (map f xs) = concat (map (serialize_value False) vs)"
      "wf_value v" "f x = serialize_value False v" by (force simp: plain_def)
    then show ?case by (intro exI [of _ "v # vs"]) simp
  qed (simp add: exI [of _ "[]"])
  then obtain vs where "list_all wf_value vs" "concat (map f xs) = concat (map (serialize_value False) vs)" by blast
  then show ?thesis unfolding plain_def by (intro exI [of _ "BList vs"]) simp
qed

lemma sort_key_keys: "distinct (map f (sort_key f xs)) \<longleftrightarrow> distinct (map f xs)"
  by (metis distinct_map distinct_sort set_sort)

lemma plain_struct:
  assumes "distinct (map fst fs)" "\<And>k b v. (k, b, v) \<in> set fs \<Longrightarrow> plain b"
  shows "plain (serialize_struct (field_entries fs))"
proof -
  let ?es = "sort_key fst (field_entries fs)"
  have p: "plain b" if "(k, b) \<in> set ?es" for k b
    using that assms(2) by (auto simp: field_entries_def)
  define val where "val b = (SOME v. wf_value v \<and> b = serialize_value False v)" for b
  have val: "wf_value (val b)" "serialize_value False (val b) = b" if "plain b" for b
    using someI_ex [of "\<lambda>v. wf_value v \<and> b = serialize_value False v"] that
    by (auto simp: plain_def val_def)
  define d where "d = map (\<lambda>(k, b). (k, val b)) ?es"
  have k: "map fst d = map fst ?es" by (simp add: d_def comp_def case_prod_unfold)
  have dist: "distinct (map fst ?es)" using assms(1) by (subst sort_key_keys) simp
  then have "keys_sorted d" unfolding k by (simp add: strict_sorted_iff)
  moreover have "list_all (\<lambda>(k, v). wf_value v) d"
    using p val(1) by (auto simp: d_def list_all_iff)
  moreover have "serialize_struct (field_entries fs) = serialize_value False (BDict d)"
  proof -
    have "map (\<lambda>(k, v). (write_bytes True k, serialize_value False v)) d = ?es"
      using p val(2) by (auto simp: d_def write_bytes_def intro!: map_idI)
    moreover have "serialize_struct (field_entries fs) = serialize_struct ?es"
    proof -
      have "map_of (rev (field_entries fs)) = map_of (rev ?es)"
        using assms(1) dist by (subst map_of_inject_set) (simp_all add: rev_map [symmetric])
      then have "map_of (fold (\<lambda>(k, v). btree_insert k v) (field_entries fs) []) =
          map_of (fold (\<lambda>(k, v). btree_insert k v) ?es [])"
        by (simp add: fold_btree_insert_map_of)
      then have "fold (\<lambda>(k, v). btree_insert k v) (field_entries fs) [] = fold (\<lambda>(k, v). btree_insert k v) ?es []"
        by (intro keys_sorted_unique) (simp_all add: keys_sorted_fold_btree_insert)
      then show ?thesis by (simp add: serialize_struct_def serialize_map_end_def)
    qed
    ultimately show ?thesis by (simp add: serialize_struct_def)
  qed
  ultimately show ?thesis unfolding plain_def by (intro exI [of _ "BDict d"]) simp
qed

section \<open>Lists\<close>

lemma starts_with_append: "b \<noteq> [] \<Longrightarrow> starts_with (b @ r) c = starts_with b c"
  by (cases b) (simp_all add: starts_with_def)

lemma write_not_end [simp]:
  "write_bytes False b \<noteq> []" "\<not> starts_with (write_bytes False b) 101"
  "write_number i \<noteq> []" "\<not> starts_with (write_number i) 101"
  using write_bytes_hd [of b "[]"] by (auto simp: is_digit_def starts_with_def write_number_def)

lemma vec_loop_reads:
  assumes "\<And>b x. (b, x) \<in> set ps \<Longrightarrow> reads rd b x \<and> b \<noteq> [] \<and> \<not> starts_with b 101"
    and "de_buf st = concat (map fst ps) @ 101 # rest" "length (de_buf st) < 2 ^ 64"
    and "\<not> parsing_key st" "hook_idle st" "length ps < n"
  shows "vec_loop n rd acc st = Inr (acc @ map snd ps, st\<lparr>de_buf := rest\<rparr>)"
  using assms
proof (induction ps arbitrary: n acc st)
  case Nil
  then show ?case by (cases n) (simp_all add: starts_with_def)
next
  case (Cons p ps)
  obtain b x where p: "p = (b, x)" by (cases p)
  obtain m where n: "n = Suc m" using Cons.prems(6) by (cases n) simp_all
  have x: "reads rd b x" "b \<noteq> [] \<and> \<not> starts_with b 101" using Cons.prems(1) p by auto
  have ps: "reads rd c y \<and> c \<noteq> [] \<and> \<not> starts_with c 101" if "(c, y) \<in> set ps" for c y
    using Cons.prems(1) [of c y] that by simp
  have buf: "de_buf st = b @ concat (map fst ps) @ 101 # rest" using Cons.prems(2) p by simp
  have "rd st = Inr (x, st\<lparr>de_buf := concat (map fst ps) @ 101 # rest\<rparr>)"
    by (rule readsD [OF x(1) buf Cons.prems(3,4,5)])
  moreover have "vec_loop m rd (acc @ [x]) (st\<lparr>de_buf := concat (map fst ps) @ 101 # rest\<rparr>) =
      Inr ((acc @ [x]) @ map snd ps, (st\<lparr>de_buf := concat (map fst ps) @ 101 # rest\<rparr>)\<lparr>de_buf := rest\<rparr>)"
    by (rule Cons.IH [OF ps]) (use Cons.prems buf in \<open>simp_all add: n\<close>)
  ultimately show ?case using x(2) buf by (simp add: n p starts_with_append)
qed

lemma reads_vec_forms:
  assumes "\<And>b x. (b, x) \<in> set ps \<Longrightarrow> reads rd b x \<and> b \<noteq> [] \<and> \<not> starts_with b 101"
  shows "reads (deserialize_vec rd) (108 # concat (map fst ps) @ [101]) (map snd ps)"
proof (rule readsI)
  fix st :: de_state and rest
  assume st: "de_buf st = (108 # concat (map fst ps) @ [101]) @ rest" "length (de_buf st) < 2 ^ 64"
    "\<not> parsing_key st" "hook_idle st"
  have "length ps \<le> length (concat (map fst ps))"
    using assms
  proof (induction ps)
    case (Cons p ps)
    then have "0 < length (fst p)" "length ps \<le> length (concat (map fst ps))"
      using Cons.prems [of "fst p" "snd p"] by auto
    then show ?case by (simp del: length_greater_0_conv)
  qed simp
  then have "vec_loop (fuel_for (de_buf st)) rd [] (st\<lparr>de_buf := drop 1 (de_buf st)\<rparr>) =
      Inr ([] @ map snd ps, (st\<lparr>de_buf := drop 1 (de_buf st)\<rparr>)\<lparr>de_buf := rest\<rparr>)"
    using st by (intro vec_loop_reads [OF assms]) (auto simp: fuel_for_def)
  then show "deserialize_vec rd st = Inr (map snd ps, st\<lparr>de_buf := rest\<rparr>)"
    using st by (simp add: deserialize_vec_def starts_with_def)
qed

lemma reads_deserialize_vec:
  assumes "\<And>x. x \<in> set xs \<Longrightarrow> reads rd (ser x) x \<and> ser x \<noteq> [] \<and> \<not> starts_with (ser x) 101"
  shows "reads (deserialize_vec rd) (108 # concat (map ser xs) @ [101]) xs"
proof -
  have "reads rd b x \<and> b \<noteq> [] \<and> \<not> starts_with b 101" if "(b, x) \<in> set (map (\<lambda>x. (ser x, x)) xs)" for b x
    using that assms by auto
  from reads_vec_forms [of "map (\<lambda>x. (ser x, x)) xs", OF this] show ?thesis by (simp add: comp_def)
qed

section \<open>Identifiers\<close>

text \<open>
  \<open>Id::deserialize\<close> asks for any value: a list or a dictionary is refused at once, an integer after it
  was parsed, and a byte string unless its length is right.
\<close>

definition deserialize_id :: "nat \<Rightarrow> bytes de" where
  "deserialize_id n st =
     (case de_buf st of
        [] \<Rightarrow> Inl (DeError EmptyInput)
      | b # r \<Rightarrow>
          if b = 100 \<or> b = 108 then Inl (DeError InvalidType)
          else if b = 105 then
            (case deserialize_i64 st of Inl e \<Rightarrow> Inl e | Inr _ \<Rightarrow> Inl (DeError InvalidType))
          else deserialize_bytes_as (id_visit_bytes n) st)"

lemma reads_deserialize_id: "length b = n \<Longrightarrow> reads (deserialize_id n) (write_bytes False b) b"
proof (rule readsI)
  fix st :: de_state and rest
  assume n: "length b = n" and st: "de_buf st = write_bytes False b @ rest" "length (de_buf st) < 2 ^ 64"
    "\<not> parsing_key st" "hook_idle st"
  obtain c r where c: "de_buf st = c # r" "is_digit c" using write_bytes_hd [of b rest] st(1) by auto
  then have "c \<noteq> 100" "c \<noteq> 108" "c \<noteq> 105" by (auto simp: is_digit_def)
  moreover have "deserialize_bytes_as (id_visit_bytes n) st = Inr (b, st\<lparr>de_buf := rest\<rparr>)"
    using n by (intro readsD [OF reads_deserialize_bytes_as st]) (simp add: id_visit_bytes_def)
  ultimately show "deserialize_id n st = Inr (b, st\<lparr>de_buf := rest\<rparr>)" using c by (simp add: deserialize_id_def)
qed

lemma good_deserialize_id: "good_reader (deserialize_id n)"
proof (rule good_readerI)
  fix st
  show "clean_failure (deserialize_id n st)"
    using good_readerD(1) [OF good_deserialize_bytes_as, of "id_visit_bytes n" st]
      good_readerD(1) [OF good_deserialize_i64, of st]
    by (auto simp: deserialize_id_def clean_failure_iff split: list.splits sum.splits)
next
  fix st v st'
  assume "deserialize_id n st = Inr (v, st')"
  then have "deserialize_bytes_as (id_visit_bytes n) st = Inr (v, st')"
    by (auto simp: deserialize_id_def split: list.splits if_splits sum.splits)
  then show "length (de_buf st') < length (de_buf st)"
    by (rule good_readerD(2) [OF good_deserialize_bytes_as])
qed

end
