(* ===== verification/BProtocol.thy ===== *)
theory BProtocol
  imports Readers
begin

text \<open>
  Model of \<open>crates/dht/src/bprotocol.rs\<close>: the messages of the DHT (KRPC). A datagram is one bencode
  dictionary, described by \<open>RawMessage\<close>; it is read twice, first with everything it carries ignored,
  to see which kind it is, and then with the types of that kind. Identifiers are their 20 bytes here.
\<close>

section \<open>The data\<close>

datatype message_type = TRequest | TResponse | TError

definition message_type_of :: "bytes \<Rightarrow> message_type option" where
  "message_type_of v =
     (if v = ascii ''q'' then Some TRequest else if v = ascii ''r'' then Some TResponse
      else if v = ascii ''e'' then Some TError else None)"

definition message_type_bytes :: "message_type \<Rightarrow> bytes" where
  "message_type_bytes t =
     (case t of TRequest \<Rightarrow> ascii ''q'' | TResponse \<Rightarrow> ascii ''r'' | TError \<Rightarrow> ascii ''e'')"

record error_description =
  err_code :: int
  err_description :: bytes

text \<open>\<open>SocketAddrV4\<close>: the address and the port.\<close>

type_synonym sock_v4 = "u32 \<times> u16"

record node =
  n_id :: bytes
  n_addr :: sock_v4

record find_node_request =
  fn_id :: bytes
  fn_target :: bytes

record get_peers_request =
  gp_id :: bytes
  gp_info_hash :: bytes

record ping_request =
  pg_id :: bytes

record announce_peer =
  an_id :: bytes
  an_implied_port :: u8
  an_info_hash :: bytes
  an_port :: u16
  an_token :: bytes

record response =
  rs_values :: "sock_v4 list option"
  rs_id :: bytes
  rs_nodes :: "node list option"
  rs_token :: "bytes option"

datatype message_kind =
    KError error_description
  | KGetPeers get_peers_request
  | KFindNode find_node_request
  | KResponse response
  | KPing ping_request
  | KAnnounce announce_peer

record dht_message =
  m_kind :: message_kind
  m_transaction_id :: bytes
  m_version :: "bytes option"
  m_ip :: "sock_v4 option"

definition get_our_transaction_id :: "dht_message \<Rightarrow> u16 option" where
  "get_our_transaction_id m =
     (case m_transaction_id m of
        [a, b] \<Rightarrow> Some (push_bit 8 (ucast a) + ucast b)
      | _ \<Rightarrow> None)"

section \<open>Compact addresses\<close>

definition compact_peer :: "sock_v4 \<Rightarrow> bytes" where
  "compact_peer a = (case a of (ip, port) \<Rightarrow>
     be32 ip @ [ucast (drop_bit 8 port), ucast (port AND 0xff)])"

definition port_of_bytes :: "byte \<Rightarrow> byte \<Rightarrow> u16" where
  "port_of_bytes hi lo = push_bit 8 (ucast hi) + ucast lo"

definition peer_of_compact :: "bytes \<Rightarrow> sock_v4 option" where
  "peer_of_compact v =
     (if length v \<noteq> 6 then None
      else Some (of_be32 (take 4 v), port_of_bytes (v ! 4) (v ! 5)))"

definition compact_nodes :: "node list \<Rightarrow> bytes" where
  "compact_nodes ns = concat (map (\<lambda>n. n_id n @ compact_peer (n_addr n)) ns)"

fun chunks_exact :: "nat \<Rightarrow> bytes \<Rightarrow> bytes list" where
  "chunks_exact n v = (if n = 0 \<or> length v < n then [] else take n v # chunks_exact n (drop n v))"

declare chunks_exact.simps [simp del]

definition nodes_of_compact :: "bytes \<Rightarrow> node list option" where
  "nodes_of_compact v =
     (if length v mod 26 \<noteq> 0 then None
      else Some (map (\<lambda>c. \<lparr>n_id = take 20 c,
        n_addr = (of_be32 (take 4 (drop 20 c)), port_of_bytes (c ! 24) (c ! 25))\<rparr>) (chunks_exact 26 v)))"

section \<open>Writing\<close>

definition serialize_error :: "error_description \<Rightarrow> bytes" where
  "serialize_error e = [108] @ write_number (err_code e) @ write_bytes False (err_description e) @ [101]"

definition serialize_peers :: "sock_v4 list \<Rightarrow> bytes" where
  "serialize_peers ps = 108 # concat (map (write_bytes False \<circ> compact_peer) ps) @ [101]"

definition response_fields :: "response \<Rightarrow> (bytes \<times> bytes) list" where
  "response_fields r =
     opt_field ''values'' serialize_peers (rs_values r)
     @ [(ascii ''id'', write_bytes False (rs_id r))]
     @ opt_field ''nodes'' (write_bytes False \<circ> compact_nodes) (rs_nodes r)
     @ opt_field ''token'' (write_bytes False) (rs_token r)"

definition announce_fields :: "announce_peer \<Rightarrow> (bytes \<times> bytes) list" where
  "announce_fields a =
     [(ascii ''id'', write_bytes False (an_id a)),
      (ascii ''implied_port'', write_number (uint (an_implied_port a))),
      (ascii ''info_hash'', write_bytes False (an_info_hash a)),
      (ascii ''port'', write_number (uint (an_port a))),
      (ascii ''token'', write_bytes False (an_token a))]"

text \<open>\<open>RawMessage\<close>, with its arguments and response already serialized.\<close>

definition raw_fields ::
  "message_type \<Rightarrow> bytes \<Rightarrow> error_description option \<Rightarrow> bytes option \<Rightarrow> bytes option \<Rightarrow> bytes option \<Rightarrow>
    bytes option \<Rightarrow> sock_v4 option \<Rightarrow> (bytes \<times> bytes) list" where
  "raw_fields t tid err resp meth args version ip =
     [(ascii ''y'', write_bytes False (message_type_bytes t)), (ascii ''t'', write_bytes False tid)]
     @ opt_field ''e'' serialize_error err
     @ opt_field ''r'' id resp
     @ opt_field ''q'' (write_bytes False) meth
     @ opt_field ''a'' id args
     @ opt_field ''v'' (write_bytes False) version
     @ opt_field ''ip'' (write_bytes False \<circ> compact_peer) ip"

definition serialize_dht_message :: "bytes \<Rightarrow> bytes option \<Rightarrow> sock_v4 option \<Rightarrow> message_kind \<Rightarrow> bytes" where
  "serialize_dht_message tid version ip kind =
     serialize_struct
       (case kind of
          KError e \<Rightarrow> raw_fields TError tid (Some e) None None None version ip
        | KGetPeers r \<Rightarrow> raw_fields TRequest tid None None (Some (ascii ''get_peers''))
            (Some (serialize_struct [(ascii ''id'', write_bytes False (gp_id r)),
               (ascii ''info_hash'', write_bytes False (gp_info_hash r))])) version ip
        | KFindNode r \<Rightarrow> raw_fields TRequest tid None None (Some (ascii ''find_node''))
            (Some (serialize_struct [(ascii ''id'', write_bytes False (fn_id r)),
               (ascii ''target'', write_bytes False (fn_target r))])) version ip
        | KResponse r \<Rightarrow> raw_fields TResponse tid None (Some (serialize_struct (response_fields r))) None None
            version ip
        | KPing r \<Rightarrow> raw_fields TRequest tid None None (Some (ascii ''ping''))
            (Some (serialize_struct [(ascii ''id'', write_bytes False (pg_id r))])) version ip
        | KAnnounce a \<Rightarrow> raw_fields TRequest tid None None (Some (ascii ''announce_peer''))
            (Some (serialize_struct (announce_fields a))) version ip)"

section \<open>Reading\<close>

definition deserialize_message_type :: "message_type de" where
  "deserialize_message_type = deserialize_bytes_as message_type_of"

text \<open>
  \<open>SeqAccess::next_element_seed\<close>, and the visitor of an error description: a list of exactly a code
  and a text. Like every list, it stops the process when the input ends where it should begin.
\<close>

definition next_element :: "'v de \<Rightarrow> 'v option de" where
  "next_element rd st =
     (if starts_with (de_buf st) 101 then Inr (None, st\<lparr>de_buf := drop 1 (de_buf st)\<rparr>)
      else (case rd st of Inl e \<Rightarrow> Inl e | Inr (x, st') \<Rightarrow> Inr (Some x, st')))"

definition deserialize_error :: "(bytes \<Rightarrow> bytes) \<Rightarrow> error_description de" where
  "deserialize_error sha1 st =
     (if \<not> starts_with (de_buf st) 108
      then (if de_buf st = [] then Inl DePanic else Inl (DeError ExpectedList))
      else
        (case next_element (deserialize_sint 32) (st\<lparr>de_buf := drop 1 (de_buf st)\<rparr>) of
           Inl e \<Rightarrow> Inl e
         | Inr (None, _) \<Rightarrow> Inl (DeError InvalidValue)
         | Inr (Some code, st1) \<Rightarrow>
             (case next_element (deserialize_bytes_as Some) st1 of
                Inl e \<Rightarrow> Inl e
              | Inr (None, _) \<Rightarrow> Inl (DeError InvalidValue)
              | Inr (Some d, st2) \<Rightarrow>
                  (case next_element (ignored sha1) st2 of
                     Inl e \<Rightarrow> Inl e
                   | Inr (Some _, _) \<Rightarrow> Inl (DeError InvalidValue)
                   | Inr (None, st3) \<Rightarrow> Inr (\<lparr>err_code = code, err_description = d\<rparr>, st3)))))"

definition require :: "(bytes \<rightharpoonup> 'v) \<Rightarrow> bytes \<Rightarrow> de_fail + 'v" where
  "require f k = (case f k of None \<Rightarrow> Inl (DeError (MissingField k)) | Some x \<Rightarrow> Inr x)"

text \<open>A derived struct: read the fields, then build the value from them.\<close>

definition de_struct_with ::
  "(bytes \<Rightarrow> bytes) \<Rightarrow> (bytes \<rightharpoonup> 'v de) \<Rightarrow> ((bytes \<rightharpoonup> 'v) \<Rightarrow> de_fail + 'a) \<Rightarrow> 'a de" where
  "de_struct_with sha1 readers build st =
     (case deserialize_struct sha1 readers st of
        Inl e \<Rightarrow> Inl e
      | Inr (acc, st') \<Rightarrow> (case build (map_of acc) of Inl e \<Rightarrow> Inl e | Inr x \<Rightarrow> Inr (x, st')))"

definition id_reader :: "bytes list \<Rightarrow> bytes \<rightharpoonup> bytes de" where
  "id_reader names k = (if k \<in> set names then Some (deserialize_id 20) else None)"

definition deserialize_find_node :: "(bytes \<Rightarrow> bytes) \<Rightarrow> find_node_request de" where
  "deserialize_find_node sha1 = de_struct_with sha1 (id_reader [ascii ''id'', ascii ''target''])
     (\<lambda>f. bind_result (require f (ascii ''id'')) (\<lambda>i.
          bind_result (require f (ascii ''target'')) (\<lambda>t. Inr \<lparr>fn_id = i, fn_target = t\<rparr>)))"

definition deserialize_get_peers :: "(bytes \<Rightarrow> bytes) \<Rightarrow> get_peers_request de" where
  "deserialize_get_peers sha1 = de_struct_with sha1 (id_reader [ascii ''id'', ascii ''info_hash''])
     (\<lambda>f. bind_result (require f (ascii ''id'')) (\<lambda>i.
          bind_result (require f (ascii ''info_hash'')) (\<lambda>h. Inr \<lparr>gp_id = i, gp_info_hash = h\<rparr>)))"

definition deserialize_ping :: "(bytes \<Rightarrow> bytes) \<Rightarrow> ping_request de" where
  "deserialize_ping sha1 = de_struct_with sha1 (id_reader [ascii ''id''])
     (\<lambda>f. bind_result (require f (ascii ''id'')) (\<lambda>i. Inr \<lparr>pg_id = i\<rparr>))"

datatype an_field = AnBytes bytes | AnU8 u8 | AnU16 u16

definition announce_readers :: "bytes \<rightharpoonup> an_field de" where
  "announce_readers k =
     (if k \<in> {ascii ''id'', ascii ''info_hash''} then Some (de_map_with AnBytes (deserialize_id 20))
      else if k = ascii ''implied_port'' then Some (de_map_with AnU8 deserialize_u8)
      else if k = ascii ''port'' then Some (de_map_with (AnU16 \<circ> word_of_int) (deserialize_uint 16))
      else if k = ascii ''token'' then Some (deserialize_bytes_as (\<lambda>b. Some (AnBytes b)))
      else None)"

fun an_bytes :: "an_field \<Rightarrow> bytes" where "an_bytes (AnBytes b) = b" | "an_bytes _ = []"
fun an_u8 :: "an_field \<Rightarrow> u8" where "an_u8 (AnU8 x) = x" | "an_u8 _ = 0"
fun an_u16 :: "an_field \<Rightarrow> u16" where "an_u16 (AnU16 x) = x" | "an_u16 _ = 0"

definition announce_of_fields :: "(bytes \<rightharpoonup> an_field) \<Rightarrow> de_fail + announce_peer" where
  "announce_of_fields f =
     bind_result (require f (ascii ''id'')) (\<lambda>i.
     bind_result (require f (ascii ''implied_port'')) (\<lambda>ip.
     bind_result (require f (ascii ''info_hash'')) (\<lambda>h.
     bind_result (require f (ascii ''port'')) (\<lambda>p.
     bind_result (require f (ascii ''token'')) (\<lambda>t.
       Inr \<lparr>an_id = an_bytes i, an_implied_port = an_u8 ip, an_info_hash = an_bytes h,
            an_port = an_u16 p, an_token = an_bytes t\<rparr>)))))"

definition deserialize_announce :: "(bytes \<Rightarrow> bytes) \<Rightarrow> announce_peer de" where
  "deserialize_announce sha1 = de_struct_with sha1 announce_readers announce_of_fields"

datatype rs_field = RsPeers "sock_v4 list" | RsBytes bytes | RsNodes "node list"

definition response_readers :: "bytes \<rightharpoonup> rs_field de" where
  "response_readers k =
     (if k = ascii ''values'' then
        Some (de_map_with RsPeers (deserialize_vec (deserialize_bytes_as peer_of_compact)))
      else if k = ascii ''id'' then Some (de_map_with RsBytes (deserialize_id 20))
      else if k = ascii ''nodes'' then Some (de_map_with RsNodes (deserialize_bytes_as nodes_of_compact))
      else if k = ascii ''token'' then Some (deserialize_bytes_as (\<lambda>b. Some (RsBytes b)))
      else None)"

fun rs_peers :: "rs_field \<Rightarrow> sock_v4 list" where "rs_peers (RsPeers x) = x" | "rs_peers _ = []"
fun rs_bytes :: "rs_field \<Rightarrow> bytes" where "rs_bytes (RsBytes x) = x" | "rs_bytes _ = []"
fun rs_node_list :: "rs_field \<Rightarrow> node list" where "rs_node_list (RsNodes x) = x" | "rs_node_list _ = []"

definition response_of_fields :: "(bytes \<rightharpoonup> rs_field) \<Rightarrow> de_fail + response" where
  "response_of_fields f =
     bind_result (require f (ascii ''id'')) (\<lambda>i.
       Inr \<lparr>rs_values = map_option rs_peers (f (ascii ''values'')), rs_id = rs_bytes i,
            rs_nodes = map_option rs_node_list (f (ascii ''nodes'')),
            rs_token = map_option rs_bytes (f (ascii ''token''))\<rparr>)"

definition deserialize_response :: "(bytes \<Rightarrow> bytes) \<Rightarrow> response de" where
  "deserialize_response sha1 = de_struct_with sha1 response_readers response_of_fields"

record ('a, 'r) raw_message =
  rm_type :: message_type
  rm_transaction_id :: bytes
  rm_error :: "error_description option"
  rm_response :: "'r option"
  rm_method :: "bytes option"
  rm_arguments :: "'a option"
  rm_version :: "bytes option"
  rm_ip :: "sock_v4 option"

datatype ('a, 'r) raw_field =
    RwType message_type | RwBytes bytes | RwError error_description | RwResp 'r | RwArgs 'a | RwIp sock_v4

definition raw_readers :: "(bytes \<Rightarrow> bytes) \<Rightarrow> 'a de \<Rightarrow> 'r de \<Rightarrow> bytes \<rightharpoonup> ('a, 'r) raw_field de" where
  "raw_readers sha1 args resp k =
     (if k = ascii ''y'' then Some (de_map_with RwType deserialize_message_type)
      else if k \<in> {ascii ''t'', ascii ''q'', ascii ''v''} then Some (deserialize_bytes_as (\<lambda>b. Some (RwBytes b)))
      else if k = ascii ''e'' then Some (de_map_with RwError (deserialize_error sha1))
      else if k = ascii ''r'' then Some (de_map_with RwResp resp)
      else if k = ascii ''a'' then Some (de_map_with RwArgs args)
      else if k = ascii ''ip'' then Some (de_map_with RwIp (deserialize_bytes_as peer_of_compact))
      else None)"

fun rw_type :: "('a, 'r) raw_field \<Rightarrow> message_type" where "rw_type (RwType t) = t" | "rw_type _ = TRequest"
fun rw_bytes :: "('a, 'r) raw_field \<Rightarrow> bytes" where "rw_bytes (RwBytes b) = b" | "rw_bytes _ = []"
fun rw_error :: "('a, 'r) raw_field \<Rightarrow> error_description option" where
  "rw_error (RwError e) = Some e" | "rw_error _ = None"
fun rw_resp :: "('a, 'r) raw_field \<Rightarrow> 'r option" where "rw_resp (RwResp x) = Some x" | "rw_resp _ = None"
fun rw_args :: "('a, 'r) raw_field \<Rightarrow> 'a option" where "rw_args (RwArgs x) = Some x" | "rw_args _ = None"
fun rw_ip :: "('a, 'r) raw_field \<Rightarrow> sock_v4 option" where "rw_ip (RwIp x) = Some x" | "rw_ip _ = None"

definition raw_of_fields :: "(bytes \<rightharpoonup> ('a, 'r) raw_field) \<Rightarrow> de_fail + ('a, 'r) raw_message" where
  "raw_of_fields f =
     bind_result (require f (ascii ''y'')) (\<lambda>y.
     bind_result (require f (ascii ''t'')) (\<lambda>t.
       Inr \<lparr>rm_type = rw_type y, rm_transaction_id = rw_bytes t,
            rm_error = Option.bind (f (ascii ''e'')) rw_error,
            rm_response = Option.bind (f (ascii ''r'')) rw_resp,
            rm_method = map_option rw_bytes (f (ascii ''q'')),
            rm_arguments = Option.bind (f (ascii ''a'')) rw_args,
            rm_version = map_option rw_bytes (f (ascii ''v'')),
            rm_ip = Option.bind (f (ascii ''ip'')) rw_ip\<rparr>))"

definition deserialize_raw :: "(bytes \<Rightarrow> bytes) \<Rightarrow> 'a de \<Rightarrow> 'r de \<Rightarrow> ('a, 'r) raw_message de" where
  "deserialize_raw sha1 args resp = de_struct_with sha1 (raw_readers sha1 args resp) raw_of_fields"

text \<open>
  \<open>deserialize_message\<close>. \<open>NotRequest\<close> and so on are the three \<open>bail!\<close>s on the shape of a message. The
  \<open>unwrap\<close> of the second reading is a branch that stops the process.
\<close>

datatype dht_error = DhtDe de_fail | UnsupportedMethod bytes | NotRequest | NotResponse | NotError

definition second_pass ::
  "(bytes \<Rightarrow> bytes) \<Rightarrow> bytes \<Rightarrow> 'a de \<Rightarrow> 'r de \<Rightarrow> (('a, 'r) raw_message \<Rightarrow> message_kind option) \<Rightarrow>
    dht_error + dht_message" where
  "second_pass sha1 buf args resp kind_of =
     (case from_bytes (deserialize_raw sha1 args resp) buf of
        Inl e \<Rightarrow> Inl (DhtDe e)
      | Inr de \<Rightarrow>
          (case kind_of de of
             None \<Rightarrow> Inl (DhtDe DePanic)
           | Some kind \<Rightarrow> Inr \<lparr>m_kind = kind, m_transaction_id = rm_transaction_id de,
               m_version = rm_version de, m_ip = rm_ip de\<rparr>))"

definition deserialize_dht_message :: "(bytes \<Rightarrow> bytes) \<Rightarrow> bytes \<Rightarrow> dht_error + dht_message" where
  "deserialize_dht_message sha1 buf =
     (case from_bytes (deserialize_raw sha1 (ignored sha1) (ignored sha1)) buf of
        Inl e \<Rightarrow> Inl (DhtDe e)
      | Inr de \<Rightarrow>
          (case rm_type de of
             TRequest \<Rightarrow>
               (case (rm_arguments de, rm_method de, rm_response de, rm_error de) of
                  (Some _, Some name, None, None) \<Rightarrow>
                    if name = ascii ''find_node'' then
                      second_pass sha1 buf (deserialize_find_node sha1) (ignored sha1)
                        (\<lambda>de. map_option KFindNode (rm_arguments de))
                    else if name = ascii ''get_peers'' then
                      second_pass sha1 buf (deserialize_get_peers sha1) (ignored sha1)
                        (\<lambda>de. map_option KGetPeers (rm_arguments de))
                    else if name = ascii ''ping'' then
                      second_pass sha1 buf (deserialize_ping sha1) (ignored sha1)
                        (\<lambda>de. map_option KPing (rm_arguments de))
                    else if name = ascii ''announce_peer'' then
                      second_pass sha1 buf (deserialize_announce sha1) (ignored sha1)
                        (\<lambda>de. map_option KAnnounce (rm_arguments de))
                    else Inl (UnsupportedMethod name)
                | _ \<Rightarrow> Inl NotRequest)
           | TResponse \<Rightarrow>
               (case (rm_arguments de, rm_response de, rm_error de) of
                  (None, Some _, None) \<Rightarrow>
                    second_pass sha1 buf (ignored sha1) (deserialize_response sha1)
                      (\<lambda>de. map_option KResponse (rm_response de))
                | _ \<Rightarrow> Inl NotResponse)
           | TError \<Rightarrow>
               (case (rm_arguments de, rm_response de, rm_error de) of
                  (None, None, Some _) \<Rightarrow>
                    second_pass sha1 buf (ignored sha1) (deserialize_response sha1)
                      (\<lambda>de. map_option KError (rm_error de))
                | _ \<Rightarrow> Inl NotError)))"

section \<open>Compact addresses come back\<close>

lemma port_roundtrip: "port_of_bytes (ucast (drop_bit 8 p)) (ucast (p AND 0xff)) = p"
proof -
  have "unat (drop_bit 8 p) = unat p div 256" by (subst unat_drop_bit_eq, subst drop_bit_eq_div) simp
  then have hi: "unat (ucast (drop_bit 8 p) :: byte) = unat p div 256"
    using u16_bound [of p] by (subst unat_ucast_fits) simp_all
  have "p AND 0xff = take_bit 8 p" by (simp add: take_bit_eq_mask mask_numeral)
  then have "unat (p AND 0xff) = take_bit 8 (unat p)" by (simp only: unsigned_take_bit_eq)
  then have "unat (p AND 0xff) = unat p mod 256" by (simp add: take_bit_eq_mod)
  then have lo: "unat (ucast (p AND 0xff) :: byte) = unat p mod 256"
    by (subst unat_ucast_fits) simp_all
  have b: "unat p div 256 < 256" using u16_bound [of p] by simp
  have "unat (push_bit 8 (ucast h) :: u16) = unat h * 256" for h :: byte
  proof -
    have "unat (ucast h :: u16) = unat h" by (rule unat_ucast_fits) (use byte_bound [of h] in simp)
    then show ?thesis
      using byte_bound [of h]
      by (simp add: push_bit_eq_mult unat_mult_fits)
  qed
  note sh = this
  have "unat (ucast h :: u16) = unat h" for h :: byte by (rule unat_ucast_fits) (use byte_bound [of h] in simp)
  then have "unat (port_of_bytes (ucast (drop_bit 8 p)) (ucast (p AND 0xff))) = unat p div 256 * 256 + unat p mod 256"
    unfolding port_of_bytes_def using b hi lo sh
    by (subst unat_add_fits) simp_all
  then show ?thesis by (simp add: word_unat_eq_iff)
qed

lemma length_compact_peer [simp]: "length (compact_peer a) = 6"
  by (cases a) (simp add: compact_peer_def)

lemma peer_roundtrip: "peer_of_compact (compact_peer a) = Some a"
  by (cases a) (simp add: peer_of_compact_def compact_peer_def nth_append port_roundtrip)

lemma chunks_concat:
  "(\<And>c. c \<in> set cs \<Longrightarrow> length c = n) \<Longrightarrow> 0 < n \<Longrightarrow> chunks_exact n (concat cs) = cs"
proof (induction cs)
  case (Cons c cs)
  then have "length c = n" by simp
  with Cons show ?case by (subst chunks_exact.simps) simp
qed (simp add: chunks_exact.simps)

lemma nodes_roundtrip:
  assumes "\<And>n. n \<in> set ns \<Longrightarrow> length (n_id n) = 20"
  shows "nodes_of_compact (compact_nodes ns) = Some ns"
proof -
  let ?f = "\<lambda>n. n_id n @ compact_peer (n_addr n)"
  have len: "length (?f n) = 26" if "n \<in> set ns" for n using assms that by simp
  have "length (compact_nodes ns) = 26 * length ns"
    using len by (induction ns) (simp_all add: compact_nodes_def)
  then have "length (compact_nodes ns) mod 26 = 0" by simp
  moreover have "chunks_exact 26 (compact_nodes ns) = map ?f ns"
    unfolding compact_nodes_def using len by (intro chunks_concat) auto
  moreover have "\<lparr>n_id = take 20 (?f n), n_addr = (of_be32 (take 4 (drop 20 (?f n))),
      port_of_bytes (?f n ! 24) (?f n ! 25))\<rparr> = n" if "n \<in> set ns" for n
  proof -
    have "?f n ! 24 = compact_peer (n_addr n) ! 4" "?f n ! 25 = compact_peer (n_addr n) ! 5"
      using assms [OF that] by (simp_all add: nth_append)
    then show ?thesis
      using assms [OF that] peer_roundtrip [of "n_addr n"] by (simp add: peer_of_compact_def)
  qed
  ultimately show ?thesis by (simp add: nodes_of_compact_def comp_def map_idI)
qed

section \<open>Messages come back\<close>

lemma reads_next_element:
  assumes "reads rd b x" "de_buf st = b @ rest" "length (de_buf st) < 2 ^ 64" "\<not> parsing_key st"
    "hook_idle st" "b \<noteq> []" "\<not> starts_with b 101"
  shows "next_element rd st = Inr (Some x, st\<lparr>de_buf := rest\<rparr>)"
  using readsD [OF assms(1-5)] assms(2,6,7) by (simp add: next_element_def starts_with_append)

lemma reads_deserialize_error:
  assumes "- (2 ^ 31) \<le> err_code e" "err_code e < 2 ^ 31"
  shows "reads (deserialize_error sha1) (serialize_error e) e"
proof (rule readsI)
  fix st :: de_state and rest
  assume st: "de_buf st = serialize_error e @ rest" "length (de_buf st) < 2 ^ 64"
    "\<not> parsing_key st" "hook_idle st"
  let ?d = "write_bytes False (err_description e) @ 101 # rest"
  have 1: "next_element (deserialize_sint 32) (st\<lparr>de_buf := drop 1 (de_buf st)\<rparr>) =
      Inr (Some (err_code e), (st\<lparr>de_buf := drop 1 (de_buf st)\<rparr>)\<lparr>de_buf := ?d\<rparr>)"
    using st assms
    by (intro reads_next_element [OF reads_deserialize_sint32 [OF assms]]) 
      (simp_all add: serialize_error_def)
  have 2: "next_element (deserialize_bytes_as Some) (st\<lparr>de_buf := ?d\<rparr>) =
      Inr (Some (err_description e), (st\<lparr>de_buf := ?d\<rparr>)\<lparr>de_buf := 101 # rest\<rparr>)"
    using st
    by (intro reads_next_element [OF reads_deserialize_bytes_as]) (simp_all add: serialize_error_def)
  show "deserialize_error sha1 st = Inr (e, st\<lparr>de_buf := rest\<rparr>)"
    using st 1 2 by (simp add: deserialize_error_def serialize_error_def starts_with_def next_element_def)
qed

lemma reads_struct:
  assumes "fields_readable readers fs" "distinct (map fst fs)" "build (map_of (field_values fs)) = Inr x"
  shows "reads (de_struct_with sha1 readers build) (serialize_struct (field_entries fs)) x"
proof (rule readsI)
  fix st :: de_state and rest
  assume st: "de_buf st = serialize_struct (field_entries fs) @ rest" "length (de_buf st) < 2 ^ 64"
    "\<not> parsing_key st" "hook_idle st"
  from struct_roundtrip [OF assms(1,2) this, of sha1] assms(3)
  show "de_struct_with sha1 readers build st = Inr (x, st\<lparr>de_buf := rest\<rparr>)"
    by (auto simp: de_struct_with_def)
qed

definition raw_forms ::
  "message_type \<Rightarrow> bytes \<Rightarrow> error_description option \<Rightarrow> (bytes \<times> 'r) option \<Rightarrow> bytes option \<Rightarrow>
    (bytes \<times> 'a) option \<Rightarrow> bytes option \<Rightarrow> sock_v4 option \<Rightarrow> ('a, 'r) raw_field field_form list" where
  "raw_forms t tid err resp meth args version ip =
     [(ascii ''y'', write_bytes False (message_type_bytes t), RwType t),
      (ascii ''t'', write_bytes False tid, RwBytes tid)]
     @ opt_form ''e'' serialize_error RwError err
     @ opt_form ''r'' fst (RwResp \<circ> snd) resp
     @ opt_form ''q'' (write_bytes False) RwBytes meth
     @ opt_form ''a'' fst (RwArgs \<circ> snd) args
     @ opt_form ''v'' (write_bytes False) RwBytes version
     @ opt_form ''ip'' (write_bytes False \<circ> compact_peer) RwIp ip"

lemma opt_field_map: "opt_field name id (map_option f z) = opt_field name f z"
  by (cases z) simp_all

lemma raw_forms_entries:
  "field_entries (raw_forms t tid err resp meth args version ip) =
     raw_fields t tid err (map_option fst resp) meth (map_option fst args) version ip"
proof -
  have "field_entries [(a, b, c), (d, e, f)] = [(a, b), (d, e)]" for a b d e and c f :: "('a, 'b) raw_field"
    by (simp add: field_entries_def)
  then show ?thesis
    unfolding raw_forms_def raw_fields_def field_append opt_form_entries opt_field_map by simp
qed

lemma raw_forms_distinct: "distinct (map fst (raw_forms t tid err resp meth args version ip))"
  unfolding raw_forms_def map_append
  by (simp add: distinct_opt_form opt_form_mem del: distinct_append)

lemma message_type_roundtrip: "message_type_of (message_type_bytes t) = Some t"
  by (cases t) (simp_all add: message_type_of_def message_type_bytes_def)

lemma raw_forms_readable:
  assumes "\<And>e. err = Some e \<Longrightarrow> - (2 ^ 31) \<le> err_code e \<and> err_code e < 2 ^ 31"
    and "\<And>b x. resp = Some (b, x) \<Longrightarrow> reads respr b x"
    and "\<And>b x. args = Some (b, x) \<Longrightarrow> reads argsr b x"
  shows "fields_readable (raw_readers sha1 argsr respr) (raw_forms t tid err resp meth args version ip)"
proof -
  have b: "fields_readable (raw_readers sha1 argsr respr) (opt_form name (write_bytes False) RwBytes z)"
    if "name \<in> {''q'', ''v''}" for name z
    using that
    by (intro opt_form_readable [where rd = "deserialize_bytes_as (\<lambda>b. Some (RwBytes b))"])
      (auto simp: raw_readers_def intro!: reads_deserialize_bytes_as)
  have e: "fields_readable (raw_readers sha1 argsr respr) (opt_form ''e'' serialize_error RwError err)"
    using assms(1)
    by (intro opt_form_readable [where rd = "de_map_with RwError (deserialize_error sha1)"])
      (auto simp: raw_readers_def intro!: reads_de_map_with reads_deserialize_error)
  have r: "fields_readable (raw_readers sha1 argsr respr) (opt_form ''r'' fst (RwResp \<circ> snd) resp)"
    using assms(2)
    by (intro opt_form_readable [where rd = "de_map_with RwResp respr"])
      (auto simp: raw_readers_def intro!: reads_de_map_with)
  have a: "fields_readable (raw_readers sha1 argsr respr) (opt_form ''a'' fst (RwArgs \<circ> snd) args)"
    using assms(3)
    by (intro opt_form_readable [where rd = "de_map_with RwArgs argsr"])
      (auto simp: raw_readers_def intro!: reads_de_map_with)
  have i: "fields_readable (raw_readers sha1 argsr respr) (opt_form ''ip'' (write_bytes False \<circ> compact_peer) RwIp ip)"
    by (intro opt_form_readable [where rd = "de_map_with RwIp (deserialize_bytes_as peer_of_compact)"])
      (auto simp: raw_readers_def peer_roundtrip intro!: reads_de_map_with reads_deserialize_bytes_as)
  have h: "fields_readable (raw_readers sha1 argsr respr)
      [(ascii ''y'', write_bytes False (message_type_bytes t), RwType t), (ascii ''t'', write_bytes False tid, RwBytes tid)]"
    by (auto simp: fields_readable_def raw_readers_def deserialize_message_type_def message_type_roundtrip
        intro!: reads_de_map_with reads_deserialize_bytes_as)
  show ?thesis unfolding raw_forms_def field_append using h e r b a i by simp
qed

lemma raw_forms_values:
  "raw_of_fields (map_of (field_values (raw_forms t tid err resp meth args version ip))) =
     Inr \<lparr>rm_type = t, rm_transaction_id = tid, rm_error = err, rm_response = map_option snd resp,
       rm_method = meth, rm_arguments = map_option snd args, rm_version = version, rm_ip = ip\<rparr>"
proof -
  have head: "field_values ((a, b, c) # r) = (a, c) # field_values r" for a b r and c :: "('a, 'b) raw_field"
    by (simp add: field_values_def)
  have last: "map_of (field_values (opt_form name ser val z)) k =
      (if k = ascii name \<and> z \<noteq> None then map_option val z else None)"
    for name ser k and val :: "'c \<Rightarrow> ('a, 'b) raw_field" and z
    using map_of_opt [of name ser val z "[]" k] by simp
  have conv: "Option.bind (map_option RwError e) rw_error = e"
    "Option.bind (map_option (RwResp \<circ> snd) r) rw_resp = map_option snd r"
    "Option.bind (map_option (RwArgs \<circ> snd) a) rw_args = map_option snd a"
    "Option.bind (map_option RwIp i) rw_ip = i" "map_option rw_bytes (map_option RwBytes b) = b"
    for e i b and r :: "(bytes \<times> 'b) option" and a :: "(bytes \<times> 'a) option"
    by (cases e; cases r; cases a; cases i; cases b; simp)+
  let ?m = "map_of (field_values (raw_forms t tid err resp meth args version ip))"
  note look = raw_forms_def field_append head map_of_opt last
  have "?m (ascii ''y'') = Some (RwType t)" "?m (ascii ''t'') = Some (RwBytes tid)"
    by (simp_all add: look del: map_of_append)
  moreover have "?m (ascii ''e'') = map_option RwError err" by (cases err) (simp_all add: look del: map_of_append)
  moreover have "?m (ascii ''r'') = map_option (RwResp \<circ> snd) resp"
    by (cases resp) (simp_all add: look del: map_of_append)
  moreover have "?m (ascii ''q'') = map_option RwBytes meth" by (cases meth) (simp_all add: look del: map_of_append)
  moreover have "?m (ascii ''a'') = map_option (RwArgs \<circ> snd) args"
    by (cases args) (simp_all add: look del: map_of_append)
  moreover have "?m (ascii ''v'') = map_option RwBytes version"
    by (cases version) (simp_all add: look del: map_of_append)
  moreover have "?m (ascii ''ip'') = map_option RwIp ip" by (cases ip) (simp_all add: look del: map_of_append)
  ultimately show ?thesis unfolding raw_of_fields_def by (simp only: require_def option.case bind_result.simps conv) simp
qed

lemma raw_reads:
  assumes "\<And>e. err = Some e \<Longrightarrow> - (2 ^ 31) \<le> err_code e \<and> err_code e < 2 ^ 31"
    and "\<And>b x. resp = Some (b, x) \<Longrightarrow> reads respr b x"
    and "\<And>b x. args = Some (b, x) \<Longrightarrow> reads argsr b x"
    and "buf = serialize_struct (raw_fields t tid err (map_option fst resp) meth (map_option fst args) version ip)"
    and "length buf < 2 ^ 64"
  shows "from_bytes (deserialize_raw hash argsr respr) buf =
     Inr \<lparr>rm_type = t, rm_transaction_id = tid, rm_error = err, rm_response = map_option snd resp,
       rm_method = meth, rm_arguments = map_option snd args, rm_version = version, rm_ip = ip\<rparr>"
proof -
  have "reads (deserialize_raw hash argsr respr) buf
     \<lparr>rm_type = t, rm_transaction_id = tid, rm_error = err, rm_response = map_option snd resp,
       rm_method = meth, rm_arguments = map_option snd args, rm_version = version, rm_ip = ip\<rparr>"
    unfolding deserialize_raw_def assms(4) raw_forms_entries [symmetric]
    by (rule reads_struct, rule raw_forms_readable) (use assms in \<open>auto simp: raw_forms_distinct raw_forms_values\<close>)
  from readsD [OF this, of "new_from_buf buf" "[]"] assms(5) show ?thesis by (simp add: from_bytes_def)
qed

section \<open>The payloads come back\<close>

lemma field_entries_Cons: "field_entries ((k, b, v) # r) = (k, b) # field_entries r" "field_entries [] = []"
  by (simp_all add: field_entries_def)

lemma field_values_Cons: "field_values ((k, b, v) # r) = (k, v) # field_values r" "field_values [] = []"
  by (simp_all add: field_values_def)

lemma fields_readable_Cons:
  "fields_readable flds ((k, b, v) # r) \<longleftrightarrow> (\<exists>rd. flds k = Some rd \<and> reads rd b v) \<and> fields_readable flds r"
  "fields_readable flds []"
  by (auto simp: fields_readable_def)

text \<open>A struct of named identifiers.\<close>

definition id_forms :: "(bytes \<times> bytes) list \<Rightarrow> bytes field_form list" where
  "id_forms fs = map (\<lambda>(k, v). (k, write_bytes False v, v)) fs"

lemma reads_ids:
  assumes "\<And>k v. (k, v) \<in> set fs \<Longrightarrow> length v = 20 \<and> k \<in> set names" "distinct (map fst fs)"
    and "build (map_of fs) = Inr x"
  shows "reads (de_struct_with sha1 (id_reader names) build)
    (serialize_struct (map (\<lambda>(k, v). (k, write_bytes False v)) fs)) x"
proof -
  have 1: "field_entries (id_forms fs) = map (\<lambda>(k, v). (k, write_bytes False v)) fs"
    "field_values (id_forms fs) = fs" "map fst (id_forms fs) = map fst fs"
    by (simp_all add: field_entries_def field_values_def id_forms_def comp_def case_prod_unfold)
  have 2: "fields_readable (id_reader names) (id_forms fs)"
    using assms(1) reads_deserialize_id [where n = 20]
    by (auto simp: fields_readable_def id_forms_def id_reader_def)
  show ?thesis
    unfolding 1(1) [symmetric] by (rule reads_struct [OF 2]) (simp_all add: 1 assms(2,3))
qed

lemma plain_ids: "distinct (map fst fs) \<Longrightarrow> plain (serialize_struct (map (\<lambda>(k, v). (k, write_bytes False v)) fs))"
proof -
  assume d: "distinct (map fst fs)"
  have "field_entries (id_forms fs) = map (\<lambda>(k, v). (k, write_bytes False v)) fs" "map fst (id_forms fs) = map fst fs"
    by (simp_all add: field_entries_def id_forms_def comp_def case_prod_unfold)
  moreover have "plain b" if "(k, b, v) \<in> set (id_forms fs)" for k b v
    using that plain_bytes by (auto simp: id_forms_def)
  ultimately show ?thesis using plain_struct [of "id_forms fs"] d by metis
qed

lemma reads_get_peers:
  assumes "length (gp_id r) = 20" "length (gp_info_hash r) = 20"
  shows "reads (deserialize_get_peers sha1) (serialize_struct [(ascii ''id'', write_bytes False (gp_id r)), (ascii ''info_hash'', write_bytes False (gp_info_hash r))]) r"
    "plain (serialize_struct [(ascii ''id'', write_bytes False (gp_id r)), (ascii ''info_hash'', write_bytes False (gp_info_hash r))])"
proof -
  let ?fs = "[(ascii ''id'', gp_id r), (ascii ''info_hash'', gp_info_hash r)]"
  have "reads (deserialize_get_peers sha1) (serialize_struct (map (\<lambda>(k, v). (k, write_bytes False v)) ?fs)) r"
    unfolding deserialize_get_peers_def by (rule reads_ids) (use assms in \<open>auto simp: require_def\<close>)
  then show "reads (deserialize_get_peers sha1) (serialize_struct [(ascii ''id'', write_bytes False (gp_id r)), (ascii ''info_hash'', write_bytes False (gp_info_hash r))]) r" by simp
  show "plain (serialize_struct [(ascii ''id'', write_bytes False (gp_id r)), (ascii ''info_hash'', write_bytes False (gp_info_hash r))])" using plain_ids [of ?fs] by simp
qed

lemma reads_find_node:
  assumes "length (fn_id r) = 20" "length (fn_target r) = 20"
  shows "reads (deserialize_find_node sha1) (serialize_struct [(ascii ''id'', write_bytes False (fn_id r)), (ascii ''target'', write_bytes False (fn_target r))]) r"
    "plain (serialize_struct [(ascii ''id'', write_bytes False (fn_id r)), (ascii ''target'', write_bytes False (fn_target r))])"
proof -
  let ?fs = "[(ascii ''id'', fn_id r), (ascii ''target'', fn_target r)]"
  have "reads (deserialize_find_node sha1) (serialize_struct (map (\<lambda>(k, v). (k, write_bytes False v)) ?fs)) r"
    unfolding deserialize_find_node_def by (rule reads_ids) (use assms in \<open>auto simp: require_def\<close>)
  then show "reads (deserialize_find_node sha1) (serialize_struct [(ascii ''id'', write_bytes False (fn_id r)), (ascii ''target'', write_bytes False (fn_target r))]) r" by simp
  show "plain (serialize_struct [(ascii ''id'', write_bytes False (fn_id r)), (ascii ''target'', write_bytes False (fn_target r))])" using plain_ids [of ?fs] by simp
qed

lemma reads_ping:
  assumes "length (pg_id r) = 20"
  shows "reads (deserialize_ping sha1) (serialize_struct [(ascii ''id'', write_bytes False (pg_id r))]) r"
    "plain (serialize_struct [(ascii ''id'', write_bytes False (pg_id r))])"
proof -
  let ?fs = "[(ascii ''id'', pg_id r)]"
  have "reads (deserialize_ping sha1) (serialize_struct (map (\<lambda>(k, v). (k, write_bytes False v)) ?fs)) r"
    unfolding deserialize_ping_def by (rule reads_ids) (use assms in \<open>auto simp: require_def\<close>)
  then show "reads (deserialize_ping sha1) (serialize_struct [(ascii ''id'', write_bytes False (pg_id r))]) r" by simp
  show "plain (serialize_struct [(ascii ''id'', write_bytes False (pg_id r))])" using plain_ids [of ?fs] by simp
qed

definition announce_forms :: "announce_peer \<Rightarrow> an_field field_form list" where
  "announce_forms a =
     [(ascii ''id'', write_bytes False (an_id a), AnBytes (an_id a)),
      (ascii ''implied_port'', write_number (uint (an_implied_port a)), AnU8 (an_implied_port a)),
      (ascii ''info_hash'', write_bytes False (an_info_hash a), AnBytes (an_info_hash a)),
      (ascii ''port'', write_number (uint (an_port a)), AnU16 (an_port a)),
      (ascii ''token'', write_bytes False (an_token a), AnBytes (an_token a))]"

lemma announce_entries: "announce_fields a = field_entries (announce_forms a)"
  by (simp add: announce_fields_def announce_forms_def field_entries_def)

lemma reads_u16: "reads (de_map_with (AnU16 \<circ> word_of_int) (deserialize_uint 16)) (write_number (uint x)) (AnU16 x)"
  using reads_de_map_with [OF reads_deserialize_uint [of 16 "uint x"], of "AnU16 \<circ> word_of_int"] uint_bound [of x]
  by simp

lemma reads_announce:
  assumes "length (an_id a) = 20" "length (an_info_hash a) = 20"
  shows "reads (deserialize_announce sha1) (serialize_struct (announce_fields a)) a"
  unfolding deserialize_announce_def announce_entries
proof (rule reads_struct)
  note i = reads_de_map_with [OF reads_deserialize_id, where f = AnBytes]
  show "fields_readable announce_readers (announce_forms a)"
    using i [OF assms(1)] i [OF assms(2)] reads_u16 reads_de_map_with [OF reads_deserialize_u8, where f = AnU8]
    by (auto simp: announce_forms_def fields_readable_Cons announce_readers_def intro!: reads_deserialize_bytes_as)
  show "distinct (map fst (announce_forms a))" by (simp add: announce_forms_def)
  show "announce_of_fields (map_of (field_values (announce_forms a))) = Inr a"
    by (simp add: announce_forms_def field_values_Cons announce_of_fields_def require_def)
qed

lemma plain_announce: "plain (serialize_struct (announce_fields a))"
  unfolding announce_entries
  by (rule plain_struct) (auto simp: announce_forms_def plain_bytes plain_number_word)

lemma opt_form_set: "x \<in> set (opt_form name ser val z) \<longleftrightarrow> (\<exists>y. z = Some y \<and> x = (ascii name, ser y, val y))"
  by (cases z) auto

definition response_forms :: "response \<Rightarrow> rs_field field_form list" where
  "response_forms r =
     opt_form ''values'' serialize_peers RsPeers (rs_values r)
     @ [(ascii ''id'', write_bytes False (rs_id r), RsBytes (rs_id r))]
     @ opt_form ''nodes'' (write_bytes False \<circ> compact_nodes) RsNodes (rs_nodes r)
     @ opt_form ''token'' (write_bytes False) RsBytes (rs_token r)"

lemma response_entries: "response_fields r = field_entries (response_forms r)"
  unfolding response_fields_def response_forms_def field_append opt_form_entries by (simp add: field_entries_Cons)

definition wf_response :: "response \<Rightarrow> bool" where
  "wf_response r \<longleftrightarrow> length (rs_id r) = 20 \<and>
     (case rs_nodes r of None \<Rightarrow> True | Some ns \<Rightarrow> \<forall>n \<in> set ns. length (n_id n) = 20)"

lemma reads_peers: "reads (deserialize_vec (deserialize_bytes_as peer_of_compact)) (serialize_peers ps) ps"
  unfolding serialize_peers_def
  by (rule reads_deserialize_vec) (simp add: peer_roundtrip reads_deserialize_bytes_as)

lemma distinct_response_forms: "distinct (map fst (response_forms r))"
  unfolding response_forms_def map_append
  by (simp add: distinct_opt_form opt_form_mem del: distinct_append)

lemma reads_response:
  assumes "wf_response r"
  shows "reads (deserialize_response sha1) (serialize_struct (response_fields r)) r"
  unfolding deserialize_response_def response_entries
proof (rule reads_struct [OF _ distinct_response_forms])
  have n: "nodes_of_compact (compact_nodes ns) = Some ns" if "rs_nodes r = Some ns" for ns
    using that assms by (intro nodes_roundtrip) (simp add: wf_response_def)
  have "fields_readable response_readers (opt_form ''values'' serialize_peers RsPeers (rs_values r))"
    by (intro opt_form_readable [where rd = "de_map_with RsPeers (deserialize_vec (deserialize_bytes_as peer_of_compact))"])
      (auto simp: response_readers_def intro!: reads_de_map_with reads_peers)
  moreover have "fields_readable response_readers (opt_form ''nodes'' (write_bytes False \<circ> compact_nodes) RsNodes (rs_nodes r))"
    using n
    by (intro opt_form_readable [where rd = "de_map_with RsNodes (deserialize_bytes_as nodes_of_compact)"])
      (auto simp: response_readers_def intro!: reads_de_map_with reads_deserialize_bytes_as)
  moreover have "fields_readable response_readers (opt_form ''token'' (write_bytes False) RsBytes (rs_token r))"
    by (intro opt_form_readable [where rd = "deserialize_bytes_as (\<lambda>b. Some (RsBytes b))"])
      (auto simp: response_readers_def intro!: reads_deserialize_bytes_as)
  moreover have "fields_readable response_readers [(ascii ''id'', write_bytes False (rs_id r), RsBytes (rs_id r))]"
    using assms reads_de_map_with [OF reads_deserialize_id [where n = 20], where f = RsBytes]
    by (simp add: fields_readable_Cons response_readers_def wf_response_def)
  ultimately show "fields_readable response_readers (response_forms r)"
    unfolding response_forms_def field_append by simp
  let ?m = "map_of (field_values (response_forms r))"
  have last: "map_of (field_values (opt_form name ser val z)) k =
      (if k = ascii name \<and> z \<noteq> None then map_option val z else None)"
    for name ser k and val :: "'a \<Rightarrow> rs_field" and z
    using map_of_opt [of name ser val z "[]" k] by simp
  note look = response_forms_def field_append field_values_Cons map_of_opt last
  have "?m (ascii ''values'') = map_option RsPeers (rs_values r)"
    by (cases "rs_values r") (simp_all add: look del: map_of_append)
  moreover have "?m (ascii ''id'') = Some (RsBytes (rs_id r))" by (simp add: look del: map_of_append)
  moreover have "?m (ascii ''nodes'') = map_option RsNodes (rs_nodes r)"
    by (cases "rs_nodes r") (simp_all add: look del: map_of_append)
  moreover have "?m (ascii ''token'') = map_option RsBytes (rs_token r)"
    by (cases "rs_token r") (simp_all add: look del: map_of_append)
  ultimately show "response_of_fields ?m = Inr r"
    by (simp only: response_of_fields_def require_def option.case bind_result.simps)
      (simp add: option.map_comp comp_def option.map_ident)
qed

lemma plain_response: "plain (serialize_struct (response_fields r))"
proof -
  have "plain (serialize_peers ps)" for ps
    unfolding serialize_peers_def by (rule plain_list) (simp add: plain_bytes)
  then show ?thesis
    unfolding response_entries
    by (intro plain_struct [OF distinct_response_forms])
      (auto simp: response_forms_def plain_bytes opt_form_set)
qed

section \<open>Correctness\<close>

definition wf_kind :: "message_kind \<Rightarrow> bool" where
  "wf_kind kind =
     (case kind of
        KError e \<Rightarrow> - (2 ^ 31) \<le> err_code e \<and> err_code e < 2 ^ 31
      | KGetPeers r \<Rightarrow> length (gp_id r) = 20 \<and> length (gp_info_hash r) = 20
      | KFindNode r \<Rightarrow> length (fn_id r) = 20 \<and> length (fn_target r) = 20
      | KResponse r \<Rightarrow> wf_response r
      | KPing r \<Rightarrow> length (pg_id r) = 20
      | KAnnounce a \<Rightarrow> length (an_id a) = 20 \<and> length (an_info_hash a) = 20)"

lemma request_reads:
  assumes "plain args" "reads argsr args x" "length buf < 2 ^ 64"
    and "buf = serialize_struct (raw_fields TRequest tid None None (Some meth) (Some args) version ip)"
  shows "from_bytes (deserialize_raw sha1 (ignored sha1) (ignored sha1)) buf =
      Inr \<lparr>rm_type = TRequest, rm_transaction_id = tid, rm_error = None, rm_response = None,
        rm_method = Some meth, rm_arguments = Some (), rm_version = version, rm_ip = ip\<rparr>"
    and "from_bytes (deserialize_raw sha1 argsr (ignored sha1)) buf =
      Inr \<lparr>rm_type = TRequest, rm_transaction_id = tid, rm_error = None, rm_response = None,
        rm_method = Some meth, rm_arguments = Some x, rm_version = version, rm_ip = ip\<rparr>"
  using raw_reads [where err = None and resp = "None :: (bytes \<times> unit) option" and args = "Some (args, ())" and argsr = "ignored sha1"
      and respr = "ignored sha1" and buf = buf and t = TRequest and tid = tid and meth = "Some meth" and version = version and ip = ip
      and hash = sha1]
    raw_reads [where err = None and resp = "None :: (bytes \<times> unit) option" and args = "Some (args, x)" and argsr = argsr
      and respr = "ignored sha1" and buf = buf and t = TRequest and tid = tid and meth = "Some meth" and version = version and ip = ip
      and hash = sha1]
    assms reads_ignored [of args sha1]
  by simp_all

text \<open>
  C34: a DHT message that was written is read back the same: its kind with all the fields, the
  transaction id, the version and the address. The reader sees the whole datagram twice, ignoring the
  payload the first time.
\<close>
theorem dht_message_roundtrip:
  assumes "wf_kind kind" "length (serialize_dht_message tid version ip kind) < 2 ^ 64"
  shows "deserialize_dht_message sha1 (serialize_dht_message tid version ip kind) =
    Inr \<lparr>m_kind = kind, m_transaction_id = tid, m_version = version, m_ip = ip\<rparr>"
proof (cases kind)
  case (KError e)
  let ?buf = "serialize_struct (raw_fields TError tid (Some e) None None None version ip)"
  have "from_bytes (deserialize_raw sha1 (ignored sha1) respr) ?buf =
      Inr \<lparr>rm_type = TError, rm_transaction_id = tid, rm_error = Some e, rm_response = None,
        rm_method = None, rm_arguments = None, rm_version = version, rm_ip = ip\<rparr>" for respr :: "'x de"
    using raw_reads [where err = "Some e" and resp = "None :: (bytes \<times> 'x) option" and args = "None :: (bytes \<times> unit) option" and buf = ?buf
        and t = TError and tid = tid and meth = None and version = version and ip = ip and hash = sha1
        and argsr = "ignored sha1" and respr = respr] assms KError
    by (simp add: wf_kind_def serialize_dht_message_def)
  note raw = this
  show ?thesis
    by (simp add: KError serialize_dht_message_def deserialize_dht_message_def raw second_pass_def)
next
  case (KGetPeers r)
  then have l: "length (gp_id r) = 20" "length (gp_info_hash r) = 20" using assms(1) by (simp_all add: wf_kind_def)
  note q = request_reads [OF reads_get_peers(2) [OF l] reads_get_peers(1) [OF l] assms(2), where tid = tid and version = version and ip = ip]
  show ?thesis
    using q [where meth = "ascii ''get_peers''"]
    by (simp add: KGetPeers serialize_dht_message_def deserialize_dht_message_def second_pass_def)
next
  case (KFindNode r)
  then have l: "length (fn_id r) = 20" "length (fn_target r) = 20" using assms(1) by (simp_all add: wf_kind_def)
  note q = request_reads [OF reads_find_node(2) [OF l] reads_find_node(1) [OF l] assms(2), where tid = tid and version = version and ip = ip]
  show ?thesis
    using q [where meth = "ascii ''find_node''"]
    by (simp add: KFindNode serialize_dht_message_def deserialize_dht_message_def second_pass_def)
next
  case (KPing r)
  then have l: "length (pg_id r) = 20" using assms(1) by (simp_all add: wf_kind_def)
  note q = request_reads [OF reads_ping(2) [OF l] reads_ping(1) [OF l] assms(2), where tid = tid and version = version and ip = ip]
  show ?thesis
    using q [where meth = "ascii ''ping''"]
    by (simp add: KPing serialize_dht_message_def deserialize_dht_message_def second_pass_def)
next
  case (KAnnounce a)
  then have l: "length (an_id a) = 20" "length (an_info_hash a) = 20" using assms(1) by (simp_all add: wf_kind_def)
  note q = request_reads [OF plain_announce reads_announce [OF l] assms(2), where tid = tid and version = version and ip = ip]
  show ?thesis
    using q [where meth = "ascii ''announce_peer''"]
    by (simp add: KAnnounce serialize_dht_message_def deserialize_dht_message_def second_pass_def)
next
  case (KResponse r)
  let ?p = "serialize_struct (response_fields r)"
  let ?buf = "serialize_struct (raw_fields TResponse tid None (Some ?p) None None version ip)"
  have "from_bytes (deserialize_raw sha1 (ignored sha1) respr) ?buf =
      Inr \<lparr>rm_type = TResponse, rm_transaction_id = tid, rm_error = None, rm_response = Some x,
        rm_method = None, rm_arguments = None, rm_version = version, rm_ip = ip\<rparr>"
    if "reads respr ?p x" for respr :: "'x de" and x
    using raw_reads [where err = None and resp = "Some (?p, x)" and args = "None :: (bytes \<times> unit) option" and buf = ?buf
        and t = TResponse and tid = tid and meth = None and version = version and ip = ip and hash = sha1
        and argsr = "ignored sha1" and respr = respr] that assms KResponse
    by (simp add: serialize_dht_message_def)
  note raw = this
  have "wf_response r" using assms(1) KResponse by (simp add: wf_kind_def)
  note raws = raw [OF reads_ignored [OF plain_response]] raw [OF reads_response [OF this]]
  show ?thesis
    by (simp add: KResponse serialize_dht_message_def deserialize_dht_message_def raws second_pass_def)
qed

theorem dht_message_roundtrip_witness:
  "deserialize_dht_message (\<lambda>b. b)
     (serialize_dht_message (ascii ''aa'') (Some (ascii ''rq'')) None (KPing \<lparr>pg_id = replicate 20 7\<rparr>)) =
   Inr \<lparr>m_kind = KPing \<lparr>pg_id = replicate 20 7\<rparr>, m_transaction_id = ascii ''aa'',
     m_version = Some (ascii ''rq''), m_ip = None\<rparr>"
proof (rule dht_message_roundtrip)
  show "wf_kind (KPing \<lparr>pg_id = replicate 20 7\<rparr>)" by (simp add: wf_kind_def)
  have "length (serialize_dht_message (ascii ''aa'') (Some (ascii ''rq'')) None (KPing \<lparr>pg_id = replicate 20 7\<rparr>)) = 63"
    by code_simp
  then show "length (serialize_dht_message (ascii ''aa'') (Some (ascii ''rq'')) None
      (KPing \<lparr>pg_id = replicate 20 7\<rparr>)) < 2 ^ 64" by simp
qed

text \<open>
  The shortest datagram that stops the process: a dictionary that announces an error and ends
  there. The reader of lists looks at the first byte of an empty rest for its error message.
\<close>
theorem truncated_error_panics:
  "deserialize_dht_message sha1 (ascii ''d1:e'') = Inl (DhtDe DePanic)"
proof -
  let ?st = "(new_from_buf (ascii ''d1:e''))\<lparr>de_buf := ascii ''1:e''\<rparr>"
  have "show_nat 1 = [49]" by (simp add: show_nat.simps)
  then have "de_buf ?st = write_bytes False (ascii ''e'') @ []" by (simp add: write_bytes_def)
  from next_key_write_bytes [OF this]
  have "next_key ?st = Inr (Some (ascii ''e''), ?st\<lparr>de_buf := [], field_context := [ascii ''e'']\<rparr>)"
    by (simp add: new_from_buf_def)
  then have "struct_loop sha1 (raw_readers sha1 (ignored sha1) (ignored sha1)) (Suc n) [] ?st = Inl DePanic" for n
    by (simp add: raw_readers_def next_value_def de_map_with_def deserialize_error_def starts_with_def)
  from this [of 9] show ?thesis
    by (simp add: deserialize_dht_message_def from_bytes_def deserialize_raw_def de_struct_with_def
        deserialize_struct_def starts_with_def fuel_for_def)
qed

end
