(* ===== verification/TorrentMetainfo.thy ===== *)
theory TorrentMetainfo
  imports BProtocol
begin

text \<open>
  Model of \<open>crates/librqbit_core/src/torrent_metainfo.rs\<close>: the parsed torrent file, its list of files,
  its piece hashes, and the file names, which are checked before they become paths. The path functions
  of the standard library are those of Unix: the separator is \<open>/\<close>.
\<close>

record torrent_file =
  tf_length :: u64
  tf_path :: "bytes list"

record torrent_info =
  ti_name :: "bytes option"
  ti_pieces :: bytes
  ti_piece_length :: u32
  ti_length :: "u64 option"
  ti_md5sum :: "bytes option"
  ti_files :: "torrent_file list option"

record torrent_meta =
  tm_announce :: bytes
  tm_announce_list :: "bytes list list"
  tm_info :: torrent_info
  tm_comment :: "bytes option"
  tm_created_by :: "bytes option"
  tm_encoding :: "bytes option"
  tm_publisher :: "bytes option"
  tm_publisher_url :: "bytes option"
  tm_creation_date :: "u64 option"
  tm_info_hash :: bytes

definition iter_announce :: "torrent_meta \<Rightarrow> bytes list" where
  "iter_announce t =
     (if concat (tm_announce_list t) \<noteq> [] then concat (tm_announce_list t) else [tm_announce t])"

section \<open>The files of a torrent\<close>

datatype file_iterator_name = SingleName "bytes option" | TreeName "bytes list"

datatype meta_error =
  NoFiles | SingleAndMulti | NotUtf8Name | PathTraversal bytes | SuspiciousSeparator bytes

definition iter_filenames_and_lengths ::
  "torrent_info \<Rightarrow> meta_error + (file_iterator_name \<times> u64) list" where
  "iter_filenames_and_lengths info =
     (case (ti_length info, ti_files info) of
        (Some len, None) \<Rightarrow> Inr [(SingleName (ti_name info), len)]
      | (None, Some files) \<Rightarrow>
          if files = [] then Inl NoFiles
          else Inr (map (\<lambda>f. (TreeName (tf_path f), tf_length f)) files)
      | _ \<Rightarrow> Inl SingleAndMulti)"

definition iter_file_lengths :: "torrent_info \<Rightarrow> meta_error + u64 list" where
  "iter_file_lengths info = bind_result (iter_filenames_and_lengths info) (\<lambda>fs. Inr (map snd fs))"

definition get_hash :: "torrent_info \<Rightarrow> u32 \<Rightarrow> bytes option" where
  "get_hash info piece =
     (let start = unat piece * 20; end = start + 20 in get_range (ti_pieces info) start end)"

definition compare_hash :: "torrent_info \<Rightarrow> u32 \<Rightarrow> bytes \<Rightarrow> bool option" where
  "compare_hash info piece hash =
     (let start = unat piece * 20; end = start + 20 in
      case get_range (ti_pieces info) start end of
        None \<Rightarrow> None
      | Some expected \<Rightarrow> Some (expected = hash))"

section \<open>File names\<close>

text \<open>\<open>std::str::from_utf8\<close>: the well-formed byte sequences of the Unicode standard.\<close>

definition utf8_cont :: "byte \<Rightarrow> bool" where
  "utf8_cont b \<longleftrightarrow> 128 \<le> b \<and> b \<le> 191"

fun utf8_valid :: "bytes \<Rightarrow> bool" where
  "utf8_valid [] = True"
| "utf8_valid (a # r) =
     (if a < 128 then utf8_valid r
      else if 194 \<le> a \<and> a \<le> 223 then
        (case r of b # r' \<Rightarrow> utf8_cont b \<and> utf8_valid r' | _ \<Rightarrow> False)
      else if 224 \<le> a \<and> a \<le> 239 then
        (case r of b # c # r' \<Rightarrow>
           (if a = 224 then 160 \<le> b \<and> b \<le> 191 else if a = 237 then 128 \<le> b \<and> b \<le> 159 else utf8_cont b) \<and>
           utf8_cont c \<and> utf8_valid r' | _ \<Rightarrow> False)
      else if 240 \<le> a \<and> a \<le> 244 then
        (case r of b # c # d # r' \<Rightarrow>
           (if a = 240 then 144 \<le> b \<and> b \<le> 191 else if a = 244 then 128 \<le> b \<and> b \<le> 143 else utf8_cont b) \<and>
           utf8_cont c \<and> utf8_cont d \<and> utf8_valid r' | _ \<Rightarrow> False)
      else False)"

definition SEPARATOR :: byte where "SEPARATOR = 47"
definition DOTDOT :: bytes where "DOTDOT = [46, 46]"

definition check_component :: "bytes \<Rightarrow> meta_error + bytes" where
  "check_component part =
     (if \<not> utf8_valid part then Inl NotUtf8Name
      else if part = DOTDOT then Inl (PathTraversal part)
      else if SEPARATOR \<in> set part then Inl (SuspiciousSeparator part)
      else Inr part)"

definition iter_components :: "file_iterator_name \<Rightarrow> (meta_error + bytes) list" where
  "iter_components name =
     (case name of
        SingleName None \<Rightarrow> [Inr (ascii ''torrent-content'')]
      | SingleName (Some n) \<Rightarrow> [check_component n]
      | TreeName t \<Rightarrow> map check_component t)"

fun collect_results :: "('e + 'a) list \<Rightarrow> 'e + 'a list" where
  "collect_results [] = Inr []"
| "collect_results (Inl e # r) = Inl e"
| "collect_results (Inr x # r) = (case collect_results r of Inl e \<Rightarrow> Inl e | Inr xs \<Rightarrow> Inr (x # xs))"

definition name_to_vec :: "file_iterator_name \<Rightarrow> meta_error + bytes list" where
  "name_to_vec name = collect_results (iter_components name)"

fun push_bits :: "nat \<Rightarrow> bytes \<Rightarrow> (meta_error + bytes) list \<Rightarrow> meta_error + bytes" where
  "push_bits idx buf [] = Inr buf"
| "push_bits idx buf (Inl e # r) = Inl e"
| "push_bits idx buf (Inr part # r) =
     push_bits (idx + 1) ((if idx > 0 then buf @ [SEPARATOR] else buf) @ part) r"

definition name_to_string :: "file_iterator_name \<Rightarrow> meta_error + bytes" where
  "name_to_string name = push_bits 0 [] (iter_components name)"

text \<open>\<open>PathBuf::push\<close>: an absolute path replaces, a relative one is appended after a separator.\<close>

definition path_push :: "bytes \<Rightarrow> bytes \<Rightarrow> bytes" where
  "path_push p b =
     (if b \<noteq> [] \<and> hd b = SEPARATOR then b
      else if p = [] \<or> last p = SEPARATOR then p @ b
      else p @ SEPARATOR # b)"

fun push_all :: "bytes \<Rightarrow> (meta_error + bytes) list \<Rightarrow> meta_error + bytes" where
  "push_all buf [] = Inr buf"
| "push_all buf (Inl e # r) = Inl e"
| "push_all buf (Inr part # r) = push_all (path_push buf part) r"

definition to_pathbuf :: "file_iterator_name \<Rightarrow> meta_error + bytes" where
  "to_pathbuf name = push_all [] (iter_components name)"

text \<open>\<open>TorrentMetaV1File::full_path\<close> pushes its parts as they are.\<close>

fun full_path :: "bytes list \<Rightarrow> bytes \<Rightarrow> bytes option" where
  "full_path [] parent = Some parent"
| "full_path (p # ps) parent = (if utf8_valid p then full_path ps (path_push parent p) else None)"

section \<open>Paths stay inside their directory\<close>

text \<open>The components of a path, as \<open>Path::components\<close> gives them: empty ones and \<open>.\<close> are skipped.\<close>

fun split_sep :: "bytes \<Rightarrow> bytes list" where
  "split_sep [] = [[]]"
| "split_sep (b # r) =
     (if b = SEPARATOR then [] # split_sep r
      else (case split_sep r of [] \<Rightarrow> [[b]] | p # ps \<Rightarrow> (b # p) # ps))"

definition path_components :: "bytes \<Rightarrow> bytes list" where
  "path_components p = filter (\<lambda>c. c \<noteq> [] \<and> c \<noteq> [46]) (split_sep p)"

lemma split_sep_not_Nil [simp]: "split_sep p \<noteq> []"
  by (induction p) (auto split: list.splits)

lemma split_sep_append: "split_sep (p @ SEPARATOR # q) = split_sep p @ split_sep q"
proof (induction p)
  case (Cons b p)
  then show ?case by (cases "split_sep p") simp_all
qed simp

lemma split_sep_single: "SEPARATOR \<notin> set p \<Longrightarrow> split_sep p = [p]"
  by (induction p) auto

lemma path_components_push:
  assumes "q = [] \<or> hd q \<noteq> SEPARATOR"
  shows "path_components (path_push p q) = path_components p @ path_components q"
proof (cases "p = []")
  case True
  then show ?thesis using assms by (simp add: path_push_def path_components_def)
next
  case False
  then have p: "p = butlast p @ [last p]" by simp
  show ?thesis
  proof (cases "last p = SEPARATOR")
    case True
    with p have "split_sep p = split_sep (butlast p) @ [[]]" "split_sep (p @ q) = split_sep (butlast p) @ split_sep q"
      using split_sep_append [of "butlast p" "[]"] split_sep_append [of "butlast p" q]
      by (metis split_sep.simps(1), metis append.assoc append_Cons append_Nil)
    then show ?thesis using True assms by (auto simp: path_push_def path_components_def)
  next
    case False
    then show ?thesis
      using \<open>p \<noteq> []\<close> assms by (auto simp: path_push_def path_components_def split_sep_append)
  qed
qed

definition safe_part :: "bytes \<Rightarrow> bool" where
  "safe_part b \<longleftrightarrow> SEPARATOR \<notin> set b \<and> b \<noteq> DOTDOT"

lemma iter_components_safe: "Inr b \<in> set (iter_components name) \<Longrightarrow> safe_part b"
  by (auto simp: iter_components_def safe_part_def check_component_def SEPARATOR_def DOTDOT_def of_char_def
      split: file_iterator_name.splits option.splits if_splits)

lemma safe_part_components: "safe_part b \<Longrightarrow> path_components b = filter (\<lambda>c. c \<noteq> [] \<and> c \<noteq> [46]) [b]"
  by (simp add: path_components_def safe_part_def split_sep_single)

lemma push_all_components:
  assumes "push_all buf rs = Inr p" "\<And>b. Inr b \<in> set rs \<Longrightarrow> safe_part b" "buf = [] \<or> hd buf \<noteq> SEPARATOR"
  obtains bs where "rs = map Inr bs" "p = [] \<or> hd p \<noteq> SEPARATOR"
    "path_components p = path_components buf @ filter (\<lambda>c. c \<noteq> [] \<and> c \<noteq> [46]) bs"
  using assms
proof (induction buf rs arbitrary: thesis rule: push_all.induct)
  case (3 buf part r)
  have b: "safe_part part" using "3.prems"(3) by simp
  then have h: "part = [] \<or> hd part \<noteq> SEPARATOR" by (cases part) (auto simp: safe_part_def)
  then have c: "path_components (path_push buf part) = path_components buf @ filter (\<lambda>c. c \<noteq> [] \<and> c \<noteq> [46]) [part]"
    using safe_part_components [OF b] by (simp add: path_components_push)
  have h': "path_push buf part = [] \<or> hd (path_push buf part) \<noteq> SEPARATOR"
    using "3.prems"(4) h by (cases buf; cases part) (auto simp: path_push_def)
  obtain bs where "r = map Inr bs" "p = [] \<or> hd p \<noteq> SEPARATOR"
    "path_components p = path_components (path_push buf part) @ filter (\<lambda>c. c \<noteq> [] \<and> c \<noteq> [46]) bs"
    by (rule "3.IH") (use "3.prems"(2,3) h' in auto)
  then show ?case using c by (intro "3.prems"(1) [of "part # bs"]) simp_all
qed simp_all

text \<open>The parts of a name, and what is asked of each of them.\<close>

definition parts_of :: "file_iterator_name \<Rightarrow> bytes list" where
  "parts_of name =
     (case name of SingleName None \<Rightarrow> [ascii ''torrent-content''] | SingleName (Some n) \<Rightarrow> [n] | TreeName t \<Rightarrow> t)"

lemma check_component_iff: "check_component part = Inr b \<longleftrightarrow> b = part \<and> utf8_valid part \<and> safe_part part"
  by (auto simp: check_component_def safe_part_def)

lemma default_name_fine: "utf8_valid (ascii ''torrent-content'')" "safe_part (ascii ''torrent-content'')"
  by (simp_all add: safe_part_def SEPARATOR_def DOTDOT_def ascii_def of_char_def)

lemma iter_components_iff: "iter_components name = map Inr bs \<longleftrightarrow>
    bs = parts_of name \<and> (\<forall>b \<in> set (parts_of name). utf8_valid b \<and> safe_part b)"
proof -
  have t: "map check_component t = map Inr bs \<longleftrightarrow> bs = t \<and> (\<forall>b \<in> set t. utf8_valid b \<and> safe_part b)" for t
    by (induction t arbitrary: bs) (auto simp: Cons_eq_map_conv check_component_iff)
  show ?thesis
  proof (cases name)
    case (SingleName n)
    then show ?thesis
      using t [of "[the n]"] default_name_fine
      by (cases n) (auto simp: iter_components_def parts_of_def Cons_eq_map_conv)
  qed (simp add: iter_components_def parts_of_def t)
qed

lemma push_all_total: "\<exists>p. push_all buf (map Inr bs) = Inr p"
  by (induction bs arbitrary: buf) auto

text \<open>
  C37: A torrent cannot name a file outside its output directory. \<open>to_pathbuf\<close> accepts a name exactly when each
  of its parts is UTF-8, has no separator and is not \<open>..\<close>. The components of the path it gives, and what these
  are appended to when the path is pushed on a directory, are then the parts of the name, all of them in
  order but the empty ones and \<open>.\<close>, which mean nothing in a path; so none of them is \<open>..\<close> or has a separator.
\<close>

theorem files_stay_in_directory:
  "((\<exists>p. to_pathbuf name = Inr p) \<longleftrightarrow>
      (\<forall>b \<in> set (parts_of name). utf8_valid b \<and> SEPARATOR \<notin> set b \<and> b \<noteq> DOTDOT)) \<and>
   (to_pathbuf name = Inr p \<longrightarrow>
      path_components p = filter (\<lambda>c. c \<noteq> [] \<and> c \<noteq> [46]) (parts_of name) \<and>
      path_components (path_push dir p) = path_components dir @ filter (\<lambda>c. c \<noteq> [] \<and> c \<noteq> [46]) (parts_of name) \<and>
      (\<forall>c \<in> set (path_components p). c \<noteq> DOTDOT \<and> SEPARATOR \<notin> set c))"
proof -
  have named: "iter_components name = map Inr (parts_of name) \<and> (\<forall>b \<in> set (parts_of name). utf8_valid b \<and> safe_part b) \<and>
      (p = [] \<or> hd p \<noteq> SEPARATOR) \<and> path_components p = filter (\<lambda>c. c \<noteq> [] \<and> c \<noteq> [46]) (parts_of name)"
    if p: "to_pathbuf name = Inr p" for p
  proof -
    obtain bs where "iter_components name = map Inr bs" "p = [] \<or> hd p \<noteq> SEPARATOR"
      "path_components p = path_components [] @ filter (\<lambda>c. c \<noteq> [] \<and> c \<noteq> [46]) bs"
      by (rule push_all_components [OF p [unfolded to_pathbuf_def] iter_components_safe]) auto
    then show ?thesis by (simp add: iter_components_iff path_components_def)
  qed
  have "\<exists>p. to_pathbuf name = Inr p" if "\<forall>b \<in> set (parts_of name). utf8_valid b \<and> safe_part b"
    using that push_all_total iter_components_iff [of name "parts_of name"] by (simp add: to_pathbuf_def)
  then show ?thesis
    using named by (auto simp: path_components_push safe_part_def)
qed

theorem files_stay_in_directory_witness:
  "to_pathbuf (TreeName [ascii ''a'', ascii ''b.txt'']) = Inr (ascii ''a/b.txt'') \<and>
   path_components (path_push (ascii ''/tmp'') (ascii ''a/b.txt'')) =
     path_components (ascii ''/tmp'') @ [ascii ''a'', ascii ''b.txt''] \<and>
   to_pathbuf (TreeName [ascii ''a'', ascii ''..'']) = Inl (PathTraversal (ascii ''..''))"
proof -
  have 1: "to_pathbuf (TreeName [ascii ''a'', ascii ''b.txt'']) = Inr (ascii ''a/b.txt'')" by code_simp
  moreover have "to_pathbuf (TreeName [ascii ''a'', ascii ''..'']) = Inl (PathTraversal (ascii ''..''))" by code_simp
  moreover have "filter (\<lambda>c. c \<noteq> [] \<and> c \<noteq> [46]) (parts_of (TreeName [ascii ''a'', ascii ''b.txt''])) = [ascii ''a'', ascii ''b.txt'']"
    by code_simp
  ultimately show ?thesis
    using files_stay_in_directory [of "TreeName [ascii ''a'', ascii ''b.txt'']" "ascii ''a/b.txt''" "ascii ''/tmp''"] by simp
qed

end
