(* ===== verification/TorrentFile.thy ===== *)
theory TorrentFile
  imports TorrentMetainfo "HOL-Library.Code_Target_Nat"
begin

text \<open>
  The bencoded form of \<open>crates/librqbit_core/src/torrent_metainfo.rs\<close>: what serde derives for a torrent
  file, its info dictionary and its files, and \<open>torrent_from_bytes\<close>, which also takes the hash of the
  bytes the info dictionary was read from.
\<close>

section \<open>Writing\<close>

definition serialize_list :: "('a \<Rightarrow> bytes) \<Rightarrow> 'a list \<Rightarrow> bytes" where
  "serialize_list ser xs = 108 # concat (map ser xs) @ [101]"

definition serialize_file :: "torrent_file \<Rightarrow> bytes" where
  "serialize_file f = serialize_struct
     [(ascii ''length'', write_number (uint (tf_length f))),
      (ascii ''path'', serialize_list (write_bytes False) (tf_path f))]"

definition info_fields :: "torrent_info \<Rightarrow> (bytes \<times> bytes) list" where
  "info_fields i =
     opt_field ''name'' (write_bytes False) (ti_name i)
     @ [(ascii ''pieces'', write_bytes False (ti_pieces i)),
        (ascii ''piece length'', write_number (uint (ti_piece_length i)))]
     @ opt_field ''length'' (write_number \<circ> uint) (ti_length i)
     @ opt_field ''md5sum'' (write_bytes False) (ti_md5sum i)
     @ opt_field ''files'' (serialize_list serialize_file) (ti_files i)"

definition serialize_torrent_info :: "torrent_info \<Rightarrow> bytes" where
  "serialize_torrent_info i = serialize_struct (info_fields i)"

definition meta_fields :: "torrent_meta \<Rightarrow> (bytes \<times> bytes) list" where
  "meta_fields t =
     [(ascii ''announce'', write_bytes False (tm_announce t))]
     @ (if tm_announce_list t = [] then []
        else [(ascii ''announce-list'', serialize_list (serialize_list (write_bytes False)) (tm_announce_list t))])
     @ [(ascii ''info'', serialize_torrent_info (tm_info t))]
     @ opt_field ''comment'' (write_bytes False) (tm_comment t)
     @ opt_field ''created by'' (write_bytes False) (tm_created_by t)
     @ opt_field ''encoding'' (write_bytes False) (tm_encoding t)
     @ opt_field ''publisher'' (write_bytes False) (tm_publisher t)
     @ opt_field ''publisher-url'' (write_bytes False) (tm_publisher_url t)
     @ opt_field ''creation date'' (write_number \<circ> uint) (tm_creation_date t)"

definition serialize_torrent :: "torrent_meta \<Rightarrow> bytes" where
  "serialize_torrent t = serialize_struct (meta_fields t)"

section \<open>Reading\<close>

abbreviation bytes_as :: "(bytes \<Rightarrow> 'v) \<Rightarrow> 'v de" where
  "bytes_as f \<equiv> deserialize_bytes_as (\<lambda>b. Some (f b))"

abbreviation u64_as :: "(u64 \<Rightarrow> 'v) \<Rightarrow> 'v de" where
  "u64_as f \<equiv> de_map_with (f \<circ> word_of_int) (deserialize_uint 64)"

datatype fl_field = FlLength u64 | FlPath "bytes list"

fun fl_length :: "fl_field \<Rightarrow> u64" where "fl_length (FlLength x) = x" | "fl_length _ = 0"
fun fl_path :: "fl_field \<Rightarrow> bytes list" where "fl_path (FlPath x) = x" | "fl_path _ = []"

definition file_readers :: "bytes \<rightharpoonup> fl_field de" where
  "file_readers k =
     (if k = ascii ''length'' then Some (u64_as FlLength)
      else if k = ascii ''path'' then Some (de_map_with FlPath (deserialize_vec (deserialize_bytes_as Some)))
      else None)"

definition deserialize_file :: "(bytes \<Rightarrow> bytes) \<Rightarrow> torrent_file de" where
  "deserialize_file sha1 = de_struct_with sha1 file_readers
     (\<lambda>f. bind_result (require f (ascii ''length'')) (\<lambda>l.
          bind_result (require f (ascii ''path'')) (\<lambda>p. Inr \<lparr>tf_length = fl_length l, tf_path = fl_path p\<rparr>)))"

datatype if_field = IfBytes bytes | IfU32 u32 | IfU64 u64 | IfFiles "torrent_file list"

fun if_bytes :: "if_field \<Rightarrow> bytes" where "if_bytes (IfBytes x) = x" | "if_bytes _ = []"
fun if_u32 :: "if_field \<Rightarrow> u32" where "if_u32 (IfU32 x) = x" | "if_u32 _ = 0"
fun if_u64 :: "if_field \<Rightarrow> u64" where "if_u64 (IfU64 x) = x" | "if_u64 _ = 0"
fun if_files :: "if_field \<Rightarrow> torrent_file list" where "if_files (IfFiles x) = x" | "if_files _ = []"

definition info_readers :: "(bytes \<Rightarrow> bytes) \<Rightarrow> bytes \<rightharpoonup> if_field de" where
  "info_readers sha1 k =
     (if k \<in> {ascii ''name'', ascii ''pieces'', ascii ''md5sum''} then Some (bytes_as IfBytes)
      else if k = ascii ''piece length'' then Some (de_map_with IfU32 deserialize_u32)
      else if k = ascii ''length'' then Some (u64_as IfU64)
      else if k = ascii ''files'' then Some (de_map_with IfFiles (deserialize_vec (deserialize_file sha1)))
      else None)"

definition info_of_fields :: "(bytes \<rightharpoonup> if_field) \<Rightarrow> de_fail + torrent_info" where
  "info_of_fields f =
     bind_result (require f (ascii ''pieces'')) (\<lambda>p.
     bind_result (require f (ascii ''piece length'')) (\<lambda>n.
       Inr \<lparr>ti_name = map_option if_bytes (f (ascii ''name'')), ti_pieces = if_bytes p,
            ti_piece_length = if_u32 n, ti_length = map_option if_u64 (f (ascii ''length'')),
            ti_md5sum = map_option if_bytes (f (ascii ''md5sum'')),
            ti_files = map_option if_files (f (ascii ''files''))\<rparr>))"

definition deserialize_torrent_info :: "(bytes \<Rightarrow> bytes) \<Rightarrow> torrent_info de" where
  "deserialize_torrent_info sha1 = de_struct_with sha1 (info_readers sha1) info_of_fields"

datatype tm_field = TmBytes bytes | TmLists "bytes list list" | TmInfo torrent_info | TmDate u64

fun tf_bytes :: "tm_field \<Rightarrow> bytes" where "tf_bytes (TmBytes x) = x" | "tf_bytes _ = []"
fun tf_lists :: "tm_field \<Rightarrow> bytes list list" where "tf_lists (TmLists x) = x" | "tf_lists _ = []"
fun tf_info :: "tm_field \<Rightarrow> torrent_info option" where "tf_info (TmInfo x) = Some x" | "tf_info _ = None"
fun tf_date :: "tm_field \<Rightarrow> u64" where "tf_date (TmDate x) = x" | "tf_date _ = 0"

definition meta_readers :: "(bytes \<Rightarrow> bytes) \<Rightarrow> bytes \<rightharpoonup> tm_field de" where
  "meta_readers sha1 k =
     (if k \<in> {ascii ''announce'', ascii ''comment'', ascii ''created by'', ascii ''encoding'', ascii ''publisher'',
              ascii ''publisher-url''} then Some (bytes_as TmBytes)
      else if k = ascii ''announce-list'' then
        Some (de_map_with TmLists (deserialize_vec (deserialize_vec (deserialize_bytes_as Some))))
      else if k = ascii ''info'' then Some (de_map_with TmInfo (deserialize_torrent_info sha1))
      else if k = ascii ''creation date'' then Some (u64_as TmDate)
      else None)"

text \<open>A missing list of trackers is an empty one; the skipped field is the identifier of zeros.\<close>

definition meta_of_fields :: "(bytes \<rightharpoonup> tm_field) \<Rightarrow> de_fail + torrent_meta" where
  "meta_of_fields f =
     bind_result (require f (ascii ''announce'')) (\<lambda>a.
     bind_result (require f (ascii ''info'')) (\<lambda>i.
       case tf_info i of
         None \<Rightarrow> Inl (DeError InvalidType)
       | Some info \<Rightarrow>
           Inr \<lparr>tm_announce = tf_bytes a,
                tm_announce_list = (case f (ascii ''announce-list'') of None \<Rightarrow> [] | Some l \<Rightarrow> tf_lists l),
                tm_info = info,
                tm_comment = map_option tf_bytes (f (ascii ''comment'')),
                tm_created_by = map_option tf_bytes (f (ascii ''created by'')),
                tm_encoding = map_option tf_bytes (f (ascii ''encoding'')),
                tm_publisher = map_option tf_bytes (f (ascii ''publisher'')),
                tm_publisher_url = map_option tf_bytes (f (ascii ''publisher-url'')),
                tm_creation_date = map_option tf_date (f (ascii ''creation date'')),
                tm_info_hash = replicate 20 0\<rparr>))"

datatype torrent_error = TorrentDe de_fail | NoDigest

text \<open>What follows the dictionary is not looked at.\<close>

definition torrent_from_bytes :: "(bytes \<Rightarrow> bytes) \<Rightarrow> bytes \<Rightarrow> torrent_error + torrent_meta" where
  "torrent_from_bytes sha1 buf =
     (case de_struct_with sha1 (meta_readers sha1) meta_of_fields ((new_from_buf buf)\<lparr>is_torrent_info := True\<rparr>) of
        Inl e \<Rightarrow> Inl (TorrentDe e)
      | Inr (t, st) \<Rightarrow>
          (case torrent_info_digest st of
             None \<Rightarrow> Inl NoDigest
           | Some h \<Rightarrow> Inr (t\<lparr>tm_info_hash := h\<rparr>)))"

section \<open>The parts come back\<close>

text \<open>An integer is read as a signed one of 64 bits.\<close>

definition small_u64 :: "u64 \<Rightarrow> bool" where
  "small_u64 x \<longleftrightarrow> uint x < 2 ^ 63"

definition wf_info :: "torrent_info \<Rightarrow> bool" where
  "wf_info i \<longleftrightarrow> pred_option small_u64 (ti_length i) \<and> pred_option (list_all (small_u64 \<circ> tf_length)) (ti_files i)"

lemma reads_u64: "small_u64 x \<Longrightarrow> reads (u64_as f) (write_number (uint x)) (f x)"
proof -
  assume "small_u64 x"
  moreover have ge: "0 \<le> uint x" "uint x < 18446744073709551616" using uint_bound [of x] by simp_all
  ultimately have x: "in_i64 (uint x)" unfolding small_u64_def in_i64_def by linarith
  have "reads (deserialize_uint 64) (write_number (uint x)) (uint x)"
    by (rule readsI) (simp add: deserialize_uint_def deserialize_i64_write_number [OF _ x] x ge)
  from reads_de_map_with [OF this, of "f \<circ> word_of_int"] show ?thesis by simp
qed

lemma reads_bytes_as: "reads (bytes_as f) (write_bytes False b) (f b)"
  by (rule reads_deserialize_bytes_as) simp

lemma reads_list:
  assumes "\<And>x. x \<in> set xs \<Longrightarrow> reads rd (ser x) x \<and> ser x \<noteq> [] \<and> \<not> starts_with (ser x) 101"
  shows "reads (deserialize_vec rd) (serialize_list ser xs) xs"
  unfolding serialize_list_def by (rule reads_deserialize_vec [OF assms])

lemma list_not_end [simp]: "serialize_list ser xs \<noteq> []" "\<not> starts_with (serialize_list ser xs) 101"
  by (simp_all add: serialize_list_def starts_with_def)

lemma struct_not_end [simp]: "serialize_struct fs \<noteq> []" "\<not> starts_with (serialize_struct fs) 101"
  by (simp_all add: serialize_struct_def starts_with_def)

lemma file_not_end [simp]: "serialize_file f \<noteq> []" "\<not> starts_with (serialize_file f) 101"
  by (simp_all add: serialize_file_def)

lemma reads_byte_list: "reads (deserialize_vec (deserialize_bytes_as Some)) (serialize_list (write_bytes False) bs) bs"
  by (rule reads_list) (simp add: reads_deserialize_bytes_as)

lemma reads_file: "small_u64 (tf_length f) \<Longrightarrow> reads (deserialize_file sha1) (serialize_file f) f"
proof -
  assume "small_u64 (tf_length f)"
  define fs where "fs = [(ascii ''length'', write_number (uint (tf_length f)), FlLength (tf_length f)),
    (ascii ''path'', serialize_list (write_bytes False) (tf_path f), FlPath (tf_path f))]"
  have "serialize_file f = serialize_struct (field_entries fs)"
    by (simp add: serialize_file_def fs_def field_entries_Cons)
  moreover have "reads (deserialize_file sha1) (serialize_struct (field_entries fs)) f"
    unfolding deserialize_file_def
  proof (rule reads_struct)
    show "fields_readable file_readers fs"
      using reads_u64 [OF \<open>small_u64 (tf_length f)\<close>] reads_de_map_with [OF reads_byte_list]
      by (auto simp: fs_def fields_readable_Cons file_readers_def)
    show "distinct (map fst fs)" by (simp add: fs_def)
  qed (simp add: fs_def field_values_Cons require_def)
  ultimately show ?thesis by simp
qed

definition info_forms :: "torrent_info \<Rightarrow> if_field field_form list" where
  "info_forms i =
     opt_form ''name'' (write_bytes False) IfBytes (ti_name i)
     @ [(ascii ''pieces'', write_bytes False (ti_pieces i), IfBytes (ti_pieces i)),
        (ascii ''piece length'', write_number (uint (ti_piece_length i)), IfU32 (ti_piece_length i))]
     @ opt_form ''length'' (write_number \<circ> uint) IfU64 (ti_length i)
     @ opt_form ''md5sum'' (write_bytes False) IfBytes (ti_md5sum i)
     @ opt_form ''files'' (serialize_list serialize_file) IfFiles (ti_files i)"

lemma info_entries: "info_fields i = field_entries (info_forms i)"
  unfolding info_fields_def info_forms_def field_append opt_form_entries by (simp add: field_entries_Cons)

lemma distinct_info_forms: "distinct (map fst (info_forms i))"
  unfolding info_forms_def map_append
  by (simp add: distinct_opt_form opt_form_mem del: distinct_append)

lemma info_forms_readable: "wf_info i \<Longrightarrow> fields_readable (info_readers sha1) (info_forms i)"
proof -
  assume wf: "wf_info i"
  have b: "fields_readable (info_readers sha1) (opt_form k (write_bytes False) IfBytes z)"
    if "k \<in> {''name'', ''md5sum''}" for k z
    using that by (intro opt_form_readable [where rd = "bytes_as IfBytes"]) (auto simp: info_readers_def reads_bytes_as)
  have l: "fields_readable (info_readers sha1) (opt_form ''length'' (write_number \<circ> uint) IfU64 (ti_length i))"
    using wf by (intro opt_form_readable [where rd = "u64_as IfU64"]) (auto simp: info_readers_def wf_info_def reads_u64)
  have "reads (deserialize_vec (deserialize_file sha1)) (serialize_list serialize_file fs) fs"
    if "list_all (small_u64 \<circ> tf_length) fs" for fs
    using that by (intro reads_list) (auto simp: list_all_iff reads_file)
  then have f: "fields_readable (info_readers sha1) (opt_form ''files'' (serialize_list serialize_file) IfFiles (ti_files i))"
    using wf
    by (intro opt_form_readable [where rd = "de_map_with IfFiles (deserialize_vec (deserialize_file sha1))"])
      (auto simp: info_readers_def wf_info_def intro: reads_de_map_with)
  show ?thesis
    using b [of "''name''" "ti_name i"] b [of "''md5sum''" "ti_md5sum i"] l f reads_bytes_as [of IfBytes]
      reads_de_map_with [OF reads_deserialize_u32, of IfU32]
    unfolding info_forms_def field_append by (simp add: fields_readable_Cons info_readers_def)
qed

lemma last_opt_value:
  "map_of (field_values (opt_form name ser val z)) k = (if k = ascii name \<and> z \<noteq> None then map_option val z else None)"
  using map_of_opt [of name ser val z "[]" k] by simp

lemma reads_info: "wf_info i \<Longrightarrow> reads (deserialize_torrent_info sha1) (serialize_torrent_info i) i"
  unfolding deserialize_torrent_info_def serialize_torrent_info_def info_entries
proof (rule reads_struct [OF info_forms_readable distinct_info_forms])
  let ?m = "map_of (field_values (info_forms i))"
  note look = info_forms_def field_append field_values_Cons map_of_opt last_opt_value
  have "?m (ascii ''name'') = map_option IfBytes (ti_name i)" "?m (ascii ''pieces'') = Some (IfBytes (ti_pieces i))"
    "?m (ascii ''piece length'') = Some (IfU32 (ti_piece_length i))" "?m (ascii ''length'') = map_option IfU64 (ti_length i)"
    "?m (ascii ''md5sum'') = map_option IfBytes (ti_md5sum i)" "?m (ascii ''files'') = map_option IfFiles (ti_files i)"
    by (simp_all add: look del: map_of_append)
  then show "info_of_fields ?m = Inr i"
    by (simp only: info_of_fields_def require_def option.case bind_result.simps)
      (simp add: option.map_comp comp_def option.map_ident)
qed

section \<open>The torrent comes back\<close>

definition meta_forms :: "torrent_meta \<Rightarrow> tm_field field_form list" where
  "meta_forms t =
     [(ascii ''announce'', write_bytes False (tm_announce t), TmBytes (tm_announce t))]
     @ opt_form ''announce-list'' (serialize_list (serialize_list (write_bytes False))) TmLists
         (if tm_announce_list t = [] then None else Some (tm_announce_list t))
     @ [(ascii ''info'', serialize_torrent_info (tm_info t), TmInfo (tm_info t))]
     @ opt_form ''comment'' (write_bytes False) TmBytes (tm_comment t)
     @ opt_form ''created by'' (write_bytes False) TmBytes (tm_created_by t)
     @ opt_form ''encoding'' (write_bytes False) TmBytes (tm_encoding t)
     @ opt_form ''publisher'' (write_bytes False) TmBytes (tm_publisher t)
     @ opt_form ''publisher-url'' (write_bytes False) TmBytes (tm_publisher_url t)
     @ opt_form ''creation date'' (write_number \<circ> uint) TmDate (tm_creation_date t)"

lemma meta_entries: "meta_fields t = field_entries (meta_forms t)"
  unfolding meta_fields_def meta_forms_def field_append opt_form_entries by (simp add: field_entries_Cons)

lemma distinct_meta_forms: "distinct (map fst (meta_forms t))"
  unfolding meta_forms_def map_append
  by (simp add: distinct_opt_form opt_form_mem del: distinct_append)

definition wf_torrent :: "torrent_meta \<Rightarrow> bool" where
  "wf_torrent t \<longleftrightarrow> wf_info (tm_info t) \<and> pred_option small_u64 (tm_creation_date t)"

lemma meta_forms_readable: "wf_torrent t \<Longrightarrow> fields_readable (meta_readers sha1) (meta_forms t)"
proof -
  assume wf: "wf_torrent t"
  have b: "fields_readable (meta_readers sha1) (opt_form k (write_bytes False) TmBytes z)"
    if "k \<in> {''comment'', ''created by'', ''encoding'', ''publisher'', ''publisher-url''}" for k z
    using that by (intro opt_form_readable [where rd = "bytes_as TmBytes"]) (auto simp: meta_readers_def reads_bytes_as)
  have d: "fields_readable (meta_readers sha1) (opt_form ''creation date'' (write_number \<circ> uint) TmDate (tm_creation_date t))"
    using wf by (intro opt_form_readable [where rd = "u64_as TmDate"]) (auto simp: meta_readers_def wf_torrent_def reads_u64)
  have "reads (deserialize_vec (deserialize_vec (deserialize_bytes_as Some))) (serialize_list (serialize_list (write_bytes False)) ls) ls" for ls
    by (rule reads_list) (simp add: reads_byte_list)
  then have l: "fields_readable (meta_readers sha1) (opt_form ''announce-list'' (serialize_list (serialize_list (write_bytes False))) TmLists z)" for z
    by (intro opt_form_readable [where rd = "de_map_with TmLists (deserialize_vec (deserialize_vec (deserialize_bytes_as Some)))"])
      (auto simp: meta_readers_def intro: reads_de_map_with)
  have "reads (de_map_with TmInfo (deserialize_torrent_info sha1)) (serialize_torrent_info (tm_info t)) (TmInfo (tm_info t))"
    using wf by (intro reads_de_map_with reads_info) (simp add: wf_torrent_def)
  then show ?thesis
    using b d l reads_bytes_as [of TmBytes]
    unfolding meta_forms_def field_append by (simp add: fields_readable_Cons meta_readers_def)
qed

lemma meta_values:
  "meta_of_fields (map_of (field_values (meta_forms t))) = Inr (t\<lparr>tm_info_hash := replicate 20 0\<rparr>)"
proof -
  let ?m = "map_of (field_values (meta_forms t))"
  note look = meta_forms_def field_append field_values_Cons map_of_opt last_opt_value
  have "?m (ascii ''announce'') = Some (TmBytes (tm_announce t))" "?m (ascii ''info'') = Some (TmInfo (tm_info t))"
    "?m (ascii ''announce-list'') = (if tm_announce_list t = [] then None else Some (TmLists (tm_announce_list t)))"
    "?m (ascii ''comment'') = map_option TmBytes (tm_comment t)"
    "?m (ascii ''created by'') = map_option TmBytes (tm_created_by t)"
    "?m (ascii ''encoding'') = map_option TmBytes (tm_encoding t)"
    "?m (ascii ''publisher'') = map_option TmBytes (tm_publisher t)"
    "?m (ascii ''publisher-url'') = map_option TmBytes (tm_publisher_url t)"
    "?m (ascii ''creation date'') = map_option TmDate (tm_creation_date t)"
    by (simp_all add: look del: map_of_append)
  then show ?thesis
    by (simp only: meta_of_fields_def require_def option.case bind_result.simps tf_info.simps)
      (simp add: option.map_comp comp_def option.map_ident)
qed

text \<open>The loop over the keys above all others: when it meets \<open>info\<close> it takes the hash of what it reads.\<close>

lemma torrent_loop_reads:
  assumes "fields_readable flds fs" "distinct (map fst acc @ map fst fs)"
    and "de_buf st = concat (map (\<lambda>(k, b, v). write_bytes False k @ b) fs) @ 101 # rest"
    and "length (de_buf st) < 2 ^ 64" "\<not> parsing_key st" "is_torrent_info st" "field_context st = []" "length fs < n"
  shows "struct_loop sha1 flds n acc st = Inr (acc @ field_values fs, st\<lparr>de_buf := rest, torrent_info_digest :=
    (case map_of (field_entries fs) info_key of Some b \<Rightarrow> Some (sha1 b) | None \<Rightarrow> torrent_info_digest st)\<rparr>)"
  using assms
proof (induction fs arbitrary: n acc st)
  case Nil
  then show ?case by (cases n) (simp_all add: next_key_end field_values_def field_entries_def)
next
  case (Cons f fs)
  obtain k b v where f: "f = (k, b, v)" by (cases f)
  obtain m where n: "n = Suc m" using Cons.prems(8) by (cases n) simp_all
  from Cons.prems(1) f obtain rd where rd: "flds k = Some rd" "reads rd b v"
    by (auto simp: fields_readable_Cons)
  define tail where "tail = concat (map (\<lambda>(k, b, v). write_bytes False k @ b) fs) @ 101 # rest"
  have buf: "de_buf st = write_bytes False k @ b @ tail"
    using Cons.prems(3) by (simp add: tail_def f)
  define d where "d = (if k = info_key then Some (sha1 b) else torrent_info_digest st)"
  obtain st1 where key: "next_key st = Inr (Some k, st1)"
    and val: "next_value sha1 rd st1 = Inr (v, st\<lparr>de_buf := tail, torrent_info_digest := d\<rparr>)"
    using reads_entry [OF rd(2) buf Cons.prems(4,5), of sha1] Cons.prems(6,7) by (auto simp: d_def)
  have rest: "struct_loop sha1 flds m (acc @ [(k, v)]) (st\<lparr>de_buf := tail, torrent_info_digest := d\<rparr>) =
      Inr ((acc @ [(k, v)]) @ field_values fs, (st\<lparr>de_buf := tail, torrent_info_digest := d\<rparr>)\<lparr>de_buf := rest,
        torrent_info_digest := (case map_of (field_entries fs) info_key of Some b \<Rightarrow> Some (sha1 b)
          | None \<Rightarrow> torrent_info_digest (st\<lparr>de_buf := tail, torrent_info_digest := d\<rparr>))\<rparr>)"
    using Cons.prems buf by (intro Cons.IH) (auto simp: n f tail_def fields_readable_Cons)
  have none: "map_of (field_entries fs) info_key = None" if "k = info_key"
  proof -
    have "k \<notin> set (map fst (field_entries fs))" using Cons.prems(2) f by simp
    then show ?thesis using that by (simp only: map_of_eq_None_iff set_map simp_thms)
  qed
  have "k \<notin> fst ` set acc" using Cons.prems(2) f by auto
  then have "struct_loop sha1 flds n acc st =
      struct_loop sha1 flds m (acc @ [(k, v)]) (st\<lparr>de_buf := tail, torrent_info_digest := d\<rparr>)"
    by (simp add: n key rd val)
  then show ?case
    unfolding rest using none by (auto simp: f d_def field_values_Cons field_entries_Cons split: option.split)
qed

text \<open>The fields of the torrent file are read back by the reader of the struct.\<close>

lemma torrent_reads_back:
  assumes "wf_torrent t" "length (serialize_torrent t @ rest) < 2 ^ 64"
  shows "torrent_from_bytes sha1 (serialize_torrent t @ rest) =
      Inr (t\<lparr>tm_info_hash := sha1 (serialize_torrent_info (tm_info t))\<rparr>) \<and>
    (length (serialize_torrent_info (tm_info t)) < 2 ^ 64 \<longrightarrow>
      from_bytes (deserialize_torrent_info sha1) (serialize_torrent_info (tm_info t)) = Inr (tm_info t))"
proof -
  let ?st = "(new_from_buf (serialize_torrent t @ rest))\<lparr>is_torrent_info := True\<rparr>"
  obtain es where es: "set es = set (meta_forms t)" "distinct (map fst es)"
    and ser: "serialize_torrent t = 100 # concat (map (\<lambda>(k, b, v). write_bytes False k @ b) es) @ [101]"
    unfolding serialize_torrent_def meta_entries by (rule sorted_fields [OF distinct_meta_forms])
  have "length es \<le> length (concat (map (\<lambda>(k, b, v). write_bytes False k @ b) es))"
    using length_entries [of "map (\<lambda>(k, b, v). (k, b)) es" id] by (simp add: comp_def case_prod_unfold)
  then have len: "length es < fuel_for (de_buf ?st)" by (simp add: fuel_for_def ser)
  have m: "map_of (field_values es) = map_of (field_values (meta_forms t))"
    "map_of (field_entries es) = map_of (field_entries (meta_forms t))"
    using es distinct_meta_forms [of t]
    by (subst map_of_inject_set, simp_all add: field_values_def field_entries_def comp_def case_prod_unfold)+
  have "map_of (field_entries (meta_forms t)) info_key = Some (serialize_torrent_info (tm_info t))"
    unfolding meta_forms_def field_append opt_form_entries
    by (cases "tm_announce_list t = []") (simp_all add: field_entries_Cons info_key_def)
  moreover have "fields_readable (meta_readers sha1) es"
    using meta_forms_readable [OF assms(1), of sha1] es(1) by (simp add: fields_readable_def)
  ultimately have "struct_loop sha1 (meta_readers sha1) (fuel_for (de_buf ?st)) [] (?st\<lparr>de_buf := drop 1 (de_buf ?st)\<rparr>) =
      Inr ([] @ field_values es, (?st\<lparr>de_buf := drop 1 (de_buf ?st)\<rparr>)\<lparr>de_buf := rest,
        torrent_info_digest := Some (sha1 (serialize_torrent_info (tm_info t)))\<rparr>)"
    using assms(2) es(2) len ser torrent_loop_reads [of "meta_readers sha1" es "[]" "?st\<lparr>de_buf := drop 1 (de_buf ?st)\<rparr>" rest _ sha1] m(2)
    by (simp add: new_from_buf_def)
  moreover have "starts_with (de_buf ?st) 100" by (simp add: ser starts_with_def)
  ultimately have "torrent_from_bytes sha1 (serialize_torrent t @ rest) =
      Inr (t\<lparr>tm_info_hash := sha1 (serialize_torrent_info (tm_info t))\<rparr>)"
    using m(1) meta_values [of t]
    by (simp add: torrent_from_bytes_def de_struct_with_def deserialize_struct_def)
  moreover have "from_bytes (deserialize_torrent_info sha1) (serialize_torrent_info (tm_info t)) = Inr (tm_info t)"
    if "length (serialize_torrent_info (tm_info t)) < 2 ^ 64"
    using readsD [OF reads_info, of "tm_info t" "new_from_buf (serialize_torrent_info (tm_info t))" "[]" sha1] that assms(1)
    by (simp add: from_bytes_def wf_torrent_def)
  ultimately show ?thesis by blast
qed

text \<open>
  C13: A torrent file comes back as it was written. Serializing a torrent whose lengths and date fit a signed
  64-bit integer and reading it with \<open>torrent_from_bytes\<close> gives the torrent, with the hash of the bytes of
  its info dictionary as its info hash, whatever stands behind it; and the info dictionary alone, as peers
  send it for a magnet link, comes back too.
\<close>

theorem torrent_roundtrip:
  assumes "wf_torrent t" "length (serialize_torrent t @ rest) < 2 ^ 64"
  shows "torrent_from_bytes sha1 (serialize_torrent t @ rest) =
      Inr (t\<lparr>tm_info_hash := sha1 (serialize_torrent_info (tm_info t))\<rparr>) \<and>
    (length (serialize_torrent_info (tm_info t)) < 2 ^ 64 \<longrightarrow>
      from_bytes (deserialize_torrent_info sha1) (serialize_torrent_info (tm_info t)) = Inr (tm_info t))"
  by (rule torrent_reads_back [OF assms])

definition sample_torrent :: torrent_meta where
  "sample_torrent = \<lparr>tm_announce = ascii ''http://t'', tm_announce_list = [[ascii ''a'', ascii ''b''], []],
     tm_info = \<lparr>ti_name = Some (ascii ''n''), ti_pieces = replicate 20 7, ti_piece_length = 16384, ti_length = None,
       ti_md5sum = None, ti_files = Some [\<lparr>tf_length = 5, tf_path = [ascii ''d'', ascii ''f'']\<rparr>]\<rparr>,
     tm_comment = None, tm_created_by = Some (ascii ''me''), tm_encoding = None, tm_publisher = None,
     tm_publisher_url = None, tm_creation_date = Some 1700000000, tm_info_hash = replicate 20 0\<rparr>"

theorem torrent_roundtrip_witness:
  "torrent_from_bytes (\<lambda>_. replicate 20 9) (serialize_torrent sample_torrent @ ascii ''rest'') =
     Inr (sample_torrent\<lparr>tm_info_hash := replicate 20 9\<rparr>)"
proof -
  have "wf_torrent sample_torrent" by (simp add: wf_torrent_def wf_info_def small_u64_def sample_torrent_def)
  moreover have "length (serialize_torrent sample_torrent @ ascii ''rest'') < 2 ^ 64" by code_simp
  ultimately show ?thesis using torrent_roundtrip [of sample_torrent "ascii ''rest''" "\<lambda>_. replicate 20 9"] by simp
qed

text \<open>
  The hash of a torrent can be that of other bytes than the info dictionary that is used: in an ignored
  dictionary, a key that is an integer is not pushed on the path of keys but popped from it, so the next
  key stands for one of the outermost dictionary.
\<close>

definition spoofed :: bytes where
  "spoofed = ascii ''d8:announce0:4:infod12:piece lengthi1e6:pieces0:e1:xdi1e0:4:info1:Zee''"

lemma nested_info_sets_hash: "case torrent_from_bytes id spoofed of Inr t \<Rightarrow> tm_info_hash t = ascii ''1:Z'' | _ \<Rightarrow> False"
  by code_simp

end
