(* ===== verification/Bitfield.thy ===== *)
theory Bitfield
  imports Prelude
begin

text \<open>
  The bit vectors of the client (\<open>BF = BitVec<u8, Msb0>\<close> of \<open>type_aliases.rs\<close>) as lists of bits, with
  the operations of the \<open>bitvec\<close> crate the program uses: bit 0 is the most significant bit of the
  first byte.
\<close>

type_synonym bf = "bool list"

definition byte_bits :: "byte \<Rightarrow> bf" where
  "byte_bits b = rev (map (bit b) [0..<8])"

definition byte_of_bits :: "bf \<Rightarrow> byte" where
  "byte_of_bits bs = horner_sum of_bool 2 (rev (take 8 (bs @ replicate 8 False)))"

definition bf_from_vec :: "bytes \<Rightarrow> bf" where
  "bf_from_vec v = concat (map byte_bits v)"

fun bf_as_raw_slice :: "bf \<Rightarrow> bytes" where
  "bf_as_raw_slice [] = []"
| "bf_as_raw_slice bs = byte_of_bits (take 8 bs) # bf_as_raw_slice (drop 8 bs)"

text \<open>
  \<open>set\<close> panics out of range; \<open>get_mut(a..b)\<close> followed by \<open>fill\<close>; \<open>all\<close>, \<open>iter_ones\<close>, \<open>iter_zeros\<close>.
\<close>

definition bf_set :: "bf \<Rightarrow> nat \<Rightarrow> bool \<Rightarrow> bf outcome" where
  "bf_set bs i v = (if i < length bs then Return (bs[i := v]) else Panic)"

definition bf_fill :: "bf \<Rightarrow> nat \<Rightarrow> nat \<Rightarrow> bool \<Rightarrow> bf option" where
  "bf_fill bs a b v =
     (if a \<le> b \<and> b \<le> length bs then Some (take a bs @ replicate (b - a) v @ drop b bs) else None)"

definition bf_all :: "bf \<Rightarrow> bool" where
  "bf_all bs = list_all (\<lambda>b. b) bs"

definition iter_ones :: "bf \<Rightarrow> nat list" where
  "iter_ones bs = filter (\<lambda>i. bs ! i) [0..<length bs]"

definition iter_zeros :: "bf \<Rightarrow> nat list" where
  "iter_zeros bs = filter (\<lambda>i. \<not> bs ! i) [0..<length bs]"

section \<open>Facts\<close>

lemma bf_all_iff: "bf_all bs \<longleftrightarrow> (\<forall>i < length bs. bs ! i)"
  by (simp add: bf_all_def list_all_length)

lemma set_iter_ones [simp]: "set (iter_ones bs) = {i. i < length bs \<and> bs ! i}"
  by (auto simp: iter_ones_def)

lemma set_iter_zeros [simp]: "set (iter_zeros bs) = {i. i < length bs \<and> \<not> bs ! i}"
  by (auto simp: iter_zeros_def)

lemma distinct_iter [simp]: "distinct (iter_ones bs)" "distinct (iter_zeros bs)"
  by (simp_all add: iter_ones_def iter_zeros_def)

lemma bf_fill_Some_iff:
  "bf_fill bs a b v = Some bs' \<longleftrightarrow> a \<le> b \<and> b \<le> length bs \<and>
     bs' = take a bs @ replicate (b - a) v @ drop b bs"
  by (auto simp: bf_fill_def)

lemma bf_fill_length: "bf_fill bs a b v = Some bs' \<Longrightarrow> length bs' = length bs"
  by (auto simp: bf_fill_Some_iff)

lemma bf_fill_nth:
  assumes "bf_fill bs a b v = Some bs'" "i < length bs"
  shows "bs' ! i = (if a \<le> i \<and> i < b then v else bs ! i)"
  using assms by (auto simp: bf_fill_Some_iff nth_append)

lemma length_byte_bits [simp]: "length (byte_bits b) = 8"
  by (simp add: byte_bits_def)

lemma length_bf_from_vec [simp]: "length (bf_from_vec v) = 8 * length v"
  by (induction v) (simp_all add: bf_from_vec_def)

lemma byte_of_byte_bits: "byte_of_bits (byte_bits b) = b"
  by (simp add: byte_of_bits_def byte_bits_def horner_sum_bit_eq_take_bit take_bit_word_eq_self)

lemma bf_roundtrip: "bf_as_raw_slice (bf_from_vec v) = v"
proof (induction v)
  case Nil
  then show ?case by (simp add: bf_from_vec_def)
next
  case (Cons b v)
  obtain x xs where x: "byte_bits b = x # xs" by (cases "byte_bits b") (use length_byte_bits [of b] in simp_all)
  have "bf_from_vec (b # v) = x # (xs @ bf_from_vec v)" by (simp add: bf_from_vec_def x)
  then have "bf_as_raw_slice (bf_from_vec (b # v)) =
      byte_of_bits (take 8 (byte_bits b @ bf_from_vec v)) # bf_as_raw_slice (drop 8 (byte_bits b @ bf_from_vec v))"
    by (simp add: x)
  then show ?case by (simp add: Cons byte_of_byte_bits)
qed

end
