(* ===== verification/Lengths.thy ===== *)
theory Lengths
  imports Prelude
begin

text \<open>
  Model of \<open>crates/librqbit_core/src/lengths.rs\<close>: the arithmetic that cuts a torrent into pieces
  and each piece into chunks. The integers keep their Rust widths, so every addition, subtraction
  and cast wraps as it does in a release build; \<open>lengths_ok\<close> says when nothing wraps, and
  \<open>lengths_new_ok\<close> that the constructor establishes it for every torrent whose sizes fit.
\<close>

section \<open>Data\<close>

datatype valid_piece_index = ValidPieceIndex (vpi_get: u32)

record piece_info =
  pi_piece_index :: valid_piece_index
  pi_len :: u32

record chunk_info =
  ci_piece_index :: valid_piece_index
  ci_chunk_index :: u32
  ci_absolute_index :: u32
  ci_size :: u32
  ci_offset :: u32

record lengths =
  chunk_length :: u32
  total_length :: u64
  piece_length :: u32
  last_piece_id :: u32
  last_piece_length :: u32
  max_chunks_per_piece :: u32

datatype lengths_error =
    ChunkLengthNotPowerOfTwo u32
  | ChunkLengthAbovePieceLength u32 u32
  | ZeroTotalLength

definition CHUNK_SIZE :: u32 where
  "CHUNK_SIZE = 16384"

section \<open>Operations\<close>

definition is_power_of_two :: "u64 \<Rightarrow> bool" where
  "is_power_of_two x \<longleftrightarrow> x \<noteq> 0 \<and> x AND (x - 1) = 0"

definition ceil_div_u64 :: "u64 \<Rightarrow> u64 \<Rightarrow> u64" where
  "ceil_div_u64 a b = (a + b - 1) div b"

definition last_element_size_u64 :: "u64 \<Rightarrow> u64 \<Rightarrow> u64" where
  "last_element_size_u64 tot chunk_size =
     (let rem = tot mod chunk_size in if rem = 0 then chunk_size else rem)"

definition lengths_new :: "u64 \<Rightarrow> u32 \<Rightarrow> u32 option \<Rightarrow> lengths_error + lengths" where
  "lengths_new tot piece chunk_opt =
     (let chunk = (case chunk_opt of Some c \<Rightarrow> c | None \<Rightarrow> CHUNK_SIZE) in
      if \<not> is_power_of_two (ucast chunk) then Inl (ChunkLengthNotPowerOfTwo chunk)
      else if chunk > piece then Inl (ChunkLengthAbovePieceLength chunk piece)
      else if tot = 0 then Inl ZeroTotalLength
      else
        let total_pieces = (ucast (ceil_div_u64 tot (ucast piece)) :: u32) in
        Inr \<lparr>chunk_length = chunk, total_length = tot, piece_length = piece,
             last_piece_id = total_pieces - 1,
             last_piece_length = ucast (last_element_size_u64 tot (ucast piece)),
             max_chunks_per_piece = ucast (ceil_div_u64 (ucast piece) (ucast chunk))\<rparr>)"

definition total_pieces :: "lengths \<Rightarrow> u32" where
  "total_pieces L = last_piece_id L + 1"

definition total_chunks :: "lengths \<Rightarrow> u32" where
  "total_chunks L = ucast (ceil_div_u64 (total_length L) (ucast (chunk_length L)))"

definition piece_bitfield_bytes :: "lengths \<Rightarrow> nat" where
  "piece_bitfield_bytes L = unat (ceil_div_u64 (ucast (total_pieces L)) 8)"

definition chunk_bitfield_bytes :: "lengths \<Rightarrow> nat" where
  "chunk_bitfield_bytes L = unat (ceil_div_u64 (ucast (total_chunks L)) 8)"

definition validate_piece_index :: "lengths \<Rightarrow> u32 \<Rightarrow> valid_piece_index option" where
  "validate_piece_index L index =
     (if index > last_piece_id L then None else Some (ValidPieceIndex index))"

definition piece_length_of :: "lengths \<Rightarrow> valid_piece_index \<Rightarrow> u32" where
  "piece_length_of L index =
     (if vpi_get index = last_piece_id L then last_piece_length L else piece_length L)"

definition piece_offset :: "lengths \<Rightarrow> valid_piece_index \<Rightarrow> u64" where
  "piece_offset L index = ucast (vpi_get index) * ucast (piece_length L)"

definition chunk_absolute_offset :: "lengths \<Rightarrow> chunk_info \<Rightarrow> u64" where
  "chunk_absolute_offset L ci = piece_offset L (ci_piece_index ci) + ucast (ci_offset ci)"

definition chunks_per_piece :: "lengths \<Rightarrow> valid_piece_index \<Rightarrow> u32" where
  "chunks_per_piece L index =
     (if vpi_get index = last_piece_id L
      then (last_piece_length L + chunk_length L - 1) div chunk_length L
      else max_chunks_per_piece L)"

definition chunk_offset_in_piece :: "lengths \<Rightarrow> valid_piece_index \<Rightarrow> u32 \<Rightarrow> u32 option" where
  "chunk_offset_in_piece L piece_index chunk_index =
     (if chunk_index \<ge> chunks_per_piece L piece_index then None
      else Some (chunk_index * chunk_length L))"

definition chunk_size :: "lengths \<Rightarrow> valid_piece_index \<Rightarrow> u32 \<Rightarrow> u32 option" where
  "chunk_size L piece_index chunk_index =
     (let cpp = chunks_per_piece L piece_index; pl = piece_length_of L piece_index in
      if chunk_index \<ge> cpp then None
      else let offset = chunk_index * chunk_length L in
        Some (min (chunk_length L) (pl - offset)))"

definition chunk_range :: "lengths \<Rightarrow> valid_piece_index \<Rightarrow> nat \<times> nat" where
  "chunk_range L index =
     (let start = vpi_get index * max_chunks_per_piece L;
          end = start + chunks_per_piece L index in (unat start, unat end))"

definition chunk_info_from_received_data ::
  "lengths \<Rightarrow> valid_piece_index \<Rightarrow> u32 \<Rightarrow> u32 \<Rightarrow> chunk_info option" where
  "chunk_info_from_received_data L piece_index begin chunk_sz =
     (let index = begin div chunk_length L in
      case chunk_size L piece_index index of
        None \<Rightarrow> None
      | Some expected_chunk_size \<Rightarrow>
          (case chunk_offset_in_piece L piece_index index of
             None \<Rightarrow> None
           | Some offset \<Rightarrow>
               if offset \<noteq> begin then None
               else if expected_chunk_size \<noteq> chunk_sz then None
               else Some \<lparr>ci_piece_index = piece_index, ci_chunk_index = index,
                 ci_absolute_index = max_chunks_per_piece L * vpi_get piece_index + index,
                 ci_size = chunk_sz, ci_offset = offset\<rparr>))"

definition chunk_info_from_received_piece ::
  "lengths \<Rightarrow> u32 \<Rightarrow> u32 \<Rightarrow> u32 \<Rightarrow> chunk_info option" where
  "chunk_info_from_received_piece L index begin block_len =
     (case validate_piece_index L index of
        None \<Rightarrow> None
      | Some v \<Rightarrow> chunk_info_from_received_data L v begin block_len)"

definition iter_piece_infos :: "lengths \<Rightarrow> piece_info list" where
  "iter_piece_infos L =
     map (\<lambda>idx. \<lparr>pi_piece_index = ValidPieceIndex (word_of_nat idx),
                pi_len = (if word_of_nat idx = last_piece_id L then last_piece_length L
                          else piece_length L)\<rparr>)
       [0..<unat (total_pieces L)]"

text \<open>
  \<open>iter_chunk_infos\<close> is a lazy \<open>scan\<close> over \<open>0u32..\<close>; the model collects it. \<open>None\<close> would be an
  iterator that never ends (a chunk length of zero), which \<open>iter_chunk_infos_eq\<close> rules out.
\<close>

partial_function (option) chunk_infos_scan ::
  "lengths \<Rightarrow> valid_piece_index \<Rightarrow> u32 \<Rightarrow> u32 \<Rightarrow> u32 \<Rightarrow> u32 \<Rightarrow> chunk_info list option" where
  "chunk_infos_scan L index absolute_offset offset remaining idx =
     (if remaining = 0 then Some []
      else let s = min remaining (chunk_length L) in
        Option.bind
          (chunk_infos_scan L index absolute_offset (offset + s) (remaining - s) (idx + 1))
          (\<lambda>rest. Some (\<lparr>ci_piece_index = index, ci_chunk_index = idx,
             ci_absolute_index = absolute_offset + idx, ci_size = s, ci_offset = offset\<rparr> # rest)))"

definition iter_chunk_infos :: "lengths \<Rightarrow> valid_piece_index \<Rightarrow> chunk_info list option" where
  "iter_chunk_infos L index =
     chunk_infos_scan L index (vpi_get index * max_chunks_per_piece L) 0 (piece_length_of L index) 0"

section \<open>The constructor: when nothing wraps\<close>

definition ceil_div :: "nat \<Rightarrow> nat \<Rightarrow> nat" where
  "ceil_div a b = (a + b - 1) div b"

definition sizes_fit :: "u64 \<Rightarrow> u32 \<Rightarrow> u32 \<Rightarrow> bool" where
  "sizes_fit tot piece chunk \<longleftrightarrow>
     unat tot + unat piece \<le> 2 ^ 64 \<and> unat piece + unat chunk \<le> 2 ^ 32 \<and>
     ceil_div (unat tot) (unat piece) * ceil_div (unat piece) (unat chunk) < 2 ^ 32"

definition lengths_ok :: "lengths \<Rightarrow> bool" where
  "lengths_ok L \<longleftrightarrow>
     0 < unat (chunk_length L) \<and> chunk_length L \<le> piece_length L \<and>
     unat (piece_length L) + unat (chunk_length L) \<le> 2 ^ 32 \<and>
     0 < unat (last_piece_length L) \<and> last_piece_length L \<le> piece_length L \<and>
     unat (total_length L) =
       unat (last_piece_id L) * unat (piece_length L) + unat (last_piece_length L) \<and>
     unat (max_chunks_per_piece L) =
       ceil_div (unat (piece_length L)) (unat (chunk_length L)) \<and>
     Suc (unat (last_piece_id L)) * unat (max_chunks_per_piece L) < 2 ^ 32"

abbreviation n_pieces :: "lengths \<Rightarrow> nat" where
  "n_pieces L \<equiv> Suc (unat (last_piece_id L))"

lemma ceil_div_pos: "0 < a \<Longrightarrow> 0 < b \<Longrightarrow> 0 < ceil_div a b"
  by (simp add: ceil_div_def div_greater_zero_iff)

lemma ceil_div_mono: "a \<le> a' \<Longrightarrow> ceil_div a b \<le> ceil_div a' b"
  unfolding ceil_div_def by (intro div_le_mono) simp

lemma ceil_div_le: "0 < b \<Longrightarrow> ceil_div a b \<le> a"
proof -
  assume b: "0 < b"
  have "(a + b - 1) div b \<le> a"
  proof (cases "a = 0")
    case True
    with b show ?thesis by simp
  next
    case False
    with b have "a + b - 1 \<le> a * b"
      by (cases a; cases b) simp_all
    then have "(a + b - 1) div b \<le> a * b div b"
      by (rule div_le_mono)
    with b show ?thesis by simp
  qed
  then show ?thesis by (simp add: ceil_div_def)
qed

text \<open>\<open>k\<close> is a position below the rounded-up quotient exactly when its element starts inside.\<close>

lemma less_ceil_div_iff: "0 < b \<Longrightarrow> k < ceil_div a b \<longleftrightarrow> k * b < a"
proof -
  assume b: "0 < b"
  have "k < ceil_div a b \<longleftrightarrow> Suc k * b \<le> a + b - 1"
    using b by (simp add: ceil_div_def less_eq_div_iff_mult_less_eq Suc_le_eq [symmetric])
  also have "\<dots> \<longleftrightarrow> k * b < a"
    using b by auto
  finally show ?thesis .
qed

lemma ceil_div_rem:
  assumes "0 < b" "0 < a"
  shows "(ceil_div a b - 1) * b + (if a mod b = 0 then b else a mod b) = a"
proof (cases "a mod b = 0")
  case True
  then obtain k where k: "a = b * k" by (auto elim: dvdE simp: mod_eq_0_iff_dvd)
  have "ceil_div a b = k"
    unfolding ceil_div_def using assms k by (intro div_nat_eqI) (simp_all add: mult.commute)
  with k assms True show ?thesis by (cases k) (simp_all add: algebra_simps)
next
  case False
  have "ceil_div a b = Suc (a div b)"
  proof -
    have "a + b - 1 = (a mod b - 1) + b * Suc (a div b)"
      using False mult_div_mod_eq [of b a]
      by (cases "a mod b") (simp_all add: algebra_simps)
    moreover have "(a mod b - 1) div b = 0"
      using assms mod_less_divisor [of b a] by (intro div_less) linarith
    moreover have "b \<noteq> 0" using assms by simp
    ultimately show ?thesis
      unfolding ceil_div_def by (simp only: div_mult_self2 not_False_eq_True)
  qed
  with False show ?thesis by (simp add: mult.commute)
qed

lemma unat_ceil_div_u64:
  assumes "b \<noteq> 0" and "unat a + unat b \<le> 2 ^ 64"
  shows "unat (ceil_div_u64 a b) = ceil_div (unat a) (unat b)"
proof -
  have pos: "0 < unat b" using assms(1) by (simp add: unat_pos_iff)
  have "unat (a + (b - 1)) = unat a + (unat b - 1)"
    using assms pos by (subst unat_add_fits) (simp_all add: unat_minus_one)
  moreover have "a + b - 1 = a + (b - 1)" by simp
  ultimately have "unat (a + b - 1) = unat a + unat b - 1"
    using pos by (simp only:)
  then show ?thesis
    by (simp only: ceil_div_u64_def ceil_div_def unat_div)
qed

lemma unat_last_element_size:
  "unat (last_element_size_u64 a b) =
     (if unat a mod unat b = 0 then unat b else unat a mod unat b)"
  by (simp add: last_element_size_u64_def unat_mod word_unat_eq_iff)


lemma lengths_new_ok:
  assumes new: "lengths_new tot piece copt = Inr L"
    and fit: "sizes_fit tot piece (case copt of Some c \<Rightarrow> c | None \<Rightarrow> CHUNK_SIZE)"
  shows "lengths_ok L" "total_length L = tot" "piece_length L = piece"
    "n_pieces L = ceil_div (unat tot) (unat piece)"
proof -
  define c where "c = (case copt of Some c \<Rightarrow> c | None \<Rightarrow> CHUNK_SIZE)"
  define n where "n = ceil_div (unat tot) (unat piece)"
  define m where "m = ceil_div (unat piece) (unat c)"
  from new have pow: "is_power_of_two (ucast c)" and cp: "c \<le> piece" and t0: "tot \<noteq> 0"
    and L: "L = \<lparr>chunk_length = c, total_length = tot, piece_length = piece,
      last_piece_id = ucast (ceil_div_u64 tot (ucast piece)) - 1,
      last_piece_length = ucast (last_element_size_u64 tot (ucast piece)),
      max_chunks_per_piece = ucast (ceil_div_u64 (ucast piece) (ucast c))\<rparr>"
    by (auto simp: lengths_new_def c_def Let_def split: if_splits)
  from pow have c0: "0 < unat c"
    by (auto simp: is_power_of_two_def unat_pos_iff)
  with cp have p0: "0 < unat piece"
    by (simp add: word_le_nat_alt)
  have t0': "0 < unat tot" using t0 by (simp add: unat_pos_iff)
  from fit have f1: "unat tot + unat piece \<le> 2 ^ 64" and f2: "unat piece + unat c \<le> 2 ^ 32"
    and f3: "n * m < 2 ^ 32"
    by (simp_all add: sizes_fit_def c_def n_def m_def)
  have n0: "0 < n" and m0: "0 < m"
    using t0' p0 c0 by (simp_all add: n_def m_def ceil_div_pos)
  have n_lt: "n < 2 ^ 32" and m_lt: "m < 2 ^ 32"
    using f3 n0 m0 by (auto simp: dest: le_less_trans [rotated, of _ _ n] le_less_trans [rotated, of _ _ m])
  have un: "unat (ucast (ceil_div_u64 tot (ucast piece)) :: u32) = n"
    using p0 f1 n_lt by (subst unat_ucast_fits)
      (simp_all add: unat_ceil_div_u64 n_def unat_pos_iff [symmetric])
  have um: "unat (ucast (ceil_div_u64 (ucast piece) (ucast c)) :: u32) = m"
    using c0 f2 m_lt by (subst unat_ucast_fits)
      (simp_all add: unat_ceil_div_u64 m_def unat_pos_iff [symmetric])
  define l where "l = (if unat tot mod unat piece = 0 then unat piece
    else unat tot mod unat piece)"
  have l: "0 < l" "l \<le> unat piece"
    using p0 mod_less_divisor [of "unat piece" "unat tot"] by (auto simp: l_def)
  have ul: "unat (ucast (last_element_size_u64 tot (ucast piece)) :: u32) = l"
    using le_less_trans [OF l(2) u32_bound]
    by (subst unat_ucast_fits) (simp_all add: unat_last_element_size l_def split: if_splits)
  have ulast: "unat (ucast (ceil_div_u64 tot (ucast piece)) - 1 :: u32) = n - 1"
    using un n0 by (subst unat_minus_one) (auto simp: unat_pos_iff [symmetric])
  have split: "(n - 1) * unat piece + l = unat tot"
    using ceil_div_rem [OF p0 t0'] by (simp add: n_def l_def)
  show "lengths_ok L"
    using c0 cp f2 l f3 n0 split
    by (simp add: lengths_ok_def L ul um ulast m_def word_le_nat_alt)
  show "total_length L = tot" "piece_length L = piece" by (simp_all add: L)
  show "n_pieces L = ceil_div (unat tot) (unat piece)"
    using n0 by (simp add: L ulast n_def)
qed


section \<open>Pieces\<close>

definition valid_index :: "lengths \<Rightarrow> valid_piece_index \<Rightarrow> bool" where
  "valid_index L i \<longleftrightarrow> vpi_get i \<le> last_piece_id L"

lemma validate_piece_index_Some_iff [simp]:
  "validate_piece_index L x = Some i \<longleftrightarrow> i = ValidPieceIndex x \<and> valid_index L i"
  by (auto simp: validate_piece_index_def valid_index_def)

lemma lengths_okD:
  assumes "lengths_ok L"
  shows "0 < unat (chunk_length L)" "chunk_length L \<noteq> 0"
    "unat (chunk_length L) \<le> unat (piece_length L)"
    "unat (piece_length L) + unat (chunk_length L) \<le> 2 ^ 32"
    "0 < unat (last_piece_length L)" "unat (last_piece_length L) \<le> unat (piece_length L)"
    "unat (max_chunks_per_piece L) = ceil_div (unat (piece_length L)) (unat (chunk_length L))"
    "0 < unat (max_chunks_per_piece L)"
    "n_pieces L * unat (max_chunks_per_piece L) < 2 ^ 32"
    "unat (total_length L) = unat (last_piece_id L) * unat (piece_length L) +
       unat (last_piece_length L)"
  using assms
  by (auto simp: lengths_ok_def word_le_nat_alt unat_pos_iff [symmetric] intro!: ceil_div_pos)

lemma n_pieces_bound: "lengths_ok L \<Longrightarrow> n_pieces L < 2 ^ 32"
  using lengths_okD(8,9) [of L] by (cases "unat (max_chunks_per_piece L)") simp_all

lemma unat_total_pieces: "lengths_ok L \<Longrightarrow> unat (total_pieces L) = n_pieces L"
  using n_pieces_bound [of L] by (simp add: total_pieces_def unat_add_fits)

lemma piece_length_of_bounds:
  assumes "lengths_ok L"
  shows "0 < unat (piece_length_of L i)" "unat (piece_length_of L i) \<le> unat (piece_length L)"
  using lengths_okD [OF assms] by (auto simp: piece_length_of_def)

lemma unat_piece_offset: "unat (piece_offset L i) = unat (vpi_get i) * unat (piece_length L)"
proof -
  have "unat (vpi_get i) * unat (piece_length L) < 2 ^ 32 * 2 ^ 32"
    using u32_bound by (intro mult_strict_mono') simp_all
  then show ?thesis
    unfolding piece_offset_def by (subst unat_mult_fits) simp_all
qed

lemma iter_piece_infos_nth:
  assumes "lengths_ok L" and "k < n_pieces L"
  shows "iter_piece_infos L ! k =
    \<lparr>pi_piece_index = ValidPieceIndex (word_of_nat k),
     pi_len = piece_length_of L (ValidPieceIndex (word_of_nat k))\<rparr>"
  using assms by (simp add: iter_piece_infos_def unat_total_pieces piece_length_of_def del: upt_Suc)

lemma length_iter_piece_infos: "lengths_ok L \<Longrightarrow> length (iter_piece_infos L) = n_pieces L"
  by (simp add: iter_piece_infos_def unat_total_pieces)

lemma sum_piece_lengths:
  assumes "lengths_ok L"
  shows "sum_list (map (unat \<circ> pi_len) (iter_piece_infos L)) = unat (total_length L)"
proof -
  define n where "n = unat (last_piece_id L)"
  have n: "n < 2 ^ 32" by (simp add: n_def u32_bound)
  have ne: "word_of_nat k \<noteq> last_piece_id L" if "k < n" for k
    using that n unat_u32_of_nat [of k] by (auto simp: n_def)
  have len: "map (unat \<circ> pi_len) (iter_piece_infos L) =
      map (\<lambda>k. unat (piece_length L)) [0..<n] @ [unat (last_piece_length L)]"
    using ne unfolding iter_piece_infos_def unat_total_pieces [OF assms] n_def [symmetric]
    by (auto simp: n_def)
  show ?thesis
    using lengths_okD(10) [OF assms] by (simp add: len n_def sum_list_triv)
qed


section \<open>Chunks of a piece\<close>

lemma unat_chunks_per_piece:
  assumes "lengths_ok L"
  shows "unat (chunks_per_piece L i) =
    ceil_div (unat (piece_length_of L i)) (unat (chunk_length L))"
proof (cases "vpi_get i = last_piece_id L")
  case True
  note ok = lengths_okD [OF assms]
  have "unat (last_piece_length L + (chunk_length L - 1)) =
      unat (last_piece_length L) + (unat (chunk_length L) - 1)"
    using ok by (subst unat_add_fits) (simp_all add: unat_minus_one)
  moreover have "last_piece_length L + chunk_length L - 1 =
      last_piece_length L + (chunk_length L - 1)"
    by simp
  ultimately have "unat (last_piece_length L + chunk_length L - 1) =
      unat (last_piece_length L) + unat (chunk_length L) - 1"
    using ok by (simp only:)
  with True show ?thesis
    by (simp only: chunks_per_piece_def piece_length_of_def ceil_div_def unat_div
        if_True refl)
next
  case False
  with lengths_okD(7) [OF assms] show ?thesis
    by (simp add: chunks_per_piece_def piece_length_of_def)
qed

abbreviation n_chunks :: "lengths \<Rightarrow> valid_piece_index \<Rightarrow> nat" where
  "n_chunks L i \<equiv> unat (chunks_per_piece L i)"

lemma less_n_chunks_iff:
  "lengths_ok L \<Longrightarrow> k < n_chunks L i \<longleftrightarrow> k * unat (chunk_length L) < unat (piece_length_of L i)"
  by (simp add: unat_chunks_per_piece less_ceil_div_iff lengths_okD)

lemma n_chunks_pos: "lengths_ok L \<Longrightarrow> 0 < n_chunks L i"
  by (simp add: less_n_chunks_iff piece_length_of_bounds)

lemma n_chunks_le_max: "lengths_ok L \<Longrightarrow> n_chunks L i \<le> unat (max_chunks_per_piece L)"
  by (simp add: unat_chunks_per_piece lengths_okD ceil_div_mono piece_length_of_bounds)

definition chunk_at :: "lengths \<Rightarrow> valid_piece_index \<Rightarrow> nat \<Rightarrow> chunk_info" where
  "chunk_at L i k = \<lparr>ci_piece_index = i, ci_chunk_index = word_of_nat k,
     ci_absolute_index = vpi_get i * max_chunks_per_piece L + word_of_nat k,
     ci_size = word_of_nat (min (unat (chunk_length L))
       (unat (piece_length_of L i) - k * unat (chunk_length L))),
     ci_offset = word_of_nat (k * unat (chunk_length L))\<rparr>"

lemma chunk_at_values:
  assumes "lengths_ok L" "k < n_chunks L i"
  shows "unat (ci_chunk_index (chunk_at L i k)) = k"
    "unat (ci_size (chunk_at L i k)) =
       min (unat (chunk_length L)) (unat (piece_length_of L i) - k * unat (chunk_length L))"
    "unat (ci_offset (chunk_at L i k)) = k * unat (chunk_length L)"
    "0 < unat (ci_size (chunk_at L i k))"
proof -
  have "k * unat (chunk_length L) < unat (piece_length_of L i)"
    using assms by (simp add: less_n_chunks_iff)
  moreover have "unat (piece_length_of L i) < 2 ^ 32" by (simp add: u32_bound)
  moreover have "k < 2 ^ 32" using assms(2) u32_bound [of "chunks_per_piece L i"] by simp
  moreover have "unat (chunk_length L) < 2 ^ 32" by (simp add: u32_bound)
  ultimately show "unat (ci_chunk_index (chunk_at L i k)) = k"
    "unat (ci_size (chunk_at L i k)) =
       min (unat (chunk_length L)) (unat (piece_length_of L i) - k * unat (chunk_length L))"
    "unat (ci_offset (chunk_at L i k)) = k * unat (chunk_length L)"
    "0 < unat (ci_size (chunk_at L i k))"
    using lengths_okD(1) [OF assms(1)]
    by (simp_all add: chunk_at_def unat_u32_of_nat del: of_nat_mult)
qed

lemma chunk_infos_scan_eq:
  assumes ok: "lengths_ok L"
  shows "k + m = n_chunks L i \<Longrightarrow>
    remaining = word_of_nat (unat (piece_length_of L i) - k * unat (chunk_length L)) \<Longrightarrow>
    (m = 0 \<or> offset = word_of_nat (k * unat (chunk_length L))) \<Longrightarrow>
    chunk_infos_scan L i (vpi_get i * max_chunks_per_piece L) offset remaining (word_of_nat k) =
      Some (map (chunk_at L i) [k..<n_chunks L i])"
proof (induction m arbitrary: k offset remaining)
  case 0
  then have "unat (piece_length_of L i) \<le> k * unat (chunk_length L)"
    using less_n_chunks_iff [OF ok, of k i] by simp
  with 0 show ?case by (simp add: chunk_infos_scan.simps)
next
  case (Suc m)
  define c where "c = unat (chunk_length L)"
  define r where "r = unat (piece_length_of L i) - k * c"
  have k: "k < n_chunks L i" using Suc.prems(1) by simp
  then have "k * c < unat (piece_length_of L i)"
    by (simp add: c_def less_n_chunks_iff [OF ok])
  then have r: "0 < r" "r < 2 ^ 32"
    using u32_bound [of "piece_length_of L i"] by (simp_all add: r_def)
  have c: "0 < c" "c < 2 ^ 32" using lengths_okD(1) [OF ok] by (simp_all add: c_def u32_bound)
  have rem: "remaining = word_of_nat r" using Suc.prems(2) by (simp add: r_def c_def)
  have ur: "unat remaining = r" using r by (simp add: rem unat_u32_of_nat)
  have s: "min remaining (chunk_length L) = word_of_nat (min c r)"
    using ur rem by (auto simp: min_def c_def word_le_nat_alt)
  have nxt_rem: "remaining - min remaining (chunk_length L) =
      word_of_nat (unat (piece_length_of L i) - Suc k * c)"
  proof -
    have "word_of_nat r - word_of_nat (min c r) = (word_of_nat (r - min c r) :: u32)"
      by (subst of_nat_diff) simp_all
    moreover have "r - min c r = unat (piece_length_of L i) - Suc k * c"
      by (simp add: r_def min_def add.commute)
    ultimately show ?thesis by (simp add: s [unfolded rem] rem)
  qed
  have nxt_off: "m = 0 \<or> offset + min remaining (chunk_length L) = word_of_nat (Suc k * c)"
  proof (cases "m = 0")
    case False
    then have "Suc k < n_chunks L i" using Suc.prems(1) by simp
    then have "c < r" by (simp add: less_n_chunks_iff [OF ok] r_def c_def)
    with Suc.prems(3) show ?thesis by (simp add: s c_def add.commute)
  qed simp
  have idx: "word_of_nat k + 1 = (word_of_nat (Suc k) :: u32)" by simp
  have "chunk_infos_scan L i (vpi_get i * max_chunks_per_piece L)
      (offset + min remaining (chunk_length L)) (remaining - min remaining (chunk_length L))
      (word_of_nat k + 1) = Some (map (chunk_at L i) [Suc k..<n_chunks L i])"
    unfolding idx using Suc.prems(1) nxt_rem nxt_off by (intro Suc.IH) (simp_all add: c_def)
  moreover have "remaining \<noteq> 0" using ur r by auto
  moreover have "\<lparr>ci_piece_index = i, ci_chunk_index = word_of_nat k,
      ci_absolute_index = vpi_get i * max_chunks_per_piece L + word_of_nat k,
      ci_size = min remaining (chunk_length L), ci_offset = offset\<rparr> = chunk_at L i k"
    using Suc.prems(3) by (simp add: chunk_at_def s r_def c_def)
  ultimately show ?case
    using k by (simp add: chunk_infos_scan.simps [of L i _ offset remaining] Let_def upt_rec [of k])
qed

lemma iter_chunk_infos_eq:
  assumes "lengths_ok L"
  shows "iter_chunk_infos L i = Some (map (chunk_at L i) [0..<n_chunks L i])"
  using chunk_infos_scan_eq [OF assms, of 0 "n_chunks L i" i] by (simp add: iter_chunk_infos_def)


lemma unat_chunk_offset:
  assumes "lengths_ok L" "unat k < n_chunks L i"
  shows "unat (k * chunk_length L) = unat k * unat (chunk_length L)"
    "unat k * unat (chunk_length L) < unat (piece_length_of L i)"
proof -
  show *: "unat k * unat (chunk_length L) < unat (piece_length_of L i)"
    using assms by (simp add: less_n_chunks_iff)
  show "unat (k * chunk_length L) = unat k * unat (chunk_length L)"
    using less_trans [OF * u32_bound] by (intro unat_mult_fits) simp
qed

lemma chunk_offset_in_piece_eq:
  assumes "lengths_ok L"
  shows "chunk_offset_in_piece L i k =
    (if unat k < n_chunks L i then Some (ci_offset (chunk_at L i (unat k))) else None)"
  by (simp add: chunk_offset_in_piece_def chunk_at_def word_le_nat_alt not_le)

lemma chunk_size_eq:
  assumes "lengths_ok L"
  shows "chunk_size L i k =
    (if unat k < n_chunks L i then Some (ci_size (chunk_at L i (unat k))) else None)"
proof (cases "unat k < n_chunks L i")
  case True
  note off = unat_chunk_offset [OF assms True]
  have "unat (piece_length_of L i - k * chunk_length L) =
      unat (piece_length_of L i) - unat k * unat (chunk_length L)"
    using off by (subst unat_sub) (simp_all add: word_le_nat_alt)
  then have "unat (min (chunk_length L) (piece_length_of L i - k * chunk_length L)) =
      unat (ci_size (chunk_at L i (unat k)))"
    by (simp add: chunk_at_values [OF assms True] min_def word_le_nat_alt)
  with True show ?thesis
    by (simp add: chunk_size_def Let_def word_le_nat_alt unsigned_word_eqI)
next
  case False
  then show ?thesis by (simp add: chunk_size_def Let_def word_le_nat_alt)
qed

lemma chunk_info_from_received_data_iff:
  assumes ok: "lengths_ok L"
  shows "chunk_info_from_received_data L i begin sz = Some ci \<longleftrightarrow>
    (\<exists>k < n_chunks L i. ci = chunk_at L i k \<and> ci_offset ci = begin \<and> ci_size ci = sz)"
    (is "?l \<longleftrightarrow> ?r")
proof
  assume ?l
  then have k: "unat (begin div chunk_length L) < n_chunks L i"
    by (auto simp: chunk_info_from_received_data_def Let_def chunk_size_eq [OF ok]
        split: option.splits if_splits)
  with \<open>?l\<close> have "ci = chunk_at L i (unat (begin div chunk_length L))"
    "ci_offset ci = begin" "ci_size ci = sz"
    by (auto simp: chunk_info_from_received_data_def Let_def chunk_size_eq [OF ok]
        chunk_offset_in_piece_eq [OF ok] chunk_at_def mult.commute split: if_splits)
  with k show ?r by blast
next
  assume ?r
  then obtain k where k: "k < n_chunks L i" and ci: "ci = chunk_at L i k"
    and b: "ci_offset ci = begin" and sz: "ci_size ci = sz" by blast
  have "unat begin = k * unat (chunk_length L)"
    using chunk_at_values(3) [OF ok k] b ci by simp
  then have "unat (begin div chunk_length L) = k"
    using lengths_okD(1) [OF ok] by (simp add: unat_div)
  then have idx: "begin div chunk_length L = word_of_nat k"
    by (metis of_nat_unat ucast_id)
  with k have uk: "unat (word_of_nat k :: u32) = k"
    using u32_bound [of "chunks_per_piece L i"] by (intro unat_u32_of_nat) simp
  show ?l
    using k b sz unfolding chunk_info_from_received_data_def Let_def idx
    by (simp add: chunk_size_eq [OF ok] chunk_offset_in_piece_eq [OF ok] uk ci)
      (simp add: chunk_at_def mult.commute)
qed

lemma chunk_range_eq:
  assumes ok: "lengths_ok L" and i: "valid_index L i"
  shows "chunk_range L i = (unat (vpi_get i) * unat (max_chunks_per_piece L),
    unat (vpi_get i) * unat (max_chunks_per_piece L) + n_chunks L i)"
proof -
  define m where "m = unat (max_chunks_per_piece L)"
  have "unat (vpi_get i) \<le> unat (last_piece_id L)"
    using i by (simp add: valid_index_def word_le_nat_alt)
  then have "unat (vpi_get i) * m + m \<le> n_pieces L * m"
    by (simp add: add.commute)
  then have le: "unat (vpi_get i) * m + m < 2 ^ 32"
    by (rule le_less_trans) (rule lengths_okD(9) [OF ok, folded m_def])
  have s: "unat (vpi_get i * max_chunks_per_piece L) = unat (vpi_get i) * m"
    using le unfolding m_def by (intro unat_mult_fits) simp
  have "unat (vpi_get i * max_chunks_per_piece L + chunks_per_piece L i) =
      unat (vpi_get i) * m + n_chunks L i"
    using le n_chunks_le_max [OF ok, of i] s by (subst unat_add_fits) (simp_all add: m_def)
  with s show ?thesis by (simp add: chunk_range_def Let_def m_def)
qed

lemma chunk_range_bounds:
  assumes "lengths_ok L" "valid_index L i"
  shows "fst (chunk_range L i) < snd (chunk_range L i)"
    "snd (chunk_range L i) - fst (chunk_range L i) = n_chunks L i"
  using n_chunks_pos [OF assms(1), of i] by (simp_all add: chunk_range_eq [OF assms])

lemma chunk_range_disjoint:
  assumes ok: "lengths_ok L" and "valid_index L i" "valid_index L j" "i \<noteq> j"
  shows "snd (chunk_range L i) \<le> fst (chunk_range L j) \<or> snd (chunk_range L j) \<le> fst (chunk_range L i)"
proof -
  define m where "m = unat (max_chunks_per_piece L)"
  have *: "a * m + n_chunks L x \<le> b * m" if "a < b" for a b x
  proof -
    have "Suc a * m \<le> b * m" using that by (intro mult_le_mono1) simp
    then show ?thesis using n_chunks_le_max [OF ok, of x] by (simp add: m_def)
  qed
  have "unat (vpi_get i) \<noteq> unat (vpi_get j)"
    using assms(4) by (auto simp: word_unat_eq_iff intro: valid_piece_index.expand)
  then show ?thesis
    using * by (simp add: chunk_range_eq assms(1-3) m_def [symmetric]) (metis linorder_neqE_nat)
qed


section \<open>The chunk bitfield\<close>

lemma ceil_div_upper: "0 < b \<Longrightarrow> a \<le> ceil_div a b * b"
  using less_ceil_div_iff [of b "ceil_div a b" a] by simp

lemma ceil_div_mult_add: "0 < b \<Longrightarrow> 0 < r \<Longrightarrow> ceil_div (q * b + r) b = q + ceil_div r b"
proof -
  assume b: "0 < b" "0 < r"
  then have "q * b + r + b - 1 = (r + b - 1) + q * b" by simp
  then have "(q * b + r + b - 1) div b = q + (r + b - 1) div b"
    using b by (simp only: div_mult_self1 neq0_conv)
  then show ?thesis by (simp only: ceil_div_def)
qed

lemma unat_total_chunks:
  assumes ok: "lengths_ok L"
  shows "unat (total_chunks L) = ceil_div (unat (total_length L)) (unat (chunk_length L))"
proof -
  note ld = lengths_okD [OF ok]
  define c where "c = unat (chunk_length L)"
  define p where "p = unat (piece_length L)"
  define m where "m = unat (max_chunks_per_piece L)"
  have "p \<le> m * c" using ld(1,7) by (simp add: p_def m_def c_def ceil_div_upper)
  then have "unat (last_piece_id L) * p + unat (last_piece_length L) \<le>
      unat (last_piece_id L) * (m * c) + m * c"
    using ld(6) by (intro add_mono mult_le_mono) (simp_all add: p_def)
  then have "unat (total_length L) \<le> n_pieces L * m * c"
    using ld(10) by (simp add: p_def add_mult_distrib add.commute mult.assoc)
  then have "ceil_div (unat (total_length L)) c \<le> ceil_div (n_pieces L * m * c) c"
    by (rule ceil_div_mono)
  also have "\<dots> \<le> n_pieces L * m"
    using ld(1) less_ceil_div_iff [of c "n_pieces L * m" "n_pieces L * m * c"] by (simp add: c_def)
  also have "\<dots> < 2 ^ 32" using ld(9) by (simp add: m_def)
  finally have lt: "ceil_div (unat (total_length L)) c < 2 ^ 32" .
  have "unat (total_length L) + c \<le> 2 ^ 64"
  proof -
    have "unat (last_piece_id L) * p \<le> (2 ^ 32 - 1) * (2 ^ 32 - 1)"
      using u32_bound [of "last_piece_id L"] u32_bound [of "piece_length L"]
      by (intro mult_le_mono) (simp_all add: p_def)
    moreover have "unat (last_piece_length L) \<le> 2 ^ 32 - 1" "c \<le> 2 ^ 32 - 1"
      using u32_bound [of "last_piece_length L"] u32_bound [of "chunk_length L"]
      by (simp_all add: c_def)
    ultimately show ?thesis using ld(10) by (simp add: p_def)
  qed
  then have "unat (ceil_div_u64 (total_length L) (ucast (chunk_length L))) =
      ceil_div (unat (total_length L)) c"
    using ld(1) by (subst unat_ceil_div_u64) (simp_all add: c_def unat_pos_iff [symmetric])
  then show ?thesis
    unfolding total_chunks_def using lt by (subst unat_ucast_fits) (simp_all add: c_def)
qed

lemma chunk_bitfield_bits: "unat (total_chunks L) \<le> 8 * chunk_bitfield_bytes L"
proof -
  have "unat (ceil_div_u64 (ucast (total_chunks L)) 8) = ceil_div (unat (total_chunks L)) 8"
    using u32_bound [of "total_chunks L"] by (subst unat_ceil_div_u64) simp_all
  then show ?thesis
    using ceil_div_upper [of 8 "unat (total_chunks L)"] by (simp add: chunk_bitfield_bytes_def)
qed

lemma chunk_range_total:
  assumes ok: "lengths_ok L" and i: "valid_index L i"
    and dvd: "unat (chunk_length L) dvd unat (piece_length L)"
  shows "snd (chunk_range L i) \<le> unat (total_chunks L)"
proof -
  note ld = lengths_okD [OF ok]
  define c where "c = unat (chunk_length L)"
  define m where "m = unat (max_chunks_per_piece L)"
  from dvd obtain q where q: "unat (piece_length L) = q * c"
    unfolding c_def by (metis dvdE mult.commute)
  have c0: "0 < c" using ld(1) by (simp add: c_def)
  have "q = m" unfolding m_def ld(7) q c_def [symmetric] ceil_div_def
    using c0 by (intro div_nat_eqI [symmetric]) (simp_all add: mult.commute)
  with q have p: "unat (piece_length L) = m * c" by simp
  have tot: "unat (total_chunks L) =
      unat (last_piece_id L) * m + ceil_div (unat (last_piece_length L)) c"
    unfolding unat_total_chunks [OF ok] ld(10) p c_def [symmetric] mult.assoc [symmetric]
    using c0 ld(5) by (rule ceil_div_mult_add)
  show ?thesis
  proof (cases "vpi_get i = last_piece_id L")
    case True
    then show ?thesis
      by (simp add: chunk_range_eq [OF ok i] unat_chunks_per_piece [OF ok] tot m_def c_def
          piece_length_of_def)
  next
    case False
    then have "unat (vpi_get i) < unat (last_piece_id L)"
      using i by (simp add: valid_index_def word_le_nat_alt word_unat_eq_iff)
    then have "Suc (unat (vpi_get i)) * m \<le> unat (last_piece_id L) * m"
      by (intro mult_le_mono1) simp
    then show ?thesis
      using n_chunks_le_max [OF ok, of i] by (simp add: chunk_range_eq [OF ok i] tot m_def)
  qed
qed


section \<open>Correctness of the layout\<close>

lemma sum_piece_lengths_before:
  assumes "lengths_ok L" "k < n_pieces L"
  shows "sum_list (map (unat \<circ> pi_len) (take k (iter_piece_infos L))) =
    unat (piece_offset L (ValidPieceIndex (word_of_nat k)))"
proof -
  have k32: "k < 2 ^ 32" using assms n_pieces_bound [OF assms(1)] by simp
  have "map (unat \<circ> pi_len) (take k (iter_piece_infos L)) = replicate k (unat (piece_length L))"
  proof (rule nth_equalityI)
    fix j assume "j < length (map (unat \<circ> pi_len) (take k (iter_piece_infos L)))"
    then have j: "j < k" by simp
    then have "word_of_nat j \<noteq> last_piece_id L"
      using assms(2) unat_u32_of_nat [of j] k32 by auto
    with j assms show "map (unat \<circ> pi_len) (take k (iter_piece_infos L)) ! j =
        replicate k (unat (piece_length L)) ! j"
      by (simp add: iter_piece_infos_nth piece_length_of_def length_iter_piece_infos)
  qed (use assms in \<open>simp add: length_iter_piece_infos\<close>)
  then show ?thesis
    using k32 by (simp add: sum_list_replicate unat_piece_offset unat_u32_of_nat)
qed

lemma sum_chunk_sizes_before:
  assumes ok: "lengths_ok L" and "k \<le> n_chunks L i"
  shows "sum_list (map (unat \<circ> ci_size) (map (chunk_at L i) [0..<k])) =
    min (k * unat (chunk_length L)) (unat (piece_length_of L i))"
  using assms(2)
proof (induction k)
  case 0
  show ?case by simp
next
  case (Suc k)
  then have "k * unat (chunk_length L) < unat (piece_length_of L i)"
    using less_n_chunks_iff [OF ok, of k i] by simp
  with Suc show ?case
    by (simp add: chunk_at_values [OF ok] min_def comp_def) arith
qed

lemma sum_chunk_sizes:
  assumes ok: "lengths_ok L"
  shows "sum_list (map (unat \<circ> ci_size) (map (chunk_at L i) [0..<n_chunks L i])) =
    unat (piece_length_of L i)"
  unfolding sum_chunk_sizes_before [OF ok order_refl]
  using less_n_chunks_iff [OF ok, of "n_chunks L i" i] by simp

text \<open>The torrent of the source's own unit tests, for the witnesses.\<close>

definition test_lengths :: lengths where
  "test_lengths = \<lparr>chunk_length = 16384, total_length = 1174243328, piece_length = 262144,
     last_piece_id = 4479, last_piece_length = 100352, max_chunks_per_piece = 16\<rparr>"

lemma test_lengths_new: "lengths_new 1174243328 262144 None = Inr test_lengths"
  by code_simp

lemma test_sizes_fit:
  "sizes_fit 1174243328 262144 (case None of Some c \<Rightarrow> c | None \<Rightarrow> CHUNK_SIZE)"
  by (simp add: sizes_fit_def CHUNK_SIZE_def ceil_div_def)

lemmas test_lengths_ok = lengths_new_ok(1) [OF test_lengths_new test_sizes_fit]

text \<open>
  C36: \<open>Lengths::new\<close> cuts a torrent into pieces that tile it. Whenever the constructor accepts the
  sizes and they fit the integer widths, there are \<open>total_pieces\<close> pieces, each is non-empty and no
  longer than the piece length, piece \<open>k\<close> starts (\<open>piece_offset\<close>) where the pieces before it end,
  and together they cover exactly \<open>total_length\<close> bytes.
\<close>
theorem pieces_tile_torrent:
  assumes "lengths_new tot piece copt = Inr L"
    and "sizes_fit tot piece (case copt of Some c \<Rightarrow> c | None \<Rightarrow> CHUNK_SIZE)"
  shows "length (iter_piece_infos L) = unat (total_pieces L) \<and>
    sum_list (map (unat \<circ> pi_len) (iter_piece_infos L)) = unat tot \<and>
    (\<forall>k < length (iter_piece_infos L).
       pi_piece_index (iter_piece_infos L ! k) = ValidPieceIndex (word_of_nat k) \<and>
       0 < unat (pi_len (iter_piece_infos L ! k)) \<and>
       pi_len (iter_piece_infos L ! k) \<le> piece \<and>
       unat (piece_offset L (ValidPieceIndex (word_of_nat k))) =
         sum_list (map (unat \<circ> pi_len) (take k (iter_piece_infos L))))"
  using lengths_new_ok [OF assms]
  by (simp_all add: length_iter_piece_infos unat_total_pieces sum_piece_lengths iter_piece_infos_nth
      sum_piece_lengths_before piece_length_of_bounds word_le_nat_alt)
    (metis piece_length_of_bounds(2))

theorem pieces_tile_torrent_witness:
  "length (iter_piece_infos test_lengths) = 4480 \<and>
   sum_list (map (unat \<circ> pi_len) (iter_piece_infos test_lengths)) = 1174243328"
  using pieces_tile_torrent [OF test_lengths_new test_sizes_fit]
  by (simp add: total_pieces_def test_lengths_def)

text \<open>
  The chunks of a piece tile it. For every valid piece the iterator \<open>iter_chunk_infos\<close> ends, yields
  \<open>chunks_per_piece\<close> non-empty chunks of at most the chunk length, numbered in order, chunk \<open>k\<close>
  starting where the chunks before it end, and together they cover exactly the piece.
\<close>
theorem chunks_tile_piece:
  assumes "lengths_new tot piece copt = Inr L"
    and "sizes_fit tot piece (case copt of Some c \<Rightarrow> c | None \<Rightarrow> CHUNK_SIZE)"
    and "validate_piece_index L index = Some i"
  shows "\<exists>cs. iter_chunk_infos L i = Some cs \<and> length cs = unat (chunks_per_piece L i) \<and>
    sum_list (map (unat \<circ> ci_size) cs) = unat (piece_length_of L i) \<and>
    (\<forall>k < length cs. unat (ci_chunk_index (cs ! k)) = k \<and> ci_piece_index (cs ! k) = i \<and>
       0 < unat (ci_size (cs ! k)) \<and> ci_size (cs ! k) \<le> chunk_length L \<and>
       unat (ci_offset (cs ! k)) = sum_list (map (unat \<circ> ci_size) (take k cs)))"
proof -
  note ok = lengths_new_ok(1) [OF assms(1,2)]
  have "unat (ci_offset (chunk_at L i k)) =
      sum_list (map (unat \<circ> ci_size) (map (chunk_at L i) [0..<k]))" if "k < n_chunks L i" for k
    using that less_n_chunks_iff [OF ok, of k i]
    by (subst sum_chunk_sizes_before [OF ok]) (simp_all add: chunk_at_values [OF ok] min_def)
  then show ?thesis
    using sum_chunk_sizes [OF ok, of i] chunk_at_values [OF ok, of _ i]
    by (simp add: iter_chunk_infos_eq [OF ok] word_le_nat_alt take_map)
      (simp add: chunk_at_def)
qed

theorem chunks_tile_piece_witness:
  "\<exists>cs. iter_chunk_infos test_lengths (ValidPieceIndex 4479) = Some cs \<and> length cs = 7 \<and>
     sum_list (map (unat \<circ> ci_size) cs) = 100352"
proof -
  have "validate_piece_index test_lengths 4479 = Some (ValidPieceIndex 4479)"
    by code_simp
  from chunks_tile_piece [OF test_lengths_new test_sizes_fit this] show ?thesis
    by (auto simp: chunks_per_piece_def piece_length_of_def test_lengths_def)
qed

text \<open>
  What a peer sends back is matched against the same layout the requests were cut from.
  \<open>chunk_info_from_received_piece\<close> accepts a triple (piece index, begin, block length) exactly when
  \<open>iter_chunk_infos\<close> of that valid piece yields a chunk with this offset and this size, and it then
  returns that very chunk; every other triple is rejected.
\<close>
theorem received_piece_iff_requested_chunk:
  assumes "lengths_new tot piece copt = Inr L"
    and "sizes_fit tot piece (case copt of Some c \<Rightarrow> c | None \<Rightarrow> CHUNK_SIZE)"
  shows "chunk_info_from_received_piece L index begin len = Some ci \<longleftrightarrow>
    (\<exists>i cs. validate_piece_index L index = Some i \<and> iter_chunk_infos L i = Some cs \<and>
       ci \<in> set cs \<and> ci_offset ci = begin \<and> ci_size ci = len)"
proof -
  note ok = lengths_new_ok(1) [OF assms]
  show ?thesis
    by (auto simp: chunk_info_from_received_piece_def iter_chunk_infos_eq [OF ok]
        chunk_info_from_received_data_iff [OF ok] split: option.splits)
      (auto simp: validate_piece_index_def valid_index_def split: if_splits)
qed

theorem received_piece_iff_requested_chunk_witness:
  "\<exists>i cs. validate_piece_index test_lengths 4479 = Some i \<and>
     iter_chunk_infos test_lengths i = Some cs \<and>
     \<lparr>ci_piece_index = ValidPieceIndex 4479, ci_chunk_index = 6, ci_absolute_index = 71670,
      ci_size = 2048, ci_offset = 98304\<rparr> \<in> set cs"
proof -
  have "chunk_info_from_received_piece test_lengths 4479 98304 2048 =
      Some \<lparr>ci_piece_index = ValidPieceIndex 4479, ci_chunk_index = 6, ci_absolute_index = 71670,
      ci_size = 2048, ci_offset = 98304\<rparr>"
    by code_simp
  then show ?thesis
    unfolding received_piece_iff_requested_chunk [OF test_lengths_new test_sizes_fit] by blast
qed

end
