(* ===== verification/PeerProtocol.thy ===== *)
theory PeerProtocol
  imports Lengths Extended
begin

text \<open>
  Model of \<open>crates/peer_binary_protocol/src/lib.rs\<close>: the messages peers exchange, their byte form,
  the parser of a receive buffer, and the BitTorrent handshake. The \<open>bincode\<close> crate is foreign code:
  its two uses, the fixed-width form of a \<open>Request\<close> and the form of a \<open>Handshake\<close>, are parameters.
\<close>

section \<open>Data\<close>

record piece =
  p_index :: u32
  p_begin :: u32
  p_block :: bytes

record request =
  rq_index :: u32
  rq_begin :: u32
  rq_length :: u32

datatype message =
    Request request
  | Cancel request
  | Bitfield bytes
  | KeepAlive
  | Have u32
  | Choke
  | Unchoke
  | Interested
  | NotInterested
  | Piece piece
  | Extended ext_message

definition PREAMBLE_LEN :: nat where "PREAMBLE_LEN = 5"
definition NO_PAYLOAD_MSG_LEN :: nat where "NO_PAYLOAD_MSG_LEN = PREAMBLE_LEN"
definition PIECE_MESSAGE_PREAMBLE_LEN :: nat where "PIECE_MESSAGE_PREAMBLE_LEN = PREAMBLE_LEN + 8"

definition LEN_PREFIX_KEEPALIVE :: u32 where "LEN_PREFIX_KEEPALIVE = 0"
definition LEN_PREFIX_CHOKE :: u32 where "LEN_PREFIX_CHOKE = 1"
definition LEN_PREFIX_UNCHOKE :: u32 where "LEN_PREFIX_UNCHOKE = 1"
definition LEN_PREFIX_INTERESTED :: u32 where "LEN_PREFIX_INTERESTED = 1"
definition LEN_PREFIX_NOT_INTERESTED :: u32 where "LEN_PREFIX_NOT_INTERESTED = 1"
definition LEN_PREFIX_HAVE :: u32 where "LEN_PREFIX_HAVE = 5"
definition LEN_PREFIX_PIECE :: u32 where "LEN_PREFIX_PIECE = 9"
definition LEN_PREFIX_REQUEST :: u32 where "LEN_PREFIX_REQUEST = 13"

definition MSGID_CHOKE :: u8 where "MSGID_CHOKE = 0"
definition MSGID_UNCHOKE :: u8 where "MSGID_UNCHOKE = 1"
definition MSGID_INTERESTED :: u8 where "MSGID_INTERESTED = 2"
definition MSGID_NOT_INTERESTED :: u8 where "MSGID_NOT_INTERESTED = 3"
definition MSGID_HAVE :: u8 where "MSGID_HAVE = 4"
definition MSGID_BITFIELD :: u8 where "MSGID_BITFIELD = 5"
definition MSGID_REQUEST :: u8 where "MSGID_REQUEST = 6"
definition MSGID_PIECE :: u8 where "MSGID_PIECE = 7"
definition MSGID_CANCEL :: u8 where "MSGID_CANCEL = 8"
definition MSGID_EXTENDED :: u8 where "MSGID_EXTENDED = 20"

lemmas msg_consts = PREAMBLE_LEN_def NO_PAYLOAD_MSG_LEN_def PIECE_MESSAGE_PREAMBLE_LEN_def
  LEN_PREFIX_KEEPALIVE_def LEN_PREFIX_CHOKE_def LEN_PREFIX_UNCHOKE_def LEN_PREFIX_INTERESTED_def
  LEN_PREFIX_NOT_INTERESTED_def LEN_PREFIX_HAVE_def LEN_PREFIX_PIECE_def LEN_PREFIX_REQUEST_def
  MSGID_CHOKE_def MSGID_UNCHOKE_def MSGID_INTERESTED_def MSGID_NOT_INTERESTED_def MSGID_HAVE_def
  MSGID_BITFIELD_def MSGID_REQUEST_def MSGID_PIECE_def MSGID_CANCEL_def MSGID_EXTENDED_def

section \<open>Pieces\<close>

text \<open>What \<open>serialize_piece_preamble\<close> writes, with the length it returns.\<close>

definition serialize_piece_preamble :: "chunk_info \<Rightarrow> bytes \<times> nat" where
  "serialize_piece_preamble chunk =
     (be32 (LEN_PREFIX_PIECE + ci_size chunk) @ [MSGID_PIECE]
        @ be32 (vpi_get (ci_piece_index chunk)) @ be32 (ci_offset chunk),
      PIECE_MESSAGE_PREAMBLE_LEN)"

definition piece_serialize :: "piece \<Rightarrow> bytes" where
  "piece_serialize p = be32 (p_index p) @ be32 (p_begin p) @ p_block p"

text \<open>\<open>&buf[a..b]\<close> and \<open>&buf[a..]\<close> panic out of range.\<close>

definition slice :: "bytes \<Rightarrow> nat \<Rightarrow> nat \<Rightarrow> bytes outcome" where
  "slice buf a b = unwrap (get_range buf a b)"

definition slice_from :: "bytes \<Rightarrow> nat \<Rightarrow> bytes outcome" where
  "slice_from buf a = unwrap (get_from buf a)"

definition piece_deserialize :: "bytes \<Rightarrow> piece outcome" where
  "piece_deserialize buf =
     bind_outcome (slice buf 0 4) (\<lambda>index.
     bind_outcome (slice buf 4 8) (\<lambda>begin.
     bind_outcome (slice_from buf 8) (\<lambda>block.
       Return \<lparr>p_index = of_be32 index, p_begin = of_be32 begin, p_block = block\<rparr>)))"

section \<open>Messages\<close>

text \<open>The \<open>bincode\<close> form of a request, as the code configures it.\<close>

type_synonym request_enc = "request \<Rightarrow> bytes"
type_synonym request_dec = "bytes \<Rightarrow> request option"

definition len_prefix_and_msg_id :: "message \<Rightarrow> u32 \<times> u8" where
  "len_prefix_and_msg_id msg =
     (case msg of
        Request _ \<Rightarrow> (LEN_PREFIX_REQUEST, MSGID_REQUEST)
      | Cancel _ \<Rightarrow> (LEN_PREFIX_REQUEST, MSGID_REQUEST)
      | Bitfield b \<Rightarrow> (1 + word_of_nat (length b), MSGID_BITFIELD)
      | Choke \<Rightarrow> (LEN_PREFIX_CHOKE, MSGID_CHOKE)
      | Unchoke \<Rightarrow> (LEN_PREFIX_UNCHOKE, MSGID_UNCHOKE)
      | Interested \<Rightarrow> (LEN_PREFIX_INTERESTED, MSGID_INTERESTED)
      | NotInterested \<Rightarrow> (LEN_PREFIX_NOT_INTERESTED, MSGID_NOT_INTERESTED)
      | Piece p \<Rightarrow> (LEN_PREFIX_PIECE + word_of_nat (length (p_block p)), MSGID_PIECE)
      | KeepAlive \<Rightarrow> (LEN_PREFIX_KEEPALIVE, 0)
      | Have _ \<Rightarrow> (LEN_PREFIX_HAVE, MSGID_HAVE)
      | Extended _ \<Rightarrow> (0, MSGID_EXTENDED))"

text \<open>
  \<open>Message::serialize\<close> fills the buffer and returns how many of its bytes are the message. \<open>Panic\<close>
  is the \<open>unwrap\<close> of the request encoder or a \<open>todo!()\<close> below, \<open>Return None\<close> the missing
  \<open>ut_metadata\<close> id of the peer.
\<close>

definition serialize_message ::
  "request_enc \<Rightarrow> message \<Rightarrow> u8 option \<Rightarrow> (bytes \<times> nat) option outcome" where
  "serialize_message enc msg peer_ut_metadata =
     (let (lp, msg_id) = len_prefix_and_msg_id msg;
          preamble = be32 lp @ [msg_id] in
      case msg of
        Request r \<Rightarrow>
          if length (enc r) = 12 then Return (Some (preamble @ enc r, PREAMBLE_LEN + 12)) else Panic
      | Cancel r \<Rightarrow>
          if length (enc r) = 12 then Return (Some (preamble @ enc r, PREAMBLE_LEN + 12)) else Panic
      | Bitfield b \<Rightarrow> Return (Some (preamble @ b, PREAMBLE_LEN + length b))
      | Choke \<Rightarrow> Return (Some (preamble, PREAMBLE_LEN))
      | Unchoke \<Rightarrow> Return (Some (preamble, PREAMBLE_LEN))
      | Interested \<Rightarrow> Return (Some (preamble, PREAMBLE_LEN))
      | NotInterested \<Rightarrow> Return (Some (preamble, PREAMBLE_LEN))
      | Piece p \<Rightarrow> Return (Some (preamble @ piece_serialize p, PREAMBLE_LEN + (8 + length (p_block p))))
      | KeepAlive \<Rightarrow> Return (Some (preamble, 4))
      | Have v \<Rightarrow> Return (Some (preamble @ be32 v, PREAMBLE_LEN + 4))
      | Extended e \<Rightarrow>
          bind_outcome (ext_serialize e peer_ut_metadata) (\<lambda>r.
            case r of
              None \<Rightarrow> Return None
            | Some body \<Rightarrow>
                let msg_size = PREAMBLE_LEN + length body in
                Return (Some (be32 (word_of_nat (msg_size - PREAMBLE_LEN + 1)) @ [msg_id] @ body,
                  msg_size))))"

text \<open>
  \<open>Message::deserialize\<close> on a receive buffer: the message and the number of bytes it took, or why
  not. \<open>NotEnoughData\<close> tells the reader how many bytes are missing. The lengths are computed as \<open>usize\<close>, 64 bits
  wide, and wrap around below zero.
\<close>

abbreviation usize :: "u32 \<Rightarrow> u64" where "usize x \<equiv> ucast x"

definition check_prefix :: "u32 \<Rightarrow> u32 \<Rightarrow> u8 \<Rightarrow> message \<Rightarrow> msg_error + (message \<times> nat)" where
  "check_prefix len_prefix expected msg_id msg =
     (if len_prefix \<noteq> expected then Inl (IncorrectLenPrefix len_prefix expected msg_id)
      else Inr (msg, NO_PAYLOAD_MSG_LEN))"

definition deserialize_payload ::
  "request_dec \<Rightarrow> (bytes \<Rightarrow> bytes) \<Rightarrow> u32 \<Rightarrow> u8 \<Rightarrow> bytes \<Rightarrow>
    (msg_error + (message \<times> nat)) outcome" where
  "deserialize_payload dec sha1 len_prefix msg_id rest =
    (if msg_id = MSGID_CHOKE then Return (check_prefix len_prefix LEN_PREFIX_CHOKE msg_id Choke)
     else if msg_id = MSGID_UNCHOKE then
       Return (check_prefix len_prefix LEN_PREFIX_UNCHOKE msg_id Unchoke)
     else if msg_id = MSGID_INTERESTED then
       Return (check_prefix len_prefix LEN_PREFIX_INTERESTED msg_id Interested)
     else if msg_id = MSGID_NOT_INTERESTED then
       Return (check_prefix len_prefix LEN_PREFIX_NOT_INTERESTED msg_id NotInterested)
     else if msg_id = MSGID_HAVE then
       (case get_to rest 4 of
          Some h \<Rightarrow> Return (Inr (Have (of_be32 h), PREAMBLE_LEN + 4))
        | None \<Rightarrow> Return (Inl (NotEnoughData (4 - length rest) ''have'')))
     else if msg_id = MSGID_BITFIELD then
       (if len_prefix \<le> 1 then Return (Inl (IncorrectLenPrefix len_prefix 2 msg_id))
        else
          let expected_len = unat (usize len_prefix - 1) in
          (case get_to rest expected_len of
             Some b \<Rightarrow> Return (Inr (Bitfield b, PREAMBLE_LEN + expected_len))
           | None \<Rightarrow> Return (Inl (NotEnoughData (expected_len - length rest) ''bitfield''))))
     else if msg_id = MSGID_REQUEST \<or> msg_id = MSGID_CANCEL then
       (case get_to rest 12 of
          Some b \<Rightarrow>
            bind_outcome (unwrap (dec b)) (\<lambda>r.
              Return (Inr (if msg_id = MSGID_REQUEST then Request r else Cancel r,
                PREAMBLE_LEN + 12)))
        | None \<Rightarrow> Return (Inl (NotEnoughData (12 - length rest)
            (if msg_id = MSGID_REQUEST then ''request'' else ''cancel''))))
     else if msg_id = MSGID_PIECE then
       (if len_prefix \<le> 9 then Return (Inl (IncorrectLenPrefix len_prefix 10 msg_id))
        else
          let expected_len = unat (usize len_prefix - 9 + 8) in
          (case get_to rest expected_len of
             Some b \<Rightarrow>
               bind_outcome (piece_deserialize b) (\<lambda>p. Return (Inr (Piece p, PREAMBLE_LEN + expected_len)))
           | None \<Rightarrow> Return (Inl (NotEnoughData (expected_len - length rest) ''piece''))))
     else if msg_id = MSGID_EXTENDED then
       (if len_prefix \<le> 6 then Return (Inl (IncorrectLenPrefix len_prefix 6 msg_id))
        else
          let expected_len = unat (usize len_prefix - 1) in
          (case get_to rest expected_len of
             Some b \<Rightarrow>
               (case ext_deserialize sha1 b of
                  Inl (OtherError (BencodeFailed DePanic)) \<Rightarrow> Panic
                | Inl e \<Rightarrow> Return (Inl e)
                | Inr e \<Rightarrow> Return (Inr (Extended e, PREAMBLE_LEN + expected_len)))
           | None \<Rightarrow> Return (Inl (NotEnoughData (expected_len - length rest) ''extended''))))
     else Return (Inl (UnsupportedMessageId msg_id)))"

definition deserialize_message ::
  "request_dec \<Rightarrow> (bytes \<Rightarrow> bytes) \<Rightarrow> bytes \<Rightarrow> (msg_error + (message \<times> nat)) outcome" where
  "deserialize_message dec sha1 buf =
     (case get_to buf 4 of
        None \<Rightarrow> Return (Inl (NotEnoughData 4 ''message''))
      | Some lp_bytes \<Rightarrow>
        let len_prefix = of_be32 lp_bytes in
        if len_prefix = 0 then Return (Inr (KeepAlive, 4))
        else
          (case get buf 4 of
             None \<Rightarrow> Return (Inl (NotEnoughData 1 ''message''))
           | Some msg_id \<Rightarrow>
               bind_outcome (slice_from buf 5) (deserialize_payload dec sha1 len_prefix msg_id)))"

section \<open>The handshake\<close>

record handshake =
  h_pstr :: bytes
  h_reserved :: bytes
  h_info_hash :: bytes
  h_peer_id :: bytes

definition PSTR_BT1 :: bytes where
  "PSTR_BT1 = ascii ''BitTorrent protocol''"

definition handshake_new :: "bytes \<Rightarrow> bytes \<Rightarrow> handshake" where
  "handshake_new info_hash peer_id =
     \<lparr>h_pstr = PSTR_BT1, h_reserved = be64 (0 OR push_bit 20 1),
      h_info_hash = info_hash, h_peer_id = peer_id\<rparr>"

definition supports_extended :: "handshake \<Rightarrow> bool" where
  "supports_extended h \<longleftrightarrow> (h_reserved h ! 5) AND 0x10 > 0"

definition handshake_deserialize ::
  "(bytes \<Rightarrow> handshake option) \<Rightarrow> bytes \<Rightarrow> msg_error + (handshake \<times> nat)" where
  "handshake_deserialize dec b =
     (case b of
        [] \<Rightarrow> Inl (NotEnoughData 1 ''handshake'')
      | pstr_len # _ \<Rightarrow>
          if unat pstr_len \<noteq> length PSTR_BT1 then Inl (OtherError (WrongPstrLen pstr_len))
          else
            let expected_len = 1 + unat pstr_len + 48 in
            (case get_to b expected_len of
               None \<Rightarrow> Inl (NotEnoughData expected_len ''handshake'')
             | Some hbuf \<Rightarrow>
                 (case dec hbuf of
                    None \<Rightarrow> Inl (OtherError BincodeFailed)
                  | Some h \<Rightarrow>
                      if h_pstr h \<noteq> PSTR_BT1 then Inl (OtherError WrongPstr)
                      else Inr (h, expected_len))))"

section \<open>What the code relies on from bincode\<close>

text \<open>
  With fixed-width big-endian encoding a struct of three \<open>u32\<close> is twelve bytes, decoding reverses
  encoding, and every twelve bytes decode. With the default options a handshake is the length of
  its first field in one byte, that field, and the three byte arrays.
\<close>

locale bincode_request =
  fixes enc :: request_enc and dec :: request_dec
  assumes enc_length: "length (enc r) = 12"
    and dec_enc: "dec (enc r) = Some r"
    and dec_total: "length b = 12 \<Longrightarrow> dec b \<noteq> None"

definition handshake_shape :: "handshake \<Rightarrow> bool" where
  "handshake_shape h \<longleftrightarrow> length (h_pstr h) < 251 \<and> length (h_reserved h) = 8 \<and>
     length (h_info_hash h) = 20 \<and> length (h_peer_id h) = 20"

locale bincode_handshake =
  fixes henc :: "handshake \<Rightarrow> bytes" and hdec :: "bytes \<Rightarrow> handshake option"
  assumes henc_head: "handshake_shape h \<Longrightarrow>
      \<exists>r. henc h = word_of_nat (length (h_pstr h)) # r \<and> length r = length (h_pstr h) + 48"
    and hdec_henc: "handshake_shape h \<Longrightarrow> hdec (henc h) = Some h"

text \<open>The documented formats, written out: they satisfy what is relied on.\<close>

definition bincode_enc_request :: request_enc where
  "bincode_enc_request r = be32 (rq_index r) @ be32 (rq_begin r) @ be32 (rq_length r)"

definition bincode_dec_request :: request_dec where
  "bincode_dec_request b =
     (if length b = 12 then Some \<lparr>rq_index = of_be32 (take 4 b), rq_begin = of_be32 (take 4 (drop 4 b)),
        rq_length = of_be32 (drop 8 b)\<rparr> else None)"

definition bincode_enc_handshake :: "handshake \<Rightarrow> bytes" where
  "bincode_enc_handshake h =
     word_of_nat (length (h_pstr h)) # h_pstr h @ h_reserved h @ h_info_hash h @ h_peer_id h"

definition bincode_dec_handshake :: "bytes \<Rightarrow> handshake option" where
  "bincode_dec_handshake b =
     (case b of
        [] \<Rightarrow> None
      | l # r \<Rightarrow>
          let n = unat l in
          if n < 251 \<and> length r = n + 48 then
            Some \<lparr>h_pstr = take n r, h_reserved = take 8 (drop n r),
              h_info_hash = take 20 (drop (n + 8) r), h_peer_id = drop (n + 28) r\<rparr>
          else None)"

interpretation bincode_rq: bincode_request bincode_enc_request bincode_dec_request
  by unfold_locales (simp_all add: bincode_enc_request_def bincode_dec_request_def)

interpretation bincode_hs: bincode_handshake bincode_enc_handshake bincode_dec_handshake
proof unfold_locales
  fix h assume h: "handshake_shape h"
  show "\<exists>r. bincode_enc_handshake h = word_of_nat (length (h_pstr h)) # r \<and>
      length r = length (h_pstr h) + 48"
    using h by (simp add: bincode_enc_handshake_def handshake_shape_def)
  have "unat (word_of_nat (length (h_pstr h)) :: byte) = length (h_pstr h)"
    using h by (intro unat_word_of_nat_fits) (simp add: handshake_shape_def)
  then show "bincode_dec_handshake (bincode_enc_handshake h) = Some h"
    using h by (simp add: bincode_enc_handshake_def bincode_dec_handshake_def handshake_shape_def Let_def)
qed

lemma PSTR_length [simp]: "length PSTR_BT1 = 19"
  by (simp add: PSTR_BT1_def ascii_def)

lemma to_be_8: "to_be 8 n = to_be (Suc (Suc (Suc (Suc (Suc (Suc (Suc (Suc 0)))))))) n"
  by (rule arg_cong [of _ _ "\<lambda>k. to_be k n"]) simp

context bincode_handshake
begin

lemma shape_new:
  "length ih = 20 \<Longrightarrow> length pid = 20 \<Longrightarrow> handshake_shape (handshake_new ih pid)"
  by (simp add: handshake_shape_def handshake_new_def)

lemma handshake_reads_back:
  assumes "handshake_shape h" "h_pstr h = PSTR_BT1"
  shows "handshake_deserialize hdec (henc h @ rest) = Inr (h, length (henc h))"
    "length (henc h) = 68"
proof -
  obtain r where r: "henc h = word_of_nat (length (h_pstr h)) # r" "length r = length (h_pstr h) + 48"
    using henc_head [OF assms(1)] by blast
  show l68: "length (henc h) = 68" using r assms(2) by simp
  have "get_to (henc h @ rest) 68 = Some (henc h)" using l68 by (simp add: slice_simps)
  then show "handshake_deserialize hdec (henc h @ rest) = Inr (h, length (henc h))"
    using r assms hdec_henc [OF assms(1)] by (simp add: handshake_deserialize_def)
qed

end


section \<open>Frames\<close>

text \<open>
  Every message but the keep-alive is a length prefix, a message id and a body. \<open>frames\<close> says that the
  payload parser reads the message back from a complete body, whatever follows, and asks for more
  data on every shorter one.
\<close>

definition frames ::
  "request_dec \<Rightarrow> (bytes \<Rightarrow> bytes) \<Rightarrow> message \<Rightarrow> u32 \<Rightarrow> u8 \<Rightarrow> bytes \<Rightarrow> bool" where
  "frames dec sha1 m lp i body \<longleftrightarrow> lp \<noteq> 0 \<and>
     (\<forall>rest. deserialize_payload dec sha1 lp i (body @ rest) = Return (Inr (m, 5 + length body))) \<and>
     (\<forall>k < length body. \<exists>d name.
        deserialize_payload dec sha1 lp i (take k body) = Return (Inl (NotEnoughData d name)) \<and> 0 < d)"

lemma framesI:
  "lp \<noteq> 0 \<Longrightarrow>
   (\<And>rest. deserialize_payload dec sha1 lp i (body @ rest) = Return (Inr (m, 5 + length body))) \<Longrightarrow>
   (\<And>k. k < length body \<Longrightarrow> \<exists>d name.
      deserialize_payload dec sha1 lp i (take k body) = Return (Inl (NotEnoughData d name)) \<and> 0 < d) \<Longrightarrow>
   frames dec sha1 m lp i body"
  by (simp add: frames_def)

lemma get_to_short [slice_simps]: "k < n \<Longrightarrow> n \<le> length xs \<Longrightarrow> get_to (take k xs) n = None"
  by (simp add: get_to_def)

lemma slice_from_in [slice_simps]: "a \<le> length buf \<Longrightarrow> slice_from buf a = Return (drop a buf)"
  by (simp add: slice_from_def get_from_def)

lemma deserialize_frame:
  assumes "frames dec sha1 m lp i body"
  shows "deserialize_message dec sha1 (be32 lp @ [i] @ body @ rest) = Return (Inr (m, 5 + length body))"
    "p @ q = be32 lp @ [i] @ body \<Longrightarrow> q \<noteq> [] \<Longrightarrow>
     \<exists>d name. deserialize_message dec sha1 p = Return (Inl (NotEnoughData d name)) \<and> 0 < d"
proof -
  have head: "get_to (be32 lp @ r) 4 = Some (be32 lp)" for r
    by (simp add: slice_simps)
  have idb: "get (be32 lp @ [i] @ r) 4 = Some i" "slice_from (be32 lp @ [i] @ r) 5 = Return r" for r
    by (simp_all add: get_def nth_append slice_simps)
  show "deserialize_message dec sha1 (be32 lp @ [i] @ body @ rest) = Return (Inr (m, 5 + length body))"
    unfolding deserialize_message_def head idb using assms by (simp add: frames_def idb(2) [simplified])
  assume pq: "p @ q = be32 lp @ [i] @ body" and q: "q \<noteq> []"
  define n where "n = length p"
  have "p = take n (p @ q)" by (simp add: n_def)
  then have p: "p = take n (be32 lp @ [i] @ body)" unfolding pq .
  have "length p + length q = 5 + length body" using arg_cong [OF pq, of length] by simp
  moreover have "0 < length q" using q by simp
  ultimately have n: "n < 5 + length body" unfolding n_def by linarith
  consider "n < 4" | "n = 4" | k where "n = 5 + k" "k < length body"
  proof (cases "n < 5")
    case False
    then have "n = 5 + (n - 5)" "n - 5 < length body" using n by simp_all
    then show ?thesis using that(3) by blast
  qed (use that in linarith)
  then show "\<exists>d name. deserialize_message dec sha1 p = Return (Inl (NotEnoughData d name)) \<and> 0 < d"
  proof cases
    case 1
    then have "get_to p 4 = None" by (simp add: n_def get_to_def)
    then show ?thesis by (simp add: deserialize_message_def)
  next
    case 2
    then have "p = be32 lp" using p by simp
    then show ?thesis
      using assms by (simp add: deserialize_message_def get_to_def get_def frames_def)
  next
    case 3
    then have "p = be32 lp @ [i] @ take k body" using p by simp
    then show ?thesis
      unfolding deserialize_message_def using assms 3(2) head [of "[i] @ take k body"] idb(1,2) [of "take k body"]
      by (simp add: frames_def)
  qed
qed

text \<open>
  The messages that survive the wire. The parser refuses an empty bitfield, an empty block and an
  extended message of fewer than seven bytes; a cancel is written as a request.
\<close>

definition wire_message :: "message \<Rightarrow> bool" where
  "wire_message m =
     (case m of
        Cancel _ \<Rightarrow> False
      | Bitfield b \<Rightarrow> b \<noteq> [] \<and> length b + 1 < 2 ^ 32
      | Piece p \<Rightarrow> p_block p \<noteq> [] \<and> length (p_block p) + 9 < 2 ^ 32
      | Extended e \<Rightarrow>
          (case e of ExtHandshake h \<Rightarrow> wf_handshake h | ExtUtMetadata _ \<Rightarrow> True
           | ExtDyn i v \<Rightarrow> i \<noteq> 0 \<and> i \<noteq> MY_EXTENDED_UT_METADATA \<and> wf_value v) \<and>
          (case ext_serialize e (Some MY_EXTENDED_UT_METADATA) of
             Return (Some body) \<Rightarrow> 6 \<le> length body \<and> length body + 1 < 2 ^ 32
           | _ \<Rightarrow> False)
      | _ \<Rightarrow> True)"

lemma piece_deserialize_serialize: "piece_deserialize (piece_serialize p) = Return p"
  by (simp add: piece_deserialize_def piece_serialize_def slice_def slice_from_def get_range_def get_from_def)

lemma piece_deserialize_panics: "piece_deserialize b = Panic \<longleftrightarrow> length b < 8"
  by (auto simp: piece_deserialize_def slice_def slice_from_def get_range_def get_from_def)

lemma bind_outcome_Panic_iff: "bind_outcome m f = Panic \<longleftrightarrow> m = Panic \<or> (\<exists>x. m = Return x \<and> f x = Panic)"
  by (cases m) auto

lemma unat_usize: "unat (usize x) = unat x"
  by (rule unat_ucast_fits) (use u32_bound [of x] in simp)

lemma usize_minus: "usize lp - 9 + 8 = usize lp - 1"
  by simp

lemma usize_len: "unat (usize lp - 1) = unat lp - 1" if "\<not> lp \<le> c" for lp c :: u32
proof -
  have "0 < unat lp" using that by (simp add: word_le_nat_alt)
  then have "1 \<le> usize lp" by (simp add: word_le_nat_alt unat_usize)
  then show ?thesis by (simp add: unat_sub unat_usize)
qed

lemma unat_add_u32: "unat c + n < 2 ^ 32 \<Longrightarrow> unat (c + word_of_nat n :: u32) = unat c + n"
  by (subst unat_add_fits) (simp_all add: unat_u32_of_nat)

context bincode_request
begin

abbreviation ser :: "message \<Rightarrow> (bytes \<times> nat) option outcome" where
  "ser m \<equiv> serialize_message enc m (Some MY_EXTENDED_UT_METADATA)"

definition framed :: "(bytes \<Rightarrow> bytes) \<Rightarrow> message \<Rightarrow> bool" where
  "framed sha1 m \<longleftrightarrow> (\<exists>lp i body. frames dec sha1 m lp i body \<and>
     ser m = Return (Some (be32 lp @ [i] @ body, 5 + length body)))"

lemma framed_empty:
  assumes "m \<in> {Choke, Unchoke, Interested, NotInterested}"
  shows "framed sha1 m"
  using assms unfolding framed_def
  by (intro exI [of _ "fst (len_prefix_and_msg_id m)"] exI [of _ "snd (len_prefix_and_msg_id m)"]
      exI [of _ "[]"])
    (auto simp: frames_def serialize_message_def len_prefix_and_msg_id_def deserialize_payload_def
      check_prefix_def msg_consts)

lemma framed_have: "framed sha1 (Have v)"
  unfolding framed_def
  by (intro exI [of _ LEN_PREFIX_HAVE] exI [of _ MSGID_HAVE] exI [of _ "be32 v"] conjI framesI)
    (auto simp: serialize_message_def len_prefix_and_msg_id_def deserialize_payload_def
      msg_consts slice_simps)

lemma framed_request: "framed sha1 (Request r)"
  unfolding framed_def
  by (intro exI [of _ LEN_PREFIX_REQUEST] exI [of _ MSGID_REQUEST] exI [of _ "enc r"] conjI framesI)
    (auto simp: serialize_message_def len_prefix_and_msg_id_def deserialize_payload_def
      msg_consts slice_simps enc_length dec_enc)

lemma framed_bitfield:
  assumes "b \<noteq> []" "length b + 1 < 2 ^ 32"
  shows "framed sha1 (Bitfield b)"
proof -
  define lp :: u32 where "lp = 1 + word_of_nat (length b)"
  have lp: "unat lp = 1 + length b" using assms(2) unat_add_u32 [of 1 "length b"] by (simp add: lp_def)
  then have "1 < lp" using assms(1) by (simp add: word_less_nat_alt)
  then have "lp \<noteq> 0" "\<not> lp \<le> 1" by auto
  then have "frames dec sha1 (Bitfield b) lp MSGID_BITFIELD b"
    by (intro framesI) (auto simp: deserialize_payload_def Let_def usize_len lp msg_consts slice_simps)
  then show ?thesis
    unfolding framed_def
    by (intro exI conjI, assumption)
      (simp add: serialize_message_def len_prefix_and_msg_id_def lp_def msg_consts)
qed

lemma framed_piece:
  assumes "p_block p \<noteq> []" "length (p_block p) + 9 < 2 ^ 32"
  shows "framed sha1 (Piece p)"
proof -
  define lp :: u32 where "lp = 9 + word_of_nat (length (p_block p))"
  have lp: "unat lp = 9 + length (p_block p)"
    using assms(2) unat_add_u32 [of 9 "length (p_block p)"] by (simp add: lp_def)
  then have "9 < lp" using assms(1) by (simp add: word_less_nat_alt)
  then have lp9: "lp \<noteq> 0" "\<not> lp \<le> 9" by auto
  have len: "length (piece_serialize p) = 8 + length (p_block p)" by (simp add: piece_serialize_def)
  have "frames dec sha1 (Piece p) lp MSGID_PIECE (piece_serialize p)"
    using lp9
    by (intro framesI)
      (auto simp: deserialize_payload_def Let_def usize_minus usize_len lp len msg_consts slice_simps piece_deserialize_serialize)
  then show ?thesis
    unfolding framed_def
    by (intro exI conjI, assumption)
      (simp add: serialize_message_def len_prefix_and_msg_id_def lp_def msg_consts len)
qed

lemma framed_extended:
  assumes "wire_message (Extended e)"
  shows "framed sha1 (Extended e)"
proof -
  from assms obtain body where body: "ext_serialize e (Some MY_EXTENDED_UT_METADATA) = Return (Some body)"
    and len: "6 \<le> length body" "length body + 1 < 2 ^ 32"
    by (auto simp: wire_message_def split: outcome.splits option.splits)
  have de: "ext_deserialize sha1 body = Inr e"
    using ext_reads [of e "Some MY_EXTENDED_UT_METADATA" sha1] assms body len(2)
    by (auto simp: wire_message_def split: ext_message.splits)
  define lp :: u32 where "lp = word_of_nat (length body + 1)"
  have lp: "unat lp = length body + 1"
    unfolding lp_def by (intro unat_u32_of_nat) (use len in simp)
  then have "6 < lp" using len(1) by (simp add: word_less_nat_alt)
  then have lp6: "lp \<noteq> 0" "\<not> lp \<le> 6" by auto
  have "frames dec sha1 (Extended e) lp MSGID_EXTENDED body"
    using lp6
    by (intro framesI) (auto simp: deserialize_payload_def Let_def usize_len lp msg_consts slice_simps de)
  then show ?thesis
    unfolding framed_def
    by (intro exI conjI, assumption)
      (simp add: serialize_message_def len_prefix_and_msg_id_def lp_def msg_consts body Let_def)
qed

lemma wire_message_framed: "wire_message m \<Longrightarrow> m = KeepAlive \<or> framed sha1 m"
  using framed_empty framed_have framed_request framed_bitfield framed_piece framed_extended
  by (cases m) (auto simp: wire_message_def)

end


section \<open>Correctness\<close>

text \<open>The bytes of a message on the wire: the part of the buffer that is sent.\<close>

definition wire_bytes :: "request_enc \<Rightarrow> message \<Rightarrow> bytes" where
  "wire_bytes enc m =
     (case serialize_message enc m (Some MY_EXTENDED_UT_METADATA) of
        Return (Some (out, n)) \<Rightarrow> take n out
      | _ \<Rightarrow> [])"

context bincode_request
begin

lemma wire_cases:
  assumes "wire_message m"
  obtains "m = KeepAlive" "wire_bytes enc m = be32 0"
      "ser m = Return (Some (be32 0 @ [0], 4))"
  | lp i body where "frames dec sha1 m lp i body" "wire_bytes enc m = be32 lp @ [i] @ body"
      "ser m = Return (Some (be32 lp @ [i] @ body, 5 + length body))"
proof -
  from wire_message_framed [OF assms] consider "m = KeepAlive" | "framed sha1 m" by blast
  then show ?thesis
  proof cases
    case 1
    then show ?thesis
      using that(1) by (simp add: wire_bytes_def serialize_message_def len_prefix_and_msg_id_def msg_consts)
  next
    case 2
    then show ?thesis
      using that(2) by (auto simp: framed_def wire_bytes_def)
  qed
qed

lemma keepalive_reads:
  "deserialize_message dec sha1 (be32 0 @ rest) = Return (Inr (KeepAlive, 4))"
  by (simp add: deserialize_message_def slice_simps)

lemma wire_reads_back:
  assumes "wire_message m"
  shows "deserialize_message dec sha1 (wire_bytes enc m @ rest) =
    Return (Inr (m, length (wire_bytes enc m)))"
  using assms by (rule wire_cases [where ?sha1.0 = sha1]) (simp_all add: keepalive_reads deserialize_frame(1) [simplified])

lemma wire_prefix_incomplete:
  assumes "wire_message m" "p @ q = wire_bytes enc m" "q \<noteq> []"
  shows "\<exists>d name. deserialize_message dec sha1 p = Return (Inl (NotEnoughData d name)) \<and> 0 < d"
proof (rule wire_cases [OF assms(1), where ?sha1.0 = sha1])
  assume "wire_bytes enc m = be32 0"
  with assms(2) have "length (p @ q) = 4" by simp
  then have "length p < 4" using assms(3) by (cases q) simp_all
  then show ?thesis by (simp add: deserialize_message_def get_to_def)
next
  fix lp i body
  assume "frames dec sha1 m lp i body" "wire_bytes enc m = be32 lp @ [i] @ body"
  then show ?thesis using deserialize_frame(2) [of dec sha1 m lp i body p q] assms(2,3) by simp
qed

lemma wire_bytes_length: "wire_message m \<Longrightarrow> 4 \<le> length (wire_bytes enc m)"
  by (rule wire_cases [of m _ "\<lambda>_. []"]) auto

lemma payload_total:
  "deserialize_payload dec sha1 lp i rest \<noteq> Panic"
  "deserialize_payload dec sha1 lp i rest = Return (Inr (m, n)) \<Longrightarrow> 0 < n \<and> n \<le> 5 + length rest"
  "deserialize_payload dec sha1 lp i rest = Return (Inl (NotEnoughData d name)) \<Longrightarrow> 0 < d"
proof -
  have dec: "dec b \<noteq> None" if "get_to rest 12 = Some b" for b
    using that dec_total [of b] by (auto simp: get_to_def split: if_splits)
  have ext: "ext_deserialize sha1 b \<noteq> Inl (OtherError (BencodeFailed DePanic))" for b
    using ext_deserialize_clean [of sha1 b DePanic] by auto
  have ext_nd: "ext_deserialize sha1 b \<noteq> Inl (NotEnoughData d name)" for b d name
    by (auto simp: ext_deserialize_def bencode_result_def ut_deserialize_def ut_of_fields_def bind_result_Inl
        split: list.splits sum.splits option.splits if_splits)
  have case_panic: "(case r of Inl (OtherError (BencodeFailed DePanic)) \<Rightarrow> Panic | Inl e \<Rightarrow> Return (Inl e)
        | Inr e \<Rightarrow> Return (Inr (f e))) = (case r of Inl e \<Rightarrow> Return (Inl e) | Inr e \<Rightarrow> Return (Inr (f e)))"
    if "r \<noteq> Inl (OtherError (BencodeFailed DePanic))" for r :: "msg_error + ext_message" and f :: "ext_message \<Rightarrow> message \<times> nat"
    using that by (auto split: sum.splits msg_error.splits msg_other.splits de_fail.splits)
  have piece: "piece_deserialize b \<noteq> Panic" if "\<not> lp \<le> 9" "get_to rest (unat (usize lp - 9 + 8)) = Some b" for b
  proof -
    have "9 < unat lp" using that(1) by (simp add: word_le_nat_alt)
    then show ?thesis
      using that(2) usize_len [OF that(1)] by (auto simp: piece_deserialize_panics usize_minus get_to_def split: if_splits)
  qed
  have pos: "0 < unat (usize lp - 9 + 8) \<and> 0 < unat (usize lp - 1)" if "\<not> lp \<le> 1 \<or> \<not> lp \<le> 6 \<or> \<not> lp \<le> 9"
  proof -
    have "1 < unat lp" using that by (auto simp: word_le_nat_alt)
    moreover have "unat (usize lp - 1) = unat lp - 1" using that usize_len by blast
    ultimately show ?thesis by (simp add: usize_minus)
  qed
  note simps = deserialize_payload_def Let_def check_prefix_def case_panic [OF ext] msg_consts
  show "deserialize_payload dec sha1 lp i rest \<noteq> Panic"
    unfolding simps using dec piece by (auto simp: bind_outcome_Panic_iff split: option.splits if_splits sum.splits)
  show "deserialize_payload dec sha1 lp i rest = Return (Inr (m, n)) \<Longrightarrow> 0 < n \<and> n \<le> 5 + length rest"
    unfolding simps using dec
    by (auto simp: get_to_def bind_outcome_Return_iff split: option.splits if_splits sum.splits)
  show "deserialize_payload dec sha1 lp i rest = Return (Inl (NotEnoughData d name)) \<Longrightarrow> 0 < d"
    unfolding simps using dec ext_nd
    by (auto simp: get_to_def bind_outcome_Return_iff split: option.splits if_splits sum.splits)
qed

lemma message_total:
  "deserialize_message dec sha1 buf \<noteq> Panic"
  "deserialize_message dec sha1 buf = Return (Inr (m, n)) \<Longrightarrow> 0 < n \<and> n \<le> length buf"
  "deserialize_message dec sha1 buf = Return (Inl (NotEnoughData d name)) \<Longrightarrow> 0 < d"
  using payload_total
  by (auto simp: deserialize_message_def Let_def get_to_def get_def slice_simps split: if_splits)
    fastforce+

end

text \<open>
  C3: a message survives the wire. Every message the protocol can carry (all but \<open>Cancel\<close> and the degenerate
  ones the parser refuses) is serialized without a panic; reading the bytes that are sent, whatever
  bytes follow, gives back exactly that message and the number of bytes that were sent; and on every
  strict prefix of them the parser asks for more data instead of misreading it.
\<close>
theorem message_roundtrip:
  assumes "bincode_request enc dec" "wire_message m"
  shows "\<exists>out n. serialize_message enc m (Some MY_EXTENDED_UT_METADATA) = Return (Some (out, n)) \<and>
    4 \<le> n \<and> n \<le> length out \<and>
    (\<forall>rest. deserialize_message dec sha1 (take n out @ rest) = Return (Inr (m, n))) \<and>
    (\<forall>k < n. \<exists>d name. deserialize_message dec sha1 (take k out) = Return (Inl (NotEnoughData d name)) \<and> 0 < d)"
proof -
  note rules = bincode_request.wire_cases [OF assms, where ?sha1.0 = sha1]
  note reads = bincode_request.wire_reads_back [OF assms, where ?sha1.0 = sha1]
  note short = bincode_request.wire_prefix_incomplete [OF assms, where ?sha1.0 = sha1]
  obtain out n where ser: "serialize_message enc m (Some MY_EXTENDED_UT_METADATA) = Return (Some (out, n))"
    and n: "4 \<le> n" "n \<le> length out" and w: "wire_bytes enc m = take n out"
    by (rule rules) (auto simp: wire_bytes_def)
  have "\<exists>d name. deserialize_message dec sha1 (take k out) = Return (Inl (NotEnoughData d name)) \<and> 0 < d"
    if "k < n" for k
  proof (rule short)
    show "take k out @ drop k (take n out) = wire_bytes enc m"
      using that append_take_drop_id [of k "take n out"] by (simp add: w min_def split: if_splits)
    show "drop k (take n out) \<noteq> []" using that n by simp
  qed
  moreover have "deserialize_message dec sha1 (take n out @ rest) = Return (Inr (m, n))" for rest
    using reads [of rest] w n by simp
  ultimately show ?thesis using ser n by blast
qed

theorem message_roundtrip_witness:
  "\<exists>out n. serialize_message bincode_enc_request
        (Piece \<lparr>p_index = 7, p_begin = 16384, p_block = [1, 2, 3]\<rparr>) (Some MY_EXTENDED_UT_METADATA)
      = Return (Some (out, n)) \<and> 4 \<le> n \<and> n \<le> length out"
proof -
  have "wire_message (Piece \<lparr>p_index = 7, p_begin = 16384, p_block = [1, 2, 3]\<rparr>)"
    by (simp add: wire_message_def)
  from message_roundtrip [OF bincode_rq.bincode_request_axioms this] show ?thesis by blast
qed

text \<open>
  C31: the parser of the receive buffer is total and honest about sizes. On any bytes a remote peer
  sends it does not panic; a message it returns took at least one byte and no more than the buffer
  holds, so the reader can drop those bytes; and when it asks for more data it asks for at least one
  byte, so the reader never waits for nothing.
\<close>
theorem deserialize_message_total:
  assumes "bincode_request enc dec"
  shows "\<exists>r. deserialize_message dec sha1 buf = Return r \<and>
    (case r of
       Inr (m, n) \<Rightarrow> 0 < n \<and> n \<le> length buf
     | Inl (NotEnoughData d name) \<Rightarrow> 0 < d
     | Inl _ \<Rightarrow> True)"
proof (cases "deserialize_message dec sha1 buf")
  case (Return r)
  note total = bincode_request.message_total [OF assms, where ?sha1.0 = sha1]
  show ?thesis
  proof (cases r)
    case (Inl e)
    then show ?thesis using Return total(3) by (cases e) fastforce+
  next
    case (Inr mn)
    then show ?thesis using Return total(2) by (cases mn) fastforce
  qed
next
  case Panic
  then show ?thesis using bincode_request.message_total(1) [OF assms] by blast
qed

theorem deserialize_message_total_witness:
  "\<exists>r. deserialize_message bincode_dec_request (\<lambda>_. []) [0, 0, 0, 13, 6, 1, 2] = Return r"
  using deserialize_message_total
    [OF bincode_rq.bincode_request_axioms, of "\<lambda>_. []" "[0, 0, 0, 13, 6, 1, 2]"] by blast

text \<open>
  A cancel does not survive the wire. Its serialized form is the serialized form of the request
  with the same fields, so the peer that reads it sees a request, never a cancel, although the
  parser knows the id of a cancel.
\<close>
theorem cancel_is_sent_as_request:
  assumes "bincode_request enc dec"
  shows "serialize_message enc (Cancel r) u = serialize_message enc (Request r) u \<and>
    deserialize_message dec sha1 (wire_bytes enc (Cancel r)) = Return (Inr (Request r, 17))"
proof -
  have same: "serialize_message enc (Cancel r) v = serialize_message enc (Request r) v" for v
    by (simp add: serialize_message_def len_prefix_and_msg_id_def)
  then have "wire_bytes enc (Cancel r) = wire_bytes enc (Request r)" by (simp add: wire_bytes_def)
  moreover have "length (wire_bytes enc (Request r)) = 17"
    by (simp add: wire_bytes_def serialize_message_def len_prefix_and_msg_id_def
        bincode_request.enc_length [OF assms] msg_consts)
  moreover have "wire_message (Request r)" by (simp add: wire_message_def)
  ultimately show ?thesis
    using same bincode_request.wire_reads_back [OF assms, of "Request r" sha1 "[]"] by simp
qed

theorem cancel_is_sent_as_request_witness:
  "deserialize_message bincode_dec_request (\<lambda>_. [])
     (wire_bytes bincode_enc_request (Cancel \<lparr>rq_index = 3, rq_begin = 0, rq_length = 16384\<rparr>)) =
   Return (Inr (Request \<lparr>rq_index = 3, rq_begin = 0, rq_length = 16384\<rparr>, 17))"
  using cancel_is_sent_as_request [OF bincode_rq.bincode_request_axioms] by blast

text \<open>
  The fast path of the upload is the serializer. The preamble that is written in place before the
  block is read from disk behind it makes, with a block of the announced size, exactly the bytes that
  serializing the piece message would give, and the length it returns is that of the preamble.
\<close>
theorem piece_preamble_is_serialize:
  assumes "length block = unat (ci_size chunk)"
  shows "serialize_message enc
      (Piece \<lparr>p_index = vpi_get (ci_piece_index chunk), p_begin = ci_offset chunk, p_block = block\<rparr>) u =
    Return (Some (fst (serialize_piece_preamble chunk) @ block,
      snd (serialize_piece_preamble chunk) + length block)) \<and>
    length (fst (serialize_piece_preamble chunk)) = snd (serialize_piece_preamble chunk)"
proof -
  have "word_of_nat (length block) = ci_size chunk" by (simp add: assms)
  then show ?thesis
    by (simp add: serialize_message_def len_prefix_and_msg_id_def serialize_piece_preamble_def
        piece_serialize_def msg_consts)
qed

theorem piece_preamble_is_serialize_witness:
  "length (fst (serialize_piece_preamble \<lparr>ci_piece_index = ValidPieceIndex 1, ci_chunk_index = 2,
      ci_absolute_index = 6, ci_size = 3, ci_offset = 32768\<rparr>)) = 13"
  using piece_preamble_is_serialize [of "[9, 9, 9]" "\<lparr>ci_piece_index = ValidPieceIndex 1,
      ci_chunk_index = 2, ci_absolute_index = 6, ci_size = 3, ci_offset = 32768\<rparr>"]
  by (simp add: serialize_piece_preamble_def msg_consts)

lemma handshake_accepts:
  "handshake_deserialize hdec b = Inr (h, n) \<Longrightarrow> h_pstr h = PSTR_BT1 \<and> n = 68 \<and> 68 \<le> length b"
  by (auto simp: handshake_deserialize_def get_to_def Let_def split: list.splits if_splits option.splits)

text \<open>
  The handshake survives the wire. What \<open>Handshake::new\<close> makes of a 20-byte info hash and
  peer id is sent as 68 bytes, from which the other side, whatever follows, reads the same handshake
  and its length; it announces the extension protocol; on a strict prefix of those bytes the reader is
  told that data is missing; and whatever bytes are accepted name the BitTorrent protocol.
\<close>
theorem handshake_roundtrip:
  assumes "bincode_handshake henc hdec" "length ih = 20" "length pid = 20"
  shows "let h = handshake_new ih pid in
    length (henc h) = 68 \<and> supports_extended h \<and>
    (\<forall>rest. handshake_deserialize hdec (henc h @ rest) = Inr (h, 68)) \<and>
    (\<forall>k < 68. \<exists>d. handshake_deserialize hdec (take k (henc h)) = Inl (NotEnoughData d ''handshake'')) \<and>
    (\<forall>b h' n. handshake_deserialize hdec b = Inr (h', n) \<longrightarrow> h_pstr h' = PSTR_BT1 \<and> n = 68)"
proof -
  define h where "h = handshake_new ih pid"
  have shape: "handshake_shape h" using assms(2,3) by (simp add: h_def bincode_handshake.shape_new [OF assms(1)])
  have pstr: "h_pstr h = PSTR_BT1" by (simp add: h_def handshake_new_def)
  note reads = bincode_handshake.handshake_reads_back [OF assms(1) shape pstr]
  obtain r where r: "henc h = 19 # r" "length r = 67"
    using bincode_handshake.henc_head [OF assms(1) shape] by (auto simp: pstr)
  have "supports_extended h"
    by (simp add: h_def handshake_new_def supports_extended_def be64_def to_be_8)
  moreover have "handshake_deserialize hdec (henc h @ rest) = Inr (h, 68)" for rest
    using reads by simp
  moreover have "\<exists>d. handshake_deserialize hdec (take k (henc h)) = Inl (NotEnoughData d ''handshake'')"
    if "k < 68" for k
    using r that by (cases k) (auto simp: handshake_deserialize_def get_to_def)
  moreover have "length (henc h) = 68" using reads(2) .
  ultimately show ?thesis
    unfolding Let_def h_def [symmetric] using handshake_accepts by blast
qed

theorem handshake_roundtrip_witness:
  "supports_extended (handshake_new (replicate 20 1) (replicate 20 2)) \<and>
   handshake_deserialize bincode_dec_handshake
     (bincode_enc_handshake (handshake_new (replicate 20 1) (replicate 20 2)) @ []) =
   Inr (handshake_new (replicate 20 1) (replicate 20 2), 68)"
  using handshake_roundtrip [OF bincode_hs.bincode_handshake_axioms, of "replicate 20 1" "replicate 20 2"]
  unfolding Let_def by (metis length_replicate)

end
