(* ===== verification/ChunkTracker.thy ===== *)
theory ChunkTracker
  imports Bitfield PeerProtocol
begin

text \<open>
  Model of \<open>crates/librqbit/src/chunk_tracker.rs\<close>: which pieces are needed, which chunks were written
  and which pieces are verified. Bit access that the source unwraps or indexes may panic.
\<close>

record chunk_tracker =
  needed_pieces :: bf
  chunk_status :: bf
  have_pieces :: bf
  ct_lengths :: lengths
  priority_piece_ids :: "nat list"
  total_selected_bytes :: u64

datatype chunk_marking_result = PreviouslyCompleted | NotCompleted | Completed

section \<open>Operations\<close>

fun fill_chunks :: "lengths \<Rightarrow> nat list \<Rightarrow> bf \<Rightarrow> bf outcome" where
  "fill_chunks L [] chunk_bf = Return chunk_bf"
| "fill_chunks L (piece_index # ps) chunk_bf =
     (let offset = piece_index * unat (max_chunks_per_piece L) in
      bind_outcome (unwrap (validate_piece_index L (word_of_nat piece_index))) (\<lambda>v.
        bind_outcome
          (unwrap (bf_fill chunk_bf offset (offset + unat (chunks_per_piece L v)) True))
          (fill_chunks L ps)))"

definition compute_chunk_status :: "lengths \<Rightarrow> bf \<Rightarrow> bf outcome" where
  "compute_chunk_status L needed =
     bind_outcome (unwrap (get_to needed (unat (total_pieces L)))) (\<lambda>np.
       fill_chunks L (iter_zeros np) (replicate (8 * chunk_bitfield_bytes L) False))"

definition chunk_tracker_new :: "bf \<Rightarrow> bf \<Rightarrow> lengths \<Rightarrow> u64 \<Rightarrow> chunk_tracker outcome" where
  "chunk_tracker_new needed have_ps L selected =
     (let priority = (case iter_ones needed of [] \<Rightarrow> [] | ids \<Rightarrow> [last ids]) in
      bind_outcome (compute_chunk_status L needed) (\<lambda>status.
        Return \<lparr>needed_pieces = needed, chunk_status = status, have_pieces = have_ps, ct_lengths = L,
          priority_piece_ids = priority, total_selected_bytes = selected\<rparr>))"

definition reserve_needed_piece :: "chunk_tracker \<Rightarrow> valid_piece_index \<Rightarrow> chunk_tracker outcome" where
  "reserve_needed_piece ct index =
     bind_outcome (bf_set (needed_pieces ct) (unat (vpi_get index)) False) (\<lambda>bs.
       Return (ct\<lparr>needed_pieces := bs\<rparr>))"

definition sum_piece_bytes :: "lengths \<Rightarrow> bf \<Rightarrow> u64" where
  "sum_piece_bytes L bs =
     sum_list (map (\<lambda>v. ucast (piece_length_of L v))
       (List.map_filter (\<lambda>i. validate_piece_index L (word_of_nat i)) (iter_ones bs)))"

definition calc_have_bytes :: "chunk_tracker \<Rightarrow> u64" where
  "calc_have_bytes ct = sum_piece_bytes (ct_lengths ct) (have_pieces ct)"

definition calc_needed_bytes :: "chunk_tracker \<Rightarrow> u64" where
  "calc_needed_bytes ct = sum_piece_bytes (ct_lengths ct) (needed_pieces ct)"

text \<open>The iterator indexes \<open>needed_pieces\<close> with the priority ids.\<close>

definition iter_needed_pieces :: "chunk_tracker \<Rightarrow> nat list outcome" where
  "iter_needed_pieces ct =
     (if \<exists>i \<in> set (priority_piece_ids ct). length (needed_pieces ct) \<le> i then Panic
      else Return (filter (\<lambda>i. needed_pieces ct ! i) (priority_piece_ids ct)
        @ filter (\<lambda>i. i \<notin> set (priority_piece_ids ct)) (iter_ones (needed_pieces ct))))"

definition mark_chunk_request_cancelled ::
  "chunk_tracker \<Rightarrow> valid_piece_index \<Rightarrow> u32 \<Rightarrow> (bool option \<times> chunk_tracker) outcome" where
  "mark_chunk_request_cancelled ct index chunk =
     (case get (have_pieces ct) (unat (vpi_get index)) of
        None \<Rightarrow> Return (None, ct)
      | Some True \<Rightarrow> Return (Some False, ct)
      | Some False \<Rightarrow>
          let (a, b) = chunk_range (ct_lengths ct) index in
          (case get_range (chunk_status ct) a b of
             None \<Rightarrow> Return (None, ct)
           | Some s \<Rightarrow>
               if \<not> bf_all s then
                 bind_outcome (bf_set (needed_pieces ct) (unat (vpi_get index)) True) (\<lambda>bs.
                   Return (Some True, ct\<lparr>needed_pieces := bs\<rparr>))
               else Return (Some True, ct)))"

definition mark_piece_broken_if_not_have ::
  "chunk_tracker \<Rightarrow> valid_piece_index \<Rightarrow> chunk_tracker outcome" where
  "mark_piece_broken_if_not_have ct index =
     (if get (have_pieces ct) (unat (vpi_get index)) = Some True then Return ct
      else
        bind_outcome (bf_set (needed_pieces ct) (unat (vpi_get index)) True) (\<lambda>bs.
          let (a, b) = chunk_range (ct_lengths ct) index in
          Return (case bf_fill (chunk_status ct) a b False of
              Some s \<Rightarrow> ct\<lparr>needed_pieces := bs, chunk_status := s\<rparr>
            | None \<Rightarrow> ct\<lparr>needed_pieces := bs\<rparr>)))"

definition mark_piece_downloaded :: "chunk_tracker \<Rightarrow> valid_piece_index \<Rightarrow> chunk_tracker outcome" where
  "mark_piece_downloaded ct idx =
     bind_outcome (bf_set (have_pieces ct) (unat (vpi_get idx)) True) (\<lambda>bs.
       Return (ct\<lparr>have_pieces := bs\<rparr>))"

definition is_chunk_ready_to_upload :: "chunk_tracker \<Rightarrow> chunk_info \<Rightarrow> bool" where
  "is_chunk_ready_to_upload ct chunk =
     (get (have_pieces ct) (unat (vpi_get (ci_piece_index chunk))) = Some True)"

text \<open>
  The bits of the piece are a mutable slice of \<open>chunk_status\<close>; setting bit \<open>k\<close> of the slice is
  setting bit \<open>a + k\<close> of the whole.
\<close>

definition mark_chunk_downloaded ::
  "chunk_tracker \<Rightarrow> piece \<Rightarrow> (chunk_marking_result option \<times> chunk_tracker) outcome" where
  "mark_chunk_downloaded ct p =
     (case chunk_info_from_received_piece (ct_lengths ct) (p_index p) (p_begin p)
          (word_of_nat (length (p_block p))) of
        None \<Rightarrow> Return (None, ct)
      | Some ci \<Rightarrow>
          let (a, b) = chunk_range (ct_lengths ct) (ci_piece_index ci) in
          bind_outcome (unwrap (get_range (chunk_status ct) a b)) (\<lambda>range.
            if bf_all range then Return (Some PreviouslyCompleted, ct)
            else
              bind_outcome (bf_set range (unat (ci_chunk_index ci)) True) (\<lambda>range'.
                let ct' = ct\<lparr>chunk_status := take a (chunk_status ct) @ range' @ drop b (chunk_status ct)\<rparr> in
                Return (Some (if bf_all range' then Completed else NotCompleted), ct'))))"

section \<open>Well-formed trackers\<close>

text \<open>
  The tracker agrees with the geometry: a chunk length that divides the piece length, bit fields
  that hold every piece and every chunk. \<open>received\<close> abstracts the chunk bits of a piece to the set of
  its received chunks.
\<close>

definition geometry_ok :: "lengths \<Rightarrow> bool" where
  "geometry_ok L \<longleftrightarrow> lengths_ok L \<and> unat (chunk_length L) dvd unat (piece_length L)"

definition tracker_ok :: "chunk_tracker \<Rightarrow> bool" where
  "tracker_ok ct \<longleftrightarrow> geometry_ok (ct_lengths ct) \<and>
     n_pieces (ct_lengths ct) \<le> length (needed_pieces ct) \<and> length (needed_pieces ct) \<le> 2 ^ 32 \<and>
     n_pieces (ct_lengths ct) \<le> length (have_pieces ct) \<and> length (have_pieces ct) \<le> 2 ^ 32 \<and>
     length (chunk_status ct) = 8 * chunk_bitfield_bytes (ct_lengths ct) \<and>
     (\<forall>i \<in> set (priority_piece_ids ct). i < length (needed_pieces ct)) \<and>
     distinct (priority_piece_ids ct)"

definition received :: "chunk_tracker \<Rightarrow> valid_piece_index \<Rightarrow> nat set" where
  "received ct i = {k. k < n_chunks (ct_lengths ct) i \<and>
     chunk_status ct ! (fst (chunk_range (ct_lengths ct) i) + k)}"

definition all_chunks :: "chunk_tracker \<Rightarrow> valid_piece_index \<Rightarrow> nat set" where
  "all_chunks ct i = {..< n_chunks (ct_lengths ct) i}"

lemma tracker_okD:
  assumes "tracker_ok ct"
  shows "lengths_ok (ct_lengths ct)" "n_pieces (ct_lengths ct) \<le> length (needed_pieces ct)"
    "n_pieces (ct_lengths ct) \<le> length (have_pieces ct)"
    "length (chunk_status ct) = 8 * chunk_bitfield_bytes (ct_lengths ct)"
  using assms by (simp_all add: tracker_ok_def geometry_ok_def)

lemma valid_index_bit:
  assumes "valid_index L i" "n_pieces L \<le> n" shows "unat (vpi_get i) < n"
  using assms by (simp add: valid_index_def word_le_nat_alt)

lemma range_in_status:
  assumes "geometry_ok L" "valid_index L i" "length bs = 8 * chunk_bitfield_bytes L"
    and "chunk_range L i = (a, b)"
  shows "a \<le> b" "b \<le> length bs" "b - a = n_chunks L i"
proof -
  have ok: "lengths_ok L" using assms(1) by (simp add: geometry_ok_def)
  show "a \<le> b" "b - a = n_chunks L i"
    using chunk_range_bounds [OF ok assms(2)] assms(4) by simp_all
  have "b \<le> unat (total_chunks L)"
    using chunk_range_total [OF ok assms(2)] assms(1,4) by (simp add: geometry_ok_def)
  then show "b \<le> length bs" using chunk_bitfield_bits [of L] assms(3) by simp
qed

lemma get_range_status:
  assumes "tracker_ok ct" "valid_index (ct_lengths ct) i" "chunk_range (ct_lengths ct) i = (a, b)"
  obtains s where "get_range (chunk_status ct) a b = Some s" "length s = n_chunks (ct_lengths ct) i"
    "\<And>k. k < n_chunks (ct_lengths ct) i \<Longrightarrow> s ! k = (k \<in> received ct i)"
    "bf_all s \<longleftrightarrow> received ct i = all_chunks ct i"
proof -
  have g: "geometry_ok (ct_lengths ct)" using assms(1) by (simp add: tracker_ok_def)
  note r = range_in_status [OF g assms(2) tracker_okD(4) [OF assms(1)] assms(3)]
  define s where "s = take (b - a) (drop a (chunk_status ct))"
  have gr: "get_range (chunk_status ct) a b = Some s" using r by (simp add: get_range_def s_def)
  have ls: "length s = n_chunks (ct_lengths ct) i" using r by (simp add: s_def)
  have sk: "s ! k = (k \<in> received ct i)" if "k < n_chunks (ct_lengths ct) i" for k
    using that r assms(3) by (simp add: s_def received_def)
  have "bf_all s \<longleftrightarrow> received ct i = all_chunks ct i"
    using sk by (auto simp: bf_all_iff ls all_chunks_def received_def)
  with gr ls sk show ?thesis by (rule that)
qed

lemma received_subset: "received ct i \<subseteq> all_chunks ct i"
  by (auto simp: received_def all_chunks_def)

lemma received_cong:
  "chunk_status ct = chunk_status ct' \<Longrightarrow> ct_lengths ct = ct_lengths ct' \<Longrightarrow> received ct = received ct'"
  by (intro ext) (simp add: received_def)

text \<open>Writing inside the bits of one piece leaves the other pieces alone.\<close>

lemma received_other:
  assumes "tracker_ok ct" "valid_index (ct_lengths ct) i" "valid_index (ct_lengths ct) j" "i \<noteq> j"
    and "\<And>n. n < length (chunk_status ct) \<Longrightarrow> n < fst (chunk_range (ct_lengths ct) i) \<or>
      snd (chunk_range (ct_lengths ct) i) \<le> n \<Longrightarrow> s ! n = chunk_status ct ! n"
  shows "received (ct\<lparr>chunk_status := s\<rparr>) j = received ct j"
proof -
  have g: "geometry_ok (ct_lengths ct)" using assms(1) by (simp add: tracker_ok_def)
  obtain a b where j: "chunk_range (ct_lengths ct) j = (a, b)" by fastforce
  note r = range_in_status [OF g assms(3) tracker_okD(4) [OF assms(1)] j]
  have "s ! (a + k) = chunk_status ct ! (a + k)" if "k < n_chunks (ct_lengths ct) j" for k
    using that r j chunk_range_disjoint [OF tracker_okD(1) [OF assms(1)] assms(2,3,4)]
    by (intro assms(5)) auto
  then show ?thesis by (auto simp: received_def j)
qed

section \<open>The initial bits\<close>

lemma validate_of_nat:
  assumes "lengths_ok L" "p < n_pieces L"
  shows "validate_piece_index L (word_of_nat p) = Some (ValidPieceIndex (word_of_nat p))"
    "valid_index L (ValidPieceIndex (word_of_nat p))" "unat (word_of_nat p :: u32) = p"
proof -
  show "unat (word_of_nat p :: u32) = p"
    using assms n_pieces_bound [OF assms(1)] by (intro unat_u32_of_nat) simp
  with assms(2) show "validate_piece_index L (word_of_nat p) = Some (ValidPieceIndex (word_of_nat p))"
    "valid_index L (ValidPieceIndex (word_of_nat p))"
    by (simp_all add: valid_index_def word_le_nat_alt)
qed

lemma validate_too_large:
  assumes "lengths_ok L" "n_pieces L \<le> p" "p < 2 ^ 32"
  shows "validate_piece_index L (word_of_nat p) = None"
proof -
  have "unat (word_of_nat p :: u32) = p" using assms(3) by (rule unat_u32_of_nat)
  then show ?thesis using assms(2) by (simp add: validate_piece_index_def word_less_nat_alt)
qed

abbreviation in_range :: "lengths \<Rightarrow> nat \<Rightarrow> nat \<Rightarrow> bool" where
  "in_range L p n \<equiv> fst (chunk_range L (ValidPieceIndex (word_of_nat p))) \<le> n \<and>
     n < snd (chunk_range L (ValidPieceIndex (word_of_nat p)))"

lemma fill_chunks_eq:
  assumes g: "geometry_ok L"
  shows "length bs = 8 * chunk_bitfield_bytes L \<Longrightarrow> \<forall>p \<in> set ps. p < n_pieces L \<Longrightarrow>
    \<exists>bs'. fill_chunks L ps bs = Return bs' \<and> length bs' = length bs \<and>
      (\<forall>n < length bs. bs' ! n \<longleftrightarrow> bs ! n \<or> (\<exists>p \<in> set ps. in_range L p n))"
proof (induction ps arbitrary: bs)
  case Nil
  then show ?case by simp
next
  case (Cons p ps)
  have ok: "lengths_ok L" using g by (simp add: geometry_ok_def)
  have p: "p < n_pieces L" using Cons.prems by simp
  note v = validate_of_nat [OF ok p]
  define i where "i = ValidPieceIndex (word_of_nat p)"
  have i: "valid_index L i" "unat (vpi_get i) = p" using v by (simp_all add: i_def)
  have r: "chunk_range L i = (p * unat (max_chunks_per_piece L),
      p * unat (max_chunks_per_piece L) + n_chunks L i)"
    using chunk_range_eq [OF ok i(1)] i(2) by simp
  note rs = range_in_status [OF g i(1) Cons.prems(1) r]
  obtain b1 where b1: "bf_fill bs (p * unat (max_chunks_per_piece L))
      (p * unat (max_chunks_per_piece L) + n_chunks L i) True = Some b1"
    using rs by (simp add: bf_fill_def)
  obtain bs' where bs': "fill_chunks L ps b1 = Return bs'" "length bs' = length b1"
    "\<forall>n < length b1. bs' ! n \<longleftrightarrow> b1 ! n \<or> (\<exists>p \<in> set ps. in_range L p n)"
    using Cons.IH [of b1] Cons.prems bf_fill_length [OF b1] by auto
  have "fill_chunks L (p # ps) bs = Return bs'"
    unfolding fill_chunks.simps Let_def v(1) unwrap.simps bind_outcome.simps
    using b1 bs'(1) by (simp add: i_def)
  moreover have "bs' ! n \<longleftrightarrow> bs ! n \<or> (\<exists>q \<in> set (p # ps). in_range L q n)" if n: "n < length bs" for n
  proof -
    have "in_range L p n \<longleftrightarrow> p * unat (max_chunks_per_piece L) \<le> n \<and>
        n < p * unat (max_chunks_per_piece L) + n_chunks L i"
      using r by (simp add: i_def)
    then have "b1 ! n \<longleftrightarrow> bs ! n \<or> in_range L p n" using bf_fill_nth [OF b1 n] by auto
    moreover have "bs' ! n \<longleftrightarrow> b1 ! n \<or> (\<exists>q \<in> set ps. in_range L q n)"
      using bs'(3) n bf_fill_length [OF b1] by simp
    ultimately show ?thesis by (simp only: list.set bex_simps insert_iff) blast
  qed
  moreover have "length bs' = length bs" using bs'(2) bf_fill_length [OF b1] by simp
  ultimately show ?case by (intro exI [of _ bs'] conjI allI impI)
qed

lemma in_range_unique:
  assumes "lengths_ok L" "p < n_pieces L" "q < n_pieces L" "in_range L p n" "in_range L q n"
  shows "p = q"
proof (rule ccontr)
  assume "p \<noteq> q"
  with validate_of_nat(3) [OF assms(1,2)] validate_of_nat(3) [OF assms(1,3)]
  have "ValidPieceIndex (word_of_nat p) \<noteq> ValidPieceIndex (word_of_nat q)" by auto
  from chunk_range_disjoint [OF assms(1) validate_of_nat(2) [OF assms(1,2)]
      validate_of_nat(2) [OF assms(1,3)] this] assms(4,5)
  show False by linarith
qed

lemma compute_chunk_status_eq:
  assumes g: "geometry_ok L" and n: "n_pieces L \<le> length needed"
  shows "\<exists>bs. compute_chunk_status L needed = Return bs \<and> length bs = 8 * chunk_bitfield_bytes L \<and>
    (\<forall>p < n_pieces L. \<forall>n < length bs. in_range L p n \<longrightarrow> bs ! n = (\<not> needed ! p))"
proof -
  have ok: "lengths_ok L" using g by (simp add: geometry_ok_def)
  define ps where "ps = iter_zeros (take (n_pieces L) needed)"
  define z where "z = replicate (8 * chunk_bitfield_bytes L) False"
  have ps: "set ps = {p. p < n_pieces L \<and> \<not> needed ! p}" using n by (auto simp: ps_def)
  obtain bs where bs: "fill_chunks L ps z = Return bs" "length bs = length z"
    "\<forall>n < length z. bs ! n \<longleftrightarrow> z ! n \<or> (\<exists>p \<in> set ps. in_range L p n)"
    using fill_chunks_eq [OF g, of z ps] by (auto simp: ps z_def)
  have "compute_chunk_status L needed = Return bs"
    using n bs(1) by (simp add: compute_chunk_status_def unat_total_pieces [OF ok] get_to_def ps_def z_def)
  moreover have "bs ! n = (\<not> needed ! p)" if "p < n_pieces L" "n < length bs" "in_range L p n" for p n
  proof -
    have "bs ! n \<longleftrightarrow> (\<exists>q \<in> set ps. in_range L q n)" using that(2) bs(2,3) by (simp add: z_def)
    also have "\<dots> \<longleftrightarrow> p \<in> set ps"
    proof
      assume "\<exists>q \<in> set ps. in_range L q n"
      then obtain q where q: "q \<in> set ps" "in_range L q n" by blast
      then have "p = q" using in_range_unique [OF ok that(1) _ that(3)] by (simp add: ps)
      then show "p \<in> set ps" using q by simp
    qed (use that(3) in blast)
    finally show ?thesis using that(1) by (simp add: ps)
  qed
  ultimately show ?thesis using bs(2) by (auto simp: z_def)
qed

lemma vpi_word: "ValidPieceIndex (word_of_nat (unat (vpi_get i))) = i"
  by (cases i) simp

lemma chunk_tracker_new_ok:
  assumes g: "geometry_ok L" and nn: "n_pieces L \<le> length needed" "length needed \<le> 2 ^ 32"
    and hh: "n_pieces L \<le> length hv" "length hv \<le> 2 ^ 32"
  shows "\<exists>ct. chunk_tracker_new needed hv L sel = Return ct \<and> tracker_ok ct \<and> ct_lengths ct = L \<and>
    needed_pieces ct = needed \<and> have_pieces ct = hv \<and>
    (\<forall>i. valid_index L i \<longrightarrow> received ct i = (if needed ! unat (vpi_get i) then {} else all_chunks ct i))"
proof -
  obtain bs where bs: "compute_chunk_status L needed = Return bs"
    "length bs = 8 * chunk_bitfield_bytes L"
    "\<forall>p < n_pieces L. \<forall>n < length bs. in_range L p n \<longrightarrow> bs ! n = (\<not> needed ! p)"
    using compute_chunk_status_eq [OF g nn(1)] by blast
  define prio where "prio = (case iter_ones needed of [] \<Rightarrow> [] | ids \<Rightarrow> [last ids])"
  have prio: "set prio \<subseteq> set (iter_ones needed)" "distinct prio"
    using last_in_set [of "iter_ones needed"]
    by (cases "iter_ones needed"; simp add: prio_def del: set_iter_ones)+
  define ct where "ct = \<lparr>needed_pieces = needed, chunk_status = bs, have_pieces = hv, ct_lengths = L,
    priority_piece_ids = prio, total_selected_bytes = sel\<rparr>"
  have tok: "tracker_ok ct" using assms bs(2) prio by (auto simp: tracker_ok_def ct_def)
  have "received ct i = (if needed ! unat (vpi_get i) then {} else all_chunks ct i)"
    if i: "valid_index L i" for i
  proof -
    obtain a b where r: "chunk_range L i = (a, b)" by fastforce
    note ris = range_in_status [OF g i bs(2) r]
    have "bs ! (a + k) = (\<not> needed ! unat (vpi_get i))" if "k < n_chunks L i" for k
      using that ris bs(3) r valid_index_bit [OF i order_refl] by (simp add: vpi_word)
    then show ?thesis using r by (auto simp: received_def all_chunks_def ct_def)
  qed
  with tok show ?thesis
    by (intro exI [of _ ct]) (simp add: chunk_tracker_new_def bs(1) prio_def [symmetric] ct_def)
qed

section \<open>Marking a chunk\<close>

text \<open>The contract: a piece is a set of received chunks, completed when the last one comes in.\<close>

definition mark_spec :: "nat set \<Rightarrow> nat set \<Rightarrow> nat \<Rightarrow> chunk_marking_result \<times> nat set" where
  "mark_spec full R k =
     (if R = full then (PreviouslyCompleted, R)
      else (if insert k R = full then Completed else NotCompleted, insert k R))"

definition accepted_chunk :: "lengths \<Rightarrow> piece \<Rightarrow> (valid_piece_index \<times> nat) option" where
  "accepted_chunk L p =
     map_option (\<lambda>ci. (ci_piece_index ci, unat (ci_chunk_index ci)))
       (chunk_info_from_received_piece L (p_index p) (p_begin p) (word_of_nat (length (p_block p))))"

lemma accepted_chunkD:
  assumes "lengths_ok L" "accepted_chunk L p = Some (i, k)"
  shows "valid_index L i" "k < n_chunks L i"
  using assms chunk_at_values(1) [OF assms(1)]
  by (auto simp: accepted_chunk_def chunk_info_from_received_piece_def
      chunk_info_from_received_data_iff [OF assms(1)] validate_piece_index_def valid_index_def
      chunk_at_def split: option.splits if_splits)

lemma mark_chunk_downloaded_eq:
  assumes ok: "tracker_ok ct"
  shows "case accepted_chunk (ct_lengths ct) p of
      None \<Rightarrow> mark_chunk_downloaded ct p = Return (None, ct)
    | Some (i, k) \<Rightarrow> \<exists>r ct'. mark_chunk_downloaded ct p = Return (Some r, ct') \<and> tracker_ok ct' \<and>
        ct' = ct\<lparr>chunk_status := chunk_status ct'\<rparr> \<and>
        (r, received ct' i) = mark_spec (all_chunks ct i) (received ct i) k \<and>
        (\<forall>j. valid_index (ct_lengths ct) j \<longrightarrow> j \<noteq> i \<longrightarrow> received ct' j = received ct j)"
proof (cases "accepted_chunk (ct_lengths ct) p")
  case None
  then show ?thesis by (simp add: accepted_chunk_def mark_chunk_downloaded_def)
next
  case (Some ik)
  obtain i k where ik: "ik = (i, k)" by fastforce
  note acc = accepted_chunkD [OF tracker_okD(1) [OF ok] Some [unfolded ik]]
  have g: "geometry_ok (ct_lengths ct)" using ok by (simp add: tracker_ok_def)
  obtain ci where ci: "chunk_info_from_received_piece (ct_lengths ct) (p_index p) (p_begin p)
      (word_of_nat (length (p_block p))) = Some ci" "ci_piece_index ci = i" "unat (ci_chunk_index ci) = k"
    using Some ik by (auto simp: accepted_chunk_def)
  obtain a b where r: "chunk_range (ct_lengths ct) i = (a, b)" by fastforce
  note ris = range_in_status [OF g acc(1) tracker_okD(4) [OF ok] r]
  from get_range_status [OF ok acc(1) r] obtain s where
    s: "get_range (chunk_status ct) a b = Some s" "length s = n_chunks (ct_lengths ct) i"
    "\<And>k. k < n_chunks (ct_lengths ct) i \<Longrightarrow> s ! k = (k \<in> received ct i)"
    "bf_all s \<longleftrightarrow> received ct i = all_chunks ct i" by blast
  show ?thesis
  proof (cases "bf_all s")
    case True
    then have "mark_chunk_downloaded ct p = Return (Some PreviouslyCompleted, ct)"
      by (simp add: mark_chunk_downloaded_def ci r s(1))
    then show ?thesis using Some ik ok True s(4) by (auto simp: mark_spec_def)
  next
    case False
    define s' where "s' = s[k := True]"
    define cs where "cs = take a (chunk_status ct) @ s' @ drop b (chunk_status ct)"
    define ct' where "ct' = ct\<lparr>chunk_status := cs\<rparr>"
    have ls': "length s' = b - a" using s(2) ris by (simp add: s'_def)
    have lcs: "length cs = length (chunk_status ct)" using ris ls' by (simp add: cs_def)
    have ok': "tracker_ok ct'" using ok lcs by (simp add: tracker_ok_def ct'_def)
    have rcv: "received ct' i = insert k (received ct i)"
    proof -
      have "cs ! (a + n) = s' ! n" if "n < n_chunks (ct_lengths ct) i" for n
        using that ris ls' by (simp add: cs_def nth_append)
      then show ?thesis using acc(2) r s(2,3)
        by (auto simp: received_def ct'_def s'_def nth_list_update)
    qed
    have other: "received ct' j = received ct j" if "valid_index (ct_lengths ct) j" "j \<noteq> i" for j
      unfolding ct'_def
    proof (rule received_other [OF ok acc(1) that(1)])
      fix n assume "n < length (chunk_status ct)"
        "n < fst (chunk_range (ct_lengths ct) i) \<or> snd (chunk_range (ct_lengths ct) i) \<le> n"
      then show "cs ! n = chunk_status ct ! n" using r ris(1,2) ls' by (auto simp: cs_def nth_append)
    qed (use that in simp)
    have all': "bf_all s' \<longleftrightarrow> received ct' i = all_chunks ct i"
    proof -
      have "valid_index (ct_lengths ct') i" "chunk_range (ct_lengths ct') i = (a, b)"
        using acc(1) r by (simp_all add: ct'_def)
      then obtain t where
        t: "get_range (chunk_status ct') a b = Some t" "bf_all t \<longleftrightarrow> received ct' i = all_chunks ct' i"
        by (rule get_range_status [OF ok'])
      moreover have "chunk_status ct' = cs" by (simp add: ct'_def)
      moreover have "get_range cs a b = Some s'" using ris ls' by (simp add: get_range_def cs_def)
      ultimately show ?thesis by (simp add: all_chunks_def ct'_def)
    qed
    have "mark_chunk_downloaded ct p = Return (Some (if bf_all s' then Completed else NotCompleted), ct')"
      using False acc(2) by (simp add: mark_chunk_downloaded_def ci r s bf_set_def s'_def cs_def ct'_def Let_def)
    moreover have "ct' = ct\<lparr>chunk_status := chunk_status ct'\<rparr>" by (simp add: ct'_def)
    moreover have "(if bf_all s' then Completed else NotCompleted, received ct' i) =
        mark_spec (all_chunks ct i) (received ct i) k"
      using all' False s(4) rcv by (simp add: mark_spec_def)
    ultimately show ?thesis unfolding Some ik option.case prod.case using ok' other by blast
  qed
qed

section \<open>Sequences of operations\<close>

fun mark_all :: "chunk_tracker \<Rightarrow> piece list \<Rightarrow> (chunk_marking_result option list \<times> chunk_tracker) outcome" where
  "mark_all ct [] = Return ([], ct)"
| "mark_all ct (p # ps) =
     bind_outcome (mark_chunk_downloaded ct p) (\<lambda>(r, ct').
       bind_outcome (mark_all ct' ps) (\<lambda>(rs, ct''). Return (r # rs, ct'')))"

definition chunks_in :: "lengths \<Rightarrow> valid_piece_index \<Rightarrow> piece list \<Rightarrow> nat set" where
  "chunks_in L i ps = {k. \<exists>p \<in> set ps. accepted_chunk L p = Some (i, k)}"

lemma chunks_in_simps [simp]:
  "chunks_in L i [] = {}"
  "chunks_in L i (p # ps) =
     (case accepted_chunk L p of Some (j, k) \<Rightarrow> if j = i then {k} else {} | None \<Rightarrow> {}) \<union> chunks_in L i ps"
  by (auto simp: chunks_in_def split: option.splits)

lemma mark_one:
  assumes "tracker_ok ct"
  obtains r ct' where "mark_chunk_downloaded ct p = Return (r, ct')" "tracker_ok ct'"
    "ct' = ct\<lparr>chunk_status := chunk_status ct'\<rparr>"
    "\<And>i. valid_index (ct_lengths ct) i \<Longrightarrow>
      received ct' i = received ct i \<union> chunks_in (ct_lengths ct) i [p]"
    "\<And>i. valid_index (ct_lengths ct) i \<Longrightarrow> chunks_in (ct_lengths ct) i [p] \<noteq> {} \<Longrightarrow>
      r = Some Completed \<longleftrightarrow> received ct i \<noteq> all_chunks ct i \<and> received ct' i = all_chunks ct i"
proof (cases "accepted_chunk (ct_lengths ct) p")
  case None
  then show ?thesis using that [of None ct] mark_chunk_downloaded_eq [OF assms, of p] assms by simp
next
  case (Some ik)
  obtain i k where ik: "ik = (i, k)" by fastforce
  obtain r ct' where r: "mark_chunk_downloaded ct p = Return (Some r, ct')" "tracker_ok ct'"
    "ct' = ct\<lparr>chunk_status := chunk_status ct'\<rparr>"
    "(r, received ct' i) = mark_spec (all_chunks ct i) (received ct i) k"
    "\<forall>j. valid_index (ct_lengths ct) j \<longrightarrow> j \<noteq> i \<longrightarrow> received ct' j = received ct j"
    using mark_chunk_downloaded_eq [OF assms, of p] unfolding Some ik option.case prod.case by blast
  have k: "k \<in> all_chunks ct i"
    using accepted_chunkD(2) [OF tracker_okD(1) [OF assms] Some [unfolded ik]] by (simp add: all_chunks_def)
  have rc: "received ct' i = insert k (received ct i)"
    "r = Completed \<longleftrightarrow> received ct i \<noteq> all_chunks ct i \<and> received ct' i = all_chunks ct i"
    using r(4) k by (auto simp: mark_spec_def split: if_splits)
  show ?thesis
  proof (rule that [OF r(1,2,3)])
    fix j assume "valid_index (ct_lengths ct) j"
    then show "received ct' j = received ct j \<union> chunks_in (ct_lengths ct) j [p]"
      using rc(1) r(5) Some ik by auto
  next
    fix j assume "chunks_in (ct_lengths ct) j [p] \<noteq> {}"
    then have "j = i" using Some ik by (simp split: if_splits)
    then show "Some r = Some Completed \<longleftrightarrow>
        received ct j \<noteq> all_chunks ct j \<and> received ct' j = all_chunks ct j"
      using rc(2) by simp
  qed
qed

lemma mark_all_eq:
  "tracker_ok ct \<Longrightarrow> \<exists>rs ct'. mark_all ct ps = Return (rs, ct') \<and> tracker_ok ct' \<and>
    length rs = length ps \<and> ct' = ct\<lparr>chunk_status := chunk_status ct'\<rparr> \<and>
    (\<forall>i. valid_index (ct_lengths ct) i \<longrightarrow>
       received ct' i = received ct i \<union> chunks_in (ct_lengths ct) i ps \<and>
       (\<forall>n < length ps. chunks_in (ct_lengths ct) i [ps ! n] \<noteq> {} \<longrightarrow>
          (rs ! n = Some Completed \<longleftrightarrow>
            received ct i \<union> chunks_in (ct_lengths ct) i (take n ps) \<noteq> all_chunks ct i \<and>
            received ct i \<union> chunks_in (ct_lengths ct) i (take (Suc n) ps) = all_chunks ct i)))"
proof (induction ps arbitrary: ct)
  case Nil
  then show ?case by simp
next
  case (Cons p ps)
  from mark_one [OF Cons.prems, of p] obtain r ct1 where
    1: "mark_chunk_downloaded ct p = Return (r, ct1)" "tracker_ok ct1"
      "ct1 = ct\<lparr>chunk_status := chunk_status ct1\<rparr>"
      "\<And>i. valid_index (ct_lengths ct) i \<Longrightarrow>
        received ct1 i = received ct i \<union> chunks_in (ct_lengths ct) i [p]"
      "\<And>i. valid_index (ct_lengths ct) i \<Longrightarrow> chunks_in (ct_lengths ct) i [p] \<noteq> {} \<Longrightarrow>
        r = Some Completed \<longleftrightarrow> received ct i \<noteq> all_chunks ct i \<and> received ct1 i = all_chunks ct i"
    by metis
  have same: "ct_lengths ct1 = ct_lengths ct" "all_chunks ct1 = all_chunks ct"
    using arg_cong [OF 1(3), of ct_lengths] by (auto simp: all_chunks_def)
  from Cons.IH [OF 1(2)] obtain rs ct2 where
    2: "mark_all ct1 ps = Return (rs, ct2)" "tracker_ok ct2" "length rs = length ps"
      "ct2 = ct1\<lparr>chunk_status := chunk_status ct2\<rparr>"
      "\<And>i. valid_index (ct_lengths ct) i \<Longrightarrow>
        received ct2 i = received ct1 i \<union> chunks_in (ct_lengths ct) i ps"
      "\<And>i n. valid_index (ct_lengths ct) i \<Longrightarrow> n < length ps \<Longrightarrow>
        chunks_in (ct_lengths ct) i [ps ! n] \<noteq> {} \<Longrightarrow>
        rs ! n = Some Completed \<longleftrightarrow>
          received ct1 i \<union> chunks_in (ct_lengths ct) i (take n ps) \<noteq> all_chunks ct i \<and>
          received ct1 i \<union> chunks_in (ct_lengths ct) i (take (Suc n) ps) = all_chunks ct i"
    unfolding same by blast
  have cons: "chunks_in L i (p # qs) = chunks_in L i [p] \<union> chunks_in L i qs" for L i qs by simp
  have "mark_all ct (p # ps) = Return (r # rs, ct2)" using 1(1) 2(1) by simp
  moreover have "ct2 = ct\<lparr>chunk_status := chunk_status ct2\<rparr>"
  proof -
    have "ct2 = (ct\<lparr>chunk_status := chunk_status ct1\<rparr>)\<lparr>chunk_status := chunk_status ct2\<rparr>"
      using 1(3) 2(4) by simp
    then show ?thesis by simp
  qed
  moreover have "received ct2 i = received ct i \<union> chunks_in (ct_lengths ct) i (p # ps)"
    if "valid_index (ct_lengths ct) i" for i
    unfolding cons [of _ i ps] 2(5) [OF that] 1(4) [OF that] by (rule Un_assoc)
  moreover have "(r # rs) ! n = Some Completed \<longleftrightarrow>
      received ct i \<union> chunks_in (ct_lengths ct) i (take n (p # ps)) \<noteq> all_chunks ct i \<and>
      received ct i \<union> chunks_in (ct_lengths ct) i (take (Suc n) (p # ps)) = all_chunks ct i"
    if v: "valid_index (ct_lengths ct) i" and n: "n < length (p # ps)"
      and c: "chunks_in (ct_lengths ct) i [(p # ps) ! n] \<noteq> {}" for i n
  proof (cases n)
    case 0
    then show ?thesis using 1(4,5) [OF v] c unfolding take_Suc_Cons take_0 by simp
  next
    case (Suc m)
    then show ?thesis using 2(6) [OF v, of m] n c
      unfolding Suc take_Suc_Cons cons [of _ i "take m ps"] cons [of _ i "take (Suc m) ps"]
        1(4) [OF v] Un_assoc [symmetric] by simp
  qed
  ultimately show ?case using 2(2,3) by (intro exI [of _ "r # rs"] exI [of _ ct2]) simp
qed

lemma flip_once:
  assumes "\<And>n. n < m \<Longrightarrow> P n \<Longrightarrow> P (Suc n)"
  shows "card {n. n < m \<and> \<not> P n \<and> P (Suc n)} = (if \<not> P 0 \<and> P m then 1 else 0)"
  using assms
proof (induction m)
  case 0
  then show ?case by simp
next
  case (Suc m)
  have *: "{n. n < Suc m \<and> \<not> P n \<and> P (Suc n)} =
      {n. n < m \<and> \<not> P n \<and> P (Suc n)} \<union> (if \<not> P m \<and> P (Suc m) then {m} else {})"
    by (auto simp: less_Suc_eq)
  have "P 0 \<Longrightarrow> n \<le> m \<Longrightarrow> P n" for n
    by (induction n) (use Suc.prems in auto)
  then have "P 0 \<Longrightarrow> P m" by blast
  then show ?case
    using Suc.IH Suc.prems [of m] Suc.prems unfolding * by (subst card_Un_disjoint) auto
qed

text \<open>Any sequence of the tracker's operations.\<close>

datatype ct_op =
    OpReserve valid_piece_index
  | OpChunk piece
  | OpDownloaded valid_piece_index
  | OpBroken valid_piece_index
  | OpCancel valid_piece_index u32

fun ct_apply :: "chunk_tracker \<Rightarrow> ct_op \<Rightarrow> chunk_tracker outcome" where
  "ct_apply ct (OpReserve i) = reserve_needed_piece ct i"
| "ct_apply ct (OpChunk p) = bind_outcome (mark_chunk_downloaded ct p) (\<lambda>(r, ct'). Return ct')"
| "ct_apply ct (OpDownloaded i) = mark_piece_downloaded ct i"
| "ct_apply ct (OpBroken i) = mark_piece_broken_if_not_have ct i"
| "ct_apply ct (OpCancel i c) = bind_outcome (mark_chunk_request_cancelled ct i c) (\<lambda>(r, ct'). Return ct')"

fun ct_run :: "chunk_tracker \<Rightarrow> ct_op list \<Rightarrow> chunk_tracker outcome" where
  "ct_run ct [] = Return ct"
| "ct_run ct (op # ops) = bind_outcome (ct_apply ct op) (\<lambda>ct'. ct_run ct' ops)"

fun op_valid :: "lengths \<Rightarrow> ct_op \<Rightarrow> bool" where
  "op_valid L (OpReserve i) = valid_index L i"
| "op_valid L (OpChunk p) = True"
| "op_valid L (OpDownloaded i) = valid_index L i"
| "op_valid L (OpBroken i) = valid_index L i"
| "op_valid L (OpCancel i c) = valid_index L i"

lemma bf_set_eq:
  "tracker_ok ct \<Longrightarrow> valid_index (ct_lengths ct) i \<Longrightarrow>
    bf_set (needed_pieces ct) (unat (vpi_get i)) v = Return ((needed_pieces ct)[unat (vpi_get i) := v])"
  "tracker_ok ct \<Longrightarrow> valid_index (ct_lengths ct) i \<Longrightarrow>
    bf_set (have_pieces ct) (unat (vpi_get i)) v = Return ((have_pieces ct)[unat (vpi_get i) := v])"
  "tracker_ok ct \<Longrightarrow> valid_index (ct_lengths ct) i \<Longrightarrow>
    get (have_pieces ct) (unat (vpi_get i)) = Some (have_pieces ct ! unat (vpi_get i))"
  by (auto simp: bf_set_def get_def dest: valid_index_bit [OF _ tracker_okD(2)] valid_index_bit [OF _ tracker_okD(3)])

lemma tracker_ok_updates [simp]:
  "tracker_ok ct \<Longrightarrow> length bs = length (needed_pieces ct) \<Longrightarrow> tracker_ok (ct\<lparr>needed_pieces := bs\<rparr>)"
  "tracker_ok ct \<Longrightarrow> length bs = length (have_pieces ct) \<Longrightarrow> tracker_ok (ct\<lparr>have_pieces := bs\<rparr>)"
  "tracker_ok ct \<Longrightarrow> length bs = length (chunk_status ct) \<Longrightarrow> tracker_ok (ct\<lparr>chunk_status := bs\<rparr>)"
  by (simp_all add: tracker_ok_def)

lemma cancelled_eq:
  assumes "tracker_ok ct" "valid_index (ct_lengths ct) i"
  shows "mark_chunk_request_cancelled ct i c =
    Return (if have_pieces ct ! unat (vpi_get i) then (Some False, ct)
      else if received ct i = all_chunks ct i then (Some True, ct)
      else (Some True, ct\<lparr>needed_pieces := (needed_pieces ct)[unat (vpi_get i) := True]\<rparr>))"
proof -
  obtain a b where r: "chunk_range (ct_lengths ct) i = (a, b)" by fastforce
  obtain s where "get_range (chunk_status ct) a b = Some s" "bf_all s \<longleftrightarrow> received ct i = all_chunks ct i"
    using assms r by (rule get_range_status)
  then show ?thesis
    using assms r by (simp add: mark_chunk_request_cancelled_def bf_set_eq split: bool.split)
qed

lemma broken_eq:
  assumes "tracker_ok ct" "valid_index (ct_lengths ct) i"
  shows "\<exists>s. mark_piece_broken_if_not_have ct i =
      Return (if have_pieces ct ! unat (vpi_get i) then ct
        else ct\<lparr>needed_pieces := (needed_pieces ct)[unat (vpi_get i) := True], chunk_status := s\<rparr>) \<and>
    length s = length (chunk_status ct) \<and> received (ct\<lparr>chunk_status := s\<rparr>) i = {} \<and>
    (\<forall>j. valid_index (ct_lengths ct) j \<longrightarrow> j \<noteq> i \<longrightarrow> received (ct\<lparr>chunk_status := s\<rparr>) j = received ct j)"
proof -
  have g: "geometry_ok (ct_lengths ct)" using assms(1) by (simp add: tracker_ok_def)
  obtain a b where r: "chunk_range (ct_lengths ct) i = (a, b)" by fastforce
  note ris = range_in_status [OF g assms(2) tracker_okD(4) [OF assms(1)] r]
  obtain s where s: "bf_fill (chunk_status ct) a b False = Some s" using ris by (simp add: bf_fill_def)
  have "received (ct\<lparr>chunk_status := s\<rparr>) i = {}"
    using ris r bf_fill_nth [OF s] by (auto simp: received_def)
  moreover have "received (ct\<lparr>chunk_status := s\<rparr>) j = received ct j"
    if "valid_index (ct_lengths ct) j" "j \<noteq> i" for j
    using that r bf_fill_nth [OF s] by (intro received_other [OF assms that(1)]) auto
  ultimately show ?thesis
    using assms r s bf_fill_length [OF s]
    by (intro exI [of _ s]) (simp add: mark_piece_broken_if_not_have_def bf_set_eq)
qed

lemma ct_apply_ok:
  assumes "tracker_ok ct" "op_valid (ct_lengths ct) op"
  shows "\<exists>ct'. ct_apply ct op = Return ct' \<and> tracker_ok ct' \<and> ct_lengths ct' = ct_lengths ct \<and>
    length (have_pieces ct') = length (have_pieces ct) \<and>
    (\<forall>p < length (have_pieces ct).
       have_pieces ct' ! p \<longleftrightarrow> have_pieces ct ! p \<or> (\<exists>i. op = OpDownloaded i \<and> unat (vpi_get i) = p))"
proof (cases op)
  case (OpReserve i)
  then show ?thesis using assms by (simp add: reserve_needed_piece_def bf_set_eq)
next
  case (OpChunk p)
  from mark_one [OF assms(1), of p] obtain r ct' where
    c: "mark_chunk_downloaded ct p = Return (r, ct')" "tracker_ok ct'" "ct' = ct\<lparr>chunk_status := chunk_status ct'\<rparr>"
    by metis
  have "ct_lengths ct' = ct_lengths ct" "have_pieces ct' = have_pieces ct"
    using arg_cong [OF c(3), of ct_lengths] arg_cong [OF c(3), of have_pieces] by simp_all
  with c(1,2) OpChunk show ?thesis by simp
next
  case (OpDownloaded i)
  then have v: "valid_index (ct_lengths ct) i" using assms(2) by simp
  then have "unat (vpi_get i) < length (have_pieces ct)"
    using valid_index_bit tracker_okD(3) [OF assms(1)] by blast
  then show ?thesis using OpDownloaded assms(1) v
    by (simp add: mark_piece_downloaded_def bf_set_eq nth_list_update)
next
  case (OpBroken i)
  then obtain s where "mark_piece_broken_if_not_have ct i =
      Return (if have_pieces ct ! unat (vpi_get i) then ct
        else ct\<lparr>needed_pieces := (needed_pieces ct)[unat (vpi_get i) := True], chunk_status := s\<rparr>)"
    "length s = length (chunk_status ct)"
    using broken_eq [of ct i] assms by auto
  then show ?thesis using OpBroken assms by simp
next
  case (OpCancel i c)
  then show ?thesis using assms by (simp add: cancelled_eq)
qed

lemma ct_run_ok:
  "tracker_ok ct \<Longrightarrow> \<forall>op \<in> set ops. op_valid (ct_lengths ct) op \<Longrightarrow>
   \<exists>ct'. ct_run ct ops = Return ct' \<and> tracker_ok ct' \<and> ct_lengths ct' = ct_lengths ct \<and>
    length (have_pieces ct') = length (have_pieces ct) \<and>
    (\<forall>p < length (have_pieces ct).
       have_pieces ct' ! p \<longleftrightarrow> have_pieces ct ! p \<or> (\<exists>i. OpDownloaded i \<in> set ops \<and> unat (vpi_get i) = p))"
proof (induction ops arbitrary: ct)
  case Nil
  then show ?case by simp
next
  case (Cons op ops)
  obtain ct1 where 1: "ct_apply ct op = Return ct1" "tracker_ok ct1" "ct_lengths ct1 = ct_lengths ct"
    "length (have_pieces ct1) = length (have_pieces ct)"
    "\<forall>p < length (have_pieces ct).
       have_pieces ct1 ! p \<longleftrightarrow> have_pieces ct ! p \<or> (\<exists>i. op = OpDownloaded i \<and> unat (vpi_get i) = p)"
    using ct_apply_ok [of ct op] Cons.prems by auto
  have "\<forall>op \<in> set ops. op_valid (ct_lengths ct1) op" using Cons.prems 1(3) by simp
  from Cons.IH [OF 1(2) this] obtain ct2 where
    2: "ct_run ct1 ops = Return ct2" "tracker_ok ct2" "ct_lengths ct2 = ct_lengths ct1"
      "length (have_pieces ct2) = length (have_pieces ct1)"
      "\<forall>p < length (have_pieces ct1).
       have_pieces ct2 ! p \<longleftrightarrow> have_pieces ct1 ! p \<or> (\<exists>i. OpDownloaded i \<in> set ops \<and> unat (vpi_get i) = p)"
    by blast
  have "have_pieces ct2 ! p \<longleftrightarrow> have_pieces ct ! p \<or> (\<exists>i. OpDownloaded i \<in> set (op # ops) \<and> unat (vpi_get i) = p)"
    if "p < length (have_pieces ct)" for p
    using that 1(4,5) 2(5) by auto
  then show ?case using 1 2 by (intro exI [of _ ct2]) simp
qed

section \<open>Bytes\<close>

lemma map_filter_append: "List.map_filter f (xs @ ys) = List.map_filter f xs @ List.map_filter f ys"
  by (simp add: List.map_filter_def)

lemma map_filter_valid:
  assumes "lengths_ok L" "length bs \<le> 2 ^ 32" "n_pieces L \<le> length bs"
  shows "List.map_filter (\<lambda>i. validate_piece_index L (word_of_nat i)) (iter_ones bs) =
    map (\<lambda>i. ValidPieceIndex (word_of_nat i)) (filter (\<lambda>i. bs ! i) [0..<n_pieces L])"
proof -
  define N where "N = n_pieces L"
  have "[0..<length bs] = [0..<N] @ [N..<length bs]"
    using assms(3) by (metis N_def le0 le_add_diff_inverse upt_add_eq_append)
  then have "List.map_filter f (iter_ones bs) = List.map_filter f (filter (\<lambda>i. bs ! i) [0..<N])
      @ List.map_filter f (filter (\<lambda>i. bs ! i) [N..<length bs])" for f :: "nat \<Rightarrow> valid_piece_index option"
    by (simp add: iter_ones_def map_filter_append)
  moreover have "List.map_filter (\<lambda>i. validate_piece_index L (word_of_nat i)) xs =
      map (\<lambda>i. ValidPieceIndex (word_of_nat i)) xs" if "set xs \<subseteq> {..<N}" for xs
    using that by (induction xs) (simp_all add: N_def validate_of_nat [OF assms(1)] map_filter_simps del: validate_piece_index_Some_iff)
  moreover have "List.map_filter (\<lambda>i. validate_piece_index L (word_of_nat i)) xs = []"
    if "set xs \<subseteq> {N..<length bs}" for xs
    using that assms(2)
    by (induction xs) (simp_all add: N_def validate_too_large [OF assms(1)] map_filter_simps)
  moreover have "set (filter (\<lambda>i. bs ! i) [0..<N]) \<subseteq> {..<N}"
    "set (filter (\<lambda>i. bs ! i) [N..<length bs]) \<subseteq> {N..<length bs}" by auto
  ultimately show ?thesis unfolding N_def by (metis append_Nil2)
qed

lemma unat_sum_list_u64:
  "sum_list (map unat xs) < 2 ^ 64 \<Longrightarrow> unat (sum_list xs :: u64) = sum_list (map unat xs)"
proof (induction xs)
  case (Cons x xs)
  then have "unat x + unat (sum_list xs) < 2 ^ 64" by simp
  then show ?case using Cons by (simp add: unat_add_fits)
qed simp

definition bytes_in :: "lengths \<Rightarrow> nat list \<Rightarrow> nat" where
  "bytes_in L ps = (\<Sum>p \<leftarrow> ps. unat (piece_length_of L (ValidPieceIndex (word_of_nat p))))"

lemma bytes_in_all:
  assumes "lengths_ok L" shows "bytes_in L [0..<n_pieces L] = unat (total_length L)"
proof -
  have "map (unat \<circ> pi_len) (iter_piece_infos L) =
      map (\<lambda>p. unat (piece_length_of L (ValidPieceIndex (word_of_nat p)))) [0..<n_pieces L]"
    by (rule nth_equalityI) (simp_all add: length_iter_piece_infos iter_piece_infos_nth assms del: upt_Suc)
  then show ?thesis unfolding bytes_in_def using sum_piece_lengths [OF assms] by simp
qed

lemma bytes_in_filter:
  "bytes_in L (filter P ps) + bytes_in L (filter (\<lambda>p. \<not> P p) ps) = bytes_in L ps"
  unfolding bytes_in_def by (induction ps) auto

lemma sum_piece_bytes_eq:
  assumes "lengths_ok L" "length bs \<le> 2 ^ 32" "n_pieces L \<le> length bs"
  shows "unat (sum_piece_bytes L bs) = bytes_in L (filter (\<lambda>i. bs ! i) [0..<n_pieces L])"
proof -
  define xs where "xs = map (\<lambda>i. ucast (piece_length_of L (ValidPieceIndex (word_of_nat i))) :: u64)
    (filter (\<lambda>i. bs ! i) [0..<n_pieces L])"
  have "map unat xs = map (\<lambda>i. unat (piece_length_of L (ValidPieceIndex (word_of_nat i))))
      (filter (\<lambda>i. bs ! i) [0..<n_pieces L])"
    by (simp add: xs_def comp_def unat_ucast_u32 del: upt_Suc)
  then have m: "sum_list (map unat xs) = bytes_in L (filter (\<lambda>i. bs ! i) [0..<n_pieces L])"
    by (simp add: bytes_in_def)
  have "\<dots> \<le> unat (total_length L)"
    using bytes_in_filter [of L "\<lambda>i. bs ! i" "[0..<n_pieces L]"] bytes_in_all [OF assms(1)] by simp
  then have "sum_list (map unat xs) < 2 ^ 64" using m u64_bound [of "total_length L"] by simp
  from unat_sum_list_u64 [OF this] m show ?thesis
    by (simp add: sum_piece_bytes_def map_filter_valid [OF assms] xs_def comp_def del: upt_Suc)
qed

section \<open>Correctness\<close>

text \<open>A torrent of two pieces, the second of three bytes, for the witnesses.\<close>

definition small_lengths :: lengths where
  "small_lengths = \<lparr>chunk_length = 16384, total_length = 32771, piece_length = 32768,
     last_piece_id = 1, last_piece_length = 3, max_chunks_per_piece = 2\<rparr>"

lemma small_lengths_new: "lengths_new 32771 32768 None = Inr small_lengths"
  by code_simp

lemma small_geometry: "geometry_ok small_lengths"
proof -
  have "sizes_fit 32771 32768 (case None of Some c \<Rightarrow> c | None \<Rightarrow> CHUNK_SIZE)"
    by (simp add: sizes_fit_def CHUNK_SIZE_def ceil_div_def)
  from lengths_new_ok(1) [OF small_lengths_new this] show ?thesis
    by (simp add: geometry_ok_def small_lengths_def)
qed

lemma small_n_pieces [simp]: "n_pieces small_lengths = 2"
  by (simp add: small_lengths_def)

definition small_tracker :: chunk_tracker where
  "small_tracker = \<lparr>needed_pieces = replicate 8 True, chunk_status = replicate 8 False,
     have_pieces = replicate 8 False, ct_lengths = small_lengths, priority_piece_ids = [7],
     total_selected_bytes = 32771\<rparr>"

lemma small_tracker_new:
  "chunk_tracker_new (replicate 8 True) (replicate 8 False) small_lengths 32771 = Return small_tracker"
  by code_simp

lemma small_tracker_ok:
  "tracker_ok small_tracker" "ct_lengths small_tracker = small_lengths"
  "valid_index small_lengths i \<Longrightarrow> received small_tracker i = {}"
proof -
  obtain ct where ct: "chunk_tracker_new (replicate 8 True) (replicate 8 False) small_lengths 32771 = Return ct"
    "tracker_ok ct" "\<forall>i. valid_index small_lengths i \<longrightarrow> received ct i =
      (if replicate 8 True ! unat (vpi_get i) then {} else all_chunks ct i)"
    using chunk_tracker_new_ok [OF small_geometry, of "replicate 8 True" "replicate 8 False" 32771]
    by auto
  have eq: "ct = small_tracker" using ct(1) small_tracker_new by simp
  show "tracker_ok small_tracker" using ct(2) eq by simp
  show "ct_lengths small_tracker = small_lengths" by (simp add: small_tracker_def)
  assume i: "valid_index small_lengths i"
  then have "unat (vpi_get i) < 8" by (rule valid_index_bit) simp
  then show "received small_tracker i = {}" using ct(3) eq i by simp
qed

text \<open>
  C21: The tracker never panics and never forgets a verified piece, on a torrent whose sizes fit the counters
  and whose piece length is a multiple of the chunk length (on others, which \<open>Lengths::new\<close> accepts too, it does
  panic: \<open>odd_piece_length_panics\<close>). Started from any bit fields that hold all its pieces, every sequence
  of operations on valid pieces, with any blocks peers may send, runs to the end; the tracker stays
  well formed, and the pieces it has are those it had and those that were marked downloaded.
\<close>
theorem tracker_run_safe:
  assumes "geometry_ok L"
    and "n_pieces L \<le> length needed" "length needed \<le> 2 ^ 32"
    and "n_pieces L \<le> length hv" "length hv \<le> 2 ^ 32"
    and "\<forall>op \<in> set ops. op_valid L op"
  shows "\<exists>ct ct'. chunk_tracker_new needed hv L sel = Return ct \<and> ct_run ct ops = Return ct' \<and>
    tracker_ok ct' \<and>
    (\<forall>p < length hv. have_pieces ct' ! p \<longleftrightarrow>
       hv ! p \<or> (\<exists>i. OpDownloaded i \<in> set ops \<and> unat (vpi_get i) = p))"
proof -
  obtain ct where ct: "chunk_tracker_new needed hv L sel = Return ct" "tracker_ok ct"
    "ct_lengths ct = L" "have_pieces ct = hv"
    using chunk_tracker_new_ok [OF assms(1-5)] by blast
  with ct_run_ok [OF ct(2), of ops] assms(6) show ?thesis by auto
qed

theorem tracker_run_safe_witness:
  "\<exists>ct ct'. chunk_tracker_new (replicate 8 True) (replicate 8 False) small_lengths 32771 = Return ct \<and>
     ct_run ct [OpReserve (ValidPieceIndex 1), OpChunk \<lparr>p_index = 1, p_begin = 0, p_block = [1, 2, 3]\<rparr>,
       OpDownloaded (ValidPieceIndex 1)] = Return ct' \<and> have_pieces ct' ! 1"
proof -
  define ops where "ops = [OpReserve (ValidPieceIndex 1),
    OpChunk \<lparr>p_index = 1, p_begin = 0, p_block = [1, 2, 3]\<rparr>, OpDownloaded (ValidPieceIndex 1)]"
  have "\<forall>op \<in> set ops. op_valid small_lengths op"
    by (simp add: ops_def valid_index_def small_lengths_def)
  then obtain ct ct' where "chunk_tracker_new (replicate 8 True) (replicate 8 False) small_lengths 32771 = Return ct"
    "ct_run ct ops = Return ct'" and
    hv: "\<forall>p < length (replicate 8 False). have_pieces ct' ! p \<longleftrightarrow> replicate 8 False ! p \<or>
       (\<exists>i. OpDownloaded i \<in> set ops \<and> unat (vpi_get i) = p)"
    using tracker_run_safe [OF small_geometry, of "replicate 8 True" "replicate 8 False" ops 32771] by auto
  moreover have "OpDownloaded (ValidPieceIndex 1) \<in> set ops" "unat (vpi_get (ValidPieceIndex 1)) = 1"
    by (simp_all add: ops_def)
  then have "have_pieces ct' ! 1" using hv by auto
  ultimately show ?thesis unfolding ops_def by blast
qed

text \<open>
  C17: a piece is reported complete exactly once. Whatever blocks come in, in whatever order and with
  whatever repetitions, the result \<open>Completed\<close> is given for exactly one of them if the piece was not
  complete before and the accepted blocks together with the earlier chunks make up all its chunks,
  and for none otherwise; and the chunks recorded afterwards are the earlier ones and the accepted ones.
\<close>
theorem piece_completed_exactly_once:
  assumes "tracker_ok ct" "valid_index (ct_lengths ct) i"
  shows "\<exists>rs ct'. mark_all ct ps = Return (rs, ct') \<and> length rs = length ps \<and>
    received ct' i = received ct i \<union> chunks_in (ct_lengths ct) i ps \<and>
    card {n. n < length ps \<and> (\<exists>k. accepted_chunk (ct_lengths ct) (ps ! n) = Some (i, k)) \<and>
        rs ! n = Some Completed} =
      (if received ct i \<noteq> all_chunks ct i \<and>
          received ct i \<union> chunks_in (ct_lengths ct) i ps = all_chunks ct i then 1 else 0)"
proof -
  let ?L = "ct_lengths ct"
  define P where "P n \<longleftrightarrow> received ct i \<union> chunks_in ?L i (take n ps) = all_chunks ct i" for n
  obtain rs ct' where r: "mark_all ct ps = Return (rs, ct')" "length rs = length ps"
    "received ct' i = received ct i \<union> chunks_in ?L i ps"
    "\<And>n. n < length ps \<Longrightarrow> chunks_in ?L i [ps ! n] \<noteq> {} \<Longrightarrow>
       rs ! n = Some Completed \<longleftrightarrow> \<not> P n \<and> P (Suc n)"
    proof -
    from mark_all_eq [OF assms(1), of ps] obtain rs ct' where
      a: "mark_all ct ps = Return (rs, ct')" "length rs = length ps"
      and b: "\<forall>i. valid_index ?L i \<longrightarrow> received ct' i = received ct i \<union> chunks_in ?L i ps \<and>
       (\<forall>n < length ps. chunks_in ?L i [ps ! n] \<noteq> {} \<longrightarrow>
          (rs ! n = Some Completed \<longleftrightarrow>
            received ct i \<union> chunks_in ?L i (take n ps) \<noteq> all_chunks ct i \<and>
            received ct i \<union> chunks_in ?L i (take (Suc n) ps) = all_chunks ct i))"
      by (elim exE conjE) (rule that)
    from b assms(2) show ?thesis by (intro that [OF a]) (simp_all add: P_def)
  qed
  have sub: "chunks_in ?L i qs \<subseteq> all_chunks ct i" for qs
    using accepted_chunkD(2) [OF tracker_okD(1) [OF assms(1)]] by (auto simp: chunks_in_def all_chunks_def)
  have suc: "chunks_in ?L i (take (Suc n) ps) = chunks_in ?L i (take n ps) \<union> chunks_in ?L i [ps ! n]"
    if "n < length ps" for n
    unfolding take_Suc_conv_app_nth [OF that] by (auto simp: chunks_in_def)
  have one: "(\<exists>k. accepted_chunk ?L p = Some (i, k)) \<longleftrightarrow> chunks_in ?L i [p] \<noteq> {}" for p
    by (auto split: option.splits if_splits)
  have "{n. n < length ps \<and> (\<exists>k. accepted_chunk ?L (ps ! n) = Some (i, k)) \<and> rs ! n = Some Completed} =
      {n. n < length ps \<and> \<not> P n \<and> P (Suc n)}"
  proof -
    have "(chunks_in ?L i [ps ! n] \<noteq> {} \<and> rs ! n = Some Completed) \<longleftrightarrow> \<not> P n \<and> P (Suc n)"
      if "n < length ps" for n
      using r(4) [OF that] suc [OF that] unfolding P_def
      by (cases "chunks_in ?L i [ps ! n] = {}") (simp_all del: chunks_in_simps)
    then show ?thesis unfolding one by blast
  qed
  moreover have "P (Suc n)" if "n < length ps" "P n" for n
    using that suc [OF that(1)] sub received_subset [of ct i] unfolding P_def by blast
  ultimately show ?thesis
    using r(1-3) flip_once [of "length ps" P] by (simp add: P_def del: chunks_in_simps) simp
qed

theorem piece_completed_exactly_once_witness:
  "\<exists>rs ct'. mark_all small_tracker (replicate 2 \<lparr>p_index = 1, p_begin = 0, p_block = [1, 2, 3]\<rparr>) =
      Return (rs, ct') \<and> length rs = 2 \<and> received ct' (ValidPieceIndex 1) = {0}"
proof -
  have i: "valid_index small_lengths (ValidPieceIndex 1)" by (simp add: valid_index_def small_lengths_def)
  have "accepted_chunk small_lengths \<lparr>p_index = 1, p_begin = 0, p_block = [1, 2, 3]\<rparr> = Some (ValidPieceIndex 1, 0)"
    by code_simp
  then have "chunks_in small_lengths (ValidPieceIndex 1)
      (replicate 2 \<lparr>p_index = 1, p_begin = 0, p_block = [1, 2, 3]\<rparr>) = {0}"
    by (simp add: numeral_2_eq_2)
  then show ?thesis
    using piece_completed_exactly_once [OF small_tracker_ok(1), of "ValidPieceIndex 1"
      "replicate 2 \<lparr>p_index = 1, p_begin = 0, p_block = [1, 2, 3]\<rparr>"] i small_tracker_ok(2,3) by auto
qed

text \<open>
  A piece that is given up is asked for again. When a piece that is not verified turns out broken it
  becomes needed and all its chunks are forgotten; when a request for it is cancelled it becomes
  needed unless all its chunks are there, and no chunk is forgotten. A verified piece is never
  touched, nor are the chunks and the needed bits of the other pieces.
\<close>
theorem lost_piece_is_needed_again:
  assumes "tracker_ok ct" "valid_index (ct_lengths ct) i"
  shows "\<exists>ct1 r ct2. mark_piece_broken_if_not_have ct i = Return ct1 \<and>
    mark_chunk_request_cancelled ct i c = Return (Some r, ct2) \<and>
    (if have_pieces ct ! unat (vpi_get i) then ct1 = ct \<and> ct2 = ct \<and> \<not> r
     else r \<and> needed_pieces ct1 = (needed_pieces ct)[unat (vpi_get i) := True] \<and> received ct1 i = {} \<and>
       have_pieces ct1 = have_pieces ct \<and>
       (\<forall>j. valid_index (ct_lengths ct) j \<longrightarrow> j \<noteq> i \<longrightarrow> received ct1 j = received ct j) \<and>
       needed_pieces ct2 = (if received ct i = all_chunks ct i then needed_pieces ct
         else (needed_pieces ct)[unat (vpi_get i) := True]) \<and>
       have_pieces ct2 = have_pieces ct \<and> received ct2 = received ct)"
proof -
  from broken_eq [OF assms] obtain s where s: "mark_piece_broken_if_not_have ct i =
      Return (if have_pieces ct ! unat (vpi_get i) then ct
        else ct\<lparr>needed_pieces := (needed_pieces ct)[unat (vpi_get i) := True], chunk_status := s\<rparr>)"
    "received (ct\<lparr>chunk_status := s\<rparr>) i = {}"
    "\<forall>j. valid_index (ct_lengths ct) j \<longrightarrow> j \<noteq> i \<longrightarrow> received (ct\<lparr>chunk_status := s\<rparr>) j = received ct j"
    by blast
  have "received (ct\<lparr>needed_pieces := bs, chunk_status := s\<rparr>) = received (ct\<lparr>chunk_status := s\<rparr>)"
    "received (ct\<lparr>needed_pieces := bs\<rparr>) = received ct" for bs
    by (rule received_cong; simp)+
  then show ?thesis
    using s by (cases "have_pieces ct ! unat (vpi_get i)") (auto simp: cancelled_eq [OF assms])
qed

theorem lost_piece_is_needed_again_witness:
  "\<exists>ct1 r ct2. mark_piece_broken_if_not_have small_tracker (ValidPieceIndex 0) = Return ct1 \<and>
    mark_chunk_request_cancelled small_tracker (ValidPieceIndex 0) 0 = Return (Some r, ct2) \<and> r"
proof -
  have "valid_index (ct_lengths small_tracker) (ValidPieceIndex 0)"
    by (simp add: valid_index_def small_tracker_def)
  from lost_piece_is_needed_again [OF small_tracker_ok(1) this, of 0] show ?thesis
    by (auto simp: small_tracker_def)
qed

text \<open>
  The queue of needed pieces. The iterator yields every needed piece exactly once and nothing else,
  the prioritized ones (of a new tracker: the last needed piece) before all others, and the others
  in increasing order.
\<close>
theorem iter_needed_pieces_correct:
  assumes "tracker_ok ct"
  shows "\<exists>xs ys. iter_needed_pieces ct = Return (xs @ ys) \<and> distinct (xs @ ys) \<and>
    set (xs @ ys) = {p. p < length (needed_pieces ct) \<and> needed_pieces ct ! p} \<and>
    set xs \<subseteq> set (priority_piece_ids ct) \<and> set ys \<inter> set (priority_piece_ids ct) = {} \<and>
    sorted_wrt (<) ys"
proof -
  have p: "\<forall>i \<in> set (priority_piece_ids ct). i < length (needed_pieces ct)"
    "distinct (priority_piece_ids ct)" using assms by (simp_all add: tracker_ok_def)
  have "sorted_wrt (<) (filter P (iter_ones bs))" for P and bs
    by (simp add: iter_ones_def sorted_wrt_filter)
  then show ?thesis
    using p by (intro exI conjI) (auto simp: iter_needed_pieces_def leD)
qed

theorem iter_needed_pieces_correct_witness:
  "\<exists>xs. iter_needed_pieces small_tracker = Return xs \<and> distinct xs \<and> set xs = {0..<8}"
proof -
  from iter_needed_pieces_correct [OF small_tracker_ok(1)] obtain xs ys where
    "iter_needed_pieces small_tracker = Return (xs @ ys)" "distinct (xs @ ys)"
    "set (xs @ ys) = {p. p < length (needed_pieces small_tracker) \<and> needed_pieces small_tracker ! p}"
    by blast
  moreover have "{p. p < length (needed_pieces small_tracker) \<and> needed_pieces small_tracker ! p} = {0..<8}"
    by (auto simp: small_tracker_def)
  ultimately show ?thesis by auto
qed

text \<open>
  Progress in bytes. The bytes the tracker has are the lengths of its verified pieces, without wrap
  around; they never exceed the total length and reach it exactly when every piece is there; and a
  piece that becomes verified adds exactly its length.
\<close>
theorem have_bytes_progress:
  assumes "tracker_ok ct" "valid_index (ct_lengths ct) i"
  shows "unat (calc_have_bytes ct) \<le> unat (total_length (ct_lengths ct)) \<and>
    (unat (calc_have_bytes ct) = unat (total_length (ct_lengths ct)) \<longleftrightarrow>
       (\<forall>p < n_pieces (ct_lengths ct). have_pieces ct ! p)) \<and>
    (\<exists>ct'. mark_piece_downloaded ct i = Return ct' \<and>
       unat (calc_have_bytes ct') = unat (calc_have_bytes ct) +
         (if have_pieces ct ! unat (vpi_get i) then 0 else unat (piece_length_of (ct_lengths ct) i)))"
proof -
  define L where "L = ct_lengths ct"
  define N where "N = n_pieces L"
  define len where "len p = unat (piece_length_of L (ValidPieceIndex (word_of_nat p)))" for p :: nat
  have ok: "lengths_ok L" using tracker_okD(1) [OF assms(1)] by (simp add: L_def)
  have sum: "unat (sum_piece_bytes L bs) = sum_list (map len (filter (\<lambda>i. bs ! i) [0..<N]))"
    if "length bs = length (have_pieces ct)" for bs
  proof -
    have "length bs \<le> 2 ^ 32" "n_pieces L \<le> length bs"
      using that assms(1) by (simp_all add: tracker_ok_def L_def)
    from sum_piece_bytes_eq [OF ok this] show ?thesis unfolding bytes_in_def len_def N_def .
  qed
  have tot: "unat (total_length L) = sum_list (map len [0..<N])"
    using bytes_in_all [OF ok] unfolding bytes_in_def len_def N_def by (rule sym)
  have split: "sum_list (map len (filter P xs)) + sum_list (map len (filter (\<lambda>p. \<not> P p) xs)) =
      sum_list (map len xs)" for P xs
    by (induction xs) auto
  have pos: "0 < len p" for p using piece_length_of_bounds(1) [OF ok] by (simp add: len_def)
  have zero: "sum_list (map len xs) = 0 \<longleftrightarrow> xs = []" for xs
    using pos by (cases xs) auto
  have whole: "sum_list (map len (filter P [0..<N])) = sum_list (map len [0..<N]) \<longleftrightarrow> (\<forall>p < N. P p)" for P
    using split [of P "[0..<N]"] zero [of "filter (\<lambda>p. \<not> P p) [0..<N]"] by (auto simp: filter_empty_conv)
  define j where "j = unat (vpi_get i)"
  have j: "j < N" "j < length (have_pieces ct)" "len j = unat (piece_length_of L i)"
    using assms(2) valid_index_bit [OF assms(2) tracker_okD(3) [OF assms(1)]]
    by (simp_all add: j_def N_def L_def len_def vpi_word valid_index_def word_le_nat_alt)
  have upd: "sum_list (map len (filter (\<lambda>p. bs[j := True] ! p) xs)) =
      sum_list (map len (filter (\<lambda>p. bs ! p) xs)) + (if bs ! j \<or> j \<notin> set xs then 0 else len j)"
    if "distinct xs" "j < length bs" for bs xs
    using that by (induction xs) (auto simp: nth_list_update)
  have "mark_piece_downloaded ct i = Return (ct\<lparr>have_pieces := (have_pieces ct)[j := True]\<rparr>)"
    using assms by (simp add: mark_piece_downloaded_def bf_set_eq j_def)
  then show ?thesis
    using sum split [of "\<lambda>p. have_pieces ct ! p" "[0..<N]"] whole [of "\<lambda>p. have_pieces ct ! p"]
      upd [of "[0..<N]" "have_pieces ct"] j
    by (simp add: calc_have_bytes_def L_def [symmetric] tot j_def [symmetric] N_def [symmetric] del: upt_Suc)
qed

theorem have_bytes_progress_witness:
  "\<exists>ct'. mark_piece_downloaded small_tracker (ValidPieceIndex 1) = Return ct' \<and>
    unat (calc_have_bytes ct') = unat (calc_have_bytes small_tracker) + 3"
proof -
  have "valid_index (ct_lengths small_tracker) (ValidPieceIndex 1)"
    by (simp add: valid_index_def small_tracker_def small_lengths_def)
  from have_bytes_progress [OF small_tracker_ok(1) this] show ?thesis
    by (simp add: small_tracker_def) (simp add: small_lengths_def piece_length_of_def)
qed

text \<open>
  The divisibility is needed. For a torrent of ten pieces of 16385 bytes, which the constructor of
  \<open>Lengths\<close> accepts, the chunk bits are sized by the chunks of the total length but addressed by
  twice the piece number: building a tracker for its first, incomplete download panics as soon as the
  last piece is not needed, and otherwise the panic comes with the first chunk of that piece.
\<close>
theorem odd_piece_length_panics:
  "\<exists>L. lengths_new 163850 16385 None = Inr L \<and>
     chunk_tracker_new (replicate 16 False) (replicate 16 True) L 0 = Panic \<and>
     (\<exists>ct. chunk_tracker_new (replicate 16 True) (replicate 16 False) L 0 = Return ct \<and>
        mark_chunk_downloaded ct \<lparr>p_index = 9, p_begin = 16384, p_block = [0]\<rparr> = Panic)"
proof -
  define L where "L = \<lparr>chunk_length = 16384, total_length = 163850, piece_length = 16385,
    last_piece_id = 9, last_piece_length = 16385, max_chunks_per_piece = 2\<rparr>"
  define ct where "ct = \<lparr>needed_pieces = replicate 16 True, chunk_status = replicate 16 False,
    have_pieces = replicate 16 False, ct_lengths = L, priority_piece_ids = [15], total_selected_bytes = 0\<rparr>"
  have "lengths_new 163850 16385 None = Inr L" unfolding L_def by code_simp
  moreover have "chunk_tracker_new (replicate 16 False) (replicate 16 True) L 0 = Panic"
    unfolding L_def by code_simp
  moreover have "chunk_tracker_new (replicate 16 True) (replicate 16 False) L 0 = Return ct"
    unfolding L_def ct_def by code_simp
  moreover have "mark_chunk_downloaded ct \<lparr>p_index = 9, p_begin = 16384, p_block = [0]\<rparr> = Panic"
    unfolding L_def ct_def by code_simp
  ultimately show ?thesis by blast
qed

end
