(* ===== verification/ReadBuf.thy ===== *)
theory ReadBuf
  imports PeerProtocol
begin

text \<open>
  Model of \<open>crates/librqbit/src/read_buf.rs\<close>: the receive buffer of a peer connection, and the loop
  that reads one message from the network through it.

  The network is a list of events: bytes that arrive together, an error of the read, a timeout; the
  end of the list is the end of the stream. How far \<open>Vec::reserve\<close> grows the capacity is up to the
  allocator: it is the parameter \<open>grow\<close>, at least the requested room (\<open>grow_ok\<close>).
\<close>

section \<open>The network\<close>

datatype net_event = Arrive bytes | ReadError | ReadTimeout

datatype net_failure = NetError | NetTimeout

fun conn_read :: "net_event list \<Rightarrow> nat \<Rightarrow> (net_failure + bytes) \<times> net_event list" where
  "conn_read [] n = (Inr [], [])"
| "conn_read (Arrive bs # es) n =
     (Inr (take n bs), if length bs \<le> n then es else Arrive (drop n bs) # es)"
| "conn_read (ReadError # es) n = (Inl NetError, es)"
| "conn_read (ReadTimeout # es) n = (Inl NetTimeout, es)"

fun pending_bytes :: "net_event list \<Rightarrow> nat" where
  "pending_bytes [] = 0"
| "pending_bytes (Arrive bs # es) = length bs + pending_bytes es"
| "pending_bytes (_ # es) = pending_bytes es"

lemma conn_read_pending:
  "conn_read es n = (Inr bs, es') \<Longrightarrow> bs \<noteq> [] \<Longrightarrow> pending_bytes es' < pending_bytes es"
  by (induction es n rule: conn_read.induct) (auto split: if_splits)

section \<open>The buffer\<close>

record read_buf =
  rb_buf :: bytes
  rb_filled :: nat
  rb_processed :: nat

definition PIECE_MESSAGE_DEFAULT_LEN :: nat where
  "PIECE_MESSAGE_DEFAULT_LEN = PIECE_MESSAGE_PREAMBLE_LEN + unat CHUNK_SIZE"

definition read_buf_new :: read_buf where
  "read_buf_new = \<lparr>rb_buf = replicate (PIECE_MESSAGE_DEFAULT_LEN * 2) 0, rb_filled = 0, rb_processed = 0\<rparr>"

text \<open>\<open>copy_within\<close> moves a slice to the front; \<open>reserve\<close> and \<open>resize\<close> to the new capacity.\<close>

definition copy_within :: "bytes \<Rightarrow> nat \<Rightarrow> nat \<Rightarrow> bytes" where
  "copy_within b s e = take (e - s) (drop s b) @ drop (e - s) b"

definition compact :: "read_buf \<Rightarrow> read_buf" where
  "compact rb =
     (if rb_processed rb > 0 then
        rb\<lparr>rb_buf := (if rb_filled rb > rb_processed rb
             then copy_within (rb_buf rb) (rb_processed rb) (rb_filled rb) else rb_buf rb),
           rb_filled := rb_filled rb - rb_processed rb, rb_processed := 0\<rparr>
      else rb)"

definition prepare_for_read :: "(nat \<Rightarrow> nat \<Rightarrow> nat) \<Rightarrow> read_buf \<Rightarrow> nat \<Rightarrow> read_buf" where
  "prepare_for_read grow rb need_additional_bytes =
     (let rb1 = compact rb in
      if length (rb_buf rb1) < rb_filled rb1 + need_additional_bytes
      then rb1\<lparr>rb_buf := rb_buf rb1
             @ replicate (grow (length (rb_buf rb1)) need_additional_bytes - length (rb_buf rb1)) 0\<rparr>
      else rb1)"

text \<open>Reading at most \<open>buf.len() - from\<close> bytes into the buffer from position \<open>from\<close>.\<close>

definition write_at :: "bytes \<Rightarrow> nat \<Rightarrow> bytes \<Rightarrow> bytes" where
  "write_at b n xs = take n b @ xs @ drop (n + length xs) b"

datatype read_failure =
    ReadFailed net_failure
  | Disconnected
  | ParseFailed msg_error
  | ReadPanic

text \<open>\<open>ReadBuf::read_handshake\<close>: a single read.\<close>

definition read_handshake ::
  "(bytes \<Rightarrow> handshake option) \<Rightarrow> read_buf \<Rightarrow> net_event list \<Rightarrow>
    (read_failure + handshake) \<times> read_buf \<times> net_event list" where
  "read_handshake hdec rb es =
     (case conn_read es (length (rb_buf rb)) of
        (Inl e, es') \<Rightarrow> (Inl (ReadFailed e), rb, es')
      | (Inr bs, es') \<Rightarrow>
          let rb1 = rb\<lparr>rb_buf := write_at (rb_buf rb) 0 bs, rb_filled := length bs\<rparr> in
          if rb_filled rb1 = 0 then (Inl Disconnected, rb1, es')
          else
            (case handshake_deserialize hdec (take (rb_filled rb1) (rb_buf rb1)) of
               Inl e \<Rightarrow> (Inl (ParseFailed e), rb1, es')
             | Inr (h, sz) \<Rightarrow> (Inr h, rb1\<lparr>rb_processed := sz\<rparr>, es')))"

text \<open>
  \<open>ReadBuf::read_message\<close>, for the parser of the messages as a parameter; the message is returned to
  the caller, who applies the callback. Each round reads at least one byte of what is pending.
\<close>

type_synonym 'm parser = "bytes \<Rightarrow> (msg_error + ('m \<times> nat)) outcome"

function read_message ::
  "(nat \<Rightarrow> nat \<Rightarrow> nat) \<Rightarrow> 'm parser \<Rightarrow> read_buf \<Rightarrow> net_event list \<Rightarrow>
    (read_failure + 'm) \<times> read_buf \<times> net_event list" where
  "read_message grow parse rb es =
     (case get_range (rb_buf rb) (rb_processed rb) (rb_filled rb) of
        None \<Rightarrow> (Inl ReadPanic, rb, es)
      | Some unparsed \<Rightarrow>
          (case parse unparsed of
             Panic \<Rightarrow> (Inl ReadPanic, rb, es)
           | Return (Inr (msg, sz)) \<Rightarrow>
               (Inr msg, rb\<lparr>rb_processed := rb_processed rb + sz\<rparr>, es)
           | Return (Inl (NotEnoughData d name)) \<Rightarrow>
               let rb1 = prepare_for_read grow rb d in
               (case conn_read es (length (rb_buf rb1) - rb_filled rb1) of
                  (Inl e, es') \<Rightarrow> (Inl (ReadFailed e), rb1, es')
                | (Inr bs, es') \<Rightarrow>
                    if bs = [] then (Inl Disconnected, rb1, es')
                    else read_message grow parse
                      (rb1\<lparr>rb_buf := write_at (rb_buf rb1) (rb_filled rb1) bs,
                           rb_filled := rb_filled rb1 + length bs\<rparr>) es')
           | Return (Inl e) \<Rightarrow> (Inl (ParseFailed e), rb, es)))"
  by pat_completeness auto
termination
  by (relation "measure (\<lambda>(grow, parse, rb, es). pending_bytes es)") (auto dest: conn_read_pending [OF sym])

declare read_message.simps [simp del]

section \<open>The buffer keeps the bytes\<close>

definition grow_ok :: "(nat \<Rightarrow> nat \<Rightarrow> nat) \<Rightarrow> bool" where
  "grow_ok grow \<longleftrightarrow> (\<forall>len add. len + add \<le> grow len add)"

definition rb_ok :: "read_buf \<Rightarrow> bool" where
  "rb_ok rb \<longleftrightarrow> rb_processed rb \<le> rb_filled rb \<and> rb_filled rb \<le> length (rb_buf rb)"

definition unread :: "read_buf \<Rightarrow> bytes" where
  "unread rb = take (rb_filled rb - rb_processed rb) (drop (rb_processed rb) (rb_buf rb))"

lemma get_range_unread:
  "rb_ok rb \<Longrightarrow> get_range (rb_buf rb) (rb_processed rb) (rb_filled rb) = Some (unread rb)"
  by (simp add: rb_ok_def get_range_def unread_def)

lemma read_buf_new_ok [simp]: "rb_ok read_buf_new" "unread read_buf_new = []"
  by (simp_all add: rb_ok_def unread_def read_buf_new_def)

lemma compact_ok:
  assumes "rb_ok rb"
  shows "rb_ok (compact rb)" "unread (compact rb) = unread rb"
proof -
  have le: "rb_processed rb \<le> rb_filled rb" "rb_filled rb \<le> length (rb_buf rb)"
    using assms by (simp_all add: rb_ok_def)
  then show "rb_ok (compact rb)"
    by (cases "rb_processed rb < rb_filled rb") (auto simp: compact_def rb_ok_def copy_within_def)
  consider "rb_processed rb = 0" | "0 < rb_processed rb" "rb_filled rb = rb_processed rb"
    | "0 < rb_processed rb" "rb_processed rb < rb_filled rb" using le by linarith
  then show "unread (compact rb) = unread rb"
    by cases (use le in \<open>simp_all add: compact_def unread_def copy_within_def\<close>)
qed

lemma prepare_for_read_ok:
  assumes "rb_ok rb" "grow_ok grow" "0 < d"
  shows "rb_ok (prepare_for_read grow rb d)" "unread (prepare_for_read grow rb d) = unread rb"
    "rb_filled (prepare_for_read grow rb d) + d \<le> length (rb_buf (prepare_for_read grow rb d))"
proof -
  define rb1 where "rb1 = compact rb"
  note c = compact_ok [OF assms(1), folded rb1_def]
  have g: "length (rb_buf rb1) + d \<le> grow (length (rb_buf rb1)) d" using assms(2) by (simp add: grow_ok_def)
  have f: "rb_filled rb1 \<le> length (rb_buf rb1)" using c(1) by (simp add: rb_ok_def)
  show "rb_ok (prepare_for_read grow rb d)"
    using c(1) by (simp add: prepare_for_read_def rb1_def [symmetric] Let_def rb_ok_def)
  show "unread (prepare_for_read grow rb d) = unread rb"
    unfolding c(2) [symmetric] using c(1)
    by (simp add: prepare_for_read_def rb1_def [symmetric] Let_def rb_ok_def unread_def)
  show "rb_filled (prepare_for_read grow rb d) + d \<le> length (rb_buf (prepare_for_read grow rb d))"
    using g f by (simp add: prepare_for_read_def rb1_def [symmetric] Let_def)
qed

lemma receive_ok:
  assumes "rb_ok rb" "length bs \<le> length (rb_buf rb) - rb_filled rb"
  defines "rb1 \<equiv> rb\<lparr>rb_buf := write_at (rb_buf rb) (rb_filled rb) bs, rb_filled := rb_filled rb + length bs\<rparr>"
  shows "rb_ok rb1" "unread rb1 = unread rb @ bs"
  using assms by (auto simp: rb_ok_def unread_def write_at_def drop_take)

lemma consume_ok:
  assumes "rb_ok rb" "n \<le> length (unread rb)"
  shows "rb_ok (rb\<lparr>rb_processed := rb_processed rb + n\<rparr>)"
    "unread (rb\<lparr>rb_processed := rb_processed rb + n\<rparr>) = drop n (unread rb)"
  using assms by (auto simp: rb_ok_def unread_def drop_take add.commute)

section \<open>Framing\<close>

text \<open>What a message format must promise for the buffer to deliver its messages.\<close>

locale framing =
  fixes wf :: "'m \<Rightarrow> bool" and ser :: "'m \<Rightarrow> bytes" and parse :: "'m parser"
  assumes parse_whole: "wf m \<Longrightarrow> parse (ser m @ rest) = Return (Inr (m, length (ser m)))"
    and parse_part: "wf m \<Longrightarrow> p @ q = ser m \<Longrightarrow> q \<noteq> [] \<Longrightarrow>
      \<exists>d name. parse p = Return (Inl (NotEnoughData d name)) \<and> 0 < d"

text \<open>A stream in pieces: every arrival carries something, and nothing fails.\<close>

fun arrivals :: "net_event list \<Rightarrow> bytes" where
  "arrivals [] = []"
| "arrivals (Arrive bs # es) = bs @ arrivals es"
| "arrivals (_ # es) = arrivals es"

definition clean_stream :: "net_event list \<Rightarrow> bool" where
  "clean_stream es \<longleftrightarrow> (\<forall>e \<in> set es. \<exists>b bs. e = Arrive (b # bs))"

lemma clean_stream_simps [simp]:
  "clean_stream []" "clean_stream (Arrive bs # es) \<longleftrightarrow> bs \<noteq> [] \<and> clean_stream es"
  "\<not> clean_stream (ReadError # es)" "\<not> clean_stream (ReadTimeout # es)"
  by (auto simp: clean_stream_def neq_Nil_conv)

lemma conn_read_clean:
  assumes "clean_stream es" "0 < n"
  obtains bs es' where "conn_read es n = (Inr bs, es')" "clean_stream es'" "length bs \<le> n"
    "arrivals es = bs @ arrivals es'" "bs = [] \<longleftrightarrow> es = []"
proof (cases es)
  case Nil
  then show ?thesis using that [of "[]" "[]"] by simp
next
  case (Cons e es1)
  then obtain bs where e: "e = Arrive bs" "bs \<noteq> []" "clean_stream es1"
    using assms(1) by (cases e) auto
  show ?thesis
  proof (cases "length bs \<le> n")
    case True
    then show ?thesis using that [of bs es1] Cons e by simp
  next
    case False
    then show ?thesis
      using that [of "take n bs" "Arrive (drop n bs) # es1"] Cons e assms(2) by simp
  qed
qed

context framing
begin

lemma read_message_delivers:
  assumes g: "grow_ok grow" and wf: "wf m"
  shows "rb_ok rb \<Longrightarrow> clean_stream es \<Longrightarrow> unread rb @ arrivals es = ser m @ rest \<Longrightarrow>
    \<exists>rb' es'. read_message grow parse rb es = (Inr m, rb', es') \<and> rb_ok rb' \<and> clean_stream es' \<and>
      unread rb' @ arrivals es' = rest"
proof (induction "pending_bytes es" arbitrary: rb es rule: less_induct)
  case less
  note ok = less.prems(1)
  note step = read_message.simps [of grow parse rb es, unfolded get_range_unread [OF ok] option.case]
  show ?case
  proof (cases "length (ser m) \<le> length (unread rb)")
    case True
    define r where "r = drop (length (ser m)) (unread rb)"
    have "take (length (ser m)) (unread rb @ arrivals es) = ser m" using less.prems(3) by simp
    then have "take (length (ser m)) (unread rb) = ser m" using True by simp
    then have r: "unread rb = ser m @ r"
      using append_take_drop_id [of "length (ser m)" "unread rb"] by (simp add: r_def)
    have "read_message grow parse rb es =
        (Inr m, rb\<lparr>rb_processed := rb_processed rb + length (ser m)\<rparr>, es)"
      unfolding step unfolding r parse_whole [OF wf] by simp
    moreover note consume_ok [OF ok True]
    moreover have "r @ arrivals es = rest" using less.prems(3) r by simp
    ultimately show ?thesis using less.prems(2) r by simp
  next
    case False
    define q where "q = drop (length (unread rb)) (ser m)"
    have "take (length (unread rb)) (ser m @ rest) = unread rb" using less.prems(3) [symmetric] by simp
    then have "take (length (unread rb)) (ser m) = unread rb" using False by simp
    then have q: "unread rb @ q = ser m" "q \<noteq> []"
      using append_take_drop_id [of "length (unread rb)" "ser m"] False by (simp_all add: q_def)
    obtain d name where p: "parse (unread rb) = Return (Inl (NotEnoughData d name))" "0 < d"
      using parse_part [OF wf q] by blast
    define rb1 where "rb1 = prepare_for_read grow rb d"
    note prep = prepare_for_read_ok [OF ok g p(2), folded rb1_def]
    have room: "0 < length (rb_buf rb1) - rb_filled rb1" using prep(3) p(2) by simp
    obtain bs es' where bs: "conn_read es (length (rb_buf rb1) - rb_filled rb1) = (Inr bs, es')"
      "clean_stream es'" "length bs \<le> length (rb_buf rb1) - rb_filled rb1"
      "arrivals es = bs @ arrivals es'" "bs = [] \<longleftrightarrow> es = []"
      using conn_read_clean [OF less.prems(2) room] by blast
    have ne: "bs \<noteq> []"
    proof
      assume "bs = []"
      then have "unread rb = ser m @ rest" using bs(5) less.prems(3) by simp
      then show False using False by simp
    qed
    define rb2 where "rb2 = rb1\<lparr>rb_buf := write_at (rb_buf rb1) (rb_filled rb1) bs,
      rb_filled := rb_filled rb1 + length bs\<rparr>"
    note rcv = receive_ok [OF prep(1) bs(3), folded rb2_def]
    have "read_message grow parse rb es = read_message grow parse rb2 es'"
      unfolding step p(1) using ne by (simp add: rb1_def [symmetric] bs(1) rb2_def Let_def)
    moreover have "unread rb2 @ arrivals es' = ser m @ rest"
      using less.prems(3) bs(4) rcv(2) prep(2) by simp
    ultimately show ?thesis
      using less.hyps [OF conn_read_pending [OF bs(1) ne] rcv(1) bs(2)] by simp
  qed
qed

end

section \<open>The messages of the peer protocol\<close>

text \<open>
  The peer protocol is such a format, whatever the \<open>bincode\<close> form of a request is, as long as it
  keeps its promises; in particular with its documented form.
\<close>

context bincode_request
begin

lemma peer_framing: "framing wire_message (wire_bytes enc) (deserialize_message dec sha1)"
  by unfold_locales (rule wire_reads_back, assumption, rule wire_prefix_incomplete)

end

interpretation peer_frames: framing wire_message "wire_bytes bincode_enc_request"
  "deserialize_message bincode_dec_request sha1" for sha1
  by (rule bincode_rq.peer_framing)

text \<open>The end of the stream is noticed when nothing is left to parse.\<close>

lemma read_message_at_end:
  assumes "rb_ok rb" "unread rb = []"
  shows "\<exists>rb'. read_message grow (deserialize_message dec sha1) rb [] = (Inl Disconnected, rb', [])"
  using get_range_unread [OF assms(1)] assms(2)
  by (simp add: read_message.simps [of _ _ rb] deserialize_message_def get_to_def Let_def)

end
