(* ===== verification/PeerConnection.thy ===== *)
theory PeerConnection
  imports ReadBuf
begin

text \<open>
  Model of \<open>crates/librqbit/src/peer_connection.rs\<close>: the start of a connection (handshakes, extended
  handshake, bitfield) and its two loops, the reader that delivers messages to a handler and the
  writer that sends what is requested. The loops run concurrently over a shared state; the model is a
  labelled step relation in which any of them may move.
\<close>

section \<open>Handlers\<close>

text \<open>
  The trait \<open>PeerConnectionHandler\<close> as a record of functions over the handler's state. \<open>None\<close> is an
  error. \<open>read_chunk\<close> fills a buffer of the size of the chunk.
\<close>

record 's peer_handler =
  get_have_bytes :: "'s \<Rightarrow> u64"
  serialize_bitfield_message_to_buf :: "'s \<Rightarrow> (bytes \<times> nat) option"
  on_handshake :: "handshake \<Rightarrow> 's \<Rightarrow> 's option"
  on_extended_handshake :: "ext_handshake \<Rightarrow> 's \<Rightarrow> 's option"
  on_received_message :: "message \<Rightarrow> 's \<Rightarrow> 's option"
  on_uploaded_bytes :: "u32 \<Rightarrow> 's \<Rightarrow> 's"
  read_chunk :: "chunk_info \<Rightarrow> 's \<Rightarrow> bytes option"

datatype writer_request = WMessage message | WReadChunk chunk_info | WDisconnect

datatype recv_event = Received writer_request | ChannelClosed | KeepAliveTimeout

datatype conn_error =
    WrongInfoHash
  | ConnectedToOurselves
  | WriteFailed
  | HandlerFailed
  | ReadProblem read_failure
  | ChannelWasClosed
  | SerializeFailed
  | ConnPanic

record 's conn =
  cn_rb :: read_buf
  cn_net :: "net_event list"
  cn_ext :: "ext_handshake option"
  cn_handler :: 's

section \<open>The start of a connection\<close>

text \<open>
  The bytes \<open>manage_peer\<close> writes before its loops: the extended handshake when the other side announced
  the extension protocol, then the bitfield if there is anything to offer. \<open>w1\<close> and \<open>w2\<close> say whether
  the writes succeed.
\<close>

definition send_extended_handshake :: "request_enc \<Rightarrow> bool \<Rightarrow> bool \<Rightarrow> conn_error + bytes" where
  "send_extended_handshake enc supports_ext w1 =
     (if supports_ext then
        (case serialize_message enc (Extended (ExtHandshake ext_handshake_new)) None of
           Return (Some (out, n)) \<Rightarrow> if w1 then Inr out else Inl WriteFailed
         | _ \<Rightarrow> Inl ConnPanic)
      else Inr [])"

definition send_bitfield :: "'s peer_handler \<Rightarrow> 's \<Rightarrow> bool \<Rightarrow> conn_error + bytes" where
  "send_bitfield hn s w2 =
     (if get_have_bytes hn s > 0 then
        (case serialize_bitfield_message_to_buf hn s of
           None \<Rightarrow> Inl HandlerFailed
         | Some (out, n) \<Rightarrow>
             if n > length out then Inl ConnPanic
             else if w2 then Inr (take n out) else Inl WriteFailed)
      else Inr [])"

definition manage_peer_start ::
  "request_enc \<Rightarrow> 's peer_handler \<Rightarrow> bool \<Rightarrow> read_buf \<Rightarrow> net_event list \<Rightarrow> bool \<Rightarrow> bool \<Rightarrow> 's \<Rightarrow>
    conn_error + (bytes \<times> 's conn)" where
  "manage_peer_start enc hn supports_ext rb net w1 w2 s =
     bind_result (send_extended_handshake enc supports_ext w1) (\<lambda>b1.
       bind_result (send_bitfield hn s w2) (\<lambda>b2.
         Inr (b1 @ b2, \<lparr>cn_rb = rb, cn_net = net, cn_ext = None, cn_handler = s\<rparr>)))"

text \<open>
  \<open>manage_peer_incoming\<close> and \<open>manage_peer_outgoing\<close> up to the call of \<open>manage_peer\<close>: the bytes sent, whether
  the extension protocol is used, and the handler's state.
\<close>

definition incoming_handshake ::
  "(handshake \<Rightarrow> bytes) \<Rightarrow> 's peer_handler \<Rightarrow> bytes \<Rightarrow> bytes \<Rightarrow> handshake \<Rightarrow> bool \<Rightarrow> 's \<Rightarrow>
    conn_error + (bytes \<times> bool \<times> 's)" where
  "incoming_handshake henc hn info_hash peer_id h w s =
     (if h_info_hash h \<noteq> info_hash then Inl WrongInfoHash
      else if h_peer_id h = peer_id then Inl ConnectedToOurselves
      else
        let h = handshake_new info_hash peer_id in
        if \<not> w then Inl WriteFailed
        else
          let h_supports_extended = supports_extended h in
          (case on_handshake hn h s of
             None \<Rightarrow> Inl HandlerFailed
           | Some s' \<Rightarrow> Inr (henc h, h_supports_extended, s')))"

definition outgoing_handshake ::
  "(handshake \<Rightarrow> bytes) \<Rightarrow> (bytes \<Rightarrow> handshake option) \<Rightarrow> 's peer_handler \<Rightarrow> bytes \<Rightarrow> bytes \<Rightarrow>
    net_event list \<Rightarrow> bool \<Rightarrow> 's \<Rightarrow>
    conn_error + (bytes \<times> bool \<times> read_buf \<times> net_event list \<times> 's)" where
  "outgoing_handshake henc hdec hn info_hash peer_id net w s =
     (if \<not> w then Inl WriteFailed
      else
        (case read_handshake hdec read_buf_new net of
           (Inl e, _) \<Rightarrow> Inl (ReadProblem e)
         | (Inr h, rb, net') \<Rightarrow>
             let h_supports_extended = supports_extended h in
             if h_info_hash h \<noteq> info_hash then Inl WrongInfoHash
             else if h_peer_id h = peer_id then Inl ConnectedToOurselves
             else
               (case on_handshake hn h s of
                  None \<Rightarrow> Inl HandlerFailed
                | Some s' \<Rightarrow>
                    Inr (henc (handshake_new info_hash peer_id), h_supports_extended, rb, net', s'))))"

section \<open>The reader\<close>

definition deliver :: "'s peer_handler \<Rightarrow> message \<Rightarrow> ext_handshake option \<Rightarrow> 's \<Rightarrow>
    conn_error + (ext_handshake option \<times> 's)" where
  "deliver hn msg ext s =
     (case msg of
        Extended (ExtHandshake h) \<Rightarrow>
          (case on_extended_handshake hn h s of
             None \<Rightarrow> Inl HandlerFailed
           | Some s' \<Rightarrow> Inr (Some h, s'))
      | _ \<Rightarrow>
          (case on_received_message hn msg s of
             None \<Rightarrow> Inl HandlerFailed
           | Some s' \<Rightarrow> Inr (ext, s')))"

definition reader_step ::
  "(nat \<Rightarrow> nat \<Rightarrow> nat) \<Rightarrow> request_dec \<Rightarrow> (bytes \<Rightarrow> bytes) \<Rightarrow> 's peer_handler \<Rightarrow> 's conn \<Rightarrow>
    conn_error + (message \<times> 's conn)" where
  "reader_step grow dec sha1 hn c =
     (case read_message grow (deserialize_message dec sha1) (cn_rb c) (cn_net c) of
        (Inl e, _) \<Rightarrow> Inl (ReadProblem e)
      | (Inr msg, rb, net) \<Rightarrow>
          bind_result (deliver hn msg (cn_ext c) (cn_handler c)) (\<lambda>(ext, s).
            Inr (msg, \<lparr>cn_rb = rb, cn_net = net, cn_ext = ext, cn_handler = s\<rparr>)))"

section \<open>The writer\<close>

text \<open>
  What is written for a request, with the uploaded bytes to report; \<open>Inl None\<close> is the orderly end of the
  writer.
\<close>

definition request_bytes ::
  "request_enc \<Rightarrow> 's peer_handler \<Rightarrow> 's conn \<Rightarrow> writer_request \<Rightarrow>
    conn_error option + (bytes \<times> u32 option)" where
  "request_bytes enc hn c req =
     (case req of
        WMessage msg \<Rightarrow>
          (case serialize_message enc msg (Option.bind (cn_ext c) hs_ut_metadata) of
             Panic \<Rightarrow> Inl (Some ConnPanic)
           | Return None \<Rightarrow> Inl (Some SerializeFailed)
           | Return (Some (write_buf, len)) \<Rightarrow>
               if len > length write_buf then Inl (Some ConnPanic)
               else Inr (take len write_buf, None))
      | WReadChunk chunk \<Rightarrow>
          (let (preamble, preamble_len) = serialize_piece_preamble chunk in
           case read_chunk hn chunk (cn_handler c) of
             None \<Rightarrow> Inl (Some HandlerFailed)
           | Some data \<Rightarrow>
               let full_len = preamble_len + unat (ci_size chunk) in
               Inr (take full_len (preamble @ data), Some (ci_size chunk)))
      | WDisconnect \<Rightarrow> Inl None)"

definition writer_step ::
  "request_enc \<Rightarrow> 's peer_handler \<Rightarrow> recv_event \<Rightarrow> bool \<Rightarrow> 's conn \<Rightarrow>
    conn_error option + (bytes \<times> 's conn)" where
  "writer_step enc hn ev write_ok c =
     (case (case ev of Received req \<Rightarrow> Some req | ChannelClosed \<Rightarrow> None
            | KeepAliveTimeout \<Rightarrow> Some (WMessage KeepAlive)) of
        None \<Rightarrow> Inl (Some ChannelWasClosed)
      | Some req \<Rightarrow>
          bind_result (request_bytes enc hn c req) (\<lambda>(bs, uploaded_add).
            if \<not> write_ok then Inl (Some WriteFailed)
            else
              Inr (bs, (case uploaded_add of
                  Some n \<Rightarrow> c\<lparr>cn_handler := on_uploaded_bytes hn n (cn_handler c)\<rparr>
                | None \<Rightarrow> c))))"

section \<open>Both loops\<close>

text \<open>
  A step of the connection: the reader delivers a message, or the writer serves an event. The connection
  ends with the first loop that ends, so a run is a sequence of steps of both in any order.
\<close>

datatype conn_label = Delivered message | Sent recv_event bytes

inductive conn_step ::
  "(nat \<Rightarrow> nat \<Rightarrow> nat) \<Rightarrow> request_enc \<Rightarrow> request_dec \<Rightarrow> (bytes \<Rightarrow> bytes) \<Rightarrow> 's peer_handler \<Rightarrow>
    's conn \<Rightarrow> conn_label \<Rightarrow> 's conn \<Rightarrow> bool"
  for grow enc dec sha1 hn where
  reading: "reader_step grow dec sha1 hn c = Inr (msg, c') \<Longrightarrow>
    conn_step grow enc dec sha1 hn c (Delivered msg) c'"
| writing: "writer_step enc hn ev True c = Inr (bs, c') \<Longrightarrow>
    conn_step grow enc dec sha1 hn c (Sent ev bs) c'"

inductive conn_run ::
  "(nat \<Rightarrow> nat \<Rightarrow> nat) \<Rightarrow> request_enc \<Rightarrow> request_dec \<Rightarrow> (bytes \<Rightarrow> bytes) \<Rightarrow> 's peer_handler \<Rightarrow>
    's conn \<Rightarrow> conn_label list \<Rightarrow> 's conn \<Rightarrow> bool"
  for grow enc dec sha1 hn where
  idle: "conn_run grow enc dec sha1 hn c [] c"
| more: "conn_step grow enc dec sha1 hn c l c1 \<Longrightarrow> conn_run grow enc dec sha1 hn c1 ls c2 \<Longrightarrow>
    conn_run grow enc dec sha1 hn c (l # ls) c2"

inductive_cases conn_step_DeliveredE: "conn_step grow enc dec sha1 hn c (Delivered m) c'"
inductive_cases conn_step_SentE: "conn_step grow enc dec sha1 hn c (Sent ev bs) c'"
inductive_cases conn_run_NilE: "conn_run grow enc dec sha1 hn c [] c'"
inductive_cases conn_run_ConsE: "conn_run grow enc dec sha1 hn c (l # ls) c'"

fun delivered :: "conn_label list \<Rightarrow> message list" where
  "delivered [] = []"
| "delivered (Delivered m # ls) = m # delivered ls"
| "delivered (Sent ev bs # ls) = delivered ls"

fun sent :: "conn_label list \<Rightarrow> bytes" where
  "sent [] = []"
| "sent (Delivered m # ls) = sent ls"
| "sent (Sent ev bs # ls) = bs @ sent ls"

section \<open>What is delivered and what is sent\<close>

definition wire_stream :: "request_enc \<Rightarrow> message list \<Rightarrow> bytes" where
  "wire_stream enc ms = concat (map (wire_bytes enc) ms)"

definition incoming_bytes :: "'s conn \<Rightarrow> bytes" where
  "incoming_bytes c = unread (cn_rb c) @ arrivals (cn_net c)"

definition conn_ok :: "'s conn \<Rightarrow> bool" where
  "conn_ok c \<longleftrightarrow> rb_ok (cn_rb c) \<and> clean_stream (cn_net c)"

lemma writer_keeps:
  "writer_step enc hn ev w c = Inr (bs, c') \<Longrightarrow>
    cn_rb c' = cn_rb c \<and> cn_net c' = cn_net c \<and> cn_ext c' = cn_ext c"
  by (auto simp: writer_step_def split: option.splits if_splits recv_event.splits)

lemma reader_takes_message:
  assumes "bincode_request enc dec" "grow_ok grow" "conn_ok c"
    and "list_all wire_message ms" "incoming_bytes c = wire_stream enc ms"
    and "reader_step grow dec sha1 hn c = Inr (m, c')"
  shows "\<exists>ms'. ms = m # ms' \<and> conn_ok c' \<and> incoming_bytes c' = wire_stream enc ms'"
proof (cases ms)
  case Nil
  then have "unread (cn_rb c) = []" "arrivals (cn_net c) = []"
    using assms(5) by (simp_all add: incoming_bytes_def wire_stream_def)
  moreover have "cn_net c = []"
    using assms(3) \<open>arrivals (cn_net c) = []\<close>
    by (cases "cn_net c"; cases "hd (cn_net c)") (auto simp: conn_ok_def)
  ultimately show ?thesis
    using read_message_at_end [of "cn_rb c" grow dec sha1] assms(3,6)
    by (auto simp: reader_step_def conn_ok_def)
next
  case (Cons m1 ms')
  have "\<exists>rb' es'. read_message grow (deserialize_message dec sha1) (cn_rb c) (cn_net c) = (Inr m1, rb', es') \<and>
      rb_ok rb' \<and> clean_stream es' \<and> unread rb' @ arrivals es' = wire_stream enc ms'"
    using assms(3,4,5) Cons
    by (intro framing.read_message_delivers [OF bincode_request.peer_framing [OF assms(1)] assms(2)])
      (auto simp: conn_ok_def incoming_bytes_def wire_stream_def)
  then show ?thesis
    using assms(6) Cons by (auto simp: reader_step_def conn_ok_def incoming_bytes_def)
qed

lemma run_delivers:
  assumes "bincode_request enc dec" "grow_ok grow"
  shows "conn_run grow enc dec sha1 hn c ls c' \<Longrightarrow> conn_ok c \<Longrightarrow> list_all wire_message ms \<Longrightarrow>
    incoming_bytes c = wire_stream enc ms \<Longrightarrow>
    \<exists>ms'. ms = delivered ls @ ms' \<and> conn_ok c' \<and> incoming_bytes c' = wire_stream enc ms'"
proof (induction arbitrary: ms rule: conn_run.induct)
  case (idle c)
  then show ?case by simp
next
  case (more c l c1 ls c2)
  from more.hyps(1) show ?case
  proof cases
    case (reading m)
    obtain ms1 where 1: "ms = m # ms1" "conn_ok c1" "incoming_bytes c1 = wire_stream enc ms1"
      using reader_takes_message [OF assms more.prems reading(2)] by blast
    with more.IH [of ms1] more.prems reading(1) show ?thesis by auto
  next
    case (writing ev bs)
    then have "conn_ok c1" "incoming_bytes c1 = incoming_bytes c"
      using writer_keeps [OF writing(2)] more.prems(1) by (simp_all add: conn_ok_def incoming_bytes_def)
    with more.IH [of ms] more.prems writing(1) show ?thesis by auto
  qed
qed

text \<open>The message a request stands for: a chunk request is the piece message with the data read.\<close>

definition event_message :: "'s peer_handler \<Rightarrow> 's conn \<Rightarrow> recv_event \<Rightarrow> message option" where
  "event_message hn c ev =
     (case ev of
        Received (WMessage m) \<Rightarrow> Some m
      | Received (WReadChunk ci) \<Rightarrow>
          map_option (\<lambda>data. Piece \<lparr>p_index = vpi_get (ci_piece_index ci), p_begin = ci_offset ci,
            p_block = data\<rparr>) (read_chunk hn ci (cn_handler c))
      | Received WDisconnect \<Rightarrow> None
      | ChannelClosed \<Rightarrow> None
      | KeepAliveTimeout \<Rightarrow> Some KeepAlive)"

definition fills_buffers :: "'s peer_handler \<Rightarrow> bool" where
  "fills_buffers hn \<longleftrightarrow> (\<forall>ci s data. read_chunk hn ci s = Some data \<longrightarrow> length data = unat (ci_size ci))"

text \<open>Only \<open>ut_metadata\<close> depends on the other side's extended handshake.\<close>

definition speaks_our_ids :: "'s conn \<Rightarrow> message \<Rightarrow> bool" where
  "speaks_our_ids c m \<longleftrightarrow>
     (\<forall>u. m = Extended (ExtUtMetadata u) \<longrightarrow> Option.bind (cn_ext c) hs_ut_metadata = Some MY_EXTENDED_UT_METADATA)"

lemma serialize_peer_id:
  assumes "speaks_our_ids c m"
  shows "serialize_message enc m (Option.bind (cn_ext c) hs_ut_metadata) =
    serialize_message enc m (Some MY_EXTENDED_UT_METADATA)"
proof (cases m)
  case (Extended e)
  then show ?thesis
    using assms by (cases e) (simp_all add: speaks_our_ids_def serialize_message_def ext_serialize_def)
qed (simp_all add: serialize_message_def len_prefix_and_msg_id_def)

lemma message_bytes:
  assumes "bincode_request enc dec" "wire_message m"
  obtains out n where "serialize_message enc m (Some MY_EXTENDED_UT_METADATA) = Return (Some (out, n))"
    "n \<le> length out" "take n out = wire_bytes enc m"
proof (rule bincode_request.wire_cases [OF assms, where ?sha1.0 = id])
  assume "serialize_message enc m (Some MY_EXTENDED_UT_METADATA) = Return (Some (be32 0 @ [0], 4))"
  then show thesis by (intro that) (auto simp: wire_bytes_def)
next
  fix lp i body
  assume "serialize_message enc m (Some MY_EXTENDED_UT_METADATA) =
    Return (Some (be32 lp @ [i] @ body, 5 + length body))"
  then show thesis by (intro that) (auto simp: wire_bytes_def)
qed

lemma piece_bytes:
  assumes "length data = unat (ci_size ci)"
  shows "take (snd (serialize_piece_preamble ci) + unat (ci_size ci)) (fst (serialize_piece_preamble ci) @ data) =
    wire_bytes enc (Piece \<lparr>p_index = vpi_get (ci_piece_index ci), p_begin = ci_offset ci, p_block = data\<rparr>)"
proof -
  have "word_of_nat (length data) = ci_size ci" by (simp add: assms)
  then show ?thesis
    by (simp add: wire_bytes_def serialize_message_def len_prefix_and_msg_id_def serialize_piece_preamble_def
        piece_serialize_def msg_consts assms)
qed

lemma writer_sends:
  assumes "bincode_request enc dec" "fills_buffers hn"
    and "event_message hn c ev = Some m" "wire_message m" "speaks_our_ids c m"
  shows "\<exists>c'. writer_step enc hn ev True c = Inr (wire_bytes enc m, c')"
proof -
  from message_bytes [OF assms(1,4)] obtain out n where
    out: "serialize_message enc m (Some MY_EXTENDED_UT_METADATA) = Return (Some (out, n))"
      "n \<le> length out" "take n out = wire_bytes enc m" .
  have msg: "request_bytes enc hn c (WMessage m) = Inr (wire_bytes enc m, None)"
    using out by (simp add: request_bytes_def serialize_peer_id [OF assms(5)])
  consider "ev = Received (WMessage m)" | "ev = KeepAliveTimeout" "m = KeepAlive"
    | ci data where "ev = Received (WReadChunk ci)" "read_chunk hn ci (cn_handler c) = Some data"
      "m = Piece \<lparr>p_index = vpi_get (ci_piece_index ci), p_begin = ci_offset ci, p_block = data\<rparr>"
    using assms(3) by (auto simp: event_message_def split: recv_event.splits writer_request.splits)
  then show ?thesis
  proof cases
    case 3
    then have "length data = unat (ci_size ci)" using assms(2) by (auto simp: fills_buffers_def)
    from piece_bytes [OF this, of enc] 3 show ?thesis
      by (simp add: writer_step_def request_bytes_def split_beta Let_def)
  qed (use msg in \<open>simp_all add: writer_step_def\<close>)
qed

section \<open>Correctness\<close>

text \<open>
  C19: messages are delivered in order, whole, and once. Let the bytes still to come, in the buffer and on
  the network, be the wire forms of some messages, cut into arrivals in any way. Then in every run of
  the connection, however its reader and its writer interleave and however the buffer grows, the
  messages delivered to the handler are the first of them, in order, and the bytes left are the wire
  forms of the others.
\<close>
theorem messages_delivered_in_order:
  assumes "bincode_request enc dec" "grow_ok grow" "conn_ok c"
    and "list_all wire_message ms" "incoming_bytes c = wire_stream enc ms"
    and "conn_run grow enc dec sha1 hn c ls c'"
  shows "\<exists>rest. ms = delivered ls @ rest \<and> conn_ok c' \<and> incoming_bytes c' = wire_stream enc rest"
  using run_delivers [OF assms(1,2,6,3,4,5)] .

definition silent_handler :: "nat peer_handler" where
  "silent_handler = \<lparr>get_have_bytes = (\<lambda>_. 0), serialize_bitfield_message_to_buf = (\<lambda>_. None),
     on_handshake = (\<lambda>_ s. Some s), on_extended_handshake = (\<lambda>_ s. Some s),
     on_received_message = (\<lambda>_ s. Some (Suc s)), on_uploaded_bytes = (\<lambda>n s. s + unat n),
     read_chunk = (\<lambda>ci _. Some (replicate (unat (ci_size ci)) 7))\<rparr>"

definition double_grow :: "nat \<Rightarrow> nat \<Rightarrow> nat" where
  "double_grow len add = max (2 * len) (len + add)"

lemma double_grow_ok: "grow_ok double_grow"
  by (simp add: grow_ok_def double_grow_def)

theorem messages_delivered_in_order_witness:
  "\<exists>ls c'. conn_run double_grow bincode_enc_request bincode_dec_request id silent_handler
      \<lparr>cn_rb = read_buf_new, cn_net = [Arrive [0], Arrive [0, 0, 5, 4, 0, 0], Arrive [0, 9]],
       cn_ext = None, cn_handler = 0\<rparr> ls c' \<and> delivered ls = [Have 9] \<and>
     (\<exists>rest. [Have 9] = delivered ls @ rest)"
proof -
  define c where "c = \<lparr>cn_rb = read_buf_new, cn_net = [Arrive [0], Arrive [0, 0, 5, 4, 0, 0], Arrive [0, 9]],
    cn_ext = None, cn_handler = 0 :: nat\<rparr>"
  have wire: "wire_stream bincode_enc_request [Have 9] = [0, 0, 0, 5, 4, 0, 0, 0, 9]"
    by (simp add: wire_stream_def) code_simp
  have ok: "conn_ok c" "list_all wire_message [Have 9]"
    "incoming_bytes c = wire_stream bincode_enc_request [Have 9]"
    by (simp_all add: c_def conn_ok_def wire_message_def incoming_bytes_def wire)
  have "unread (cn_rb c) @ arrivals (cn_net c) = wire_bytes bincode_enc_request (Have 9) @ []"
    using ok(3) by (simp add: incoming_bytes_def wire_stream_def)
  then obtain rb es where "read_message double_grow (deserialize_message bincode_dec_request id) (cn_rb c) (cn_net c) =
      (Inr (Have 9), rb, es)"
    using peer_frames.read_message_delivers [OF double_grow_ok, of "Have 9" "cn_rb c" "cn_net c" "[]" id] ok(1)
    by (auto simp: wire_message_def conn_ok_def)
  then have "\<exists>c'. reader_step double_grow bincode_dec_request id silent_handler c = Inr (Have 9, c')"
    by (simp add: reader_step_def deliver_def silent_handler_def)
  then obtain c' where "conn_run double_grow bincode_enc_request bincode_dec_request id silent_handler c [Delivered (Have 9)] c'"
    by (blast intro: conn_run.intros conn_step.intros)
  with messages_delivered_in_order [OF bincode_rq.bincode_request_axioms double_grow_ok ok this]
  show ?thesis unfolding c_def by (intro exI [of _ "[Delivered (Have 9)]"]) auto
qed

text \<open>
  What is requested is what is written. For every event the writer serves whose message can travel,
  it writes exactly the wire form of that message: the message itself, a keep-alive on a timeout, and
  for a chunk request the piece message with the data read, although the writer assembles it in place.
\<close>
theorem writer_writes_wire_form:
  assumes "bincode_request enc dec" "fills_buffers hn"
    and "event_message hn c ev = Some m" "wire_message m" "speaks_our_ids c m"
  shows "\<exists>c'. writer_step enc hn ev True c = Inr (wire_bytes enc m, c') \<and>
    deserialize_message dec sha1 (wire_bytes enc m) = Return (Inr (m, length (wire_bytes enc m)))"
  using writer_sends [OF assms] bincode_request.wire_reads_back [OF assms(1,4), of sha1 "[]"] by simp

theorem writer_writes_wire_form_witness:
  "\<exists>c'. writer_step bincode_enc_request silent_handler
      (Received (WReadChunk \<lparr>ci_piece_index = ValidPieceIndex 1, ci_chunk_index = 0,
         ci_absolute_index = 2, ci_size = 3, ci_offset = 0\<rparr>)) True
      \<lparr>cn_rb = read_buf_new, cn_net = [], cn_ext = None, cn_handler = 0\<rparr> =
    Inr (wire_bytes bincode_enc_request (Piece \<lparr>p_index = 1, p_begin = 0, p_block = [7, 7, 7]\<rparr>), c')"
proof -
  have "event_message silent_handler \<lparr>cn_rb = read_buf_new, cn_net = [], cn_ext = None, cn_handler = 0\<rparr>
      (Received (WReadChunk \<lparr>ci_piece_index = ValidPieceIndex 1, ci_chunk_index = 0,
         ci_absolute_index = 2, ci_size = 3, ci_offset = 0\<rparr>)) =
      Some (Piece \<lparr>p_index = 1, p_begin = 0, p_block = [7, 7, 7]\<rparr>)"
    by (simp add: event_message_def silent_handler_def) (simp add: numeral_eq_Suc)
  moreover have "fills_buffers silent_handler" by (simp add: fills_buffers_def silent_handler_def)
  ultimately show ?thesis
    using writer_writes_wire_form [OF bincode_rq.bincode_request_axioms, of silent_handler _ _
        "Piece \<lparr>p_index = 1, p_begin = 0, p_block = [7, 7, 7]\<rparr>" id]
    by (simp add: wire_message_def speaks_our_ids_def)
qed

text \<open>
  An incoming connection is treated as if the other side spoke the extension protocol. The
  handshake of the other side is only compared with the info hash and the own peer id; the one whose
  reserved bits are tested, and the one the handler is told about, is the handshake the client itself
  sends, so whenever the connection is accepted the extension protocol is assumed.
\<close>
theorem incoming_assumes_extensions:
  assumes "incoming_handshake henc hn info_hash peer_id h True s = Inr (bs, ext, s')"
  shows "ext \<and> bs = henc (handshake_new info_hash peer_id) \<and>
    on_handshake hn (handshake_new info_hash peer_id) s = Some s' \<and>
    h_info_hash h = info_hash \<and> h_peer_id h \<noteq> peer_id \<and>
    (\<forall>r. incoming_handshake henc hn info_hash peer_id (h\<lparr>h_reserved := r\<rparr>) True s = Inr (bs, ext, s'))"
proof -
  have "supports_extended (handshake_new info_hash peer_id)"
    by (simp add: handshake_new_def supports_extended_def be64_def to_be_8)
  then show ?thesis
    using assms by (auto simp: incoming_handshake_def Let_def split: if_splits option.splits)
qed

theorem incoming_assumes_extensions_witness:
  "\<exists>s'. incoming_handshake bincode_enc_handshake silent_handler [1] [2]
     \<lparr>h_pstr = PSTR_BT1, h_reserved = replicate 8 0, h_info_hash = [1], h_peer_id = [3]\<rparr> True 0 =
     Inr (bincode_enc_handshake (handshake_new [1] [2]), True, s') \<and>
   \<not> supports_extended \<lparr>h_pstr = PSTR_BT1, h_reserved = replicate 8 0, h_info_hash = [1], h_peer_id = [3]\<rparr>"
proof -
  let ?h = "\<lparr>h_pstr = PSTR_BT1, h_reserved = replicate 8 0, h_info_hash = [1], h_peer_id = [3]\<rparr>"
  obtain ext where "incoming_handshake bincode_enc_handshake silent_handler [1] [2] ?h True 0 =
      Inr (bincode_enc_handshake (handshake_new [1] [2]), ext, 0)"
    by (simp add: incoming_handshake_def silent_handler_def Let_def)
  from incoming_assumes_extensions [OF this] this show ?thesis
    by (auto simp: supports_extended_def)
qed

text \<open>
  The handshake must arrive in one read. When the 68 bytes of a proper handshake arrive in two
  parts, \<open>read_handshake\<close> fails after the first, although the rest is on its way; in one part, even
  with messages behind it, it succeeds and leaves exactly those messages unread.
\<close>
theorem handshake_in_one_read:
  assumes "bincode_handshake henc hdec" "length ih = 20" "length pid = 20"
    and "henc (handshake_new ih pid) = a @ b" "a \<noteq> []" "b \<noteq> []"
    and "length later \<le> 1000"
  shows "(\<exists>d rb. read_handshake hdec read_buf_new (Arrive a # Arrive b # es) =
      (Inl (ParseFailed (NotEnoughData d ''handshake'')), rb, Arrive b # es)) \<and>
    (\<exists>rb. read_handshake hdec read_buf_new (Arrive (a @ b @ later) # es) = (Inr (handshake_new ih pid), rb, es) \<and>
      rb_ok rb \<and> unread rb = later)"
proof -
  define h where "h = handshake_new ih pid"
  have shape: "handshake_shape h" "h_pstr h = PSTR_BT1"
    using bincode_handshake.shape_new [OF assms(1-3)] by (simp_all add: h_def handshake_new_def)
  note reads = bincode_handshake.handshake_reads_back [OF assms(1) shape]
  obtain r where r: "a @ b = 19 # r" "length r = 67"
    using bincode_handshake.henc_head [OF assms(1) shape(1)] assms(4) by (auto simp: h_def [symmetric] shape(2))
  then obtain a1 where a: "a = 19 # a1" using assms(5) by (cases a) auto
  have "length (a @ b) = 68" using r by simp
  moreover have "0 < length b" "0 < length a" using assms(5,6) by simp_all
  ultimately have lens: "length a + length b = 68" "length a < 68" "0 < length a"
    unfolding length_append by linarith+
  have buf: "length (rb_buf read_buf_new) = 32794"
    by (simp add: read_buf_new_def PIECE_MESSAGE_DEFAULT_LEN_def msg_consts CHUNK_SIZE_def)
  have "handshake_deserialize hdec a = Inl (NotEnoughData 68 ''handshake'')"
    using lens by (simp add: handshake_deserialize_def a get_to_def)
  then have 1: "\<exists>d rb. read_handshake hdec read_buf_new (Arrive a # Arrive b # es) =
      (Inl (ParseFailed (NotEnoughData d ''handshake'')), rb, Arrive b # es)"
    using lens buf assms(5) by (simp add: read_handshake_def write_at_def Let_def)
  have "handshake_deserialize hdec (a @ b @ later) = Inr (h, 68)"
    using reads(1) [of later] reads(2) assms(4) by (simp add: h_def)
  then have 2: "\<exists>rb. read_handshake hdec read_buf_new (Arrive (a @ b @ later) # es) = (Inr h, rb, es) \<and>
      rb_ok rb \<and> unread rb = later"
    using lens buf assms(7) assms(5)
    by (auto simp: read_handshake_def write_at_def Let_def rb_ok_def unread_def drop_take)
  from 1 2 show ?thesis unfolding h_def ..
qed

theorem handshake_in_one_read_witness:
  "\<exists>d rb. read_handshake bincode_dec_handshake read_buf_new
      [Arrive [19], Arrive (drop 1 (bincode_enc_handshake (handshake_new (replicate 20 1) (replicate 20 2))))] =
    (Inl (ParseFailed (NotEnoughData d ''handshake'')), rb,
      [Arrive (drop 1 (bincode_enc_handshake (handshake_new (replicate 20 1) (replicate 20 2))))])"
proof -
  define e where "e = bincode_enc_handshake (handshake_new (replicate 20 1) (replicate 20 2))"
  have "e = [19] @ drop 1 e" "drop 1 e \<noteq> []"
    by (simp_all add: e_def bincode_enc_handshake_def handshake_new_def)
  with handshake_in_one_read [OF bincode_hs.bincode_handshake_axioms, of "replicate 20 1" "replicate 20 2"
      "[19]" "drop 1 e" "[]" "[]"]
  show ?thesis unfolding e_def by simp
qed

end
