(* ===== verification/PeerStates.thy ===== *)
theory PeerStates
  imports ChunkTracker PeerConnection "HOL-Library.AList"
begin

text \<open>
  Model of \<open>torrent_state/live/peer/mod.rs\<close>, \<open>live/peers/mod.rs\<close> and their statistics: the states a
  peer goes through, and the aggregate counters that are kept beside the table of peers. The table is an
  association list, the shared counters of a peer (\<open>Arc<PeerCountersAtomic>\<close>) and the channels are
  entries of two stores, known by their index. The \<open>backoff\<close> crate is a parameter.
\<close>

section \<open>Peers\<close>

record inflight_request =
  ir_piece :: valid_piece_index
  ir_chunk :: u32

definition inflight_request_from :: "chunk_info \<Rightarrow> inflight_request" where
  "inflight_request_from c = \<lparr>ir_piece = ci_piece_index c, ir_chunk = ci_chunk_index c\<rparr>"

record live_peer =
  lp_peer_id :: bytes
  lp_peer_interested :: bool
  lp_bitfield :: bf
  lp_inflight_requests :: "inflight_request list"
  lp_tx :: nat

definition live_peer_new :: "bytes \<Rightarrow> nat \<Rightarrow> live_peer" where
  "live_peer_new peer_id tx = \<lparr>lp_peer_id = peer_id, lp_peer_interested = False, lp_bitfield = [],
     lp_inflight_requests = [], lp_tx = tx\<rparr>"

definition has_full_torrent :: "live_peer \<Rightarrow> nat \<Rightarrow> bool" where
  "has_full_torrent l n =
     (case get_range (lp_bitfield l) 0 n of Some s \<Rightarrow> bf_all s | None \<Rightarrow> False)"

datatype peer_state = PsQueued | PsConnecting nat | PsLive live_peer | PsDead | PsNotNeeded

fun ps_name :: "peer_state \<Rightarrow> string" where
  "ps_name PsQueued = ''queued''"
| "ps_name (PsConnecting _) = ''connecting''"
| "ps_name (PsLive _) = ''live''"
| "ps_name PsDead = ''dead''"
| "ps_name PsNotNeeded = ''not needed''"

fun take_live_no_counters :: "peer_state \<Rightarrow> live_peer option" where
  "take_live_no_counters (PsLive l) = Some l"
| "take_live_no_counters _ = None"

record aggregate_stats =
  ag_queued :: u32
  ag_connecting :: u32
  ag_live :: u32
  ag_seen :: u32
  ag_dead :: u32
  ag_not_needed :: u32

definition aggregate_stats_zero :: aggregate_stats where
  "aggregate_stats_zero = \<lparr>ag_queued = 0, ag_connecting = 0, ag_live = 0, ag_seen = 0, ag_dead = 0, ag_not_needed = 0\<rparr>"

text \<open>\<open>counter\<close> gives a reference: here to read, and to update.\<close>

fun counter :: "peer_state \<Rightarrow> aggregate_stats \<Rightarrow> u32" where
  "counter (PsConnecting _) st = ag_connecting st"
| "counter (PsLive _) st = ag_live st"
| "counter PsQueued st = ag_queued st"
| "counter PsDead st = ag_dead st"
| "counter PsNotNeeded st = ag_not_needed st"

fun counter_update :: "peer_state \<Rightarrow> (u32 \<Rightarrow> u32) \<Rightarrow> aggregate_stats \<Rightarrow> aggregate_stats" where
  "counter_update (PsConnecting _) f st = st\<lparr>ag_connecting := f (ag_connecting st)\<rparr>"
| "counter_update (PsLive _) f st = st\<lparr>ag_live := f (ag_live st)\<rparr>"
| "counter_update PsQueued f st = st\<lparr>ag_queued := f (ag_queued st)\<rparr>"
| "counter_update PsDead f st = st\<lparr>ag_dead := f (ag_dead st)\<rparr>"
| "counter_update PsNotNeeded f st = st\<lparr>ag_not_needed := f (ag_not_needed st)\<rparr>"

definition atomic_inc :: "u32 \<Rightarrow> u32" where "atomic_inc c = c + 1"
definition atomic_dec :: "u32 \<Rightarrow> u32" where "atomic_dec c = c - 1"

definition stats_inc :: "peer_state \<Rightarrow> aggregate_stats \<Rightarrow> aggregate_stats" where
  "stats_inc s = counter_update s atomic_inc"

definition stats_dec :: "peer_state \<Rightarrow> aggregate_stats \<Rightarrow> aggregate_stats" where
  "stats_dec s = counter_update s atomic_dec"

definition stats_incdec :: "peer_state \<Rightarrow> peer_state \<Rightarrow> aggregate_stats \<Rightarrow> aggregate_stats" where
  "stats_incdec old new st = stats_inc new (stats_dec old st)"

record peer_counters =
  pc_fetched_bytes :: u64
  pc_total_time_connecting_ms :: u64
  pc_incoming_connections :: u32
  pc_outgoing_connection_attempts :: u32
  pc_outgoing_connections :: u32
  pc_errors :: u32
  pc_fetched_chunks :: u32
  pc_downloaded_and_checked_pieces :: u32
  pc_downloaded_and_checked_bytes :: u64
  pc_total_piece_download_ms :: u64

definition peer_counters_zero :: peer_counters where
  "peer_counters_zero = \<lparr>pc_fetched_bytes = 0, pc_total_time_connecting_ms = 0, pc_incoming_connections = 0,
     pc_outgoing_connection_attempts = 0, pc_outgoing_connections = 0, pc_errors = 0, pc_fetched_chunks = 0,
     pc_downloaded_and_checked_pieces = 0, pc_downloaded_and_checked_bytes = 0, pc_total_piece_download_ms = 0\<rparr>"

definition on_piece_downloaded :: "u64 \<Rightarrow> u64 \<Rightarrow> peer_counters \<Rightarrow> peer_counters" where
  "on_piece_downloaded piece_len elapsed_ms c =
     c\<lparr>pc_total_piece_download_ms := pc_total_piece_download_ms c + elapsed_ms,
       pc_downloaded_and_checked_pieces := pc_downloaded_and_checked_pieces c + 1,
       pc_downloaded_and_checked_bytes := pc_downloaded_and_checked_bytes c + piece_len\<rparr>"

text \<open>In milliseconds.\<close>

definition average_piece_download_time :: "peer_counters \<Rightarrow> u64 option" where
  "average_piece_download_time c =
     (let downloaded_pieces = pc_downloaded_and_checked_pieces c;
          total_download_time = pc_total_piece_download_ms c in
      if total_download_time = 0 \<or> downloaded_pieces = 0 then None
      else Some (total_download_time div ucast downloaded_pieces))"

record 'b backoff_ops =
  bo_new :: 'b
  bo_reset :: "'b \<Rightarrow> 'b"
  bo_next :: "'b \<Rightarrow> u64 option \<times> 'b"

record 'b peer =
  pe_state :: peer_state
  pe_counters :: nat
  pe_backoff :: 'b

section \<open>State changes of one peer\<close>

text \<open>
  \<open>PeerStateNoMut\<close>: the operations work on the state and the aggregate counters. \<open>set\<close> returns the
  previous state first.
\<close>

type_synonym counted_state = "peer_state \<times> aggregate_stats"

definition ps_set :: "peer_state \<Rightarrow> counted_state \<Rightarrow> peer_state \<times> counted_state" where
  "ps_set new = (\<lambda>(s, st). (s, (new, stats_incdec s new st)))"

definition ps_take :: "counted_state \<Rightarrow> peer_state \<times> counted_state" where
  "ps_take = ps_set PsQueued"

definition queued_to_connecting :: "nat \<Rightarrow> counted_state \<Rightarrow> bool \<times> counted_state" where
  "queued_to_connecting tx cs =
     (if fst cs = PsQueued then (True, snd (ps_set (PsConnecting tx) cs)) else (False, cs))"

text \<open>\<open>False\<close>: the peer is active already. The second \<open>match\<close> of the source cannot fail.\<close>

definition incoming_connection :: "bytes \<Rightarrow> nat \<Rightarrow> counted_state \<Rightarrow> bool \<times> counted_state" where
  "incoming_connection peer_id tx cs =
     (case fst cs of
        PsConnecting _ \<Rightarrow> (False, cs)
      | PsLive _ \<Rightarrow> (False, cs)
      | _ \<Rightarrow> (True, snd (ps_set (PsLive (live_peer_new peer_id tx)) (snd (ps_take cs)))))"

definition connecting_to_live :: "bytes \<Rightarrow> counted_state \<Rightarrow> bool \<times> counted_state" where
  "connecting_to_live peer_id cs =
     (case fst cs of
        PsConnecting tx \<Rightarrow> (True, snd (ps_set (PsLive (live_peer_new peer_id tx)) (snd (ps_take cs))))
      | _ \<Rightarrow> (False, cs))"

definition set_not_needed :: "counted_state \<Rightarrow> peer_state \<times> counted_state" where
  "set_not_needed = ps_set PsNotNeeded"

definition get_live :: "peer_state \<Rightarrow> live_peer option" where
  "get_live s = (case s of PsLive l \<Rightarrow> Some l | _ \<Rightarrow> None)"

section \<open>The table of peers\<close>

record 'b peers =
  ps_stats :: aggregate_stats
  ps_states :: "(socket_addr \<times> 'b peer) list"
  ps_counters :: "peer_counters list"
  ps_channels :: "(writer_request list \<times> bool) list"

definition peers_new :: "'b peers" where
  "peers_new = \<lparr>ps_stats = aggregate_stats_zero, ps_states = [], ps_counters = [], ps_channels = []\<rparr>"

text \<open>A channel holds what was sent, and whether its receiver is still there.\<close>

definition unbounded_channel :: "'b peers \<Rightarrow> nat \<times> 'b peers" where
  "unbounded_channel ps = (length (ps_channels ps), ps\<lparr>ps_channels := ps_channels ps @ [([], True)]\<rparr>)"

definition channel_send :: "nat \<Rightarrow> writer_request \<Rightarrow> 'b peers \<Rightarrow> bool \<times> 'b peers" where
  "channel_send tx req ps =
     (case get (ps_channels ps) tx of
        Some (q, True) \<Rightarrow> (True, ps\<lparr>ps_channels := (ps_channels ps)[tx := (q @ [req], True)]\<rparr>)
      | _ \<Rightarrow> (False, ps))"

definition channel_close :: "nat \<Rightarrow> 'b peers \<Rightarrow> 'b peers" where
  "channel_close tx ps =
     (case get (ps_channels ps) tx of
        Some (q, _) \<Rightarrow> ps\<lparr>ps_channels := (ps_channels ps)[tx := (q, False)]\<rparr>
      | None \<Rightarrow> ps)"

definition counters_new :: "'b peers \<Rightarrow> nat \<times> 'b peers" where
  "counters_new ps = (length (ps_counters ps), ps\<lparr>ps_counters := ps_counters ps @ [peer_counters_zero]\<rparr>)"

definition counters_update :: "nat \<Rightarrow> (peer_counters \<Rightarrow> peer_counters) \<Rightarrow> 'b peers \<Rightarrow> 'b peers" where
  "counters_update c f ps = ps\<lparr>ps_counters := (ps_counters ps)[c := f (ps_counters ps ! c)]\<rparr>"

definition with_peer :: "socket_addr \<Rightarrow> ('b peer \<Rightarrow> 'r) \<Rightarrow> 'b peers \<Rightarrow> 'r option" where
  "with_peer addr f ps = map_option f (map_of (ps_states ps) addr)"

text \<open>The closures of the source may change the peer and the aggregate counters.\<close>

definition with_peer_mut ::
  "socket_addr \<Rightarrow> ('b peer \<times> aggregate_stats \<Rightarrow> 'r \<times> 'b peer \<times> aggregate_stats) \<Rightarrow> 'b peers \<Rightarrow>
    'r option \<times> 'b peers" where
  "with_peer_mut addr f ps =
     (case map_of (ps_states ps) addr of
        None \<Rightarrow> (None, ps)
      | Some p \<Rightarrow>
          let (r, p', st) = f (p, ps_stats ps) in
          (Some r, ps\<lparr>ps_states := AList.update addr p' (ps_states ps), ps_stats := st\<rparr>))"

definition on_state :: "(counted_state \<Rightarrow> 'r \<times> counted_state) \<Rightarrow>
    'b peer \<times> aggregate_stats \<Rightarrow> 'r \<times> 'b peer \<times> aggregate_stats" where
  "on_state f = (\<lambda>(p, st). let (r, s, st') = f (pe_state p, st) in (r, p\<lparr>pe_state := s\<rparr>, st'))"

definition on_live :: "(live_peer \<Rightarrow> 'r \<times> live_peer) \<Rightarrow>
    'b peer \<times> aggregate_stats \<Rightarrow> 'r option \<times> 'b peer \<times> aggregate_stats" where
  "on_live f = (\<lambda>(p, st).
     case pe_state p of
       PsLive l \<Rightarrow> let (r, l') = f l in (Some r, p\<lparr>pe_state := PsLive l'\<rparr>, st)
     | _ \<Rightarrow> (None, p, st))"

definition with_live :: "socket_addr \<Rightarrow> (live_peer \<Rightarrow> 'r) \<Rightarrow> 'b peers \<Rightarrow> 'r option" where
  "with_live addr f ps = Option.bind (with_peer addr (\<lambda>p. map_option f (get_live (pe_state p))) ps) id"

definition with_live_mut :: "socket_addr \<Rightarrow> (live_peer \<Rightarrow> 'r \<times> live_peer) \<Rightarrow> 'b peers \<Rightarrow> 'r option \<times> 'b peers" where
  "with_live_mut addr f ps =
     (let (r, ps') = with_peer_mut addr (on_live f) ps in (Option.bind r id, ps'))"

definition add_if_not_seen :: "'b backoff_ops \<Rightarrow> socket_addr \<Rightarrow> 'b peers \<Rightarrow> bool \<times> 'b peers" where
  "add_if_not_seen bo addr ps =
     (case map_of (ps_states ps) addr of
        Some _ \<Rightarrow> (False, ps)
      | None \<Rightarrow>
          let (c, ps) = counters_new ps in
          (True, ps\<lparr>ps_states := AList.update addr \<lparr>pe_state = PsQueued, pe_counters = c, pe_backoff = bo_new bo\<rparr> (ps_states ps),
                    ps_stats := (ps_stats ps)\<lparr>ag_queued := atomic_inc (ag_queued (ps_stats ps)),
                                              ag_seen := atomic_inc (ag_seen (ps_stats ps))\<rparr>\<rparr>))"

definition drop_peer :: "socket_addr \<Rightarrow> 'b peers \<Rightarrow> 'b peer option \<times> 'b peers" where
  "drop_peer handle ps =
     (case map_of (ps_states ps) handle of
        None \<Rightarrow> (None, ps)
      | Some p \<Rightarrow> (Some p, ps\<lparr>ps_states := AList.delete handle (ps_states ps),
                             ps_stats := stats_dec (pe_state p) (ps_stats ps)\<rparr>))"

definition mark_peer_interested :: "socket_addr \<Rightarrow> bool \<Rightarrow> 'b peers \<Rightarrow> bool option \<times> 'b peers" where
  "mark_peer_interested handle is_interested =
     with_live_mut handle (\<lambda>live. (lp_peer_interested live, live\<lparr>lp_peer_interested := is_interested\<rparr>))"

definition update_bitfield_from_vec :: "socket_addr \<Rightarrow> bytes \<Rightarrow> 'b peers \<Rightarrow> unit option \<times> 'b peers" where
  "update_bitfield_from_vec handle v = with_live_mut handle (\<lambda>live. ((), live\<lparr>lp_bitfield := bf_from_vec v\<rparr>))"

text \<open>The channel for the connection, when the peer was queued.\<close>

definition mark_peer_connecting :: "socket_addr \<Rightarrow> 'b peers \<Rightarrow> nat option \<times> 'b peers" where
  "mark_peer_connecting h ps =
     (case map_of (ps_states ps) h of
        None \<Rightarrow> (None, ps)
      | Some p \<Rightarrow>
          if pe_state p \<noteq> PsQueued then (None, ps)
          else
            let (tx, ps) = unbounded_channel ps;
                (_, ps) = with_peer_mut h (on_state (queued_to_connecting tx)) ps in
            (Some tx, ps))"

definition reset_peer_backoff :: "'b backoff_ops \<Rightarrow> socket_addr \<Rightarrow> 'b peers \<Rightarrow> 'b peers" where
  "reset_peer_backoff bo handle ps =
     snd (with_peer_mut handle (\<lambda>(p, st). ((), p\<lparr>pe_backoff := bo_reset bo (pe_backoff p)\<rparr>, st)) ps)"

definition mark_peer_not_needed :: "socket_addr \<Rightarrow> 'b peers \<Rightarrow> peer_state option \<times> 'b peers" where
  "mark_peer_not_needed handle = with_peer_mut handle (on_state set_not_needed)"

definition new_live_for_incoming_connection ::
  "'b backoff_ops \<Rightarrow> bytes \<Rightarrow> nat \<Rightarrow> 'b peers \<Rightarrow> 'b peer \<times> 'b peers" where
  "new_live_for_incoming_connection bo peer_id tx ps =
     (let s = PsLive (live_peer_new peer_id tx);
          (c, ps) = counters_new ps in
      (\<lparr>pe_state = s, pe_counters = c, pe_backoff = bo_new bo\<rparr>, ps\<lparr>ps_stats := stats_inc s (ps_stats ps)\<rparr>))"

definition filter_matches_live :: "bool \<Rightarrow> peer_state \<Rightarrow> bool" where
  "filter_matches_live all_states s = (all_states \<or> ps_name s = ''live'')"

section \<open>The counters count\<close>

definition in_state :: "peer_state \<Rightarrow> (socket_addr \<times> 'b peer) list \<Rightarrow> nat" where
  "in_state s states = length (filter (\<lambda>(a, p). ps_name (pe_state p) = ps_name s) states)"

text \<open>
  Every counter is the number of peers in its state, modulo \<open>2 ^ 32\<close>.
\<close>

definition peers_ok :: "'b peers \<Rightarrow> bool" where
  "peers_ok ps \<longleftrightarrow> distinct (map fst (ps_states ps)) \<and>
     (\<forall>s. counter s (ps_stats ps) = word_of_nat (in_state s (ps_states ps)))"

lemma counter_counter_update:
  "counter s (counter_update s' f st) = (if ps_name s = ps_name s' then f (counter s st) else counter s st)"
  by (cases s; cases s') simp_all

lemma counter_stats [simp]:
  "counter s (stats_inc s' st) = counter s st + of_bool (ps_name s' = ps_name s)"
  "counter s (stats_dec s' st) = counter s st - of_bool (ps_name s' = ps_name s)"
  "counter s (stats_incdec old new st) =
     counter s st - of_bool (ps_name old = ps_name s) + of_bool (ps_name new = ps_name s)"
  by (auto simp: stats_incdec_def stats_inc_def stats_dec_def counter_counter_update atomic_inc_def atomic_dec_def)

lemma counter_seen [simp]: "counter s (st\<lparr>ag_seen := n\<rparr>) = counter s st"
  by (cases s) simp_all

lemma in_state_Nil [simp]: "in_state s [] = 0"
  by (simp add: in_state_def)

lemma in_state_Cons [simp]:
  "in_state s (x # xs) = in_state s xs + of_bool (ps_name (pe_state (snd x)) = ps_name s)"
  by (cases x) (simp add: in_state_def)

lemma in_state_update_new:
  "map_of xs a = None \<Longrightarrow> in_state s (AList.update a p xs) = in_state s xs + of_bool (ps_name (pe_state p) = ps_name s)"
  by (induction xs) (auto split: if_splits)

lemma in_state_update:
  "map_of xs a = Some p \<Longrightarrow> in_state s (AList.update a p' xs) + of_bool (ps_name (pe_state p) = ps_name s) =
     in_state s xs + of_bool (ps_name (pe_state p') = ps_name s)"
  by (induction xs) (auto split: if_splits)

lemma delete_not_in: "a \<notin> fst ` set xs \<Longrightarrow> AList.delete a xs = xs"
  by (induction xs) auto

lemma in_state_delete:
  "map_of xs a = Some p \<Longrightarrow> distinct (map fst xs) \<Longrightarrow>
    in_state s (AList.delete a xs) + of_bool (ps_name (pe_state p) = ps_name s) = in_state s xs"
  by (induction xs) (auto simp: delete_not_in split: if_splits)

lemma peers_ok_cong:
  "ps_states ps' = ps_states ps \<Longrightarrow> ps_stats ps' = ps_stats ps \<Longrightarrow> peers_ok ps' = peers_ok ps"
  by (simp add: peers_ok_def)

lemma peers_ok_stores [simp]:
  "peers_ok (snd (unbounded_channel ps)) = peers_ok ps" "peers_ok (snd (channel_send tx req ps)) = peers_ok ps"
  "peers_ok (channel_close tx ps) = peers_ok ps" "peers_ok (snd (counters_new ps)) = peers_ok ps"
  "peers_ok (counters_update c f ps) = peers_ok ps"
  by (auto simp: unbounded_channel_def channel_send_def channel_close_def counters_new_def counters_update_def
      peers_ok_def split: option.splits prod.splits bool.splits)

text \<open>
  The contract of a closure that works on one peer under the lock of its entry: it moves the counters
  exactly as it moves the peer.
\<close>

locale peer_op =
  fixes f :: "'b peer \<times> aggregate_stats \<Rightarrow> 'r \<times> 'b peer \<times> aggregate_stats"
  assumes counts: "f (p, st) = (r, p', st') \<Longrightarrow>
    counter s st' + of_bool (ps_name (pe_state p) = ps_name s) =
    counter s st + of_bool (ps_name (pe_state p') = ps_name s)"
begin

lemma keeps_counters:
  assumes "peers_ok ps" shows "peers_ok (snd (with_peer_mut addr f ps))"
proof (cases "map_of (ps_states ps) addr")
  case None
  then show ?thesis using assms by (simp add: with_peer_mut_def)
next
  case (Some p)
  obtain r p' st where f: "f (p, ps_stats ps) = (r, p', st)" by (cases "f (p, ps_stats ps)") auto
  have "counter s st = word_of_nat (in_state s (AList.update addr p' (ps_states ps)))" for s
  proof -
    have "word_of_nat (in_state s (AList.update addr p' (ps_states ps)) + of_bool (ps_name (pe_state p) = ps_name s)) =
        (word_of_nat (in_state s (ps_states ps) + of_bool (ps_name (pe_state p') = ps_name s)) :: u32)"
      by (simp only: in_state_update [OF Some])
    then have "word_of_nat (in_state s (AList.update addr p' (ps_states ps))) + of_bool (ps_name (pe_state p) = ps_name s) =
        counter s (ps_stats ps) + of_bool (ps_name (pe_state p') = ps_name s)"
      using assms by (simp add: peers_ok_def)
    then show ?thesis using counts [OF f, of s] by (metis add_right_cancel)
  qed
  then show ?thesis
    using Some f assms by (simp add: with_peer_mut_def peers_ok_def distinct_update)
qed

end

interpretation set_op: peer_op "on_state (ps_set new)" for new
  by unfold_locales (auto simp: on_state_def ps_set_def)

interpretation connect_op: peer_op "on_state (queued_to_connecting tx)" for tx
  by unfold_locales (auto simp: on_state_def queued_to_connecting_def ps_set_def split: if_splits)

interpretation incoming_op: peer_op "on_state (incoming_connection peer_id tx)" for peer_id tx
  by unfold_locales (auto simp: on_state_def incoming_connection_def ps_set_def ps_take_def split: peer_state.splits)

interpretation live_op: peer_op "on_state (connecting_to_live peer_id)" for peer_id
  by unfold_locales (auto simp: on_state_def connecting_to_live_def ps_set_def ps_take_def split: peer_state.splits)

interpretation not_needed_op: peer_op "on_state set_not_needed"
  by unfold_locales (auto simp: on_state_def set_not_needed_def ps_set_def)

interpretation peer_live_op: peer_op "on_live g" for g :: "live_peer \<Rightarrow> 'r \<times> live_peer"
  by unfold_locales (auto simp: on_live_def split: peer_state.splits prod.splits)

interpretation backoff_op: peer_op "\<lambda>(p, st). ((), p\<lparr>pe_backoff := bo_reset bo (pe_backoff p)\<rparr>, st)" for bo
  by unfold_locales auto

lemma peers_ok_new [simp]: "peers_ok peers_new"
proof -
  have "counter s aggregate_stats_zero = 0" for s by (cases s) (simp_all add: aggregate_stats_zero_def)
  then show ?thesis by (simp add: peers_ok_def peers_new_def)
qed

lemma peers_ok_live_mut [simp]: "peers_ok ps \<Longrightarrow> peers_ok (snd (with_live_mut addr f ps))"
  using peer_live_op.keeps_counters [of ps addr f] by (cases "with_peer_mut addr (on_live f) ps") (simp add: with_live_mut_def)

lemma peers_ok_add [simp]: "peers_ok ps \<Longrightarrow> peers_ok (snd (add_if_not_seen bo addr ps))"
proof (cases "map_of (ps_states ps) addr")
  case None
  assume "peers_ok ps"
  moreover have "st\<lparr>ag_queued := atomic_inc (ag_queued st), ag_seen := n\<rparr> = (stats_inc PsQueued st)\<lparr>ag_seen := n\<rparr>"
    for st n by (simp add: stats_inc_def)
  ultimately show ?thesis
    using None by (auto simp: add_if_not_seen_def counters_new_def peers_ok_def distinct_update in_state_update_new)
qed (simp add: add_if_not_seen_def)

lemma peers_ok_drop [simp]: "peers_ok ps \<Longrightarrow> peers_ok (snd (drop_peer addr ps))"
proof (cases "map_of (ps_states ps) addr")
  case (Some p)
  assume ok: "peers_ok ps"
  then have d: "distinct (map fst (ps_states ps))" by (simp add: peers_ok_def)
  have "counter s (ps_stats ps) = word_of_nat (in_state s (AList.delete addr (ps_states ps))) +
      of_bool (ps_name (pe_state p) = ps_name s)" for s
    using ok in_state_delete [OF Some d, of s, symmetric] by (simp add: peers_ok_def)
  then show ?thesis using Some d by (simp add: drop_peer_def peers_ok_def distinct_delete)
qed (simp add: drop_peer_def)

lemma peers_ok_mark [simp]:
  "peers_ok ps \<Longrightarrow> peers_ok (snd (mark_peer_interested addr b ps))"
  "peers_ok ps \<Longrightarrow> peers_ok (snd (update_bitfield_from_vec addr v ps))"
  "peers_ok ps \<Longrightarrow> peers_ok (snd (mark_peer_not_needed addr ps))"
  "peers_ok ps \<Longrightarrow> peers_ok (reset_peer_backoff bo addr ps)"
  by (simp_all add: mark_peer_interested_def update_bitfield_from_vec_def mark_peer_not_needed_def
      reset_peer_backoff_def not_needed_op.keeps_counters backoff_op.keeps_counters)

lemma peers_ok_connecting [simp]: "peers_ok ps \<Longrightarrow> peers_ok (snd (mark_peer_connecting addr ps))"
proof -
  assume "peers_ok ps"
  then have "peers_ok (snd (with_peer_mut addr (on_state (queued_to_connecting (fst (unbounded_channel ps))))
      (snd (unbounded_channel ps))))"
    by (simp add: connect_op.keeps_counters)
  then show ?thesis using \<open>peers_ok ps\<close>
    by (auto simp: mark_peer_connecting_def Let_def split: option.splits prod.splits)
qed

end
