(* ===== verification/FileOps.thy ===== *)
theory FileOps
  imports ChunkTracker TorrentMetainfo
begin

text \<open>
  Model of \<open>crates/librqbit/src/file_ops.rs\<close>: chunks and pieces of a torrent on its files. A file is the
  bytes it holds and whether its handle can write. Reading past the end fails; a medium that fails to
  read from some position on is, for a reader, a file that ends there. What the operating system does
  with a write is a parameter \<open>io\<close>: \<open>None\<close> for success, \<open>Some k\<close> for an error after \<open>k\<close> bytes.
\<close>

record disk_file =
  f_data :: bytes
  f_writable :: bool

definition dummy_file :: disk_file where
  "dummy_file = \<lparr>f_data = [], f_writable = False\<rparr>"

section \<open>Operations\<close>

text \<open>\<open>seek\<close> and \<open>read_exact\<close>, \<open>seek\<close> and \<open>write_all\<close>; a write past the end fills the gap with zeros.\<close>

definition read_at :: "disk_file \<Rightarrow> nat \<Rightarrow> nat \<Rightarrow> bytes option" where
  "read_at f off n =
     (if n = 0 then Some [] else if off + n \<le> length (f_data f) then Some (take n (drop off (f_data f))) else None)"

definition write_at :: "disk_file \<Rightarrow> nat \<Rightarrow> bytes \<Rightarrow> disk_file" where
  "write_at f off bs =
     (if bs = [] then f
      else f\<lparr>f_data := take off (f_data f) @ replicate (off - length (f_data f)) 0 @ bs
                         @ drop (off + length bs) (f_data f)\<rparr>)"

text \<open>
  \<open>update_hash_from_file\<close>. The hash is the bytes given to it so far, and the file is read from \<open>pos\<close>
  on. With an empty buffer the loop of the source does not end.
\<close>

partial_function (option) update_hash_from_file ::
  "disk_file \<Rightarrow> nat \<Rightarrow> nat \<Rightarrow> bytes \<Rightarrow> nat \<Rightarrow> (bool \<times> bytes) option" where
  "update_hash_from_file f pos buf_len hash bytes_to_read =
     (if bytes_to_read = 0 then Some (True, hash)
      else
        let chunk = min buf_len bytes_to_read in
        (case read_at f pos chunk of
           None \<Rightarrow> Some (False, hash)
         | Some bs \<Rightarrow> update_hash_from_file f (pos + chunk) buf_len (hash @ bs) (bytes_to_read - chunk)))"

datatype 'a run = Done 'a | Fails | Panics | Diverges

fun bind_run :: "'a run \<Rightarrow> ('a \<Rightarrow> 'b run) \<Rightarrow> 'b run" where
  "bind_run (Done x) f = f x"
| "bind_run Fails f = Fails"
| "bind_run Panics f = Panics"
| "bind_run Diverges f = Diverges"

text \<open>\<open>Inl\<close>: the loop came to its end with this hash; \<open>Inr\<close>: the function returned from inside it.\<close>

fun check_files ::
  "u64 list \<Rightarrow> nat \<Rightarrow> disk_file list \<Rightarrow> u64 \<Rightarrow> nat \<Rightarrow> nat \<Rightarrow> bytes \<Rightarrow> (bytes + bool) run" where
  "check_files [] file_idx files absolute_offset piece_remaining_bytes buf_len h = Done (Inl h)"
| "check_files (file_len # ls) file_idx files absolute_offset piece_remaining_bytes buf_len h =
     (if absolute_offset > file_len
      then check_files ls (file_idx + 1) files (absolute_offset - file_len) piece_remaining_bytes buf_len h
      else if file_idx \<ge> length files then Panics
      else
        let file_remaining_len = file_len - absolute_offset;
            to_read_in_file = min (unat file_remaining_len) piece_remaining_bytes in
        (case update_hash_from_file (files ! file_idx) (unat absolute_offset) buf_len h to_read_in_file of
           None \<Rightarrow> Diverges
         | Some (False, _) \<Rightarrow> Fails
         | Some (True, h') \<Rightarrow>
             if piece_remaining_bytes - to_read_in_file = 0 then Done (Inr True)
             else check_files ls (file_idx + 1) files 0 (piece_remaining_bytes - to_read_in_file) buf_len h'))"

definition check_piece ::
  "(bytes \<Rightarrow> bytes) \<Rightarrow> torrent_info \<Rightarrow> disk_file list \<Rightarrow> lengths \<Rightarrow> valid_piece_index \<Rightarrow> bool run" where
  "check_piece sha1 info files L piece_index =
     (let piece_len = piece_length_of L piece_index in
      case iter_file_lengths info of
        Inl _ \<Rightarrow> Fails
      | Inr ls \<Rightarrow>
          bind_run (check_files ls 0 files (piece_offset L piece_index) (unat piece_len)
              (min 65536 (unat piece_len)) [])
            (\<lambda>r. case r of
               Inr b \<Rightarrow> Done b
             | Inl h \<Rightarrow>
                 (case compare_hash info (vpi_get piece_index) (sha1 h) of
                    Some b \<Rightarrow> Done b
                  | None \<Rightarrow> Fails)))"

fun read_files :: "u64 list \<Rightarrow> nat \<Rightarrow> disk_file list \<Rightarrow> u64 \<Rightarrow> nat \<Rightarrow> bytes \<Rightarrow> bytes option outcome" where
  "read_files [] file_idx files absolute_offset buf_len got = Return (Some got)"
| "read_files (file_len # ls) file_idx files absolute_offset buf_len got =
     (if absolute_offset > file_len
      then read_files ls (file_idx + 1) files (absolute_offset - file_len) buf_len got
      else if file_idx \<ge> length files then Panic
      else
        let file_remaining_len = file_len - absolute_offset;
            to_read_in_file = min (unat file_remaining_len) buf_len in
        (case read_at (files ! file_idx) (unat absolute_offset) to_read_in_file of
           None \<Rightarrow> Return None
         | Some bs \<Rightarrow>
             if buf_len - to_read_in_file = 0 then Return (Some (got @ bs))
             else read_files ls (file_idx + 1) files 0 (buf_len - to_read_in_file) (got @ bs)))"

text \<open>The result is the filled part of the buffer; \<open>None\<close> is an error.\<close>

definition file_read_chunk ::
  "torrent_info \<Rightarrow> disk_file list \<Rightarrow> lengths \<Rightarrow> chunk_info \<Rightarrow> nat \<Rightarrow> bytes option outcome" where
  "file_read_chunk info files L ci result_buf_len =
     (if result_buf_len < unat (ci_size ci) then Return None
      else
        (case iter_file_lengths info of
           Inl _ \<Rightarrow> Return None
         | Inr ls \<Rightarrow> read_files ls 0 files (chunk_absolute_offset L ci) result_buf_len []))"

fun write_files ::
  "(nat \<Rightarrow> nat option) \<Rightarrow> u64 list \<Rightarrow> nat \<Rightarrow> disk_file list \<Rightarrow> u64 \<Rightarrow> bytes \<Rightarrow> (bool \<times> disk_file list) outcome" where
  "write_files io [] file_idx files absolute_offset buf = Return (True, files)"
| "write_files io (file_len # ls) file_idx files absolute_offset buf =
     (if absolute_offset > file_len
      then write_files io ls (file_idx + 1) files (absolute_offset - file_len) buf
      else if file_idx \<ge> length files then Panic
      else
        let remaining_len = file_len - absolute_offset;
            to_write = min (length buf) (unat remaining_len);
            f = files ! file_idx in
        (case (if to_write = 0 then None else if \<not> f_writable f then Some 0 else io file_idx) of
           Some k \<Rightarrow>
             Return (False, files[file_idx := write_at f (unat absolute_offset) (take (min k to_write) buf)])
         | None \<Rightarrow>
             let files' = files[file_idx := write_at f (unat absolute_offset) (take to_write buf)] in
             if drop to_write buf = [] then Return (True, files')
             else write_files io ls (file_idx + 1) files' 0 (drop to_write buf)))"

definition file_write_chunk ::
  "(nat \<Rightarrow> nat option) \<Rightarrow> torrent_info \<Rightarrow> disk_file list \<Rightarrow> lengths \<Rightarrow> bytes \<Rightarrow> chunk_info \<Rightarrow>
    (bool \<times> disk_file list) outcome" where
  "file_write_chunk io info files L block ci =
     (case iter_file_lengths info of
        Inl _ \<Rightarrow> Return (False, files)
      | Inr ls \<Rightarrow> write_files io ls 0 files (chunk_absolute_offset L ci) block)"

section \<open>The initial check\<close>

record current_file =
  cf_index :: nat
  cf_fd :: disk_file
  cf_len :: u64
  cf_required :: bool
  cf_processed :: u64
  cf_broken :: bool

definition cf_remaining :: "current_file \<Rightarrow> u64" where
  "cf_remaining c = cf_len c - cf_processed c"

definition mark_processed_bytes :: "current_file \<Rightarrow> u64 \<Rightarrow> current_file" where
  "mark_processed_bytes c n = c\<lparr>cf_processed := cf_processed c + n\<rparr>"

record initial_results =
  ir_needed_pieces :: bf
  ir_have_pieces :: bf
  ir_have_bytes :: u64
  ir_needed_bytes :: u64
  ir_total_selected_bytes :: u64

definition selected :: "nat list option \<Rightarrow> nat \<Rightarrow> bool" where
  "selected only_files idx = (case only_files of Some o_files \<Rightarrow> idx \<in> set o_files | None \<Rightarrow> True)"

definition file_iterator :: "nat list option \<Rightarrow> disk_file list \<Rightarrow> u64 list \<Rightarrow> current_file list" where
  "file_iterator only_files files ls =
     map (\<lambda>(idx, (fd, len)). \<lparr>cf_index = idx, cf_fd = fd, cf_len = len,
         cf_required = selected only_files idx, cf_processed = 0, cf_broken = False\<rparr>)
       (enumerate 0 (zip files ls))"

text \<open>The inner loop that looks for a file with something left to read.\<close>

fun find_file ::
  "current_file \<Rightarrow> current_file list \<Rightarrow> bool \<Rightarrow> nat \<Rightarrow> (current_file \<times> current_file list \<times> bool \<times> nat) option" where
  "find_file cur rest required piece_remaining =
     (let to_read_in_file = min (unat (cf_remaining cur)) piece_remaining in
      if to_read_in_file = 0 then
        (case rest of
           [] \<Rightarrow> None
         | c # rest' \<Rightarrow> find_file c rest' (required \<or> cf_required c) piece_remaining)
      else Some (cur, rest, required, to_read_in_file))"

declare find_file.simps [simp del]

lemma find_file_reads:
  "find_file cur rest required n = Some (cur', rest', required', m) \<Longrightarrow> 0 < m \<and> m \<le> n"
proof (induction cur rest required n rule: find_file.induct)
  case (1 cur rest required n)
  show ?case
  proof (cases "min (unat (cf_remaining cur)) n = 0")
    case True
    with "1.prems" obtain c rest2 where "rest = c # rest2"
      "find_file c rest2 (required \<or> cf_required c) n = Some (cur', rest', required', m)"
      by (auto simp: find_file.simps [of cur] split: list.splits)
    then show ?thesis by (rule "1.IH" [OF refl True])
  next
    case False
    with "1.prems" show ?thesis by (auto simp: find_file.simps [of cur] Let_def)
  qed
qed

text \<open>The loop over one piece: the files it touches, its hash, and whether a file could not be read.\<close>

function hash_piece ::
  "current_file \<Rightarrow> current_file list \<Rightarrow> bool \<Rightarrow> nat \<Rightarrow> bool \<Rightarrow> bytes \<Rightarrow>
    (current_file \<times> current_file list \<times> bool \<times> bool \<times> bytes) run" where
  "hash_piece cur rest required piece_remaining broken h =
     (if piece_remaining = 0 then Done (cur, rest, required, broken, h)
      else
        (case find_file cur rest required piece_remaining of
           None \<Rightarrow> Fails
         | Some (cur, rest, required, to_read_in_file) \<Rightarrow>
             let pos = cf_processed cur;
                 piece_remaining' = piece_remaining - to_read_in_file;
                 cur = mark_processed_bytes cur (word_of_nat to_read_in_file) in
             if cf_broken cur then hash_piece cur rest required piece_remaining' broken h
             else
               (case update_hash_from_file (cf_fd cur) (unat pos) 65536 h to_read_in_file of
                  None \<Rightarrow> Diverges
                | Some (ok, h') \<Rightarrow>
                    if ok then hash_piece cur rest required piece_remaining' broken h'
                    else hash_piece (cur\<lparr>cf_broken := True\<rparr>) rest required piece_remaining' True h')))"
  by pat_completeness auto
termination
  by (relation "measure (\<lambda>(cur, rest, required, n, broken, h). n)") (auto dest: find_file_reads)

declare hash_piece.simps [simp del]

definition mark_bit :: "bf \<Rightarrow> piece_info \<Rightarrow> bf run" where
  "mark_bit bs p =
     (case bf_set bs (unat (vpi_get (pi_piece_index p))) True of Panic \<Rightarrow> Panics | Return bs' \<Rightarrow> Done bs')"

definition note_piece ::
  "(bytes \<Rightarrow> bytes) \<Rightarrow> torrent_info \<Rightarrow> piece_info \<Rightarrow> bool \<Rightarrow> bool \<Rightarrow> bytes \<Rightarrow> initial_results \<Rightarrow>
    initial_results run" where
  "note_piece sha1 info p required broken h r =
     (let r = (if required then r\<lparr>ir_total_selected_bytes := ir_total_selected_bytes r + ucast (pi_len p)\<rparr> else r);
          need = (\<lambda>r. bind_run (mark_bit (ir_needed_pieces r) p) (\<lambda>bs.
            Done (r\<lparr>ir_needed_bytes := ir_needed_bytes r + ucast (pi_len p), ir_needed_pieces := bs\<rparr>))) in
      if required \<and> broken then need r
      else
        (case compare_hash info (vpi_get (pi_piece_index p)) (sha1 h) of
           None \<Rightarrow> Fails
         | Some True \<Rightarrow>
             bind_run (mark_bit (ir_have_pieces r) p) (\<lambda>bs.
               Done (r\<lparr>ir_have_bytes := ir_have_bytes r + ucast (pi_len p), ir_have_pieces := bs\<rparr>))
         | Some False \<Rightarrow> if required then need r else Done r))"

fun check_pieces ::
  "(bytes \<Rightarrow> bytes) \<Rightarrow> torrent_info \<Rightarrow> piece_info list \<Rightarrow> current_file \<Rightarrow> current_file list \<Rightarrow>
    initial_results \<Rightarrow> initial_results run" where
  "check_pieces sha1 info [] cur rest r = Done r"
| "check_pieces sha1 info (p # ps) cur rest r =
     bind_run (hash_piece cur rest (cf_required cur) (unat (pi_len p)) False [])
       (\<lambda>(cur', rest', required, broken, h).
         bind_run (note_piece sha1 info p required broken h r) (check_pieces sha1 info ps cur' rest'))"

definition initial_check ::
  "(bytes \<Rightarrow> bytes) \<Rightarrow> torrent_info \<Rightarrow> disk_file list \<Rightarrow> lengths \<Rightarrow> nat list option \<Rightarrow> initial_results run" where
  "initial_check sha1 info files L only_files =
     (let empty_bf = bf_from_vec (replicate (piece_bitfield_bytes L) 0) in
      case iter_file_lengths info of
        Inl _ \<Rightarrow> Fails
      | Inr ls \<Rightarrow>
          (case file_iterator only_files files ls of
             [] \<Rightarrow> Fails
           | cur # rest \<Rightarrow>
               check_pieces sha1 info (iter_piece_infos L) cur rest
                 \<lparr>ir_needed_pieces = empty_bf, ir_have_pieces = empty_bf, ir_have_bytes = 0,
                  ir_needed_bytes = 0, ir_total_selected_bytes = 0\<rparr>))"

section \<open>The files as one disk\<close>

text \<open>
  The files of a torrent, one behind the other, are the torrent's content. \<open>sized\<close>: every file has the
  length the torrent gives it, which is what \<open>ensure_file_length\<close> establishes.
\<close>

definition disk :: "disk_file list \<Rightarrow> bytes" where
  "disk files = concat (map f_data files)"

definition sized :: "u64 list \<Rightarrow> disk_file list \<Rightarrow> bool" where
  "sized ls files \<longleftrightarrow> map (length \<circ> f_data) files = map unat ls"

abbreviation total :: "u64 list \<Rightarrow> nat" where
  "total ls \<equiv> sum_list (map unat ls)"

lemma sized_simps [simp]:
  "sized [] files \<longleftrightarrow> files = []"
  "sized (l # ls) files \<longleftrightarrow> (\<exists>f fs. files = f # fs \<and> length (f_data f) = unat l \<and> sized ls fs)"
  by (auto simp: sized_def Cons_eq_map_conv map_eq_Cons_conv)

lemma disk_simps [simp]: "disk [] = []" "disk (f # fs) = f_data f @ disk fs" "disk (fs @ gs) = disk fs @ disk gs"
  by (simp_all add: disk_def)

lemma length_disk: "sized ls files \<Longrightarrow> length (disk files) = total ls"
  by (induction ls arbitrary: files) auto

lemma unat_minus_gt: "a > b \<Longrightarrow> unat (a - b) = unat a - unat b" for a b :: u64
  by (simp add: unat_sub order_less_imp_le)

lemma u64_gt_iff: "a > b \<longleftrightarrow> unat a > unat b" for a b :: u64
  by (simp add: word_less_nat_alt)

text \<open>Reading: the loop reads the disk.\<close>

lemma update_hash_reads:
  assumes "0 < buf_len" "pos + n \<le> length (f_data f)"
  shows "update_hash_from_file f pos buf_len h n = Some (True, h @ take n (drop pos (f_data f)))"
  using assms(2)
proof (induction n arbitrary: pos h rule: less_induct)
  case (less n)
  show ?case
  proof (cases "n = 0")
    case True
    then show ?thesis by (subst update_hash_from_file.simps) simp
  next
    case False
    let ?c = "min buf_len n"
    have c: "0 < ?c" "?c \<le> n" using assms(1) False by simp_all
    have "update_hash_from_file f (pos + ?c) buf_len (h @ take ?c (drop pos (f_data f))) (n - ?c) =
        Some (True, (h @ take ?c (drop pos (f_data f))) @ take (n - ?c) (drop (pos + ?c) (f_data f)))"
      using less.prems c by (intro less.IH) linarith+
    moreover have "take ?c (drop pos (f_data f)) @ take (n - ?c) (drop (pos + ?c) (f_data f)) =
        take n (drop pos (f_data f))"
      using c(2) take_add [of ?c "n - ?c" "drop pos (f_data f)"] by (simp add: add.commute)
    moreover have "read_at f pos ?c = Some (take ?c (drop pos (f_data f)))"
      using less.prems c by (simp add: read_at_def)
    ultimately show ?thesis
      using False by (subst update_hash_from_file.simps) (simp add: Let_def)
  qed
qed

lemma take_drop_append:
  "take n (drop off (a @ b)) = take n (drop off a) @ take (n - (length a - off)) (drop (off - length a) b)"
  by simp

lemma read_files_disk:
  assumes "sized ls fs" "unat off + n \<le> total ls" "0 < n"
  shows "read_files ls (length pre) (pre @ fs) off n got = Return (Some (got @ take n (drop (unat off) (disk fs))))"
  using assms
proof (induction ls arbitrary: pre fs off n got)
  case (Cons l ls)
  then obtain f fs' where fs: "fs = f # fs'" "length (f_data f) = unat l" "sized ls fs'" by auto
  show ?case
  proof (cases "off > l")
    case True
    then have u: "unat (off - l) = unat off - unat l" "unat l < unat off"
      by (simp_all add: unat_minus_gt u64_gt_iff)
    have "read_files ls (length (pre @ [f])) ((pre @ [f]) @ fs') (off - l) n got =
        Return (Some (got @ take n (drop (unat (off - l)) (disk fs'))))"
      using Cons.prems u fs(3) by (intro Cons.IH) simp_all
    then show ?thesis using True u fs by simp
  next
    case False
    then have le: "unat off \<le> unat l" by (simp add: u64_gt_iff)
    then have d: "unat (l - off) = unat l - unat off" by (simp add: unat_sub word_le_nat_alt)
    let ?r = "min (unat l - unat off) n"
    have r: "read_at f (unat off) ?r = Some (take ?r (drop (unat off) (f_data f)))"
      using le fs(2) by (auto simp: read_at_def)
    show ?thesis
    proof (cases "n - ?r = 0")
      case True
      then show ?thesis using r le fs \<open>\<not> off > l\<close> d by (simp add: Let_def)
    next
      case False
      have "read_files ls (length (pre @ [f])) ((pre @ [f]) @ fs') 0 (n - ?r) (got @ take ?r (drop (unat off) (f_data f))) =
          Return (Some ((got @ take ?r (drop (unat off) (f_data f))) @ take (n - ?r) (drop (unat (0 :: u64)) (disk fs'))))"
        using Cons.prems fs(3) le False by (intro Cons.IH) auto
      moreover have "?r = unat l - unat off" using False by simp
      ultimately show ?thesis using r le fs \<open>\<not> off > l\<close> d False by (simp add: Let_def)
    qed
  qed
qed simp

lemma check_files_done:
  assumes "sized ls fs" "unat off + n \<le> total ls" "0 < n" "0 < buf_len"
  shows "check_files ls (length pre) (pre @ fs) off n buf_len h = Done (Inr True)"
  using assms
proof (induction ls arbitrary: pre fs off n h)
  case (Cons l ls)
  then obtain f fs' where fs: "fs = f # fs'" "length (f_data f) = unat l" "sized ls fs'" by auto
  show ?case
  proof (cases "off > l")
    case True
    then have u: "unat (off - l) = unat off - unat l" "unat l < unat off"
      by (simp_all add: unat_minus_gt u64_gt_iff)
    have "check_files ls (length (pre @ [f])) ((pre @ [f]) @ fs') (off - l) n buf_len h = Done (Inr True)"
      using Cons.prems u fs(3) by (intro Cons.IH) simp_all
    then show ?thesis using True fs by simp
  next
    case False
    then have le: "unat off \<le> unat l" by (simp add: u64_gt_iff)
    then have d: "unat (l - off) = unat l - unat off" by (simp add: unat_sub word_le_nat_alt)
    let ?r = "min (unat l - unat off) n"
    obtain h' where r: "update_hash_from_file f (unat off) buf_len h ?r = Some (True, h')"
      using update_hash_reads [OF Cons.prems(4), of "unat off" ?r f h] le fs(2) by auto
    show ?thesis
    proof (cases "n - ?r = 0")
      case True
      then show ?thesis using r le fs \<open>\<not> off > l\<close> d by (simp add: Let_def)
    next
      case False
      have "check_files ls (length (pre @ [f])) ((pre @ [f]) @ fs') 0 (n - ?r) buf_len h' = Done (Inr True)"
        using Cons.prems fs(3) le False by (intro Cons.IH) auto
      then show ?thesis using r le fs \<open>\<not> off > l\<close> d False by (simp add: Let_def)
    qed
  qed
qed simp

text \<open>Writing: the loop overwrites the disk.\<close>

definition splice :: "bytes \<Rightarrow> nat \<Rightarrow> bytes \<Rightarrow> bytes" where
  "splice d off bs = take off d @ bs @ drop (off + length bs) d"

lemma splice_Nil [simp]: "splice d off [] = d"
  by (simp add: splice_def)

lemma length_splice: "off + length bs \<le> length d \<Longrightarrow> length (splice d off bs) = length d"
  by (simp add: splice_def)

lemma write_at_data: "off + length bs \<le> length (f_data f) \<Longrightarrow> f_data (write_at f off bs) = splice (f_data f) off bs"
  by (simp add: write_at_def splice_def)

lemma write_at_writable [simp]: "f_writable (write_at f off bs) = f_writable f"
  by (simp add: write_at_def)

lemma splice_append:
  "off \<le> length a \<Longrightarrow> m = min (length bs) (length a - off) \<Longrightarrow>
    splice (a @ b) off bs = splice a off (take m bs) @ splice b 0 (drop m bs)"
proof (cases "length bs \<le> length a - off")
  case False
  assume "off \<le> length a" "m = min (length bs) (length a - off)"
  moreover have "bs @ x = take k bs @ drop k bs @ x" for k x
    by (metis append.assoc append_take_drop_id)
  ultimately show ?thesis using False by (simp add: splice_def add.commute)
qed (simp add: splice_def)

lemma splice_later: "length a \<le> off \<Longrightarrow> splice (a @ b) off bs = a @ splice b (off - length a) bs"
  by (simp add: splice_def)

lemma write_files_disk:
  assumes "sized ls fs" "unat off + length bs \<le> total ls" "bs \<noteq> []" "\<And>f. f \<in> set fs \<Longrightarrow> f_writable f"
  shows "\<exists>fs'. write_files (\<lambda>_. None) ls (length pre) (pre @ fs) off bs = Return (True, pre @ fs') \<and>
    sized ls fs' \<and> map f_writable fs' = map f_writable fs \<and> disk fs' = splice (disk fs) (unat off) bs"
  using assms
proof (induction ls arbitrary: pre fs off bs)
  case (Cons l ls)
  then obtain f fs' where fs: "fs = f # fs'" "length (f_data f) = unat l" "sized ls fs'" "f_writable f" by auto
  show ?case
  proof (cases "off > l")
    case True
    then have u: "unat (off - l) = unat off - unat l" "unat l < unat off"
      by (simp_all add: unat_minus_gt u64_gt_iff)
    have "\<exists>gs. write_files (\<lambda>_. None) ls (length (pre @ [f])) ((pre @ [f]) @ fs') (off - l) bs =
        Return (True, (pre @ [f]) @ gs) \<and> sized ls gs \<and> map f_writable gs = map f_writable fs' \<and>
        disk gs = splice (disk fs') (unat (off - l)) bs"
      using Cons.prems u fs by (intro Cons.IH) auto
    then obtain gs where "write_files (\<lambda>_. None) ls (length (pre @ [f])) ((pre @ [f]) @ fs') (off - l) bs =
        Return (True, (pre @ [f]) @ gs)" "sized ls gs" "map f_writable gs = map f_writable fs'"
        "disk gs = splice (disk fs') (unat (off - l)) bs" by blast
    then show ?thesis using True u fs by (intro exI [of _ "f # gs"]) (simp add: splice_later)
  next
    case False
    then have le: "unat off \<le> unat l" by (simp add: u64_gt_iff)
    then have d: "unat (l - off) = unat l - unat off" by (simp add: unat_sub word_le_nat_alt)
    let ?w = "min (length bs) (unat l - unat off)"
    let ?g = "write_at f (unat off) (take ?w bs)"
    have g: "f_data ?g = splice (f_data f) (unat off) (take ?w bs)" "length (f_data ?g) = unat l"
      using le fs(2) by (simp_all add: write_at_data length_splice)
    have sp: "splice (disk fs) (unat off) bs = f_data ?g @ splice (disk fs') 0 (drop ?w bs)"
      using le fs(1,2) g(1) splice_append [of "unat off" "f_data f" ?w bs "disk fs'"] by simp
    show ?thesis
    proof (cases "drop ?w bs = []")
      case True
      then show ?thesis
        using le fs d g sp \<open>\<not> off > l\<close> by (intro exI [of _ "?g # fs'"]) (simp add: Let_def)
    next
      case False
      have "\<exists>gs. write_files (\<lambda>_. None) ls (length (pre @ [?g])) ((pre @ [?g]) @ fs') 0 (drop ?w bs) =
          Return (True, (pre @ [?g]) @ gs) \<and> sized ls gs \<and> map f_writable gs = map f_writable fs' \<and>
          disk gs = splice (disk fs') (unat (0 :: u64)) (drop ?w bs)"
        using Cons.prems fs le False by (intro Cons.IH) auto
      then obtain gs where "write_files (\<lambda>_. None) ls (length (pre @ [?g])) ((pre @ [?g]) @ fs') 0 (drop ?w bs) =
          Return (True, (pre @ [?g]) @ gs)" "sized ls gs" "map f_writable gs = map f_writable fs'"
          "disk gs = splice (disk fs') (unat (0 :: u64)) (drop ?w bs)" by blast
      then show ?thesis
        using le fs d g sp \<open>\<not> off > l\<close> False by (intro exI [of _ "?g # gs"]) (auto simp: Let_def)
    qed
  qed
qed simp

section \<open>Where pieces and chunks lie\<close>

lemma piece_end:
  assumes "lengths_ok L" "valid_index L i"
  shows "unat (piece_offset L i) + unat (piece_length_of L i) \<le> unat (total_length L)"
    "vpi_get i < vpi_get j \<Longrightarrow> unat (piece_offset L i) + unat (piece_length_of L i) \<le> unat (piece_offset L j)"
proof -
  note ok = lengths_okD [OF assms(1)]
  have le: "unat (vpi_get i) * unat (piece_length L) + unat (piece_length L) \<le> m * unat (piece_length L)"
    if "unat (vpi_get i) < m" for m
    using mult_le_mono1 [of "Suc (unat (vpi_get i))" m "unat (piece_length L)"] that by simp
  show "unat (piece_offset L i) + unat (piece_length_of L i) \<le> unat (total_length L)"
  proof (cases "vpi_get i = last_piece_id L")
    case True
    then show ?thesis using ok(10) by (simp add: unat_piece_offset piece_length_of_def)
  next
    case False
    then have "unat (vpi_get i) < unat (last_piece_id L)"
      using assms(2) by (simp add: valid_index_def word_less_nat_alt [symmetric])
    then show ?thesis using le ok(10) False by (fastforce simp: unat_piece_offset piece_length_of_def)
  qed
  assume "vpi_get i < vpi_get j"
  then show "unat (piece_offset L i) + unat (piece_length_of L i) \<le> unat (piece_offset L j)"
    using le [of "unat (vpi_get j)"] piece_length_of_bounds(2) [OF assms(1), of i]
    by (simp add: unat_piece_offset word_less_nat_alt)
qed

definition chunk_start :: "lengths \<Rightarrow> valid_piece_index \<Rightarrow> nat \<Rightarrow> nat" where
  "chunk_start L i k = unat (piece_offset L i) + k * unat (chunk_length L)"

lemma chunk_end:
  assumes "lengths_ok L" "k < n_chunks L i"
  shows "chunk_start L i k + unat (ci_size (chunk_at L i k)) \<le> unat (piece_offset L i) + unat (piece_length_of L i)"
    "m < k \<Longrightarrow> chunk_start L i m + unat (ci_size (chunk_at L i m)) \<le> chunk_start L i k"
proof -
  have "k * unat (chunk_length L) < unat (piece_length_of L i)" using assms by (simp add: less_n_chunks_iff)
  then show "chunk_start L i k + unat (ci_size (chunk_at L i k)) \<le>
      unat (piece_offset L i) + unat (piece_length_of L i)"
    by (simp add: chunk_at_values [OF assms] chunk_start_def)
  assume "m < k"
  then have "Suc m * unat (chunk_length L) \<le> k * unat (chunk_length L)" by (intro mult_le_mono1) simp
  moreover have "m < n_chunks L i" using \<open>m < k\<close> assms(2) by simp
  ultimately show "chunk_start L i m + unat (ci_size (chunk_at L i m)) \<le> chunk_start L i k"
    by (simp add: chunk_at_values [OF assms(1)] chunk_start_def)
qed

lemma unat_chunk_absolute_offset:
  assumes "lengths_ok L" "valid_index L i" "k < n_chunks L i"
  shows "unat (chunk_absolute_offset L (chunk_at L i k)) = chunk_start L i k"
    "chunk_start L i k + unat (ci_size (chunk_at L i k)) \<le> unat (total_length L)"
proof -
  show le: "chunk_start L i k + unat (ci_size (chunk_at L i k)) \<le> unat (total_length L)"
    using chunk_end(1) [OF assms(1,3)] piece_end(1) [OF assms(1,2)] by linarith
  have "ci_piece_index (chunk_at L i k) = i" by (simp add: chunk_at_def)
  then show "unat (chunk_absolute_offset L (chunk_at L i k)) = chunk_start L i k"
    unfolding chunk_absolute_offset_def chunk_start_def using le u64_bound [of "total_length L"]
    by (subst unat_add_fits) (simp_all add: chunk_at_values [OF assms(1,3)] chunk_start_def)
qed

lemma chunks_apart:
  assumes "lengths_ok L" "valid_index L i" "valid_index L j" "k < n_chunks L i" "m < n_chunks L j" "(i, k) \<noteq> (j, m)"
  shows "chunk_start L i k + unat (ci_size (chunk_at L i k)) \<le> chunk_start L j m \<or>
    chunk_start L j m + unat (ci_size (chunk_at L j m)) \<le> chunk_start L i k"
proof -
  have lt: "chunk_start L i k + unat (ci_size (chunk_at L i k)) \<le> chunk_start L j m"
    if "valid_index L i" "k < n_chunks L i" "vpi_get i < vpi_get j" for i j k m
    using chunk_end(1) [OF assms(1) that(2)] piece_end(2) [OF assms(1) that(1), of j] that(3)
    by (auto simp: chunk_start_def)
  consider "vpi_get i < vpi_get j" | "vpi_get j < vpi_get i" | "i = j"
    by (metis linorder_less_linear valid_piece_index.expand)
  then show ?thesis
  proof cases
    case 3
    then have "m < k \<or> k < m" using assms(6) by auto
    then show ?thesis using chunk_end(2) [OF assms(1)] assms(4,5) 3 by blast
  qed (use lt assms in blast)+
qed

text \<open>The content of the torrent is on its files.\<close>

definition on_disk :: "torrent_info \<Rightarrow> lengths \<Rightarrow> disk_file list \<Rightarrow> bool" where
  "on_disk info L files \<longleftrightarrow>
     (\<exists>ls. iter_file_lengths info = Inr ls \<and> sized ls files \<and> total ls = unat (total_length L))"

lemma read_chunk_disk:
  assumes "lengths_ok L" "on_disk info L files" "valid_index L i" "k < n_chunks L i"
    and "n = unat (ci_size (chunk_at L i k))"
  shows "file_read_chunk info files L (chunk_at L i k) n = Return (Some (take n (drop (chunk_start L i k) (disk files))))"
proof -
  note at = unat_chunk_absolute_offset [OF assms(1,3,4)]
  obtain ls where ls: "iter_file_lengths info = Inr ls" "sized ls files" "total ls = unat (total_length L)"
    using assms(2) by (auto simp: on_disk_def)
  have "read_files ls (length ([] :: disk_file list)) ([] @ files) (chunk_absolute_offset L (chunk_at L i k)) n [] =
      Return (Some ([] @ take n (drop (unat (chunk_absolute_offset L (chunk_at L i k))) (disk files))))"
    using at ls assms(5) chunk_at_values(4) [OF assms(1,4)] by (intro read_files_disk) simp_all
  then show ?thesis using ls assms(5) by (simp add: file_read_chunk_def at)
qed

lemma take_drop_splice_same:
  "off + length bs \<le> length d \<Longrightarrow> take (length bs) (drop off (splice d off bs)) = bs"
  by (simp add: splice_def)

lemma take_drop_splice_other:
  assumes "off + length bs \<le> length d" "a + n \<le> off \<or> off + length bs \<le> a"
  shows "take n (drop a (splice d off bs)) = take n (drop a d)"
proof (rule nth_equalityI)
  show "length (take n (drop a (splice d off bs))) = length (take n (drop a d))"
    using length_splice [OF assms(1)] by simp
  fix x
  assume "x < length (take n (drop a (splice d off bs)))"
  then have x: "x < n" "a + x < length d" using length_splice [OF assms(1)] by auto
  have "splice d off bs ! (a + x) = d ! (a + x)"
    using assms x by (auto simp: splice_def nth_append min_def)
  then show "take n (drop a (splice d off bs)) ! x = take n (drop a d) ! x"
    using x length_splice [OF assms(1)] by simp
qed

section \<open>What the initial check computes\<close>

text \<open>What is left to read, with the selection of the file each byte is in.\<close>

definition content_of :: "current_file \<Rightarrow> (byte \<times> bool) list" where
  "content_of c = map (\<lambda>b. (b, cf_required c)) (drop (unat (cf_processed c)) (f_data (cf_fd c)))"

definition content :: "current_file list \<Rightarrow> (byte \<times> bool) list" where
  "content cs = concat (map content_of cs)"

definition intact :: "current_file \<Rightarrow> bool" where
  "intact c \<longleftrightarrow> length (f_data (cf_fd c)) = unat (cf_len c) \<and> cf_processed c \<le> cf_len c \<and> \<not> cf_broken c"

lemma content_simps [simp]: "content [] = []" "content (c # cs) = content_of c @ content cs"
  by (simp_all add: content_def)

lemma length_content_of: "intact c \<Longrightarrow> length (content_of c) = unat (cf_remaining c)"
  by (simp add: content_of_def intact_def cf_remaining_def unat_sub)

lemma find_file_content:
  assumes "list_all intact (cur # rest)" "cf_required cur \<longrightarrow> required" "0 < n" "n \<le> length (content (cur # rest))"
  shows "\<exists>cur' rest' required'. find_file cur rest required n =
      Some (cur', rest', required', min (unat (cf_remaining cur')) n) \<and>
    list_all intact (cur' # rest') \<and> content (cur' # rest') = content (cur # rest) \<and>
    0 < unat (cf_remaining cur') \<and> (required \<or> cf_required cur' \<longrightarrow> required')"
  using assms
proof (induction rest arbitrary: cur required)
  case Nil
  then have "0 < unat (cf_remaining cur)" using length_content_of [of cur] by simp
  then show ?case using Nil by (auto simp: find_file.simps [of cur] Let_def)
next
  case (Cons c rest)
  show ?case
  proof (cases "unat (cf_remaining cur) = 0")
    case True
    then have e: "content_of cur = []" using length_content_of [of cur] Cons.prems(1) by simp
    have "\<exists>cur' rest' required'. find_file c rest (required \<or> cf_required c) n =
        Some (cur', rest', required', min (unat (cf_remaining cur')) n) \<and>
      list_all intact (cur' # rest') \<and> content (cur' # rest') = content (c # rest) \<and>
      0 < unat (cf_remaining cur') \<and> ((required \<or> cf_required c) \<or> cf_required cur' \<longrightarrow> required')"
      using Cons.prems e by (intro Cons.IH) simp_all
    then show ?thesis using True e by (simp add: find_file.simps [of cur] Let_def) blast
  next
    case False
    then show ?thesis using Cons.prems by (auto simp: find_file.simps [of cur] Let_def)
  qed
qed

lemma mark_processed:
  assumes "intact c" "0 < m" "m \<le> unat (cf_remaining c)"
  shows "unat (cf_processed (mark_processed_bytes c (word_of_nat m))) = unat (cf_processed c) + m"
    "intact (mark_processed_bytes c (word_of_nat m))"
    "content_of (mark_processed_bytes c (word_of_nat m)) = drop m (content_of c)"
proof -
  have le: "unat (cf_processed c) + m \<le> unat (cf_len c)" "unat (cf_len c) < 2 ^ 64"
    using assms u64_bound [of "cf_len c"] by (simp_all add: intact_def cf_remaining_def unat_sub word_le_nat_alt)
  then have "unat (word_of_nat m :: u64) = m" by (intro unat_word_of_nat_fits) simp
  then show u: "unat (cf_processed (mark_processed_bytes c (word_of_nat m))) = unat (cf_processed c) + m"
    using le by (simp add: mark_processed_bytes_def unat_add_fits)
  then show "intact (mark_processed_bytes c (word_of_nat m))"
    using assms(1) le by (simp add: intact_def word_le_nat_alt) (simp add: mark_processed_bytes_def)
  show "content_of (mark_processed_bytes c (word_of_nat m)) = drop m (content_of c)"
    unfolding content_of_def u by (simp add: mark_processed_bytes_def drop_map add.commute)
qed

lemma hash_piece_reads:
  assumes "list_all intact (cur # rest)" "cf_required cur \<longrightarrow> required" "n \<le> length (content (cur # rest))"
  shows "\<exists>cur' rest' required'. hash_piece cur rest required n False h =
      Done (cur', rest', required', False, h @ map fst (take n (content (cur # rest)))) \<and>
    list_all intact (cur' # rest') \<and> content (cur' # rest') = drop n (content (cur # rest)) \<and>
    (required \<or> True \<in> snd ` set (take n (content (cur # rest))) \<longrightarrow> required')"
  using assms
proof (induction n arbitrary: cur rest required h rule: less_induct)
  case (less n)
  show ?case
  proof (cases "n = 0")
    case True
    then show ?thesis using less.prems by (simp add: hash_piece.simps [of cur])
  next
    case False
    with less.prems obtain c1 rest1 req1 where f: "find_file cur rest required n =
          Some (c1, rest1, req1, min (unat (cf_remaining c1)) n)"
      "list_all intact (c1 # rest1)" "content (c1 # rest1) = content (cur # rest)"
      "0 < unat (cf_remaining c1)" "required \<or> cf_required c1 \<longrightarrow> req1"
      using find_file_content [of cur rest required n] by blast
    define m where "m = min (unat (cf_remaining c1)) n"
    define c2 where "c2 = mark_processed_bytes c1 (word_of_nat m)"
    have i1: "intact c1" and m: "0 < m" "m \<le> unat (cf_remaining c1)" "m \<le> n"
      using f(2,4) False by (simp_all add: m_def)
    note c2 = mark_processed [OF i1 m(1,2), folded c2_def]
    have len1: "length (content_of c1) = unat (cf_remaining c1)" using i1 by (rule length_content_of)
    have r2: "cf_required c2 = cf_required c1" "cf_fd c2 = cf_fd c1" "\<not> cf_broken c2"
      using i1 by (simp_all add: c2_def mark_processed_bytes_def intact_def)
    have taken: "take m (content (cur # rest)) = take m (content_of c1)"
      "drop m (content (cur # rest)) = content (c2 # rest1)"
      using m len1 unfolding f(3) [symmetric] by (simp_all add: c2(3))
    have up: "update_hash_from_file (cf_fd c2) (unat (cf_processed c1)) 65536 h m =
        Some (True, h @ map fst (take m (content_of c1)))"
    proof -
      have "unat (cf_processed c1) + m \<le> length (f_data (cf_fd c1))"
        using i1 m(2) len1 by (auto simp: intact_def content_of_def word_le_nat_alt)
      then show ?thesis unfolding r2(2)
        by (subst update_hash_reads) (simp_all add: content_of_def take_map [symmetric] comp_def)
    qed
    have "\<exists>cur' rest' required'. hash_piece c2 rest1 req1 (n - m) False (h @ map fst (take m (content_of c1))) =
        Done (cur', rest', required', False,
          (h @ map fst (take m (content_of c1))) @ map fst (take (n - m) (content (c2 # rest1)))) \<and>
      list_all intact (cur' # rest') \<and> content (cur' # rest') = drop (n - m) (content (c2 # rest1)) \<and>
      (req1 \<or> True \<in> snd ` set (take (n - m) (content (c2 # rest1))) \<longrightarrow> required')"
    proof (rule less.IH)
      show "n - m < n" using m(1) False by simp
      show "n - m \<le> length (content (c2 # rest1))"
        using less.prems(3) unfolding taken(2) [symmetric] length_drop by (rule diff_le_mono)
    qed (use f(2,5) c2(2) r2 in auto)
    then obtain cur' rest' required' where
      g: "hash_piece c2 rest1 req1 (n - m) False (h @ map fst (take m (content_of c1))) =
        Done (cur', rest', required', False,
          (h @ map fst (take m (content_of c1))) @ map fst (take (n - m) (content (c2 # rest1))))"
      "list_all intact (cur' # rest')" "content (cur' # rest') = drop (n - m) (content (c2 # rest1))"
      "req1 \<or> True \<in> snd ` set (take (n - m) (content (c2 # rest1))) \<longrightarrow> required'" by blast
    have split: "take n (content (cur # rest)) = take m (content_of c1) @ take (n - m) (content (c2 # rest1))"
      using take_add [of m "n - m" "content (cur # rest)"] m(3) unfolding taken by (simp del: content_simps)
    have "drop (n - m) (content (c2 # rest1)) = drop n (content (cur # rest))"
      using m(3) unfolding taken(2) [symmetric] drop_drop by simp
    moreover have "snd ` set (take m (content_of c1)) \<subseteq> {cf_required c1}"
      by (auto simp: content_of_def dest!: in_set_takeD)
    ultimately show ?thesis
      using False f(1,5) r2 up g unfolding split
      by (subst hash_piece.simps) (auto simp: m_def [symmetric] c2_def [symmetric] Let_def)
  qed
qed

definition selected_bytes :: "nat list option \<Rightarrow> u64 list \<Rightarrow> bool list" where
  "selected_bytes only_files ls =
     concat (map (\<lambda>(idx, l). replicate (unat l) (selected only_files idx)) (enumerate 0 ls))"

lemma file_iterator_content:
  assumes "sized ls files"
  shows "list_all intact (file_iterator only_files files ls)"
    "map fst (content (file_iterator only_files files ls)) = disk files"
    "map snd (content (file_iterator only_files files ls)) = selected_bytes only_files ls"
proof -
  have "list_all intact cs \<and> map fst (content cs) = disk files \<and>
      map snd (content cs) = concat (map (\<lambda>(idx, l). replicate (unat l) (selected only_files idx)) (enumerate n ls))"
    if "cs = map (\<lambda>(idx, (fd, len)). \<lparr>cf_index = idx, cf_fd = fd, cf_len = len,
         cf_required = selected only_files idx, cf_processed = 0, cf_broken = False\<rparr>)
       (enumerate n (zip files ls))" for n cs
    using assms that
    by (induction ls arbitrary: files n cs)
      (auto simp: content_of_def intact_def comp_def map_replicate_const)
  from this [of "file_iterator only_files files ls" 0]
  show "list_all intact (file_iterator only_files files ls)"
    "map fst (content (file_iterator only_files files ls)) = disk files"
    "map snd (content (file_iterator only_files files ls)) = selected_bytes only_files ls"
    by (simp_all add: file_iterator_def selected_bytes_def)
qed

text \<open>A piece is verified when its hash is the listed one, and wanted when it holds a byte of a selected file.\<close>

definition piece_slice :: "lengths \<Rightarrow> 'a list \<Rightarrow> nat \<Rightarrow> 'a list" where
  "piece_slice L d k =
     take (unat (piece_length_of L (ValidPieceIndex (word_of_nat k))))
       (drop (unat (piece_offset L (ValidPieceIndex (word_of_nat k)))) d)"

definition verified :: "(bytes \<Rightarrow> bytes) \<Rightarrow> torrent_info \<Rightarrow> lengths \<Rightarrow> bytes \<Rightarrow> nat \<Rightarrow> bool" where
  "verified sha1 info L d k \<longleftrightarrow> compare_hash info (word_of_nat k) (sha1 (piece_slice L d k)) = Some True"

definition wanted :: "lengths \<Rightarrow> bool list \<Rightarrow> nat \<Rightarrow> bool" where
  "wanted L sel k \<longleftrightarrow> True \<in> set (piece_slice L sel k)"

definition pieces_below :: "nat \<Rightarrow> (nat \<Rightarrow> bool) \<Rightarrow> nat list" where
  "pieces_below k P = filter P [0..<k]"

lemma bytes_in_Suc:
  "word_of_nat (bytes_in L (pieces_below (Suc k) P)) =
     (word_of_nat (bytes_in L (pieces_below k P)) :: u64) +
     (if P k then ucast (piece_length_of L (ValidPieceIndex (word_of_nat k))) else 0)"
  by (simp add: pieces_below_def bytes_in_def word_of_nat_eq_iff flip: unat_ucast_u32)

definition checked_upto ::
  "(bytes \<Rightarrow> bytes) \<Rightarrow> torrent_info \<Rightarrow> lengths \<Rightarrow> bytes \<Rightarrow> bool list \<Rightarrow> nat \<Rightarrow> (nat \<Rightarrow> bool) \<Rightarrow> initial_results \<Rightarrow> bool" where
  "checked_upto sha1 info L d sel k R r \<longleftrightarrow>
     (\<forall>j < k. wanted L sel j \<longrightarrow> R j) \<and>
     ir_have_pieces r = map (\<lambda>j. j < k \<and> verified sha1 info L d j) [0..<8 * piece_bitfield_bytes L] \<and>
     ir_needed_pieces r = map (\<lambda>j. j < k \<and> R j \<and> \<not> verified sha1 info L d j) [0..<8 * piece_bitfield_bytes L] \<and>
     ir_have_bytes r = word_of_nat (bytes_in L (pieces_below k (verified sha1 info L d))) \<and>
     ir_needed_bytes r = word_of_nat (bytes_in L (pieces_below k (\<lambda>j. R j \<and> \<not> verified sha1 info L d j))) \<and>
     ir_total_selected_bytes r = word_of_nat (bytes_in L (pieces_below k R))"

lemma checked_upto_fun_upd:
  "checked_upto sha1 info L d sel k R r \<Longrightarrow> checked_upto sha1 info L d sel k (R(k := b)) r"
proof -
  have f: "filter (\<lambda>j. (R(k := b)) j \<and> P j) [0..<k] = filter (\<lambda>j. R j \<and> P j) [0..<k]" for P
    by (rule filter_cong) auto
  have g: "filter (R(k := b)) [0..<k] = filter R [0..<k]" by (rule filter_cong) auto
  assume "checked_upto sha1 info L d sel k R r"
  then show ?thesis
    unfolding checked_upto_def pieces_below_def f g by (auto intro!: map_cong)
qed

lemma bitfield_holds_pieces:
  assumes "lengths_ok L" shows "n_pieces L \<le> 8 * piece_bitfield_bytes L" "8 * piece_bitfield_bytes L \<le> 2 ^ 32"
proof -
  have n: "n_pieces L < 2 ^ 32" using assms by (rule n_pieces_bound)
  have "piece_bitfield_bytes L = ceil_div (n_pieces L) 8"
    unfolding piece_bitfield_bytes_def using n
    by (subst unat_ceil_div_u64) (simp_all add: unat_total_pieces [OF assms])
  then show "n_pieces L \<le> 8 * piece_bitfield_bytes L" "8 * piece_bitfield_bytes L \<le> 2 ^ 32"
    using n by (simp_all add: ceil_div_def)
qed

lemma bf_from_zeros: "bf_from_vec (replicate n 0) = replicate (8 * n) False"
proof -
  have "byte_bits 0 = replicate 8 False" by code_simp
  then show ?thesis by (induction n) (simp_all add: bf_from_vec_def replicate_add [symmetric])
qed

lemma map_bool_update:
  "k < n \<Longrightarrow> (map (\<lambda>j. j < k \<and> P j) [0..<n])[k := P k] = map (\<lambda>j. j < Suc k \<and> P j) [0..<n]"
  by (rule nth_equalityI) (auto simp: nth_list_update less_Suc_eq)

lemma map_bool_Suc: "\<not> P k \<Longrightarrow> map (\<lambda>j. j < Suc k \<and> P j) [0..<n] = map (\<lambda>j. j < k \<and> P j) [0..<n]"
  by (auto simp: less_Suc_eq)

lemma checked_upto_step:
  assumes "checked_upto sha1 info L d sel k R r" "lengths_ok L" "k < n_pieces L"
    and "20 * n_pieces L \<le> length (ti_pieces info)" "wanted L sel k \<longrightarrow> required"
    and "p = iter_piece_infos L ! k"
  shows "\<exists>r'. note_piece sha1 info p required False (piece_slice L d k) r = Done r' \<and>
    checked_upto sha1 info L d sel (Suc k) (R(k := required)) r'"
proof -
  define R' where "R' = R(k := required)"
  define V where "V = verified sha1 info L d"
  have inv: "checked_upto sha1 info L d sel k R' r" unfolding R'_def by (rule checked_upto_fun_upd [OF assms(1)])
  have Rk: "R' k = required" by (simp add: R'_def)
  have p: "pi_piece_index p = ValidPieceIndex (word_of_nat k)"
    "pi_len p = piece_length_of L (ValidPieceIndex (word_of_nat k))"
    using assms(3,6) by (simp_all add: iter_piece_infos_nth [OF assms(2)])
  have k: "unat (word_of_nat k :: u32) = k" "k < 8 * piece_bitfield_bytes L"
    using assms(3) n_pieces_bound [OF assms(2)] bitfield_holds_pieces(1) [OF assms(2)]
    by (simp_all add: unat_u32_of_nat)
  have cmp: "compare_hash info (word_of_nat k) (sha1 (piece_slice L d k)) = Some (V k)"
    using assms(3,4) k(1) by (auto simp: V_def verified_def compare_hash_def get_range_def Let_def)
  have wt: "\<forall>j < Suc k. wanted L sel j \<longrightarrow> R' j"
    using inv assms(5) Rk by (auto simp: checked_upto_def less_Suc_eq)
  have upd: "(map (\<lambda>j. j < k \<and> P j) [0..<8 * piece_bitfield_bytes L])[k := True] =
      map (\<lambda>j. j < Suc k \<and> P j) [0..<8 * piece_bitfield_bytes L]" if "P k" for P
    using map_bool_update [of k "8 * piece_bitfield_bytes L" P] that k(2) by simp
  show ?thesis
    using inv wt k(2) unfolding R'_def [symmetric] checked_upto_def V_def [symmetric]
    by (cases required; cases "V k")
      (simp_all add: note_piece_def p cmp mark_bit_def k bf_set_def upd bytes_in_Suc Rk map_bool_Suc Let_def
        del: upt_Suc)
qed

lemma check_pieces_all:
  assumes "lengths_ok L" "20 * n_pieces L \<le> length (ti_pieces info)"
    and "length d = unat (total_length L)" "length sel = unat (total_length L)" "n = n_pieces L"
  shows "k \<le> n \<Longrightarrow> list_all intact (cur # rest) \<Longrightarrow>
    content (cur # rest) = drop (sum_list (map (unat \<circ> pi_len) (take k (iter_piece_infos L)))) (zip d sel) \<Longrightarrow>
    checked_upto sha1 info L d sel k R r \<Longrightarrow>
    \<exists>r' R'. check_pieces sha1 info (drop k (iter_piece_infos L)) cur rest r = Done r' \<and>
      checked_upto sha1 info L d sel n R' r'"
proof (induction "n - k" arbitrary: k cur rest r R)
  case 0
  then have "drop k (iter_piece_infos L) = []" using assms(1,5) by (simp add: length_iter_piece_infos)
  then show ?case using 0 by auto
next
  case (Suc m)
  then have k: "k < n_pieces L" using assms(5) by simp
  define p where "p = iter_piece_infos L ! k"
  define i where "i = ValidPieceIndex (word_of_nat k)"
  have p: "pi_len p = piece_length_of L i" using k by (simp add: p_def i_def iter_piece_infos_nth [OF assms(1)])
  have dr: "drop k (iter_piece_infos L) = p # drop (Suc k) (iter_piece_infos L)"
    using k assms(1) by (simp add: p_def Cons_nth_drop_Suc length_iter_piece_infos)
  have off: "sum_list (map (unat \<circ> pi_len) (take k (iter_piece_infos L))) = unat (piece_offset L i)"
    unfolding i_def by (rule sum_piece_lengths_before [OF assms(1) k])
  have off': "sum_list (map (unat \<circ> pi_len) (take (Suc k) (iter_piece_infos L))) = unat (piece_offset L i) + unat (pi_len p)"
    using k by (simp add: take_Suc_conv_app_nth length_iter_piece_infos [OF assms(1)] p_def off)
  have "valid_index L i"
    using validate_of_nat [OF assms(1), of k] k by (auto simp: i_def validate_piece_index_def valid_index_def split: if_splits)
  from piece_end(1) [OF assms(1) this] have fits: "unat (piece_offset L i) + unat (pi_len p) \<le> length (zip d sel)"
    using assms(3,4) by (simp add: p)
  have con: "content (cur # rest) = drop (unat (piece_offset L i)) (zip d sel)" using Suc.prems(3) off by simp
  have len: "unat (pi_len p) \<le> length (content (cur # rest))" unfolding con length_drop using fits by linarith
  obtain cur' rest' req' where h: "hash_piece cur rest (cf_required cur) (unat (pi_len p)) False [] =
      Done (cur', rest', req', False, [] @ map fst (take (unat (pi_len p)) (content (cur # rest))))"
    "list_all intact (cur' # rest')" "content (cur' # rest') = drop (unat (pi_len p)) (content (cur # rest))"
    "True \<in> snd ` set (take (unat (pi_len p)) (content (cur # rest))) \<longrightarrow> req'"
    using hash_piece_reads [OF Suc.prems(2) _ len, of "cf_required cur" "[]"] by blast
  have same: "length d = length sel" using assms(3,4) by simp
  have slice: "map fst (take (unat (pi_len p)) (content (cur # rest))) = piece_slice L d k"
    "snd ` set (take (unat (pi_len p)) (content (cur # rest))) = set (piece_slice L sel k)"
    unfolding con piece_slice_def p i_def [symmetric] set_map [symmetric] take_map [symmetric] drop_map [symmetric]
    by (simp_all add: same)
  have "wanted L sel k \<longrightarrow> req'" using h(4) unfolding slice(2) by (simp add: wanted_def)
  then obtain r1 where r1: "note_piece sha1 info p req' False (piece_slice L d k) r = Done r1"
    "checked_upto sha1 info L d sel (Suc k) (R(k := req')) r1"
    using checked_upto_step [OF Suc.prems(4) assms(1) k assms(2) _ p_def] by blast
  have "content (cur' # rest') = drop (sum_list (map (unat \<circ> pi_len) (take (Suc k) (iter_piece_infos L)))) (zip d sel)"
    unfolding h(3) con off' by (simp add: add.commute)
  moreover have e: "m = n - Suc k" "Suc k \<le> n" using Suc.hyps(2) by simp_all
  ultimately obtain r' R' where "check_pieces sha1 info (drop (Suc k) (iter_piece_infos L)) cur' rest' r1 = Done r'"
    "checked_upto sha1 info L d sel n R' r'" using Suc.hyps(1) [OF e h(2) _ r1(2)] by blast
  then show ?case using h(1) r1(1) slice(1) by (auto simp: dr simp del: content_simps)
qed

lemma sum_piece_bytes_map:
  assumes "lengths_ok L" "N = n_pieces L"
  shows "sum_piece_bytes L (map (\<lambda>j. j < N \<and> P j) [0..<8 * piece_bitfield_bytes L]) =
    word_of_nat (bytes_in L (pieces_below N P))"
proof -
  define bs where "bs = map (\<lambda>j. j < N \<and> P j) [0..<8 * piece_bitfield_bytes L]"
  note b = bitfield_holds_pieces [OF assms(1)]
  have "bs ! i = P i" if "i < N" for i
  proof -
    have "i < 8 * piece_bitfield_bytes L" using that b(1) assms(2) by linarith
    then show ?thesis using that by (simp add: bs_def)
  qed
  then have "filter (\<lambda>i. bs ! i) [0..<N] = filter P [0..<N]" by (intro filter_cong) simp_all
  then have "unat (sum_piece_bytes L bs) = bytes_in L (pieces_below N P)"
    using sum_piece_bytes_eq [OF assms(1), of bs] b assms(2) by (simp add: bs_def pieces_below_def)
  from this [symmetric] show ?thesis by (simp add: bs_def)
qed

section \<open>Correctness\<close>

text \<open>A torrent of two files for the witnesses; its second chunk lies on both.\<close>

definition small_info :: torrent_info where
  "small_info = \<lparr>ti_name = None, ti_pieces = replicate 40 0, ti_piece_length = 32768, ti_length = None,
     ti_md5sum = None, ti_files = Some [\<lparr>tf_length = 20000, tf_path = [ascii ''a'']\<rparr>,
       \<lparr>tf_length = 12771, tf_path = [ascii ''b'']\<rparr>]\<rparr>"

definition small_files :: "disk_file list" where
  "small_files = [\<lparr>f_data = replicate 20000 0, f_writable = True\<rparr>, \<lparr>f_data = replicate 12771 0, f_writable = True\<rparr>]"

lemma small_info_lengths: "iter_file_lengths small_info = Inr [20000, 12771]"
  by (simp add: iter_file_lengths_def iter_filenames_and_lengths_def small_info_def)

lemma small_sized: "sized [20000, 12771] small_files" "total [20000, 12771] = unat (total_length small_lengths)"
  by (simp_all add: small_files_def small_lengths_def)

lemma small_on_disk: "on_disk small_info small_lengths small_files"
  unfolding on_disk_def using small_info_lengths small_sized by blast

lemma small_ok: "lengths_ok small_lengths"
  using small_geometry by (simp add: geometry_ok_def)


text \<open>
  C26: Writing a chunk refines overwriting a range of the torrent's content. When the files hold the
  whole torrent and can be written, \<open>write_chunk\<close> of a block on its chunk succeeds, the files keep their
  lengths, their content is the old one with the block in the place of the chunk, whatever the files
  the chunk lies on; reading the chunk gives the block back, and reading any other chunk gives what it
  gave before.
\<close>

theorem write_chunk_refines:
  assumes "lengths_ok L" "on_disk info L files" "\<And>f. f \<in> set files \<Longrightarrow> f_writable f"
    and "valid_index L i" "k < n_chunks L i" "length block = unat (ci_size (chunk_at L i k))"
  shows "\<exists>files'. file_write_chunk (\<lambda>_. None) info files L block (chunk_at L i k) = Return (True, files') \<and>
    on_disk info L files' \<and> map f_writable files' = map f_writable files \<and>
    disk files' = splice (disk files) (chunk_start L i k) block \<and>
    file_read_chunk info files' L (chunk_at L i k) (length block) = Return (Some block) \<and>
    (\<forall>j m. valid_index L j \<and> m < n_chunks L j \<and> (j, m) \<noteq> (i, k) \<longrightarrow>
       file_read_chunk info files' L (chunk_at L j m) (unat (ci_size (chunk_at L j m))) =
       file_read_chunk info files L (chunk_at L j m) (unat (ci_size (chunk_at L j m))))"
proof -
  note at = unat_chunk_absolute_offset [OF assms(1,4,5)]
  obtain ls where ls: "iter_file_lengths info = Inr ls" "sized ls files" "total ls = unat (total_length L)"
    using assms(2) by (auto simp: on_disk_def)
  have ne: "block \<noteq> []" using assms(6) chunk_at_values(4) [OF assms(1,5)] by auto
  have fits: "chunk_start L i k + length block \<le> length (disk files)"
    using at ls assms(6) by (simp add: length_disk)
  have "\<exists>files'. write_files (\<lambda>_. None) ls (length ([] :: disk_file list)) ([] @ files) (chunk_absolute_offset L (chunk_at L i k)) block =
      Return (True, [] @ files') \<and> sized ls files' \<and> map f_writable files' = map f_writable files \<and>
      disk files' = splice (disk files) (unat (chunk_absolute_offset L (chunk_at L i k))) block"
    using at ls assms(3,6) ne by (intro write_files_disk) simp_all
  then obtain files' where w: "file_write_chunk (\<lambda>_. None) info files L block (chunk_at L i k) = Return (True, files')"
    "sized ls files'" "map f_writable files' = map f_writable files"
    "disk files' = splice (disk files) (chunk_start L i k) block"
    using ls(1) at by (auto simp: file_write_chunk_def)
  then have d: "on_disk info L files'" using ls by (auto simp: on_disk_def)
  have "file_read_chunk info files' L (chunk_at L i k) (length block) = Return (Some block)"
    using read_chunk_disk [OF assms(1) d assms(4,5,6)] take_drop_splice_same [OF fits] by (simp add: w(4))
  moreover have "file_read_chunk info files' L (chunk_at L j m) (unat (ci_size (chunk_at L j m))) =
      file_read_chunk info files L (chunk_at L j m) (unat (ci_size (chunk_at L j m)))"
    if "valid_index L j" "m < n_chunks L j" "(j, m) \<noteq> (i, k)" for j m
    using chunks_apart [OF assms(1) that(1) assms(4) that(2) assms(5) that(3)] take_drop_splice_other [OF fits] assms(6)
    by (simp add: read_chunk_disk [OF assms(1) d that(1,2) refl] read_chunk_disk [OF assms(1,2) that(1,2) refl] w(4))
  ultimately show ?thesis using w d by blast
qed

theorem write_chunk_refines_witness:
  "\<exists>files'. file_write_chunk (\<lambda>_. None) small_info small_files small_lengths (replicate 16384 1)
      (chunk_at small_lengths (ValidPieceIndex 0) 1) = Return (True, files') \<and>
    disk files' = splice (disk small_files) 16384 (replicate 16384 1) \<and>
    file_read_chunk small_info files' small_lengths (chunk_at small_lengths (ValidPieceIndex 0) 1) 16384 =
      Return (Some (replicate 16384 1))"
proof -
  have "chunks_per_piece small_lengths (ValidPieceIndex 0) = 2" by code_simp
  then have k: "1 < n_chunks small_lengths (ValidPieceIndex 0)" by simp
  have v: "valid_index small_lengths (ValidPieceIndex 0)" by (simp add: valid_index_def)
  have l: "length (replicate 16384 (1 :: byte)) = unat (ci_size (chunk_at small_lengths (ValidPieceIndex 0) 1))"
    using chunk_at_values(2) [OF small_ok k] by (simp add: small_lengths_def piece_length_of_def)
  have w: "f_writable f" if "f \<in> set small_files" for f using that by (auto simp: small_files_def)
  have "chunk_start small_lengths (ValidPieceIndex 0) 1 = 16384"
    by (simp add: chunk_start_def unat_piece_offset small_lengths_def)
  then show ?thesis using write_chunk_refines [OF small_ok small_on_disk w v k l] by auto
qed

text \<open>
  C28: \<open>check_piece\<close> accepts every piece. When the files hold the whole torrent the check of a valid
  piece answers that the piece is fine, whatever the files contain, whatever the hash function is and
  whatever hashes the torrent lists: the loop over the files returns when it has read the piece, before
  the hash is compared.
\<close>

theorem check_piece_accepts_anything:
  assumes "lengths_ok L" "on_disk info L files" "valid_index L i"
  shows "check_piece sha1 info files L i = Done True"
proof -
  obtain ls where ls: "iter_file_lengths info = Inr ls" "sized ls files" "total ls = unat (total_length L)"
    using assms(2) by (auto simp: on_disk_def)
  have "check_files ls (length ([] :: disk_file list)) ([] @ files) (piece_offset L i) (unat (piece_length_of L i))
      (min 65536 (unat (piece_length_of L i))) [] = Done (Inr True)"
    using piece_end(1) [OF assms(1,3)] piece_length_of_bounds(1) [OF assms(1), of i] ls
    by (intro check_files_done) simp_all
  then show ?thesis using ls by (simp add: check_piece_def)
qed

theorem check_piece_accepts_anything_witness:
  "compare_hash small_info 0 (replicate 20 9) = Some False \<and>
   check_piece (\<lambda>_. replicate 20 9) small_info small_files small_lengths (ValidPieceIndex 0) = Done True"
proof -
  have "valid_index small_lengths (ValidPieceIndex 0)" by (simp add: valid_index_def)
  moreover have "compare_hash small_info 0 (replicate 20 9) = Some False" by code_simp
  ultimately show ?thesis using check_piece_accepts_anything [OF small_ok small_on_disk] by simp
qed

text \<open>The initial check, with the tracker made from its result.\<close>

lemma initial_check_finds:
  assumes "geometry_ok L" "iter_file_lengths info = Inr ls" "sized ls files" "total ls = unat (total_length L)"
    and "20 * n_pieces L \<le> length (ti_pieces info)"
  shows "\<exists>r ct. initial_check sha1 info files L only_files = Done r \<and>
    (\<forall>k < n_pieces L.
       (ir_have_pieces r ! k \<longleftrightarrow> verified sha1 info L (disk files) k) \<and>
       (wanted L (selected_bytes only_files ls) k \<longrightarrow> ir_have_pieces r ! k \<or> ir_needed_pieces r ! k) \<and>
       \<not> (ir_have_pieces r ! k \<and> ir_needed_pieces r ! k)) \<and>
    ir_have_bytes r = sum_piece_bytes L (ir_have_pieces r) \<and>
    ir_needed_bytes r = sum_piece_bytes L (ir_needed_pieces r) \<and>
    chunk_tracker_new (ir_needed_pieces r) (ir_have_pieces r) L (ir_total_selected_bytes r) = Return ct \<and>
    tracker_ok ct \<and> needed_pieces ct = ir_needed_pieces r \<and> have_pieces ct = ir_have_pieces r"
proof -
  have ok: "lengths_ok L" using assms(1) by (simp add: geometry_ok_def)
  define sel where "sel = selected_bytes only_files ls"
  define fi where "fi = file_iterator only_files files ls"
  note fi = file_iterator_content [OF assms(3), of only_files, folded fi_def sel_def]
  have ld: "length (disk files) = unat (total_length L)" using assms(3,4) by (simp add: length_disk)
  moreover have "length sel = length (disk files)" using fi(2,3) by (metis length_map)
  ultimately have ls: "length sel = unat (total_length L)" by simp
  have zip: "content fi = zip (disk files) sel" using fi(2,3) by (metis zip_map_fst_snd)
  have "disk files \<noteq> []" using ld lengths_okD(5,10) [OF ok] by auto
  then obtain cur rest where cr: "fi = cur # rest" using fi(2) by (cases fi) auto
  define zero where "zero = replicate (8 * piece_bitfield_bytes L) False"
  define r0 where "r0 = \<lparr>ir_needed_pieces = zero, ir_have_pieces = zero, ir_have_bytes = 0,
    ir_needed_bytes = 0, ir_total_selected_bytes = 0\<rparr>"
  have "checked_upto sha1 info L (disk files) sel 0 (\<lambda>_. True) r0"
    by (simp add: checked_upto_def r0_def zero_def pieces_below_def bytes_in_def map_replicate_const)
  moreover have "content (cur # rest) = drop (sum_list (map (unat \<circ> pi_len) (take 0 (iter_piece_infos L)))) (zip (disk files) sel)"
    using zip cr by simp
  moreover have "list_all intact (cur # rest)" using fi(1) cr by simp
  ultimately obtain r R where r: "check_pieces sha1 info (drop 0 (iter_piece_infos L)) cur rest r0 = Done r"
    "checked_upto sha1 info L (disk files) sel (n_pieces L) R r"
    using check_pieces_all [OF ok assms(5) ld ls refl, of 0] by blast
  have "initial_check sha1 info files L only_files = Done r"
    using r(1) assms(2) by (simp add: initial_check_def fi_def [symmetric] cr bf_from_zeros r0_def zero_def)
  moreover note b = bitfield_holds_pieces [OF ok]
  have bits: "length (ir_have_pieces r) = 8 * piece_bitfield_bytes L"
    "length (ir_needed_pieces r) = 8 * piece_bitfield_bytes L"
    using r(2) by (simp_all add: checked_upto_def)
  moreover have "\<exists>ct. chunk_tracker_new (ir_needed_pieces r) (ir_have_pieces r) L (ir_total_selected_bytes r) = Return ct \<and>
      tracker_ok ct \<and> needed_pieces ct = ir_needed_pieces r \<and> have_pieces ct = ir_have_pieces r"
    using chunk_tracker_new_ok [OF assms(1), of "ir_needed_pieces r" "ir_have_pieces r" "ir_total_selected_bytes r"] bits b
    by auto
  moreover have "ir_have_bytes r = sum_piece_bytes L (ir_have_pieces r)"
    "ir_needed_bytes r = sum_piece_bytes L (ir_needed_pieces r)"
    using r(2) by (simp_all only: checked_upto_def sum_piece_bytes_map [OF ok refl])
  moreover have "(ir_have_pieces r ! k \<longleftrightarrow> verified sha1 info L (disk files) k) \<and>
      (wanted L sel k \<longrightarrow> ir_have_pieces r ! k \<or> ir_needed_pieces r ! k) \<and>
      \<not> (ir_have_pieces r ! k \<and> ir_needed_pieces r ! k)" if "k < n_pieces L" for k
    using r(2) that b(1) by (auto simp: checked_upto_def)
  ultimately show ?thesis unfolding sel_def by blast
qed

text \<open>
  C30: The initial check finds out what is on the disk. When the files hold the whole torrent and a hash
  is listed for every piece, the check runs to its end; the pieces it reports as there are exactly those
  whose hash is the listed one; a piece that is not there is reported as needed when it holds a byte of a
  selected file, and no piece is both; the byte counts are those of the two bit fields; and the chunk
  tracker made from them is well formed.
\<close>

theorem initial_check_correct:
  assumes "geometry_ok L" "iter_file_lengths info = Inr ls" "sized ls files" "total ls = unat (total_length L)"
    and "20 * n_pieces L \<le> length (ti_pieces info)"
  shows "\<exists>r ct. initial_check sha1 info files L only_files = Done r \<and>
    (\<forall>k < n_pieces L.
       (ir_have_pieces r ! k \<longleftrightarrow> verified sha1 info L (disk files) k) \<and>
       (wanted L (selected_bytes only_files ls) k \<longrightarrow> ir_have_pieces r ! k \<or> ir_needed_pieces r ! k) \<and>
       \<not> (ir_have_pieces r ! k \<and> ir_needed_pieces r ! k)) \<and>
    ir_have_bytes r = sum_piece_bytes L (ir_have_pieces r) \<and>
    ir_needed_bytes r = sum_piece_bytes L (ir_needed_pieces r) \<and>
    chunk_tracker_new (ir_needed_pieces r) (ir_have_pieces r) L (ir_total_selected_bytes r) = Return ct \<and>
    tracker_ok ct \<and> needed_pieces ct = ir_needed_pieces r \<and> have_pieces ct = ir_have_pieces r"
  by (rule initial_check_finds [OF assms])

theorem initial_check_correct_witness:
  "\<exists>r. initial_check (\<lambda>_. replicate 20 9) small_info small_files small_lengths None = Done r \<and>
     \<not> ir_have_pieces r ! 0 \<and> ir_needed_pieces r ! 0"
proof -
  have h: "20 * n_pieces small_lengths \<le> length (ti_pieces small_info)" by (simp add: small_info_def)
  have s: "\<not> verified (\<lambda>_. replicate 20 9) small_info small_lengths d 0" for d
  proof -
    have "compare_hash small_info 0 (replicate 20 9) = Some False" by code_simp
    then show ?thesis by (simp add: verified_def)
  qed
  have "selected_bytes None [20000, 12771] = replicate 32771 True"
    by (simp add: selected_bytes_def selected_def replicate_add [symmetric])
  then have "wanted small_lengths (selected_bytes None [20000, 12771]) 0"
    by (simp add: wanted_def piece_slice_def unat_piece_offset small_lengths_def piece_length_of_def)
  then show ?thesis
    using initial_check_correct [OF small_geometry small_info_lengths small_sized h,
        of "\<lambda>_. replicate 20 9" None] s by (metis zero_less_Suc)
qed

text \<open>A run of two parts.\<close>

lemma bind_run_Done [simp]: "bind_run m f = Done y \<longleftrightarrow> (\<exists>x. m = Done x \<and> f x = Done y)"
  by (cases m) auto

end
