(* ===== verification/Live.thy ===== *)
theory Live
  imports PeerStates FileOps
begin

text \<open>
  Model of \<open>torrent_state/live/mod.rs\<close>: a torrent that is being downloaded and uploaded. The state is the
  table of peers, the chunk tracker with the pieces in flight, the files and the statistics; a
  \<open>peer_handler\<close> is what one connection keeps for itself. A handler of the source that takes the lock
  once is one function here; \<open>on_received_piece\<close> takes it before and after the disk is written and is
  two functions. Time is in nanoseconds since some start. A spawned task is recorded in the state.
\<close>

record inflight_piece =
  ip_peer :: socket_addr
  ip_started :: nat

record atomic_stats =
  as_have_bytes :: u64
  as_downloaded_and_checked_bytes :: u64
  as_downloaded_and_checked_pieces :: u64
  as_uploaded_bytes :: u64
  as_fetched_bytes :: u64
  as_total_piece_download_ms :: u64

text \<open>
  \<open>tl_adding\<close> is the peer for which \<open>task_peer_adder\<close> waits for a permit, \<open>tl_waiting\<close> are the sleepers
  that put a dead peer back in the queue.
\<close>

record 'b torrent_live =
  tl_peers :: "'b peers"
  tl_info :: torrent_info
  tl_chunks :: "chunk_tracker option"
  tl_inflight :: "(valid_piece_index \<times> inflight_piece) list"
  tl_fatal_errors_tx :: bool
  tl_fatal_error :: bool
  tl_files :: "disk_file list"
  tl_initially_needed_bytes :: u64
  tl_total_selected_bytes :: u64
  tl_stats :: atomic_stats
  tl_lengths :: lengths
  tl_peer_semaphore :: nat
  tl_peer_queue :: "socket_addr list"
  tl_adding :: "socket_addr option"
  tl_waiting :: "socket_addr list"
  tl_finished_notified :: bool
  tl_cancelled :: bool

record paused =
  pa_info :: torrent_info
  pa_files :: "disk_file list"
  pa_chunk_tracker :: chunk_tracker
  pa_have_bytes :: u64
  pa_needed_bytes :: u64

record peer_handler_state =
  ph_addr :: socket_addr
  ph_tx :: nat
  ph_counters :: nat
  ph_i_am_choked :: bool
  ph_requests_sem :: nat

text \<open>
  What the source takes from elsewhere: the \<open>backoff\<close> crate, SHA-1, the floating-point comparison of
  \<open>try_steal_old_slow_piece\<close> (elapsed time, average time, threshold), and what the operating system
  does with writes, with opening the files again, and with opening \<open>/dev/null\<close>.
\<close>

record 'b live_env =
  en_backoff :: "'b backoff_ops"
  en_sha1 :: "bytes \<Rightarrow> bytes"
  en_too_slow :: "nat \<Rightarrow> u64 \<Rightarrow> nat \<Rightarrow> bool"
  en_io :: "nat \<Rightarrow> nat option"
  en_reopen :: "nat \<Rightarrow> bool"
  en_devnull :: "nat \<Rightarrow> bool"

fun of_outcome :: "'a outcome \<Rightarrow> 'a run" where
  "of_outcome (Return x) = Done x"
| "of_outcome Panic = Panics"

lemma of_outcome_Done [simp]: "of_outcome m = Done x \<longleftrightarrow> m = Return x"
  by (cases m) auto

section \<open>The torrent\<close>

definition torrent_live_new :: "paused \<Rightarrow> 'b torrent_live" where
  "torrent_live_new pa =
     \<lparr>tl_peers = peers_new, tl_info = pa_info pa, tl_chunks = Some (pa_chunk_tracker pa), tl_inflight = [],
      tl_fatal_errors_tx = True, tl_fatal_error = False, tl_files = pa_files pa,
      tl_initially_needed_bytes = pa_needed_bytes pa,
      tl_total_selected_bytes = total_selected_bytes (pa_chunk_tracker pa),
      tl_stats = \<lparr>as_have_bytes = pa_have_bytes pa, as_downloaded_and_checked_bytes = 0,
        as_downloaded_and_checked_pieces = 0, as_uploaded_bytes = 0, as_fetched_bytes = 0,
        as_total_piece_download_ms = 0\<rparr>,
      tl_lengths = ct_lengths (pa_chunk_tracker pa), tl_peer_semaphore = 128, tl_peer_queue = [],
      tl_adding = None, tl_waiting = [], tl_finished_notified = False, tl_cancelled = False\<rparr>"

definition get_downloaded_bytes :: "'b torrent_live \<Rightarrow> u64" where
  "get_downloaded_bytes st = as_downloaded_and_checked_bytes (tl_stats st)"

definition get_left_to_download_bytes :: "'b torrent_live \<Rightarrow> u64" where
  "get_left_to_download_bytes st = tl_initially_needed_bytes st - get_downloaded_bytes st"

definition is_finished :: "'b torrent_live \<Rightarrow> bool" where
  "is_finished st \<longleftrightarrow> get_left_to_download_bytes st = 0"

text \<open>What the speed estimator is told remains: \<open>new\<close>, in the loop of the updater.\<close>

definition remaining_for_estimator :: "'b torrent_live \<Rightarrow> u64" where
  "remaining_for_estimator st =
     min (tl_initially_needed_bytes st - as_fetched_bytes (tl_stats st))
         (tl_initially_needed_bytes st - as_downloaded_and_checked_bytes (tl_stats st))"

definition live_send :: "nat \<Rightarrow> writer_request \<Rightarrow> 'b torrent_live \<Rightarrow> bool \<times> 'b torrent_live" where
  "live_send tx req st = (let (ok, ps) = channel_send tx req (tl_peers st) in (ok, st\<lparr>tl_peers := ps\<rparr>))"

definition on_counters :: "nat \<Rightarrow> (peer_counters \<Rightarrow> peer_counters) \<Rightarrow> 'b torrent_live \<Rightarrow> 'b torrent_live" where
  "on_counters c f st = st\<lparr>tl_peers := counters_update c f (tl_peers st)\<rparr>"

definition add_peer_if_not_seen :: "'b live_env \<Rightarrow> socket_addr \<Rightarrow> 'b torrent_live \<Rightarrow> bool \<times> 'b torrent_live" where
  "add_peer_if_not_seen e addr st =
     (let (new, ps) = add_if_not_seen (en_backoff e) addr (tl_peers st) in
      if new then (True, st\<lparr>tl_peers := ps, tl_peer_queue := tl_peer_queue st @ [addr]\<rparr>)
      else (False, st\<lparr>tl_peers := ps\<rparr>))"

definition handler_new :: "socket_addr \<Rightarrow> nat \<Rightarrow> nat \<Rightarrow> peer_handler_state" where
  "handler_new addr tx c = \<lparr>ph_addr = addr, ph_tx = tx, ph_counters = c, ph_i_am_choked = True, ph_requests_sem = 0\<rparr>"

text \<open>
  A checked incoming connection. \<open>Inl False\<close>: it is dropped, the limit is reached; \<open>Inl True\<close>: an
  error, the peer is active already; \<open>Inr\<close>: the handler of the task that is spawned.
\<close>

definition add_incoming_peer ::
  "'b live_env \<Rightarrow> socket_addr \<Rightarrow> bytes \<Rightarrow> 'b torrent_live \<Rightarrow> (bool + peer_handler_state) \<times> 'b torrent_live" where
  "add_incoming_peer e addr peer_id st =
     (let (tx, ps) = unbounded_channel (tl_peers st);
          bump = (\<lambda>c. c\<lparr>pc_incoming_connections := pc_incoming_connections c + 1\<rparr>) in
      if tl_peer_semaphore st = 0 then
        (Inl False, st\<lparr>tl_peers :=
          (case with_peer addr pe_counters ps of Some c \<Rightarrow> counters_update c bump ps | None \<Rightarrow> ps)\<rparr>)
      else
        (case map_of (ps_states ps) addr of
           Some p \<Rightarrow>
             let (r, ps) = with_peer_mut addr (on_state (incoming_connection peer_id tx)) ps in
             if r \<noteq> Some True then (Inl True, st\<lparr>tl_peers := ps\<rparr>)
             else (Inr (handler_new addr tx (pe_counters p)),
               st\<lparr>tl_peers := counters_update (pe_counters p) bump ps, tl_peer_semaphore := tl_peer_semaphore st - 1\<rparr>)
         | None \<Rightarrow>
             let ps = ps\<lparr>ps_stats := (ps_stats ps)\<lparr>ag_seen := atomic_inc (ag_seen (ps_stats ps))\<rparr>\<rparr>;
                 (p, ps) = new_live_for_incoming_connection (en_backoff e) peer_id tx ps;
                 ps = ps\<lparr>ps_states := AList.update addr p (ps_states ps)\<rparr> in
             (Inr (handler_new addr tx (pe_counters p)),
               st\<lparr>tl_peers := counters_update (pe_counters p) bump ps, tl_peer_semaphore := tl_peer_semaphore st - 1\<rparr>)))"

text \<open>
  One turn of \<open>task_peer_adder\<close>: it takes the next address of the queue, and drops it or waits for a
  permit; when there is one it starts \<open>task_manage_outgoing_peer\<close>, which owns the permit. When that task
  fails at once the permit is given back.
\<close>

definition peer_adder_step :: "'b torrent_live \<Rightarrow> (socket_addr option \<times> 'b torrent_live) option" where
  "peer_adder_step st =
     (case tl_adding st of
        Some addr \<Rightarrow>
          if tl_peer_semaphore st = 0 then None
          else Some (Some addr, st\<lparr>tl_adding := None, tl_peer_semaphore := tl_peer_semaphore st - 1\<rparr>)
      | None \<Rightarrow>
          (case tl_peer_queue st of
             [] \<Rightarrow> None
           | addr # q \<Rightarrow>
               if is_finished st then
                 Some (None, st\<lparr>tl_peer_queue := q, tl_peers := snd (mark_peer_not_needed addr (tl_peers st))\<rparr>)
               else Some (None, st\<lparr>tl_peer_queue := q, tl_adding := Some addr\<rparr>)))"

definition manage_outgoing_start :: "socket_addr \<Rightarrow> 'b torrent_live \<Rightarrow> peer_handler_state option \<times> 'b torrent_live" where
  "manage_outgoing_start addr st =
     (let (tx, ps) = mark_peer_connecting addr (tl_peers st) in
      case (tx, with_peer addr pe_counters ps) of
        (Some tx, Some c) \<Rightarrow>
          (Some (handler_new addr tx c),
           st\<lparr>tl_peers := counters_update c
             (\<lambda>c. c\<lparr>pc_outgoing_connection_attempts := pc_outgoing_connection_attempts c + 1\<rparr>) ps\<rparr>)
      | _ \<Rightarrow> (None, st\<lparr>tl_peers := ps, tl_peer_semaphore := tl_peer_semaphore st + 1\<rparr>))"

definition set_peer_live :: "socket_addr \<Rightarrow> handshake \<Rightarrow> 'b torrent_live \<Rightarrow> 'b torrent_live" where
  "set_peer_live handle h st =
     st\<lparr>tl_peers := snd (with_peer_mut handle (on_state (connecting_to_live (h_peer_id h))) (tl_peers st))\<rparr>"

definition transmit_have :: "valid_piece_index \<Rightarrow> 'b peer \<Rightarrow> nat option" where
  "transmit_have index p =
     (case pe_state p of
        PsLive live \<Rightarrow>
          if \<not> lp_peer_interested live then None
          else if get (lp_bitfield live) (unat (vpi_get index)) = Some True then None
          else Some (lp_tx live)
      | _ \<Rightarrow> None)"

definition maybe_transmit_haves :: "valid_piece_index \<Rightarrow> 'b torrent_live \<Rightarrow> 'b torrent_live" where
  "maybe_transmit_haves index st =
     fold (\<lambda>tx st. snd (live_send tx (WMessage (Have (vpi_get index))) st))
       (List.map_filter (transmit_have index \<circ> snd) (ps_states (tl_peers st))) st"

text \<open>
  \<open>pause\<close>: the token is cancelled, the files are replaced one by one by \<open>/dev/null\<close> (\<open>opens k\<close>: the system
  opens it for the \<open>k\<close>th of them), the tracker is taken. When \<open>/dev/null\<close> cannot be opened, that is the result:
  the tracker stays, and the files replaced so far are gone.
\<close>

fun replace_files :: "(nat \<Rightarrow> bool) \<Rightarrow> nat \<Rightarrow> disk_file list \<Rightarrow> bool \<times> disk_file list" where
  "replace_files opens k [] = (True, [])"
| "replace_files opens k (f # fs) =
     (if opens k then (let (ok, fs) = replace_files opens (k + 1) fs in (ok, dummy_file # fs)) else (False, f # fs))"

fun mark_all_broken :: "valid_piece_index list \<Rightarrow> chunk_tracker \<Rightarrow> chunk_tracker outcome" where
  "mark_all_broken [] ct = Return ct"
| "mark_all_broken (i # is) ct = bind_outcome (mark_piece_broken_if_not_have ct i) (mark_all_broken is)"

definition pause :: "(nat \<Rightarrow> bool) \<Rightarrow> 'b torrent_live \<Rightarrow> (paused option \<times> 'b torrent_live) run" where
  "pause opens st =
     (let (replaced, dummies) = replace_files opens 0 (tl_files st);
          files = tl_files st;
          st = st\<lparr>tl_cancelled := True, tl_files := dummies\<rparr> in
      if \<not> replaced then Done (None, st)
      else case tl_chunks st of
        None \<Rightarrow> Done (None, st)
      | Some ct \<Rightarrow>
          bind_run (of_outcome (mark_all_broken (map fst (tl_inflight st)) ct)) (\<lambda>ct.
            Done (Some \<lparr>pa_info = tl_info st, pa_files = files, pa_chunk_tracker = ct,
                        pa_have_bytes = calc_have_bytes ct, pa_needed_bytes = calc_needed_bytes ct\<rparr>,
                  st\<lparr>tl_chunks := None\<rparr>)))"

text \<open>It always ends with an error.\<close>

definition on_fatal_error :: "'b torrent_live \<Rightarrow> 'b torrent_live" where
  "on_fatal_error st =
     (if tl_fatal_errors_tx st then st\<lparr>tl_fatal_errors_tx := False, tl_fatal_error := True\<rparr> else st)"

section \<open>The handler of a connection\<close>

text \<open>
  A handler takes the state of its connection and of the torrent; \<open>False\<close> is an error, which ends the
  connection.
\<close>

type_synonym 'b handling = "bool \<times> peer_handler_state \<times> 'b torrent_live"

definition on_connected :: "nat \<Rightarrow> peer_handler_state \<Rightarrow> 'b torrent_live \<Rightarrow> 'b torrent_live" where
  "on_connected connection_time_ms h =
     on_counters (ph_counters h) (\<lambda>c. c\<lparr>pc_outgoing_connections := pc_outgoing_connections c + 1,
       pc_total_time_connecting_ms := pc_total_time_connecting_ms c + word_of_nat connection_time_ms\<rparr>)"

definition live_on_handshake :: "handshake \<Rightarrow> peer_handler_state \<Rightarrow> 'b torrent_live \<Rightarrow> bool \<times> 'b torrent_live" where
  "live_on_handshake hs h st = live_send (ph_tx h) (WMessage Unchoke) (set_peer_live (ph_addr h) hs st)"

definition live_on_uploaded_bytes :: "u32 \<Rightarrow> 'b torrent_live \<Rightarrow> 'b torrent_live" where
  "live_on_uploaded_bytes n st =
     st\<lparr>tl_stats := (tl_stats st)\<lparr>as_uploaded_bytes := as_uploaded_bytes (tl_stats st) + ucast n\<rparr>\<rparr>"

definition live_serialize_bitfield :: "request_enc \<Rightarrow> 'b torrent_live \<Rightarrow> (bytes \<times> nat) option outcome" where
  "live_serialize_bitfield enc st =
     (case tl_chunks st of
        None \<Rightarrow> Return None
      | Some ct \<Rightarrow> serialize_message enc (Bitfield (bf_as_raw_slice (have_pieces ct))) None)"

definition on_i_am_choked :: "peer_handler_state \<Rightarrow> peer_handler_state" where
  "on_i_am_choked h = h\<lparr>ph_i_am_choked := True\<rparr>"

definition on_i_am_unchoked :: "peer_handler_state \<Rightarrow> peer_handler_state" where
  "on_i_am_unchoked h = h\<lparr>ph_i_am_choked := False, ph_requests_sem := ph_requests_sem h + 16\<rparr>"

definition on_peer_interested :: "peer_handler_state \<Rightarrow> 'b torrent_live \<Rightarrow> 'b torrent_live" where
  "on_peer_interested h st = st\<lparr>tl_peers := snd (mark_peer_interested (ph_addr h) True (tl_peers st))\<rparr>"

definition make_piece_bitfield :: "lengths \<Rightarrow> bf" where
  "make_piece_bitfield L = bf_from_vec (replicate (piece_bitfield_bytes L) 0)"

definition live_on_have :: "lengths \<Rightarrow> u32 \<Rightarrow> live_peer \<Rightarrow> unit \<times> live_peer" where
  "live_on_have L have_index live =
     (let bs = (if lp_bitfield live = [] then make_piece_bitfield L else lp_bitfield live) in
      ((), live\<lparr>lp_bitfield := (if unat have_index < length bs then bs[unat have_index := True] else bs)\<rparr>))"

definition on_have :: "u32 \<Rightarrow> peer_handler_state \<Rightarrow> 'b torrent_live \<Rightarrow> 'b torrent_live" where
  "on_have have_index h st =
     st\<lparr>tl_peers := snd (with_live_mut (ph_addr h) (live_on_have (tl_lengths st) have_index) (tl_peers st))\<rparr>"

definition on_bitfield :: "bytes \<Rightarrow> peer_handler_state \<Rightarrow> 'b torrent_live \<Rightarrow> bool \<times> 'b torrent_live" where
  "on_bitfield bitfield h st =
     (if length bitfield \<noteq> piece_bitfield_bytes (tl_lengths st) then (False, st)
      else (True, st\<lparr>tl_peers := snd (update_bitfield_from_vec (ph_addr h) bitfield (tl_peers st))\<rparr>))"

definition on_download_request :: "request \<Rightarrow> peer_handler_state \<Rightarrow> 'b torrent_live \<Rightarrow> bool \<times> 'b torrent_live" where
  "on_download_request req h st =
     (case validate_piece_index (tl_lengths st) (rq_index req) of
        None \<Rightarrow> (False, st)
      | Some i \<Rightarrow>
          (case chunk_info_from_received_data (tl_lengths st) i (rq_begin req) (rq_length req) of
             None \<Rightarrow> (False, st)
           | Some ci \<Rightarrow>
               (case tl_chunks st of
                  None \<Rightarrow> (False, st)
                | Some ct \<Rightarrow>
                    if \<not> is_chunk_ready_to_upload ct ci then (False, st)
                    else live_send (ph_tx h) (WReadChunk ci) st)))"

section \<open>Requesting pieces\<close>

text \<open>\<open>Inl\<close> is an error.\<close>

definition reserve_next_needed_piece ::
  "peer_handler_state \<Rightarrow> nat \<Rightarrow> 'b torrent_live \<Rightarrow> ((unit + valid_piece_index option) \<times> 'b torrent_live) run" where
  "reserve_next_needed_piece h now st =
     (case with_live (ph_addr h) lp_bitfield (tl_peers st) of
        None \<Rightarrow> Done (Inr None, st)
      | Some bf \<Rightarrow>
          if ph_i_am_choked h then Done (Inr None, st)
          else
            (case tl_chunks st of
               None \<Rightarrow> Done (Inl (), st)
             | Some ct \<Rightarrow>
                 bind_run (of_outcome (iter_needed_pieces ct)) (\<lambda>ns.
                   case find (\<lambda>n. get bf n = Some True) ns of
                     None \<Rightarrow> Done (Inr None, st)
                   | Some n \<Rightarrow>
                       (case validate_piece_index (tl_lengths st) (word_of_nat n) of
                          None \<Rightarrow> Done (Inl (), st)
                        | Some i \<Rightarrow>
                            bind_run (of_outcome (reserve_needed_piece ct i)) (\<lambda>ct.
                              Done (Inr (Some i), st\<lparr>tl_chunks := Some ct,
                                tl_inflight := AList.update i \<lparr>ip_peer = ph_addr h, ip_started = now\<rparr>
                                  (tl_inflight st)\<rparr>))))))"

text \<open>\<open>max_by_key\<close> gives the last of the greatest elements.\<close>

fun max_by_key :: "('a \<Rightarrow> nat) \<Rightarrow> 'a list \<Rightarrow> 'a option" where
  "max_by_key f [] = None"
| "max_by_key f (x # xs) =
     (case max_by_key f xs of None \<Rightarrow> Some x | Some y \<Rightarrow> if f x > f y then Some x else Some y)"

definition try_steal_old_slow_piece ::
  "'b live_env \<Rightarrow> nat \<Rightarrow> peer_handler_state \<Rightarrow> nat \<Rightarrow> 'b torrent_live \<Rightarrow> valid_piece_index option \<times> 'b torrent_live" where
  "try_steal_old_slow_piece e threshold h now st =
     (case average_piece_download_time (ps_counters (tl_peers st) ! ph_counters h) of
        None \<Rightarrow> (None, st)
      | Some my_avg_time \<Rightarrow>
          (case max_by_key (\<lambda>(p, r). now - ip_started r) (filter (\<lambda>(p, r). ip_peer r \<noteq> ph_addr h) (tl_inflight st)) of
             None \<Rightarrow> (None, st)
           | Some (idx, piece_req) \<Rightarrow>
               if en_too_slow e (now - ip_started piece_req) my_avg_time threshold then
                 (Some idx, st\<lparr>tl_inflight := AList.update idx \<lparr>ip_peer = ph_addr h, ip_started = now\<rparr> (tl_inflight st)\<rparr>)
               else (None, st)))"

definition requester_next ::
  "'b live_env \<Rightarrow> peer_handler_state \<Rightarrow> nat \<Rightarrow> 'b torrent_live \<Rightarrow> ((unit + valid_piece_index option) \<times> 'b torrent_live) run" where
  "requester_next e h now st =
     (case try_steal_old_slow_piece e 10 h now st of
        (Some v, st) \<Rightarrow> Done (Inr (Some v), st)
      | (None, st) \<Rightarrow>
          bind_run (reserve_next_needed_piece h now st) (\<lambda>(r, st).
            case r of
              Inr None \<Rightarrow> (let (s, st) = try_steal_old_slow_piece e 3 h now st in Done (Inr s, st))
            | _ \<Rightarrow> Done (r, st)))"

text \<open>
  The start of \<open>task_peer_chunk_requester\<close>, once the bit field is there. \<open>None\<close>: the task ends.
\<close>

definition requester_start :: "peer_handler_state \<Rightarrow> 'b torrent_live \<Rightarrow> bool option \<times> 'b torrent_live" where
  "requester_start h st =
     (if is_finished st then
        (case live_send (ph_tx h) (WMessage NotInterested) st of
           (False, st) \<Rightarrow> (Some False, st)
         | (True, st) \<Rightarrow>
             if with_live (ph_addr h) (\<lambda>l. has_full_torrent l (unat (total_pieces (tl_lengths st)))) (tl_peers st) = Some True
             then (case live_send (ph_tx h) WDisconnect st of (ok, st) \<Rightarrow> (if ok then None else Some False, st))
             else (Some True, st))
      else (case live_send (ph_tx h) (WMessage Interested) st of (ok, st) \<Rightarrow> (Some ok, st)))"

text \<open>
  One chunk of a piece: the request is noted, unless it is there already, and is sent when a permit of
  the handler is free. \<open>None\<close>: the peer died.
\<close>

definition request_chunk_note :: "peer_handler_state \<Rightarrow> chunk_info \<Rightarrow> 'b torrent_live \<Rightarrow> bool option \<times> 'b torrent_live" where
  "request_chunk_note h chunk st =
     (let (r, ps) = with_live_mut (ph_addr h) (\<lambda>live.
            let req = inflight_request_from chunk in
            (req \<notin> set (lp_inflight_requests live),
             live\<lparr>lp_inflight_requests := List.insert req (lp_inflight_requests live)\<rparr>)) (tl_peers st) in
      (r, st\<lparr>tl_peers := ps\<rparr>))"

definition request_chunk_send :: "peer_handler_state \<Rightarrow> chunk_info \<Rightarrow> 'b torrent_live \<Rightarrow> 'b handling option" where
  "request_chunk_send h chunk st =
     (if ph_requests_sem h = 0 then None
      else
        let (ok, st) = live_send (ph_tx h) (WMessage (Request \<lparr>rq_index = vpi_get (ci_piece_index chunk),
              rq_begin = ci_offset chunk, rq_length = ci_size chunk\<rparr>)) st in
        Some (ok, h\<lparr>ph_requests_sem := ph_requests_sem h - 1\<rparr>, st))"

section \<open>Receiving pieces\<close>

text \<open>
  \<open>PieceAccepted\<close>: the block has to be written; with a time when it completes the piece.
\<close>

datatype piece_outcome = PieceError | PieceIgnored | PieceAccepted chunk_info "nat option"

definition remove_request :: "inflight_request \<Rightarrow> live_peer \<Rightarrow> bool \<times> live_peer" where
  "remove_request req l =
     (req \<in> set (lp_inflight_requests l), l\<lparr>lp_inflight_requests := remove1 req (lp_inflight_requests l)\<rparr>)"

definition mark_chunk_under_lock ::
  "socket_addr \<Rightarrow> piece \<Rightarrow> chunk_info \<Rightarrow> nat \<Rightarrow> 'b torrent_live \<Rightarrow> (piece_outcome \<times> 'b torrent_live) run" where
  "mark_chunk_under_lock addr p ci now st =
     (case map_of (tl_inflight st) (ci_piece_index ci) of
        None \<Rightarrow> Done (PieceIgnored, st)
      | Some ip \<Rightarrow>
          if ip_peer ip \<noteq> addr then Done (PieceIgnored, st)
          else
            (case tl_chunks st of
               None \<Rightarrow> Done (PieceError, st)
             | Some ct \<Rightarrow>
                 bind_run (of_outcome (mark_chunk_downloaded ct p)) (\<lambda>(r, ct).
                   let st = st\<lparr>tl_chunks := Some ct\<rparr> in
                   case r of
                     Some Completed \<Rightarrow>
                       Done (PieceAccepted ci (Some (now - ip_started ip)),
                         st\<lparr>tl_inflight := AList.delete (ci_piece_index ci) (tl_inflight st)\<rparr>)
                   | Some PreviouslyCompleted \<Rightarrow> Done (PieceIgnored, st)
                   | Some NotCompleted \<Rightarrow> Done (PieceAccepted ci None, st)
                   | None \<Rightarrow> Done (PieceError, st))))"

definition count_fetched :: "nat \<Rightarrow> nat \<Rightarrow> 'b torrent_live \<Rightarrow> 'b torrent_live" where
  "count_fetched c len st =
     (let st = on_counters c (\<lambda>c. c\<lparr>pc_fetched_bytes := pc_fetched_bytes c + word_of_nat len,
            pc_fetched_chunks := pc_fetched_chunks c + 1\<rparr>) st in
      st\<lparr>tl_stats := (tl_stats st)\<lparr>as_fetched_bytes := as_fetched_bytes (tl_stats st) + word_of_nat len\<rparr>\<rparr>)"

definition on_received_piece_mark ::
  "peer_handler_state \<Rightarrow> piece \<Rightarrow> nat \<Rightarrow> 'b torrent_live \<Rightarrow>
    (piece_outcome \<times> peer_handler_state \<times> 'b torrent_live) run" where
  "on_received_piece_mark h p now st =
     (let len = length (p_block p) in
      case chunk_info_from_received_piece (tl_lengths st) (p_index p) (p_begin p) (word_of_nat len) of
        None \<Rightarrow> Done (PieceError, h, st)
      | Some ci \<Rightarrow>
          let h = h\<lparr>ph_requests_sem := ph_requests_sem h + 1\<rparr>;
              st = count_fetched (ph_counters h) len st;
              (r, ps) = with_live_mut (ph_addr h) (remove_request (inflight_request_from ci)) (tl_peers st);
              st = st\<lparr>tl_peers := ps\<rparr> in
          if r \<noteq> Some True then Done (PieceError, h, st)
          else bind_run (mark_chunk_under_lock (ph_addr h) p ci now st) (\<lambda>(r, st). Done (r, h, st)))"

definition disconnect_full :: "nat \<Rightarrow> socket_addr \<times> 'b peer \<Rightarrow> 'b torrent_live \<Rightarrow> 'b torrent_live" where
  "disconnect_full n ap st =
     (case pe_state (snd ap) of
        PsLive l \<Rightarrow>
          if has_full_torrent l n then
            snd (live_send (lp_tx l) WDisconnect
              (st\<lparr>tl_peers := snd (with_peer_mut (fst ap) (on_state set_not_needed) (tl_peers st))\<rparr>))
          else st
      | _ \<Rightarrow> st)"

definition disconnect_all_peers_that_have_full_torrent :: "'b torrent_live \<Rightarrow> 'b torrent_live" where
  "disconnect_all_peers_that_have_full_torrent st =
     fold (disconnect_full (unat (total_pieces (tl_lengths st)))) (ps_states (tl_peers st)) st"

fun reopen_read_only :: "(nat \<Rightarrow> bool) \<Rightarrow> (nat \<Rightarrow> bool) \<Rightarrow> nat \<Rightarrow> disk_file list \<Rightarrow> bool \<times> disk_file list" where
  "reopen_read_only devnull reopen idx [] = (True, [])"
| "reopen_read_only devnull reopen idx (f # fs) =
     (if \<not> devnull idx then (False, f # fs)
      else if reopen idx
      then (let (ok, fs) = reopen_read_only devnull reopen (idx + 1) fs in (ok, f\<lparr>f_writable := False\<rparr> # fs))
      else (False, dummy_file # fs))"

definition live_reopen_read_only :: "'b live_env \<Rightarrow> 'b torrent_live \<Rightarrow> bool \<times> 'b torrent_live" where
  "live_reopen_read_only e st =
     (let (ok, fs) = reopen_read_only (en_devnull e) (en_reopen e) 0 (tl_files st) in (ok, st\<lparr>tl_files := fs\<rparr>))"

text \<open>The piece was found right: the counters, and the end of the download.\<close>

definition count_piece ::
  "'b live_env \<Rightarrow> peer_handler_state \<Rightarrow> valid_piece_index \<Rightarrow> nat \<Rightarrow> 'b torrent_live \<Rightarrow> 'b torrent_live" where
  "count_piece e h i full_time st =
     (let piece_len = ucast (piece_length_of (tl_lengths st) i) :: u64;
          ms = word_of_nat (full_time div 1000000) :: u64;
          s = tl_stats st;
          st = st\<lparr>tl_stats := s\<lparr>as_downloaded_and_checked_bytes := as_downloaded_and_checked_bytes s + piece_len,
                 as_downloaded_and_checked_pieces := as_downloaded_and_checked_pieces s + 1,
                 as_have_bytes := as_have_bytes s + piece_len,
                 as_total_piece_download_ms := as_total_piece_download_ms s + ms\<rparr>\<rparr>;
          st = on_counters (ph_counters h) (on_piece_downloaded piece_len ms) st in
      st\<lparr>tl_peers := reset_peer_backoff (en_backoff e) (ph_addr h) (tl_peers st)\<rparr>)"

definition finish_piece ::
  "'b live_env \<Rightarrow> peer_handler_state \<Rightarrow> valid_piece_index \<Rightarrow> nat \<Rightarrow> 'b torrent_live \<Rightarrow> bool \<times> 'b torrent_live" where
  "finish_piece e h i full_time st =
     (let st = count_piece e h i full_time st in
      if is_finished st then
        (case live_reopen_read_only e
            (disconnect_all_peers_that_have_full_torrent (st\<lparr>tl_finished_notified := True\<rparr>)) of
           (False, st) \<Rightarrow> (False, st)
         | (True, st) \<Rightarrow> (True, maybe_transmit_haves i st))
      else (True, maybe_transmit_haves i st))"

definition on_received_piece_write ::
  "'b live_env \<Rightarrow> peer_handler_state \<Rightarrow> piece \<Rightarrow> chunk_info \<Rightarrow> nat option \<Rightarrow> 'b torrent_live \<Rightarrow>
    (bool \<times> 'b torrent_live) run" where
  "on_received_piece_write e h p ci full_piece_download_time st =
     bind_run (of_outcome (file_write_chunk (en_io e) (tl_info st) (tl_files st) (tl_lengths st) (p_block p) ci))
       (\<lambda>(written, files).
         let st = st\<lparr>tl_files := files\<rparr> in
         if \<not> written then Done (False, on_fatal_error st)
         else
           (case full_piece_download_time of
              None \<Rightarrow> Done (True, st)
            | Some t \<Rightarrow>
                (case check_piece (en_sha1 e) (tl_info st) (tl_files st) (tl_lengths st) (ci_piece_index ci) of
                   Fails \<Rightarrow> Done (False, st)
                 | Panics \<Rightarrow> Panics
                 | Diverges \<Rightarrow> Diverges
                 | Done fine \<Rightarrow>
                     (case tl_chunks st of
                        None \<Rightarrow> Done (False, st)
                      | Some ct \<Rightarrow>
                          if fine then
                            bind_run (of_outcome (mark_piece_downloaded ct (ci_piece_index ci))) (\<lambda>ct.
                              Done (finish_piece e h (ci_piece_index ci) t (st\<lparr>tl_chunks := Some ct\<rparr>)))
                          else
                            bind_run (of_outcome (mark_piece_broken_if_not_have ct (ci_piece_index ci))) (\<lambda>ct.
                              Done (True, st\<lparr>tl_chunks := Some ct\<rparr>))))))"

definition on_received_piece ::
  "'b live_env \<Rightarrow> peer_handler_state \<Rightarrow> piece \<Rightarrow> nat \<Rightarrow> 'b torrent_live \<Rightarrow> 'b handling run" where
  "on_received_piece e h p now st =
     bind_run (on_received_piece_mark h p now st) (\<lambda>(r, h, st).
       case r of
         PieceError \<Rightarrow> Done (False, h, st)
       | PieceIgnored \<Rightarrow> Done (True, h, st)
       | PieceAccepted ci t \<Rightarrow>
           bind_run (on_received_piece_write e h p ci t st) (\<lambda>(ok, st). Done (ok, h, st)))"

definition live_on_received_message ::
  "'b live_env \<Rightarrow> nat \<Rightarrow> message \<Rightarrow> peer_handler_state \<Rightarrow> 'b torrent_live \<Rightarrow> 'b handling run" where
  "live_on_received_message e now msg h st =
     (case msg of
        Request req \<Rightarrow> (let (ok, st) = on_download_request req h st in Done (ok, h, st))
      | Bitfield b \<Rightarrow> (let (ok, st) = on_bitfield b h st in Done (ok, h, st))
      | Choke \<Rightarrow> Done (True, on_i_am_choked h, st)
      | Unchoke \<Rightarrow> Done (True, on_i_am_unchoked h, st)
      | Interested \<Rightarrow> Done (True, h, on_peer_interested h st)
      | Piece p \<Rightarrow> on_received_piece e h p now st
      | Have n \<Rightarrow> Done (True, h, on_have n h st)
      | _ \<Rightarrow> Done (True, h, st))"

section \<open>The end of a connection\<close>

fun cancel_requests :: "inflight_request list \<Rightarrow> 'b torrent_live \<Rightarrow> (bool \<times> 'b torrent_live) run" where
  "cancel_requests [] st = Done (True, st)"
| "cancel_requests (req # reqs) st =
     (case tl_chunks st of
        None \<Rightarrow> Done (False, st)
      | Some ct \<Rightarrow>
          bind_run (of_outcome (mark_chunk_request_cancelled ct (ir_piece req) (ir_chunk req))) (\<lambda>(_, ct).
            cancel_requests reqs (st\<lparr>tl_chunks := Some ct\<rparr>)))"

definition set_state :: "socket_addr \<Rightarrow> peer_state \<Rightarrow> 'b torrent_live \<Rightarrow> 'b torrent_live" where
  "set_state addr s st = st\<lparr>tl_peers := snd (with_peer_mut addr (on_state (ps_set s)) (tl_peers st))\<rparr>"

text \<open>With an error, the peer waits for its turn, or is dropped when it had enough of them.\<close>

definition requeue_later :: "'b live_env \<Rightarrow> peer_handler_state \<Rightarrow> 'b torrent_live \<Rightarrow> 'b torrent_live" where
  "requeue_later e h st =
     (let (dur, ps) = with_peer_mut (ph_addr h) (\<lambda>(p, s).
            let (d, b) = bo_next (en_backoff e) (pe_backoff p) in (d, p\<lparr>pe_backoff := b\<rparr>, s)) (tl_peers st) in
      case dur of
        Some (Some d) \<Rightarrow> st\<lparr>tl_peers := ps, tl_waiting := tl_waiting st @ [ph_addr h]\<rparr>
      | _ \<Rightarrow> st\<lparr>tl_peers := snd (drop_peer (ph_addr h) ps)\<rparr>)"

definition on_peer_died ::
  "'b live_env \<Rightarrow> peer_handler_state \<Rightarrow> bool \<Rightarrow> 'b torrent_live \<Rightarrow> (bool \<times> 'b torrent_live) run" where
  "on_peer_died e h with_error st =
     (let (prev, ps) = with_peer_mut (ph_addr h) (on_state ps_take) (tl_peers st);
          st = st\<lparr>tl_peers := ps\<rparr>;
          rest = (\<lambda>st.
            if \<not> with_error then Done (True, set_state (ph_addr h) PsNotNeeded st)
            else
              let st = on_counters (ph_counters h) (\<lambda>c. c\<lparr>pc_errors := pc_errors c + 1\<rparr>) st in
              if is_finished st then Done (True, set_state (ph_addr h) PsNotNeeded st)
              else Done (True, requeue_later e h (set_state (ph_addr h) PsDead st))) in
      case prev of
        None \<Rightarrow> Done (True, st)
      | Some (PsConnecting _) \<Rightarrow> rest st
      | Some (PsLive live) \<Rightarrow>
          bind_run (cancel_requests (lp_inflight_requests live) st) (\<lambda>(ok, st).
            if ok then rest st else Done (False, st))
      | Some PsNotNeeded \<Rightarrow> Done (True, set_state (ph_addr h) PsNotNeeded st)
      | Some PsQueued \<Rightarrow> Done (True, st\<lparr>tl_peers := snd (drop_peer (ph_addr h) (tl_peers st))\<rparr>)
      | Some PsDead \<Rightarrow> Done (True, st\<lparr>tl_peers := snd (drop_peer (ph_addr h) (tl_peers st))\<rparr>))"

text \<open>The connection task ends: its receiver is gone and its permit is given back.\<close>

definition manage_peer_end ::
  "'b live_env \<Rightarrow> peer_handler_state \<Rightarrow> bool \<Rightarrow> 'b torrent_live \<Rightarrow> (bool \<times> 'b torrent_live) run" where
  "manage_peer_end e h with_error st =
     bind_run (on_peer_died e h with_error (st\<lparr>tl_peers := channel_close (ph_tx h) (tl_peers st)\<rparr>)) (\<lambda>(ok, st).
       Done (ok, st\<lparr>tl_peer_semaphore := tl_peer_semaphore st + 1\<rparr>))"

text \<open>The sleeper wakes up.\<close>

definition dead_to_queued :: "counted_state \<Rightarrow> bool \<times> counted_state" where
  "dead_to_queued cs = (if fst cs = PsDead then (True, snd (ps_set PsQueued cs)) else (False, cs))"

definition backoff_elapsed :: "socket_addr \<Rightarrow> 'b torrent_live \<Rightarrow> 'b torrent_live" where
  "backoff_elapsed addr st =
     (let st = st\<lparr>tl_waiting := remove1 addr (tl_waiting st)\<rparr>;
          (r, ps) = with_peer_mut addr (on_state dead_to_queued) (tl_peers st);
          st = st\<lparr>tl_peers := ps\<rparr> in
      if r = Some True then st\<lparr>tl_peer_queue := tl_peer_queue st @ [addr]\<rparr> else st)"

end
