(* ===== verification/Swarm.thy ===== *)
theory Swarm
  imports Live
begin

text \<open>
  The interleaving of everything that works on a live torrent: the connections, the task that starts
  them, the sleepers of dead peers and the writers of blocks. A step is one turn of one of them under the
  torrent's locks; what the environment answers may change from step to step. Two tasks are taken in
  bigger turns than the source has: a requester looks for a piece (up to three short locks) in one step,
  and a writer writes, checks and records a block in one step. The theory ends with the invariant of the
  peer counters; the progress of the download is in \<open>Progress\<close>.
\<close>

text \<open>
  \<open>sw_starting\<close> are the outgoing connections that own a permit and did not start yet, \<open>sw_pending\<close>
  the blocks that are accepted and not written yet.
\<close>

record 'b swarm =
  sw_torrent :: "'b torrent_live"
  sw_handlers :: "nat \<Rightarrow> peer_handler_state option"
  sw_starting :: "socket_addr list"
  sw_pending :: "(peer_handler_state \<times> piece \<times> chunk_info \<times> nat option) list"

definition swarm_new :: "paused \<Rightarrow> 'b swarm" where
  "swarm_new pa = \<lparr>sw_torrent = torrent_live_new pa, sw_handlers = (\<lambda>_. None), sw_starting = [], sw_pending = []\<rparr>"

definition accepted_block :: "peer_handler_state \<Rightarrow> piece \<Rightarrow> piece_outcome \<Rightarrow>
    (peer_handler_state \<times> piece \<times> chunk_info \<times> nat option) list" where
  "accepted_block h p r = (case r of PieceAccepted ci t \<Rightarrow> [(h, p, ci, t)] | _ \<Rightarrow> [])"

inductive swarm_step :: "'b live_env \<Rightarrow> 'b swarm \<Rightarrow> 'b swarm \<Rightarrow> bool" for e s where
  add_peer: "swarm_step e s (s\<lparr>sw_torrent := snd (add_peer_if_not_seen e addr (sw_torrent s))\<rparr>)"
| adder: "peer_adder_step (sw_torrent s) = Some (a, st) \<Longrightarrow>
    swarm_step e s (s\<lparr>sw_torrent := st, sw_starting := (case a of None \<Rightarrow> [] | Some x \<Rightarrow> [x]) @ sw_starting s\<rparr>)"
| start: "addr \<in> set (sw_starting s) \<Longrightarrow> sw_handlers s n = None \<Longrightarrow>
    manage_outgoing_start addr (sw_torrent s) = (h, st) \<Longrightarrow>
    swarm_step e s (s\<lparr>sw_torrent := st, sw_starting := remove1 addr (sw_starting s),
      sw_handlers := (sw_handlers s)(n := h)\<rparr>)"
| incoming: "sw_handlers s n = None \<Longrightarrow> add_incoming_peer e addr peer_id (sw_torrent s) = (r, st) \<Longrightarrow>
    swarm_step e s (s\<lparr>sw_torrent := st, sw_handlers := (sw_handlers s)(n := case r of Inl _ \<Rightarrow> None | Inr h \<Rightarrow> Some h)\<rparr>)"
| connected: "sw_handlers s n = Some h \<Longrightarrow> swarm_step e s (s\<lparr>sw_torrent := on_connected ms h (sw_torrent s)\<rparr>)"
| handshake: "sw_handlers s n = Some h \<Longrightarrow>
    swarm_step e s (s\<lparr>sw_torrent := snd (live_on_handshake hs h (sw_torrent s))\<rparr>)"
| message: "sw_handlers s n = Some h \<Longrightarrow> (\<And>p. msg \<noteq> Piece p) \<Longrightarrow>
    live_on_received_message e now msg h (sw_torrent s) = Done (ok, h', st) \<Longrightarrow>
    swarm_step e s (s\<lparr>sw_torrent := st, sw_handlers := (sw_handlers s)(n := Some h')\<rparr>)"
| receive: "sw_handlers s n = Some h \<Longrightarrow> on_received_piece_mark h p now (sw_torrent s) = Done (r, h', st) \<Longrightarrow>
    swarm_step e s (s\<lparr>sw_torrent := st, sw_handlers := (sw_handlers s)(n := Some h'),
      sw_pending := accepted_block h' p r @ sw_pending s\<rparr>)"
| disk_write: "sw_pending s = xs @ (h, p, ci, t) # ys \<Longrightarrow>
    on_received_piece_write e h p ci t (sw_torrent s) = Done (ok, st) \<Longrightarrow>
    swarm_step e s (s\<lparr>sw_torrent := st, sw_pending := xs @ ys\<rparr>)"
| requester: "sw_handlers s n = Some h \<Longrightarrow>
    swarm_step e s (s\<lparr>sw_torrent := snd (requester_start h (sw_torrent s))\<rparr>)"
| next_piece: "sw_handlers s n = Some h \<Longrightarrow> requester_next e h now (sw_torrent s) = Done (r, st) \<Longrightarrow>
    swarm_step e s (s\<lparr>sw_torrent := st\<rparr>)"
| note_chunk: "sw_handlers s n = Some h \<Longrightarrow>
    swarm_step e s (s\<lparr>sw_torrent := snd (request_chunk_note h chunk (sw_torrent s))\<rparr>)"
| send_chunk: "sw_handlers s n = Some h \<Longrightarrow> request_chunk_send h chunk (sw_torrent s) = Some (ok, h', st) \<Longrightarrow>
    swarm_step e s (s\<lparr>sw_torrent := st, sw_handlers := (sw_handlers s)(n := Some h')\<rparr>)"
| uploaded: "swarm_step e s (s\<lparr>sw_torrent := live_on_uploaded_bytes m (sw_torrent s)\<rparr>)"
| ended: "sw_handlers s n = Some h \<Longrightarrow> manage_peer_end e h with_error (sw_torrent s) = Done (ok, st) \<Longrightarrow>
    swarm_step e s (s\<lparr>sw_torrent := st, sw_handlers := (sw_handlers s)(n := None)\<rparr>)"
| elapsed: "addr \<in> set (tl_waiting (sw_torrent s)) \<Longrightarrow>
    swarm_step e s (s\<lparr>sw_torrent := backoff_elapsed addr (sw_torrent s)\<rparr>)"
| pause_fails: "pause opens (sw_torrent s) = Done (None, st) \<Longrightarrow> swarm_step e s (s\<lparr>sw_torrent := st\<rparr>)"

inductive swarm_reach :: "paused \<Rightarrow> 'b swarm \<Rightarrow> bool" for pa where
  fresh: "swarm_reach pa (swarm_new pa)"
| step: "swarm_reach pa s \<Longrightarrow> swarm_step e s s' \<Longrightarrow> swarm_reach pa s'"

section \<open>What a step leaves alone\<close>

text \<open>The part of the state that the progress of the download depends on.\<close>

definition core :: "'b torrent_live \<Rightarrow>
    chunk_tracker option \<times> (valid_piece_index \<times> inflight_piece) list \<times> lengths \<times> u64 \<times> u64" where
  "core st = (tl_chunks st, tl_inflight st, tl_lengths st, tl_initially_needed_bytes st,
     as_downloaded_and_checked_bytes (tl_stats st))"

lemma core_peers [simp]: "core (st\<lparr>tl_peers := ps\<rparr>) = core st" "core (st\<lparr>tl_peer_queue := q\<rparr>) = core st"
  "core (st\<lparr>tl_waiting := w\<rparr>) = core st" "core (st\<lparr>tl_adding := a\<rparr>) = core st" "core (st\<lparr>tl_peer_semaphore := k\<rparr>) = core st"
  "core (st\<lparr>tl_files := f\<rparr>) = core st" "core (st\<lparr>tl_fatal_error := b\<rparr>) = core st"
  "core (st\<lparr>tl_cancelled := b\<rparr>) = core st" "core (st\<lparr>tl_fatal_errors_tx := b\<rparr>) = core st" "core (st\<lparr>tl_finished_notified := b\<rparr>) = core st"
  "core (st\<lparr>tl_stats := (tl_stats st)\<lparr>as_uploaded_bytes := u\<rparr>\<rparr>) = core st"
  "core (st\<lparr>tl_stats := (tl_stats st)\<lparr>as_fetched_bytes := u\<rparr>\<rparr>) = core st"
  by (simp_all add: core_def)

definition tl_ok :: "'b torrent_live \<Rightarrow> bool" where
  "tl_ok st \<longleftrightarrow> peers_ok (tl_peers st)"

lemma tl_ok_updates [simp]: "tl_ok (st\<lparr>tl_chunks := c\<rparr>) = tl_ok st" "tl_ok (st\<lparr>tl_inflight := i\<rparr>) = tl_ok st"
  "tl_ok (st\<lparr>tl_stats := s\<rparr>) = tl_ok st" "tl_ok (st\<lparr>tl_peer_queue := q\<rparr>) = tl_ok st"
  "tl_ok (st\<lparr>tl_waiting := w\<rparr>) = tl_ok st" "tl_ok (st\<lparr>tl_adding := a\<rparr>) = tl_ok st" "tl_ok (st\<lparr>tl_peer_semaphore := k\<rparr>) = tl_ok st"
  "tl_ok (st\<lparr>tl_files := f\<rparr>) = tl_ok st" "tl_ok (st\<lparr>tl_fatal_error := b\<rparr>) = tl_ok st"
  "tl_ok (st\<lparr>tl_cancelled := b\<rparr>) = tl_ok st" "tl_ok (st\<lparr>tl_fatal_errors_tx := b\<rparr>) = tl_ok st" "tl_ok (st\<lparr>tl_finished_notified := b\<rparr>) = tl_ok st"
  "tl_ok (st\<lparr>tl_peers := ps\<rparr>) = peers_ok ps"
  by (simp_all add: tl_ok_def)

lemma live_send_frame [simp]:
  "core (snd (live_send tx req st)) = core st" "tl_ok (snd (live_send tx req st)) = tl_ok st"
  "ps_states (tl_peers (snd (live_send tx req st))) = ps_states (tl_peers st)"
  by (auto simp: live_send_def core_def tl_ok_def channel_send_def split: option.splits prod.splits bool.splits)
    (simp_all add: peers_ok_def)

lemma live_send_result: "live_send tx req st = (ok, st') \<Longrightarrow> core st' = core st \<and> tl_ok st' = tl_ok st"
  using live_send_frame [of tx req st] by simp

lemma on_counters_frame [simp]: "core (on_counters c f st) = core st" "tl_ok (on_counters c f st) = tl_ok st"
  by (simp_all add: on_counters_def tl_ok_def)

lemma set_state_frame [simp]: "core (set_state a s st) = core st" "tl_ok st \<Longrightarrow> tl_ok (set_state a s st)"
  by (simp_all add: set_state_def set_op.keeps_counters tl_ok_def)

lemma failed_pause_frame:
  assumes "pause opens st = Done (None, st')"
  shows "core st' = core st" "tl_ok st' = tl_ok st" "tl_cancelled st'" "tl_chunks st' = tl_chunks st"
  using assms by (auto simp: pause_def Let_def core_def tl_ok_def split: prod.splits option.splits if_splits)

lemma fold_frame:
  "(\<And>x st. x \<in> set xs \<Longrightarrow> core (f x st) = core st) \<Longrightarrow> core (fold f xs st) = core st"
  "(\<And>x st. x \<in> set xs \<Longrightarrow> tl_ok st \<Longrightarrow> tl_ok (f x st)) \<Longrightarrow> tl_ok st \<Longrightarrow> tl_ok (fold f xs st)"
  by (induction xs arbitrary: st) simp_all

lemma transmit_frame [simp]: "core (maybe_transmit_haves i st) = core st" "tl_ok st \<Longrightarrow> tl_ok (maybe_transmit_haves i st)"
  unfolding maybe_transmit_haves_def by (auto intro: fold_frame)

lemma disconnect_full_frame [simp]:
  "core (disconnect_full n ap st) = core st" "tl_ok st \<Longrightarrow> tl_ok (disconnect_full n ap st)"
  by (auto simp: disconnect_full_def tl_ok_def [of st] not_needed_op.keeps_counters split: peer_state.split)

lemma disconnect_frame [simp]:
  "core (disconnect_all_peers_that_have_full_torrent st) = core st"
  "tl_ok st \<Longrightarrow> tl_ok (disconnect_all_peers_that_have_full_torrent st)"
  unfolding disconnect_all_peers_that_have_full_torrent_def by (simp_all add: fold_frame)

lemma reopen_frame [simp]:
  "core (snd (live_reopen_read_only e st)) = core st" "tl_ok (snd (live_reopen_read_only e st)) = tl_ok st"
  by (simp_all add: live_reopen_read_only_def split: prod.splits)

lemma handler_ops_frame [simp]:
  "core (snd (add_peer_if_not_seen e addr st)) = core st" "tl_ok st \<Longrightarrow> tl_ok (snd (add_peer_if_not_seen e addr st))"
  "core (on_connected ms h st) = core st" "tl_ok (on_connected ms h st) = tl_ok st"
  "core (snd (live_on_handshake hs h st)) = core st" "tl_ok st \<Longrightarrow> tl_ok (snd (live_on_handshake hs h st))"
  "core (live_on_uploaded_bytes m st) = core st" "tl_ok (live_on_uploaded_bytes m st) = tl_ok st"
  "core (snd (requester_start h st)) = core st" "tl_ok st \<Longrightarrow> tl_ok (snd (requester_start h st))"
  "core (snd (request_chunk_note h chunk st)) = core st" "tl_ok st \<Longrightarrow> tl_ok (snd (request_chunk_note h chunk st))"
  "core (backoff_elapsed addr st) = core st"
  subgoal by (simp add: add_peer_if_not_seen_def split: prod.splits)
  subgoal using peers_ok_add [of "tl_peers st" "en_backoff e" addr]
    by (cases "add_if_not_seen (en_backoff e) addr (tl_peers st)") (simp add: add_peer_if_not_seen_def tl_ok_def [of st])
  subgoal by (simp add: on_connected_def)
  subgoal by (simp add: on_connected_def)
  subgoal by (simp add: live_on_handshake_def set_peer_live_def)
  subgoal by (simp add: live_on_handshake_def set_peer_live_def tl_ok_def [of st] live_op.keeps_counters)
  subgoal by (simp add: live_on_uploaded_bytes_def)
  subgoal by (simp add: live_on_uploaded_bytes_def)
  subgoal by (auto simp: requester_start_def split: prod.splits bool.splits dest!: live_send_result)
  subgoal by (auto simp: requester_start_def split: prod.splits bool.splits dest!: live_send_result)
  subgoal by (simp add: request_chunk_note_def split: prod.splits)
  subgoal
    unfolding request_chunk_note_def case_prod_unfold Let_def snd_conv tl_ok_updates
    by (rule peers_ok_live_mut) (simp add: tl_ok_def)
  subgoal by (simp add: backoff_elapsed_def Let_def split: prod.splits)
  done

interpretation requeue_op: peer_op "on_state dead_to_queued"
  by unfold_locales (auto simp: on_state_def dead_to_queued_def ps_set_def split: if_splits)

interpretation backoff_next_op: peer_op
  "\<lambda>(p, s). let (d, b) = bo_next bo (pe_backoff p) in (d, p\<lparr>pe_backoff := b\<rparr>, s)" for bo
  by unfold_locales (auto split: prod.splits)

lemma backoff_elapsed_ok [simp]: "tl_ok st \<Longrightarrow> tl_ok (backoff_elapsed addr st)"
  using requeue_op.keeps_counters [of "tl_peers st" addr]
  by (auto simp: backoff_elapsed_def tl_ok_def Let_def split: prod.splits)

lemma requeue_frame [simp]: "core (requeue_later e h st) = core st" "tl_ok st \<Longrightarrow> tl_ok (requeue_later e h st)"
  using backoff_next_op.keeps_counters [of "tl_peers st" "ph_addr h" "en_backoff e"]
  by (auto simp: requeue_later_def tl_ok_def Let_def split: prod.splits option.splits)

text \<open>Steps that start, feed and end connections.\<close>

lemma adder_frame:
  assumes "peer_adder_step st = Some (a, st')"
  shows "core st' = core st" "tl_ok st \<Longrightarrow> tl_ok st'"
  using assms by (auto simp: peer_adder_step_def tl_ok_def [of st] split: option.splits list.splits if_splits)

lemma start_frame:
  assumes "manage_outgoing_start addr st = (h, st')"
  shows "core st' = core st" "tl_ok st \<Longrightarrow> tl_ok st'"
proof -
  show "core st' = core st"
    using assms by (auto simp: manage_outgoing_start_def Let_def split: prod.splits option.splits)
  assume "tl_ok st"
  then have "peers_ok (snd (mark_peer_connecting addr (tl_peers st)))" by (simp add: tl_ok_def)
  then show "tl_ok st'"
    using assms by (auto simp: manage_outgoing_start_def Let_def split: prod.splits option.splits)
qed

lemma incoming_frame:
  assumes "add_incoming_peer e addr peer_id st = (r, st')"
  shows "core st' = core st" "tl_ok st \<Longrightarrow> tl_ok st'"
proof -
  show "core st' = core st"
    using assms by (auto simp: add_incoming_peer_def Let_def split: prod.splits option.splits if_splits)
  assume ok: "tl_ok st"
  obtain tx ps where u: "unbounded_channel (tl_peers st) = (tx, ps)" by fastforce
  have ps: "peers_ok ps" using ok peers_ok_stores(1) [of "tl_peers st"] by (simp add: u tl_ok_def)
  show "tl_ok st'"
  proof (cases "tl_peer_semaphore st = 0")
    case True
    then show ?thesis using assms ps by (auto simp: add_incoming_peer_def u split: option.splits)
  next
    case False
    show ?thesis
    proof (cases "map_of (ps_states ps) addr")
      case None
      define ps1 where "ps1 = ps\<lparr>ps_stats := (ps_stats ps)\<lparr>ag_seen := atomic_inc (ag_seen (ps_stats ps))\<rparr>\<rparr>"
      define p where "p = fst (new_live_for_incoming_connection (en_backoff e) peer_id tx ps1)"
      define ps2 where "ps2 = snd (new_live_for_incoming_connection (en_backoff e) peer_id tx ps1)"
      have "pe_state p = PsLive (live_peer_new peer_id tx)"
        "ps_stats ps2 = stats_inc (pe_state p) (ps_stats ps1)" "ps_states ps2 = ps_states ps"
        by (simp_all add: p_def ps2_def new_live_for_incoming_connection_def counters_new_def ps1_def Let_def)
      then have "peers_ok (ps2\<lparr>ps_states := AList.update addr p (ps_states ps2)\<rparr>)"
        using ps None by (simp add: peers_ok_def distinct_update in_state_update_new ps1_def)
      then show ?thesis
        using assms False None
        by (auto simp: add_incoming_peer_def u ps1_def [symmetric] p_def ps2_def Let_def split: prod.splits)
    next
      case (Some p)
      have "peers_ok (snd (with_peer_mut addr (on_state (incoming_connection peer_id tx)) ps))"
        using ps by (rule incoming_op.keeps_counters)
      then show ?thesis
        using assms False Some by (auto simp: add_incoming_peer_def u Let_def split: prod.splits if_splits)
    qed
  qed
qed

lemma download_request_result: "on_download_request req h st = (ok, st') \<Longrightarrow> core st' = core st \<and> tl_ok st' = tl_ok st"
  by (auto simp: on_download_request_def split: option.splits if_splits dest: live_send_result)

lemma bitfield_result: "on_bitfield b h st = (ok, st') \<Longrightarrow> core st' = core st \<and> (tl_ok st \<longrightarrow> tl_ok st')"
  by (auto simp: on_bitfield_def split: if_splits) (simp add: tl_ok_def)

lemma peer_flags_frame [simp]:
  "core (on_peer_interested h st) = core st" "tl_ok st \<Longrightarrow> tl_ok (on_peer_interested h st)"
  "core (on_have n h st) = core st" "tl_ok st \<Longrightarrow> tl_ok (on_have n h st)"
  by (simp_all add: on_peer_interested_def on_have_def tl_ok_def [of st])

lemma message_frame:
  assumes "live_on_received_message e now msg h st = Done (ok, h', st')" "\<And>p. msg \<noteq> Piece p"
  shows "core st' = core st" "tl_ok st \<Longrightarrow> tl_ok st'"
  using assms
  by (auto simp: live_on_received_message_def split: message.splits prod.splits
      dest!: download_request_result bitfield_result)

lemma send_chunk_frame:
  assumes "request_chunk_send h chunk st = Some (ok, h', st')"
  shows "core st' = core st" "tl_ok st' = tl_ok st"
  using assms by (auto simp: request_chunk_send_def Let_def split: if_splits prod.splits dest: live_send_result)

section \<open>The peer counters\<close>

lemma reserve_ok:
  assumes "reserve_next_needed_piece h now st = Done (r, st')" shows "tl_ok st' = tl_ok st"
  using assms unfolding reserve_next_needed_piece_def
  by (auto split: option.splits if_splits)

lemma steal_ok: "try_steal_old_slow_piece e k h now st = (r, st') \<Longrightarrow> tl_ok st' = tl_ok st"
  by (auto simp: try_steal_old_slow_piece_def split: option.splits if_splits prod.splits)

lemma requester_next_keeps:
  assumes "requester_next e h now st = Done (r, st')" "P st"
    and "\<And>k st r st'. try_steal_old_slow_piece e k h now st = (r, st') \<Longrightarrow> P st \<Longrightarrow> P st'"
    and "\<And>st r st'. reserve_next_needed_piece h now st = Done (r, st') \<Longrightarrow> P st \<Longrightarrow> P st'"
  shows "P st'"
proof -
  obtain v st1 where 1: "try_steal_old_slow_piece e 10 h now st = (v, st1)" by fastforce
  have P1: "P st1" using 1 assms(2,3) by blast
  show ?thesis
  proof (cases v)
    case (Some i)
    then show ?thesis using assms(1) 1 P1 by (simp add: requester_next_def)
  next
    case None
    then obtain r2 st2 where 2: "reserve_next_needed_piece h now st1 = Done (r2, st2)"
      and rest: "(case r2 of Inr None \<Rightarrow> (let (s, st) = try_steal_old_slow_piece e 3 h now st2 in Done (Inr s, st))
        | _ \<Rightarrow> Done (r2, st2)) = Done (r, st')"
      using assms(1) 1 by (auto simp: requester_next_def)
    have P2: "P st2" using 2 P1 assms(4) by blast
    obtain v3 st3 where 3: "try_steal_old_slow_piece e 3 h now st2 = (v3, st3)" by fastforce
    have "P st3" using 3 P2 assms(3) by blast
    then show ?thesis using rest P2 3 by (auto split: sum.splits option.splits)
  qed
qed

lemma next_piece_ok: "requester_next e h now st = Done (r, st') \<Longrightarrow> tl_ok st \<Longrightarrow> tl_ok st'"
  by (erule requester_next_keeps) (simp_all add: steal_ok reserve_ok)

lemma with_live_mut_ok: "with_live_mut a f ps = (r, ps') \<Longrightarrow> peers_ok ps \<Longrightarrow> peers_ok ps'"
  using peers_ok_live_mut [of ps a f] by simp

text \<open>What the marks under the lock come to.\<close>

lemma mark_under_lock_cases:
  assumes "mark_chunk_under_lock a p ci now st = Done (r, st')"
  obtains "r = PieceIgnored \<or> r = PieceError" "st' = st"
  | ip ct ct' res where "map_of (tl_inflight st) (ci_piece_index ci) = Some ip" "ip_peer ip = a"
      "tl_chunks st = Some ct" "mark_chunk_downloaded ct p = Return (res, ct')" "res \<noteq> Some Completed"
      "r = (if res = Some NotCompleted then PieceAccepted ci None else if res = None then PieceError else PieceIgnored)"
      "st' = st\<lparr>tl_chunks := Some ct'\<rparr>"
  | ip ct ct' where "map_of (tl_inflight st) (ci_piece_index ci) = Some ip" "ip_peer ip = a"
      "tl_chunks st = Some ct" "mark_chunk_downloaded ct p = Return (Some Completed, ct')"
      "r = PieceAccepted ci (Some (now - ip_started ip))"
      "st' = st\<lparr>tl_chunks := Some ct', tl_inflight := AList.delete (ci_piece_index ci) (tl_inflight st)\<rparr>"
proof (cases "map_of (tl_inflight st) (ci_piece_index ci)")
  case None
  then show ?thesis using assms by (intro that(1)) (auto simp: mark_chunk_under_lock_def)
next
  case (Some ip)
  show ?thesis
  proof (cases "ip_peer ip = a \<and> tl_chunks st \<noteq> None")
    case False
    then show ?thesis using assms Some by (intro that(1)) (auto simp: mark_chunk_under_lock_def split: if_splits)
  next
    case True
    then obtain ct where ct: "tl_chunks st = Some ct" by blast
    obtain res ct' where m: "mark_chunk_downloaded ct p = Return (res, ct')"
      using assms Some True ct by (auto simp: mark_chunk_under_lock_def)
    show ?thesis
    proof (cases "res = Some Completed")
      case completed: True
      then show ?thesis using assms Some True completed ct m by (intro that(3)) (auto simp: mark_chunk_under_lock_def)
    next
      case False
      then show ?thesis using assms Some True ct m
        by (intro that(2)) (auto simp: mark_chunk_under_lock_def Let_def split: option.splits chunk_marking_result.splits)
    qed
  qed
qed

lemma mark_under_lock_ok: "mark_chunk_under_lock a p ci now st = Done (r, st') \<Longrightarrow> tl_ok st' = tl_ok st"
  by (erule mark_under_lock_cases) simp_all

text \<open>What accepting a block comes to: the marks under the lock, after the counters were moved.\<close>

lemma received_mark_cases:
  assumes "on_received_piece_mark h p now st = Done (r, h', st')"
  obtains "r = PieceError" "core st' = core st" "tl_ok st \<Longrightarrow> tl_ok st'"
  | ci st1 where "chunk_info_from_received_piece (tl_lengths st) (p_index p) (p_begin p)
        (word_of_nat (length (p_block p))) = Some ci"
      "core st1 = core st" "tl_ok st \<Longrightarrow> tl_ok st1" "tl_files st1 = tl_files st" "ph_addr h' = ph_addr h"
      "mark_chunk_under_lock (ph_addr h) p ci now st1 = Done (r, st')"
proof (cases "chunk_info_from_received_piece (tl_lengths st) (p_index p) (p_begin p) (word_of_nat (length (p_block p)))")
  case None
  then show ?thesis using assms by (intro that(1)) (auto simp: on_received_piece_mark_def)
next
  case (Some ci)
  define st2 where "st2 = count_fetched (ph_counters h) (length (p_block p)) st"
  have f: "core st2 = core st" "tl_ok st2 = tl_ok st" "tl_files st2 = tl_files st"
    by (simp_all add: st2_def count_fetched_def on_counters_def tl_ok_def core_def)
  obtain b ps where w: "with_live_mut (ph_addr h) (remove_request (inflight_request_from ci)) (tl_peers st2) = (b, ps)"
    by fastforce
  define st1 where "st1 = st2\<lparr>tl_peers := ps\<rparr>"
  have c: "core st1 = core st" "tl_files st1 = tl_files st" using f by (simp_all add: st1_def)
  have ok: "tl_ok st \<Longrightarrow> tl_ok st1"
    using with_live_mut_ok [OF w] f(2) by (simp add: st1_def) (simp add: tl_ok_def)
  define h1 where "h1 = h\<lparr>ph_requests_sem := ph_requests_sem h + 1\<rparr>"
  have eq: "on_received_piece_mark h p now st =
      (if b \<noteq> Some True then Done (PieceError, h1, st1)
       else bind_run (mark_chunk_under_lock (ph_addr h) p ci now st1) (\<lambda>(r, st). Done (r, h1, st)))"
    using w by (simp add: on_received_piece_mark_def Some Let_def st2_def st1_def h1_def)
  show ?thesis
  proof (cases "b = Some True")
    case True
    then show ?thesis using assms eq by (intro that(2) [OF Some c(1) ok c(2)]) (auto simp: h1_def)
  next
    case False
    then show ?thesis using assms eq c ok by (intro that(1)) auto
  qed
qed

lemma received_mark_ok:
  "on_received_piece_mark h p now st = Done (r, h', st') \<Longrightarrow> tl_ok st \<Longrightarrow> tl_ok st'"
  by (erule received_mark_cases) (auto dest: mark_under_lock_ok)

lemma finish_frame:
  assumes "finish_piece e h i t st = (ok, st')"
  shows "core st' = core (count_piece e h i t st)" "tl_ok st \<Longrightarrow> tl_ok st'"
proof -
  define s where "s = count_piece e h i t st"
  define d where "d = disconnect_all_peers_that_have_full_torrent (s\<lparr>tl_finished_notified := True\<rparr>)"
  obtain o1 s1 where r: "live_reopen_read_only e d = (o1, s1)" by fastforce
  have c: "core s1 = core s" "tl_ok s \<Longrightarrow> tl_ok s1"
    using reopen_frame [of e d] unfolding r by (simp_all add: d_def)
  have eq: "finish_piece e h i t st = (if is_finished s then (o1, if o1 then maybe_transmit_haves i s1 else s1)
      else (True, maybe_transmit_haves i s))"
    unfolding finish_piece_def s_def [symmetric] by (simp add: Let_def d_def [symmetric] r split: bool.split)
  show "core st' = core (count_piece e h i t st)"
    using assms eq c(1) by (auto simp: s_def [symmetric] split: if_splits)
  assume "tl_ok st"
  then have "tl_ok s" by (simp add: s_def count_piece_def Let_def tl_ok_def on_counters_def)
  then show "tl_ok st'" using assms eq c(2) by (auto split: if_splits)
qed

text \<open>What writing a block comes to.\<close>

lemma write_cases:
  assumes "on_received_piece_write e h p ci t st = Done (ok, st')"
  obtains "core st' = core st" "tl_ok st \<Longrightarrow> tl_ok st'"
  | ct ct' st1 x where "t = Some x" "tl_chunks st = Some ct" "mark_piece_downloaded ct (ci_piece_index ci) = Return ct'"
      "core st1 = core (st\<lparr>tl_chunks := Some ct'\<rparr>)" "tl_ok st \<Longrightarrow> tl_ok st1"
      "finish_piece e h (ci_piece_index ci) x st1 = (ok, st')"
  | ct ct' where "t \<noteq> None" "tl_chunks st = Some ct" "mark_piece_broken_if_not_have ct (ci_piece_index ci) = Return ct'"
      "core st' = core (st\<lparr>tl_chunks := Some ct'\<rparr>)" "tl_ok st \<Longrightarrow> tl_ok st'"
proof -
  obtain w files where f: "file_write_chunk (en_io e) (tl_info st) (tl_files st) (tl_lengths st) (p_block p) ci =
      Return (w, files)"
    using assms by (auto simp: on_received_piece_write_def)
  define st1 where "st1 = st\<lparr>tl_files := files\<rparr>"
  have c: "core st1 = core st" "tl_ok st1 = tl_ok st" "tl_chunks st1 = tl_chunks st"
    "core (st1\<lparr>tl_chunks := c\<rparr>) = core (st\<lparr>tl_chunks := c\<rparr>)" for c by (simp_all add: st1_def core_def)
  note def = on_received_piece_write_def f st1_def [symmetric]
  show ?thesis
  proof (cases w)
    case False
    then show ?thesis using assms c by (intro that(1)) (auto simp: def on_fatal_error_def)
  next
    case True
    show ?thesis
    proof (cases t)
      case None
      then show ?thesis using assms c True by (intro that(1)) (auto simp: def)
    next
      case (Some x)
      show ?thesis
      proof (cases "check_piece (en_sha1 e) (tl_info st) files (tl_lengths st) (ci_piece_index ci)")
        case (Done fine)
        show ?thesis
        proof (cases "tl_chunks st")
          case None
          then show ?thesis using assms c True Some Done by (intro that(1)) (auto simp: def)
        next
          case (Some ct)
          show ?thesis
          proof (cases fine)
            case True
            then obtain ct' where m: "mark_piece_downloaded ct (ci_piece_index ci) = Return ct'"
              "finish_piece e h (ci_piece_index ci) x (st1\<lparr>tl_chunks := Some ct'\<rparr>) = (ok, st')"
              using assms Some \<open>w\<close> Done \<open>t = Some x\<close> by (auto simp: def) (auto simp: st1_def)
            show ?thesis using \<open>t = Some x\<close> Some m c by (intro that(2)) auto
          next
            case False
            then obtain ct' where "mark_piece_broken_if_not_have ct (ci_piece_index ci) = Return ct'"
              "st' = st1\<lparr>tl_chunks := Some ct'\<rparr>"
              using assms Some \<open>w\<close> Done \<open>t = Some x\<close> by (auto simp: def) (auto simp: st1_def)
            then show ?thesis using \<open>t = Some x\<close> Some c by (intro that(3)) auto
          qed
        qed
      qed (use assms c True Some in \<open>intro that(1); auto simp: def; auto simp: st1_def\<close>)+
    qed
  qed
qed

lemma write_ok: "on_received_piece_write e h p ci t st = Done (ok, st') \<Longrightarrow> tl_ok st \<Longrightarrow> tl_ok st'"
  by (erule write_cases) (auto dest: finish_frame(2))

lemma cancel_ok: "cancel_requests reqs st = Done (ok, st') \<Longrightarrow> tl_ok st' = tl_ok st"
proof (induction reqs arbitrary: st)
  case (Cons req reqs)
  then show ?case by (auto split: option.splits dest!: Cons.IH)
qed simp

lemma died_ok:
  assumes "on_peer_died e h w st = Done (ok, st')" "tl_ok st" shows "tl_ok st'"
proof -
  define r where "r = with_peer_mut (ph_addr h) (on_state ps_take) (tl_peers st)"
  have "peers_ok (snd r)"
    using assms(2) set_op.keeps_counters [of "tl_peers st" "ph_addr h" PsQueued]
    by (simp add: r_def ps_take_def tl_ok_def)
  then have "tl_ok (st\<lparr>tl_peers := snd r\<rparr>)" by simp
  moreover have "peers_ok (snd (drop_peer (ph_addr h) (snd r)))" using \<open>peers_ok (snd r)\<close> by simp
  ultimately show ?thesis
    using assms(1) unfolding on_peer_died_def r_def [symmetric]
    by (auto simp: Let_def case_prod_unfold split: option.splits peer_state.splits if_splits dest!: cancel_ok)
qed

lemma ended_ok:
  assumes "manage_peer_end e h w st = Done (ok, st')" "tl_ok st" shows "tl_ok st'"
  using assms by (auto simp: manage_peer_end_def tl_ok_def [of st] dest!: died_ok split: prod.splits)

lemma swarm_step_ok: "swarm_step e s s' \<Longrightarrow> tl_ok (sw_torrent s) \<Longrightarrow> tl_ok (sw_torrent s')"
  by (induction rule: swarm_step.induct)
    (auto simp: failed_pause_frame(2) dest: adder_frame(2) start_frame(2) incoming_frame(2) message_frame(2) send_chunk_frame(2)
      received_mark_ok write_ok next_piece_ok ended_ok)

text \<open>
  C10: The aggregate counters count the peers. In every state that any interleaving of the torrent's tasks
  can reach, each address is in the table once, and each of the five counters is the number of peers in
  its state, modulo \<open>2 ^ 32\<close>.
\<close>

theorem peer_counters_count:
  assumes "swarm_reach pa s"
  shows "distinct (map fst (ps_states (tl_peers (sw_torrent s)))) \<and>
    counter p (ps_stats (tl_peers (sw_torrent s))) =
      word_of_nat (in_state p (ps_states (tl_peers (sw_torrent s))))"
proof -
  have "tl_ok (sw_torrent s)"
    using assms
    by (induction rule: swarm_reach.induct) (auto simp: swarm_new_def torrent_live_new_def tl_ok_def dest: swarm_step_ok)
  then show ?thesis by (simp add: tl_ok_def peers_ok_def)
qed

end
