(* ===== verification/Progress.thy ===== *)
theory Progress
  imports Swarm
begin

text \<open>
  The progress of a download, over every interleaving of the tasks of a live torrent: which pieces are
  there, queued, assigned to a peer or about to be written, and what \<open>is_finished\<close> says about them.
\<close>

section \<open>The state of a piece\<close>

definition hv :: "chunk_tracker \<Rightarrow> valid_piece_index \<Rightarrow> bool" where
  "hv ct i \<longleftrightarrow> have_pieces ct ! unat (vpi_get i)"

definition nd :: "chunk_tracker \<Rightarrow> valid_piece_index \<Rightarrow> bool" where
  "nd ct i \<longleftrightarrow> needed_pieces ct ! unat (vpi_get i)"

definition full :: "chunk_tracker \<Rightarrow> valid_piece_index \<Rightarrow> bool" where
  "full ct i \<longleftrightarrow> received ct i = all_chunks ct i"

text \<open>How the operations of the tracker move the pieces.\<close>

lemma index_inj: "unat (vpi_get i) = unat (vpi_get j) \<longleftrightarrow> i = j"
  by (metis valid_piece_index.expand word_unat_eq_iff)

lemma all_chunks_not_empty: "tracker_ok ct \<Longrightarrow> all_chunks ct i \<noteq> {}"
  using n_chunks_pos [OF tracker_okD(1)] by (auto simp: all_chunks_def)

lemma reserve_moves:
  assumes "tracker_ok ct" "valid_index (ct_lengths ct) i" "reserve_needed_piece ct i = Return ct'"
  shows "tracker_ok ct'" "ct_lengths ct' = ct_lengths ct" "have_pieces ct' = have_pieces ct"
    "chunk_status ct' = chunk_status ct" "j \<noteq> i \<Longrightarrow> nd ct' j = nd ct j"
  using assms by (auto simp: reserve_needed_piece_def bf_set_eq nd_def nth_list_update index_inj)

lemma mark_moves:
  assumes "tracker_ok ct" "mark_chunk_downloaded ct p = Return (res, ct')"
  shows "tracker_ok ct'" "ct' = ct\<lparr>chunk_status := chunk_status ct'\<rparr>"
    "valid_index (ct_lengths ct) j \<Longrightarrow> full ct j \<Longrightarrow> full ct' j"
    "res \<noteq> Some Completed \<Longrightarrow> valid_index (ct_lengths ct) j \<Longrightarrow> full ct' j = full ct j"
    "res = Some Completed \<Longrightarrow> accepted_chunk (ct_lengths ct) p = Some (i, k) \<Longrightarrow>
       valid_index (ct_lengths ct) i \<and> \<not> full ct i \<and> full ct' i \<and>
       (\<forall>j. valid_index (ct_lengths ct) j \<longrightarrow> j \<noteq> i \<longrightarrow> full ct' j = full ct j)"
proof -
  have *: "tracker_ok ct' \<and> ct' = ct\<lparr>chunk_status := chunk_status ct'\<rparr> \<and>
    (\<forall>j. valid_index (ct_lengths ct) j \<longrightarrow> full ct j \<longrightarrow> full ct' j) \<and>
    (res \<noteq> Some Completed \<longrightarrow> (\<forall>j. valid_index (ct_lengths ct) j \<longrightarrow> full ct' j = full ct j)) \<and>
    (res = Some Completed \<longrightarrow> (\<forall>i k. accepted_chunk (ct_lengths ct) p = Some (i, k) \<longrightarrow>
       valid_index (ct_lengths ct) i \<and> \<not> full ct i \<and> full ct' i \<and>
       (\<forall>j. valid_index (ct_lengths ct) j \<longrightarrow> j \<noteq> i \<longrightarrow> full ct' j = full ct j)))"
  proof (cases "accepted_chunk (ct_lengths ct) p")
    case None
    then have "res = None" "ct' = ct" using mark_chunk_downloaded_eq [OF assms(1), of p] assms(2) by simp_all
    then show ?thesis using assms(1) by simp
  next
    case (Some ik)
    obtain i k where ik: "ik = (i, k)" by fastforce
    obtain r where r: "res = Some r" "tracker_ok ct'" "ct' = ct\<lparr>chunk_status := chunk_status ct'\<rparr>"
      "(r, received ct' i) = mark_spec (all_chunks ct i) (received ct i) k"
      "\<forall>j. valid_index (ct_lengths ct) j \<longrightarrow> j \<noteq> i \<longrightarrow> received ct' j = received ct j"
      using mark_chunk_downloaded_eq [OF assms(1), of p] assms(2) Some ik by auto
    have L: "ct_lengths ct' = ct_lengths ct" using arg_cong [OF r(3), of ct_lengths] by simp
    have v: "valid_index (ct_lengths ct) i"
      using accepted_chunkD(1) [OF tracker_okD(1) [OF assms(1)]] Some ik by blast
    have other: "full ct' j = full ct j" if "valid_index (ct_lengths ct) j" "j \<noteq> i" for j
      using r(5) that L by (simp add: full_def all_chunks_def)
    have all: "all_chunks ct' i = all_chunks ct i" by (simp add: all_chunks_def L)
    consider "r = PreviouslyCompleted" "full ct i" "full ct' i" | "r = Completed" "\<not> full ct i" "full ct' i"
      | "r = NotCompleted" "\<not> full ct i" "\<not> full ct' i"
      using r(4) by (auto simp: mark_spec_def full_def all split: if_splits)
    then show ?thesis
    proof cases
      case 1
      then show ?thesis using r(1-3) other by (metis (full_types) chunk_marking_result.distinct(3) option.inject)
    next
      case 2
      then show ?thesis using r(1-3) other v Some ik by auto
    next
      case 3
      then show ?thesis using r(1-3) other by (metis chunk_marking_result.distinct(5) option.inject)
    qed
  qed
  then show "tracker_ok ct'" "ct' = ct\<lparr>chunk_status := chunk_status ct'\<rparr>"
    "valid_index (ct_lengths ct) j \<Longrightarrow> full ct j \<Longrightarrow> full ct' j"
    "res \<noteq> Some Completed \<Longrightarrow> valid_index (ct_lengths ct) j \<Longrightarrow> full ct' j = full ct j"
    "res = Some Completed \<Longrightarrow> accepted_chunk (ct_lengths ct) p = Some (i, k) \<Longrightarrow>
       valid_index (ct_lengths ct) i \<and> \<not> full ct i \<and> full ct' i \<and>
       (\<forall>j. valid_index (ct_lengths ct) j \<longrightarrow> j \<noteq> i \<longrightarrow> full ct' j = full ct j)"
    by blast+
qed

lemma downloaded_moves:
  assumes "tracker_ok ct" "valid_index (ct_lengths ct) i" "mark_piece_downloaded ct i = Return ct'"
  shows "tracker_ok ct'" "ct_lengths ct' = ct_lengths ct" "needed_pieces ct' = needed_pieces ct"
    "chunk_status ct' = chunk_status ct"
    "valid_index (ct_lengths ct) j \<Longrightarrow> hv ct' j \<longleftrightarrow> hv ct j \<or> j = i"
  using assms valid_index_bit [OF assms(2) tracker_okD(3) [OF assms(1)]]
  by (auto simp: mark_piece_downloaded_def bf_set_eq hv_def nth_list_update index_inj)

lemma broken_moves:
  assumes "tracker_ok ct" "valid_index (ct_lengths ct) i" "mark_piece_broken_if_not_have ct i = Return ct'"
  shows "tracker_ok ct'" "ct_lengths ct' = ct_lengths ct" "have_pieces ct' = have_pieces ct"
    "valid_index (ct_lengths ct) j \<Longrightarrow> j \<noteq> i \<Longrightarrow> full ct' j = full ct j \<and> nd ct' j = nd ct j"
    "\<not> hv ct i \<Longrightarrow> nd ct' i \<and> \<not> full ct' i" "hv ct i \<Longrightarrow> ct' = ct"
proof -
  obtain s where s: "mark_piece_broken_if_not_have ct i =
      Return (if have_pieces ct ! unat (vpi_get i) then ct
        else ct\<lparr>needed_pieces := (needed_pieces ct)[unat (vpi_get i) := True], chunk_status := s\<rparr>)"
    "length s = length (chunk_status ct)" "received (ct\<lparr>chunk_status := s\<rparr>) i = {}"
    "\<forall>j. valid_index (ct_lengths ct) j \<longrightarrow> j \<noteq> i \<longrightarrow> received (ct\<lparr>chunk_status := s\<rparr>) j = received ct j"
    using broken_eq [OF assms(1,2)] by blast
  have ct': "ct' = (if hv ct i then ct
      else ct\<lparr>needed_pieces := (needed_pieces ct)[unat (vpi_get i) := True], chunk_status := s\<rparr>)"
    using assms(3) s(1) by (simp add: hv_def)
  have rc: "received (ct\<lparr>needed_pieces := n, chunk_status := s\<rparr>) j = received (ct\<lparr>chunk_status := s\<rparr>) j" for n j
    by (simp add: received_def)
  show "tracker_ok ct'" "ct_lengths ct' = ct_lengths ct" "have_pieces ct' = have_pieces ct"
    using assms(1) s(2) by (simp_all add: ct')
  show "valid_index (ct_lengths ct) j \<Longrightarrow> j \<noteq> i \<Longrightarrow> full ct' j = full ct j \<and> nd ct' j = nd ct j"
    using s(4) by (simp add: ct' full_def nd_def rc all_chunks_def nth_list_update index_inj)
  show "\<not> hv ct i \<Longrightarrow> nd ct' i \<and> \<not> full ct' i"
    using s(3) all_chunks_not_empty [OF assms(1), of i] valid_index_bit [OF assms(2) tracker_okD(2) [OF assms(1)]]
    by (auto simp: ct' full_def nd_def rc all_chunks_def)
  show "hv ct i \<Longrightarrow> ct' = ct" by (simp add: ct')
qed

text \<open>Cancelling takes any index a peer's requests may hold.\<close>

lemma cancel_moves:
  assumes "tracker_ok ct" "mark_chunk_request_cancelled ct i c = Return (r, ct')"
  shows "tracker_ok ct'" "ct_lengths ct' = ct_lengths ct" "have_pieces ct' = have_pieces ct"
    "chunk_status ct' = chunk_status ct" "nd ct j \<Longrightarrow> valid_index (ct_lengths ct) j \<Longrightarrow> nd ct' j"
proof -
  have "ct' = ct \<or> (unat (vpi_get i) < length (needed_pieces ct) \<and>
      ct' = ct\<lparr>needed_pieces := (needed_pieces ct)[unat (vpi_get i) := True]\<rparr>)"
    using assms(2)
    by (auto simp: mark_chunk_request_cancelled_def bf_set_def Let_def split: option.splits bool.splits if_splits prod.splits)
  then show "tracker_ok ct'" "ct_lengths ct' = ct_lengths ct" "have_pieces ct' = have_pieces ct"
    "chunk_status ct' = chunk_status ct" "nd ct j \<Longrightarrow> valid_index (ct_lengths ct) j \<Longrightarrow> nd ct' j"
    using assms(1) by (auto simp: nd_def nth_list_update)
qed

section \<open>The invariant\<close>

text \<open>
  What a live torrent starts from: a piece that is not needed, or is there, has all its chunks. The
  initial check and \<open>pause\<close> give such trackers.
\<close>

definition tracker_start :: "chunk_tracker \<Rightarrow> bool" where
  "tracker_start ct \<longleftrightarrow> tracker_ok ct \<and>
     (\<forall>i. valid_index (ct_lengths ct) i \<longrightarrow> \<not> nd ct i \<or> hv ct i \<longrightarrow> full ct i)"

definition paused_ok :: "paused \<Rightarrow> bool" where
  "paused_ok pa \<longleftrightarrow> tracker_start (pa_chunk_tracker pa) \<and>
     pa_needed_bytes pa = calc_needed_bytes (pa_chunk_tracker pa)"

text \<open>\<open>ks\<close> are the pieces in flight, \<open>pend\<close> the completed pieces whose last block is being written.\<close>

definition piece_inv :: "chunk_tracker \<Rightarrow> chunk_tracker \<Rightarrow> bool \<Rightarrow> bool \<Rightarrow> valid_piece_index \<Rightarrow> bool" where
  "piece_inv ct0 ct flying pending i \<longleftrightarrow>
     (pending \<longrightarrow> full ct i \<and> \<not> hv ct i \<and> nd ct0 i) \<and>
     (hv ct0 i \<longrightarrow> hv ct i) \<and> (hv ct i \<longrightarrow> full ct i \<and> (hv ct0 i \<or> nd ct0 i)) \<and>
     (\<not> nd ct0 i \<longrightarrow> full ct i) \<and> (\<not> full ct i \<longrightarrow> nd ct i \<or> flying)"

definition progress :: "chunk_tracker \<Rightarrow> chunk_tracker \<Rightarrow> valid_piece_index set \<Rightarrow> valid_piece_index list \<Rightarrow> bool" where
  "progress ct0 ct ks pend \<longleftrightarrow> tracker_ok ct \<and> ct_lengths ct = ct_lengths ct0 \<and> distinct pend \<and>
     (\<forall>i \<in> set pend \<union> ks. valid_index (ct_lengths ct0) i) \<and>
     (\<forall>i. valid_index (ct_lengths ct0) i \<longrightarrow> piece_inv ct0 ct (i \<in> ks) (i \<in> set pend) i)"

lemma progressD:
  assumes "progress ct0 ct ks pend"
  shows "tracker_ok ct" "ct_lengths ct = ct_lengths ct0" "distinct pend"
    "i \<in> set pend \<Longrightarrow> valid_index (ct_lengths ct0) i"
    "valid_index (ct_lengths ct0) i \<Longrightarrow> piece_inv ct0 ct (i \<in> ks) (i \<in> set pend) i"
    "i \<in> ks \<Longrightarrow> valid_index (ct_lengths ct0) i"
  using assms by (auto simp: progress_def)

lemma progressI:
  assumes "tracker_ok ct" "ct_lengths ct = ct_lengths ct0" "distinct pend"
    and "\<And>i. i \<in> set pend \<Longrightarrow> valid_index (ct_lengths ct0) i"
    and "\<And>i. i \<in> ks \<Longrightarrow> valid_index (ct_lengths ct0) i"
    and "\<And>i. valid_index (ct_lengths ct0) i \<Longrightarrow> piece_inv ct0 ct (i \<in> ks) (i \<in> set pend) i"
  shows "progress ct0 ct ks pend"
  using assms by (auto simp: progress_def)

lemma progress_start: "tracker_start ct \<Longrightarrow> progress ct ct {} []"
  by (auto simp: progress_def piece_inv_def tracker_start_def)

lemma progress_subset: "progress ct0 ct ks (xs @ i # ys) \<Longrightarrow> progress ct0 ct ks (xs @ ys)"
  by (auto simp: progress_def piece_inv_def)

lemma full_cong: "chunk_status ct' = chunk_status ct \<Longrightarrow> ct_lengths ct' = ct_lengths ct \<Longrightarrow> full ct' i = full ct i"
  by (simp add: full_def all_chunks_def received_def)

lemma hv_cong: "have_pieces ct' = have_pieces ct \<Longrightarrow> hv ct' i = hv ct i"
  by (simp add: hv_def)

text \<open>An operation that says how each piece moves keeps the invariant.\<close>

lemma progress_same:
  assumes "progress ct0 ct ks pend" "tracker_ok ct'" "ct_lengths ct' = ct_lengths ct" "ks \<subseteq> ks'"
    and "\<And>j. j \<in> ks' \<Longrightarrow> valid_index (ct_lengths ct0) j"
    and "\<And>j. valid_index (ct_lengths ct0) j \<Longrightarrow>
      full ct' j = full ct j \<and> hv ct' j = hv ct j \<and> (nd ct j \<longrightarrow> nd ct' j \<or> j \<in> ks')"
  shows "progress ct0 ct' ks' pend"
proof (rule progressI)
  show "piece_inv ct0 ct' (j \<in> ks') (j \<in> set pend) j" if "valid_index (ct_lengths ct0) j" for j
    using progressD(5) [OF assms(1) that] assms(6) [OF that] assms(4) unfolding piece_inv_def by blast
qed (use assms(2,3,5) progressD [OF assms(1)] in auto)

lemma progress_reserve:
  assumes "progress ct0 ct ks pend" "valid_index (ct_lengths ct0) i" "reserve_needed_piece ct i = Return ct'"
  shows "progress ct0 ct' (insert i ks) pend"
proof -
  note ok = progressD(1,2) [OF assms(1)]
  note m = reserve_moves [OF ok(1) _ assms(3), unfolded ok(2), OF assms(2)]
  show ?thesis
    using assms(2) m ok(2) progressD(6) [OF assms(1)]
    by (intro progress_same [OF assms(1)]) (auto simp: full_cong [of ct' ct] hv_cong [of ct' ct])
qed

lemma progress_cancel:
  assumes "progress ct0 ct ks pend" "mark_chunk_request_cancelled ct i c = Return (r, ct')"
  shows "progress ct0 ct' ks pend"
proof -
  note ok = progressD(1,2) [OF assms(1)]
  note m = cancel_moves [OF ok(1) assms(2), unfolded ok(2)]
  show ?thesis
    using m ok(2) progressD(6) [OF assms(1)]
    by (intro progress_same [OF assms(1)]) (auto simp: full_cong [of ct' ct] hv_cong [of ct' ct])
qed

lemma mark_other_bits:
  assumes "tracker_ok ct" "mark_chunk_downloaded ct p = Return (res, ct')"
  shows "nd ct' j = nd ct j" "hv ct' j = hv ct j" "ct_lengths ct' = ct_lengths ct"
  using mark_moves(2) [OF assms, THEN arg_cong, of needed_pieces]
    mark_moves(2) [OF assms, THEN arg_cong, of have_pieces] mark_moves(2) [OF assms, THEN arg_cong, of ct_lengths]
  by (simp_all add: nd_def hv_def)

lemma progress_mark:
  assumes "progress ct0 ct ks pend" "mark_chunk_downloaded ct p = Return (res, ct')" "res \<noteq> Some Completed"
  shows "progress ct0 ct' ks pend"
proof -
  note ok = progressD(1,2) [OF assms(1)]
  note m = mark_moves [OF ok(1) assms(2), unfolded ok(2)] mark_other_bits [OF ok(1) assms(2)]
  show ?thesis using m assms(3) progressD(6) [OF assms(1)] by (intro progress_same [OF assms(1)]) auto
qed

lemma progress_completed:
  assumes "progress ct0 ct ks pend" "mark_chunk_downloaded ct p = Return (Some Completed, ct')"
    and "accepted_chunk (ct_lengths ct0) p = Some (i, k)"
  shows "progress ct0 ct' (ks - {i}) (i # pend)"
proof -
  note ok = progressD(1,2) [OF assms(1)]
  note m = mark_moves [OF ok(1) assms(2), unfolded ok(2)]
  note f = mark_other_bits [OF ok(1) assms(2)]
  have i: "valid_index (ct_lengths ct0) i" "\<not> full ct i" "full ct' i"
    "\<And>j. valid_index (ct_lengths ct0) j \<Longrightarrow> j \<noteq> i \<Longrightarrow> full ct' j = full ct j"
    using m(5) [OF refl assms(3)] by blast+
  note pi = progressD(5) [OF assms(1)]
  show ?thesis
  proof (rule progressI)
    show "distinct (i # pend)"
      using progressD(3) [OF assms(1)] pi [OF i(1)] i(2) by (auto simp: piece_inv_def)
    show "piece_inv ct0 ct' (j \<in> ks - {i}) (j \<in> set (i # pend)) j" if j: "valid_index (ct_lengths ct0) j" for j
    proof (cases "j = i")
      case True
      then show ?thesis using pi [OF i(1)] i(2,3) f by (auto simp: piece_inv_def)
    next
      case False
      then show ?thesis using pi [OF j] i(4) [OF j] f by (auto simp: piece_inv_def)
    qed
  qed (use m(1) f(3) ok i(1) progressD(4,6) [OF assms(1)] in auto)
qed

lemma progress_downloaded:
  assumes "progress ct0 ct ks (xs @ i # ys)" "mark_piece_downloaded ct i = Return ct'"
  shows "progress ct0 ct' ks (xs @ ys)"
proof -
  note ok = progressD(1,2) [OF assms(1)]
  have i: "valid_index (ct_lengths ct0) i" using progressD(4) [OF assms(1)] by simp
  note m = downloaded_moves [OF ok(1) _ assms(2), unfolded ok(2), OF i]
  note pi = progressD(5) [OF assms(1)]
  have f: "full ct' j = full ct j" "nd ct' j = nd ct j" for j
    using m(2-4) ok(2) by (simp_all add: full_cong [of ct' ct] nd_def)
  have notin: "i \<notin> set (xs @ ys)" using progressD(3) [OF assms(1)] by simp
  show ?thesis
  proof (rule progressI)
    show "piece_inv ct0 ct' (j \<in> ks) (j \<in> set (xs @ ys)) j" if j: "valid_index (ct_lengths ct0) j" for j
    proof (cases "j = i")
      case True
      then show ?thesis using pi [OF i] m(5) [OF i] f notin by (auto simp: piece_inv_def)
    next
      case False
      then show ?thesis using pi [OF j] m(5) [OF j] f by (auto simp: piece_inv_def)
    qed
  qed (use m(1,2) ok(2) progressD(3,4,6) [OF assms(1)] in auto)
qed

lemma progress_broken:
  assumes "progress ct0 ct ks (xs @ i # ys)" "mark_piece_broken_if_not_have ct i = Return ct'"
  shows "progress ct0 ct' ks (xs @ ys)"
proof -
  note ok = progressD(1,2) [OF assms(1)]
  have i: "valid_index (ct_lengths ct0) i" using progressD(4) [OF assms(1)] by simp
  note m = broken_moves [OF ok(1) _ assms(2), unfolded ok(2), OF i]
  note pi = progressD(5) [OF assms(1)]
  have f: "hv ct' j = hv ct j" for j using m(3) by (rule hv_cong)
  have pend: "\<not> hv ct i" "nd ct0 i" using pi [OF i] by (auto simp: piece_inv_def)
  have notin: "i \<notin> set (xs @ ys)" using progressD(3) [OF assms(1)] by simp
  show ?thesis
  proof (rule progressI)
    show "piece_inv ct0 ct' (j \<in> ks) (j \<in> set (xs @ ys)) j" if j: "valid_index (ct_lengths ct0) j" for j
    proof (cases "j = i")
      case True
      then show ?thesis using pi [OF i] m(5) [OF pend(1)] pend f notin by (auto simp: piece_inv_def)
    next
      case False
      then show ?thesis using pi [OF j] m(4) [OF j] f by (auto simp: piece_inv_def)
    qed
  qed (use m(1,2) ok(2) progressD(3,4,6) [OF assms(1)] in auto)
qed

section \<open>Steps\<close>

definition idx :: "nat \<Rightarrow> valid_piece_index" where
  "idx p = ValidPieceIndex (word_of_nat p)"

definition gained :: "chunk_tracker \<Rightarrow> chunk_tracker \<Rightarrow> nat \<Rightarrow> bool" where
  "gained ct0 ct p \<longleftrightarrow> hv ct (idx p) \<and> \<not> hv ct0 (idx p)"

definition downloaded_bytes :: "chunk_tracker \<Rightarrow> chunk_tracker \<Rightarrow> nat" where
  "downloaded_bytes ct0 ct = bytes_in (ct_lengths ct0) (pieces_below (n_pieces (ct_lengths ct0)) (gained ct0 ct))"

definition progress_inv ::
  "chunk_tracker \<Rightarrow> chunk_tracker option \<times> (valid_piece_index \<times> inflight_piece) list \<times> lengths \<times> u64 \<times> u64 \<Rightarrow>
    valid_piece_index list \<Rightarrow> bool" where
  "progress_inv ct0 c pend \<longleftrightarrow>
     (case c of (chunks, inflight, L, needed, dl) \<Rightarrow>
        \<exists>ct. chunks = Some ct \<and> progress ct0 ct (fst ` set inflight) pend \<and> L = ct_lengths ct0 \<and>
          needed = calc_needed_bytes ct0 \<and> dl = word_of_nat (downloaded_bytes ct0 ct))"

definition completed_pieces :: "(peer_handler_state \<times> piece \<times> chunk_info \<times> nat option) list \<Rightarrow> valid_piece_index list" where
  "completed_pieces ps = map (\<lambda>(h, p, ci, t). ci_piece_index ci) (filter (\<lambda>(h, p, ci, t). t \<noteq> None) ps)"

lemma completed_simps [simp]:
  "completed_pieces [] = []" "completed_pieces (xs @ ys) = completed_pieces xs @ completed_pieces ys"
  "completed_pieces ((h, p, ci, t) # xs) = (if t = None then [] else [ci_piece_index ci]) @ completed_pieces xs"
  by (simp_all add: completed_pieces_def)

lemma idx_index: "unat (vpi_get i) = p \<Longrightarrow> idx p = i"
  by (auto simp: idx_def)

lemma valid_idx: "lengths_ok L \<Longrightarrow> p < n_pieces L \<Longrightarrow> valid_index L (idx p) \<and> unat (vpi_get (idx p)) = p"
  using n_pieces_bound [of L]
  by (auto simp: idx_def valid_index_def word_le_nat_alt unat_u32_of_nat)

lemma bytes_in_sum:
  "bytes_in L (pieces_below n P) = (\<Sum>p | p < n \<and> P p. unat (piece_length_of L (idx p)))"
proof -
  have "bytes_in L (pieces_below n P) = (\<Sum>p \<in> set (pieces_below n P). unat (piece_length_of L (idx p)))"
    unfolding bytes_in_def idx_def by (rule sum_list_distinct_conv_sum_set) (simp add: pieces_below_def)
  moreover have "set (pieces_below n P) = {p. p < n \<and> P p}" by (auto simp: pieces_below_def)
  ultimately show ?thesis by simp
qed

lemma downloaded_bytes_gain:
  assumes "progress ct0 ct ks (xs @ i # ys)" "mark_piece_downloaded ct i = Return ct'"
  shows "downloaded_bytes ct0 ct' = downloaded_bytes ct0 ct + unat (piece_length_of (ct_lengths ct0) i)"
proof -
  have ok: "tracker_ok ct" and L: "ct_lengths ct = ct_lengths ct0" and i: "valid_index (ct_lengths ct0) i" "\<not> hv ct i"
    and mono: "hv ct0 i \<longrightarrow> hv ct i"
    using progressD(1-3) [OF assms(1)] progressD(4,5) [OF assms(1), of i] by (auto simp: piece_inv_def)
  note m = downloaded_moves [OF ok _ assms(2), unfolded L, OF i(1)]
  define n where "n = n_pieces (ct_lengths ct0)"
  define q where "q = unat (vpi_get i)"
  have lok: "lengths_ok (ct_lengths ct0)" using tracker_okD(1) [OF ok] L by simp
  have q: "q < n" "idx q = i" using valid_index_bit [OF i(1) order_refl] by (simp_all add: n_def q_def idx_index)
  have g: "gained ct0 ct' p \<longleftrightarrow> gained ct0 ct p \<or> p = q" if "p < n" for p
  proof -
    have "valid_index (ct_lengths ct0) (idx p)" "idx p = i \<longleftrightarrow> p = q"
      using valid_idx [OF lok, of p] that q(2) by (auto simp: n_def q_def)
    then show ?thesis using m(5) [of "idx p"] i mono by (auto simp: gained_def)
  qed
  have "{p. p < n \<and> gained ct0 ct' p} = insert q {p. p < n \<and> gained ct0 ct p}" using g q(1) by auto
  moreover have "q \<notin> {p. p < n \<and> gained ct0 ct p}" using i(2) q(2) by (simp add: gained_def)
  ultimately show ?thesis
    unfolding downloaded_bytes_def bytes_in_sum n_def [symmetric] by (simp add: q(2))
qed

lemma downloaded_bytes_cong: "have_pieces ct' = have_pieces ct \<Longrightarrow> downloaded_bytes ct0 ct' = downloaded_bytes ct0 ct"
  by (simp add: downloaded_bytes_def gained_def [abs_def] hv_def)

lemma progress_invI:
  assumes "tl_chunks st = Some ct" "progress ct0 ct (fst ` set (tl_inflight st)) pend"
    and "tl_lengths st = ct_lengths ct0" "tl_initially_needed_bytes st = calc_needed_bytes ct0"
    and "as_downloaded_and_checked_bytes (tl_stats st) = word_of_nat (downloaded_bytes ct0 ct)"
  shows "progress_inv ct0 (core st) pend"
  using assms by (simp add: progress_inv_def core_def)

lemma progress_invE:
  assumes "progress_inv ct0 (core st) pend"
  obtains ct where "tl_chunks st = Some ct" "progress ct0 ct (fst ` set (tl_inflight st)) pend"
    "tl_lengths st = ct_lengths ct0" "tl_initially_needed_bytes st = calc_needed_bytes ct0"
    "as_downloaded_and_checked_bytes (tl_stats st) = word_of_nat (downloaded_bytes ct0 ct)"
  using assms by (auto simp: progress_inv_def core_def)

lemma keys_update: "fst ` set (AList.update k v al) = insert k (fst ` set al)"
  by (simp add: AList.dom_update)

lemma keys_delete: "fst ` set (AList.delete k al) = fst ` set al - {k}"
  by (auto simp: AList.delete_eq image_iff)

lemma reserve_cases:
  assumes "reserve_next_needed_piece h now st = Done (r, st')"
  obtains "st' = st"
  | ct ct' i w ip where "tl_chunks st = Some ct" "validate_piece_index (tl_lengths st) w = Some i"
      "reserve_needed_piece ct i = Return ct'"
      "st' = st\<lparr>tl_chunks := Some ct', tl_inflight := AList.update i ip (tl_inflight st)\<rparr>"
proof (cases "st' = st")
  case False
  then obtain bf where bf: "with_live (ph_addr h) lp_bitfield (tl_peers st) = Some bf" "\<not> ph_i_am_choked h"
    using assms by (cases "with_live (ph_addr h) lp_bitfield (tl_peers st)")
      (auto simp: reserve_next_needed_piece_def split: if_splits)
  then obtain ct where ct: "tl_chunks st = Some ct"
    using assms False by (cases "tl_chunks st") (auto simp: reserve_next_needed_piece_def)
  obtain ns where ns: "iter_needed_pieces ct = Return ns"
    using assms bf ct by (auto simp: reserve_next_needed_piece_def)
  obtain n where n: "find (\<lambda>n. get bf n = Some True) ns = Some n"
    using assms False bf ct ns
    by (cases "find (\<lambda>n. get bf n = Some True) ns") (auto simp: reserve_next_needed_piece_def)
  obtain i where i: "validate_piece_index (tl_lengths st) (word_of_nat n) = Some i"
    using assms False bf ct ns n
    by (cases "validate_piece_index (tl_lengths st) (word_of_nat n)") (auto simp: reserve_next_needed_piece_def)
  obtain ct' where ct': "reserve_needed_piece ct i = Return ct'"
    using assms bf ct ns n i by (auto simp: reserve_next_needed_piece_def)
  show ?thesis using assms bf ct ns n i ct' by (intro that(2) [OF ct i ct']) (auto simp: reserve_next_needed_piece_def)
qed (use that(1) in blast)

lemma reserve_progress:
  assumes "reserve_next_needed_piece h now st = Done (r, st')" "progress_inv ct0 (core st) pend"
  shows "progress_inv ct0 (core st') pend"
  using assms(1)
proof (cases rule: reserve_cases)
  case 1
  then show ?thesis using assms(2) by simp
next
  case (2 ct ct' i w ip)
  from assms(2) obtain ct1 where "tl_chunks st = Some ct1" "progress ct0 ct1 (fst ` set (tl_inflight st)) pend"
    and L: "tl_lengths st = ct_lengths ct0" "tl_initially_needed_bytes st = calc_needed_bytes ct0"
    "as_downloaded_and_checked_bytes (tl_stats st) = word_of_nat (downloaded_bytes ct0 ct1)"
    by (rule progress_invE)
  then have P: "progress ct0 ct (fst ` set (tl_inflight st)) pend" and ct1: "ct1 = ct" using 2(1) by auto
  have i: "valid_index (ct_lengths ct0) i"
    using 2(2) L(1) by (auto simp: validate_piece_index_def valid_index_def split: if_splits)
  have "progress ct0 ct' (insert i (fst ` set (tl_inflight st))) pend" using P i 2(3) by (rule progress_reserve)
  moreover have "downloaded_bytes ct0 ct' = downloaded_bytes ct0 ct"
    by (rule downloaded_bytes_cong [OF reserve_moves(3) [OF progressD(1) [OF P] _ 2(3)]])
      (simp add: i progressD(2) [OF P])
  ultimately show ?thesis using L ct1 2(4) by (intro progress_invI [of _ ct']) (simp_all add: keys_update)
qed

lemma max_by_key_in: "max_by_key f xs = Some x \<Longrightarrow> x \<in> set xs"
  by (induction xs arbitrary: x) (auto split: option.splits if_splits)

lemma steal_cases:
  assumes "try_steal_old_slow_piece e k h now st = (r, st')"
  obtains "st' = st"
  | i ip where "i \<in> fst ` set (tl_inflight st)" "st' = st\<lparr>tl_inflight := AList.update i ip (tl_inflight st)\<rparr>"
proof (cases "st' = st")
  case False
  define xs where "xs = filter (\<lambda>(p, r). ip_peer r \<noteq> ph_addr h) (tl_inflight st)"
  obtain i q where m: "max_by_key (\<lambda>(p, r). now - ip_started r) xs = Some (i, q)"
    and st': "st' = st\<lparr>tl_inflight := AList.update i \<lparr>ip_peer = ph_addr h, ip_started = now\<rparr> (tl_inflight st)\<rparr>"
    using assms False unfolding try_steal_old_slow_piece_def xs_def [symmetric]
    by (auto split: option.splits if_splits prod.splits)
  have "(i, q) \<in> set xs" using m by (rule max_by_key_in)
  then have "i \<in> fst ` set (tl_inflight st)" by (auto simp: xs_def rev_image_eqI)
  then show ?thesis using st' by (rule that(2))
qed (use that(1) in blast)

lemma steal_progress:
  assumes "try_steal_old_slow_piece e k h now st = (r, st')" "progress_inv ct0 (core st) pend"
  shows "progress_inv ct0 (core st') pend"
  using assms(1)
proof (cases rule: steal_cases)
  case 1
  then show ?thesis using assms(2) by simp
next
  case (2 i ip)
  then have "fst ` set (tl_inflight st') = fst ` set (tl_inflight st)" by (auto simp: keys_update)
  with assms(2) show ?thesis by (simp add: 2(2) progress_inv_def core_def)
qed

lemma next_piece_progress:
  "requester_next e h now st = Done (r, st') \<Longrightarrow> progress_inv ct0 (core st) pend \<Longrightarrow> progress_inv ct0 (core st') pend"
  by (erule requester_next_keeps) (assumption | rule steal_progress reserve_progress)+

lemma received_progress:
  assumes "on_received_piece_mark h p now st = Done (r, h', st')" "progress_inv ct0 (core st) (completed_pieces pend)"
  shows "progress_inv ct0 (core st') (completed_pieces (accepted_block h' p r @ pend))"
  using assms(1)
proof (cases rule: received_mark_cases)
  case 1
  then show ?thesis using assms(2) by (simp add: accepted_block_def)
next
  case (2 ci st1)
  have inv: "progress_inv ct0 (core st1) (completed_pieces pend)" using assms(2) 2(2) by simp
  have L1: "tl_lengths st1 = tl_lengths st" using 2(2) by (simp add: core_def)
  from inv obtain ct where c: "tl_chunks st1 = Some ct"
    and P: "progress ct0 ct (fst ` set (tl_inflight st1)) (completed_pieces pend)"
    and L: "tl_lengths st1 = ct_lengths ct0" "tl_initially_needed_bytes st1 = calc_needed_bytes ct0"
    "as_downloaded_and_checked_bytes (tl_stats st1) = word_of_nat (downloaded_bytes ct0 ct)"
    by (rule progress_invE)
  have acc: "accepted_chunk (ct_lengths ct0) p = Some (ci_piece_index ci, unat (ci_chunk_index ci))"
    using 2(1) L(1) L1 by (simp add: accepted_chunk_def)
  have same: "downloaded_bytes ct0 ct' = downloaded_bytes ct0 ct" if "mark_chunk_downloaded ct p = Return (res, ct')" for res ct'
    by (rule downloaded_bytes_cong, subst mark_moves(2) [OF progressD(1) [OF P] that]) simp
  show ?thesis using 2(6)
  proof (cases rule: mark_under_lock_cases)
    case 1
    then show ?thesis using inv by (auto simp: accepted_block_def)
  next
    case (2 ip ct1 ct' res)
    then have m: "mark_chunk_downloaded ct p = Return (res, ct')" using c by simp
    have "completed_pieces (accepted_block h' p r @ pend) = completed_pieces pend"
      using 2(6) by (auto simp: accepted_block_def)
    moreover have "progress ct0 ct' (fst ` set (tl_inflight st1)) (completed_pieces pend)"
      using P m 2(5) by (rule progress_mark)
    ultimately show ?thesis using L same [OF m] 2(7) by (intro progress_invI [of _ ct']) simp_all
  next
    case (3 ip ct1 ct')
    then have m: "mark_chunk_downloaded ct p = Return (Some Completed, ct')" using c by simp
    have "progress ct0 ct' (fst ` set (tl_inflight st1) - {ci_piece_index ci}) (ci_piece_index ci # completed_pieces pend)"
      using P m acc by (rule progress_completed)
    then show ?thesis using L same [OF m] 3(5,6)
      by (intro progress_invI [of _ ct']) (simp_all add: keys_delete accepted_block_def)
  qed
qed

lemma write_progress:
  assumes "on_received_piece_write e h p ci t st = Done (ok, st')"
    and "progress_inv ct0 (core st) (completed_pieces (xs @ (h, p, ci, t) # ys))"
  shows "progress_inv ct0 (core st') (completed_pieces (xs @ ys))"
proof -
  from assms(2) obtain ct where c: "tl_chunks st = Some ct"
    and P: "progress ct0 ct (fst ` set (tl_inflight st)) (completed_pieces (xs @ (h, p, ci, t) # ys))"
    and L: "tl_lengths st = ct_lengths ct0" "tl_initially_needed_bytes st = calc_needed_bytes ct0"
    "as_downloaded_and_checked_bytes (tl_stats st) = word_of_nat (downloaded_bytes ct0 ct)"
    by (rule progress_invE)
  define i where "i = ci_piece_index ci"
  have P1: "progress ct0 ct (fst ` set (tl_inflight st)) (completed_pieces xs @ i # completed_pieces ys)" if "t \<noteq> None"
    using P that by (simp add: i_def)
  show ?thesis using assms(1)
  proof (cases rule: write_cases)
    case 1
    have "progress ct0 ct (fst ` set (tl_inflight st)) (completed_pieces (xs @ ys))"
    proof (cases "t = None")
      case True
      then show ?thesis using P by simp
    next
      case False
      from progress_subset [OF P1 [OF False]] show ?thesis by simp
    qed
    then show ?thesis unfolding 1(1) using c L by (intro progress_invI [of _ ct]) simp_all
  next
    case (2 ct1 ct' st1 x)
    then have m: "mark_piece_downloaded ct i = Return ct'" and t: "t \<noteq> None" using c by (simp_all add: i_def)
    note gain = downloaded_bytes_gain [OF P1 [OF t] m]
    have s1: "tl_chunks st1 = Some ct'" "tl_inflight st1 = tl_inflight st" "tl_lengths st1 = tl_lengths st"
      "tl_initially_needed_bytes st1 = tl_initially_needed_bytes st"
      "as_downloaded_and_checked_bytes (tl_stats st1) = as_downloaded_and_checked_bytes (tl_stats st)"
      using 2(4) by (simp_all add: core_def)
    define s2 where "s2 = count_piece e h i x st1"
    have s2: "tl_chunks s2 = Some ct'" "tl_inflight s2 = tl_inflight st" "tl_lengths s2 = tl_lengths st"
      "tl_initially_needed_bytes s2 = tl_initially_needed_bytes st"
      "as_downloaded_and_checked_bytes (tl_stats s2) =
        as_downloaded_and_checked_bytes (tl_stats st) + ucast (piece_length_of (tl_lengths st) i)"
      using s1 by (simp_all add: s2_def count_piece_def Let_def on_counters_def)
    have "progress_inv ct0 (core s2) (completed_pieces xs @ completed_pieces ys)"
      using progress_downloaded [OF P1 [OF t] m] s2 L gain
      by (intro progress_invI [of _ ct']) simp_all
    then show ?thesis using finish_frame(1) [OF 2(6)] by (simp add: s2_def i_def)
  next
    case (3 ct1 ct')
    then have m: "mark_piece_broken_if_not_have ct i = Return ct'" using c by (simp add: i_def)
    note ok = progressD(1,2) [OF P1 [OF 3(1)]] progressD(4) [OF P1 [OF 3(1)], of i]
    have "downloaded_bytes ct0 ct' = downloaded_bytes ct0 ct"
      by (rule downloaded_bytes_cong [OF broken_moves(3) [OF ok(1) _ m]]) (simp add: ok(2,3))
    then show ?thesis
      unfolding 3(4) using progress_broken [OF P1 [OF 3(1)] m] L by (intro progress_invI [of _ ct']) simp_all
  qed
qed

lemma cancel_progress:
  "cancel_requests reqs st = Done (ok, st') \<Longrightarrow> progress_inv ct0 (core st) pend \<Longrightarrow> progress_inv ct0 (core st') pend"
proof (induction reqs arbitrary: st)
  case (Cons req reqs)
  from Cons.prems(2) obtain ct where c: "tl_chunks st = Some ct" and P: "progress ct0 ct (fst ` set (tl_inflight st)) pend"
    and L: "tl_lengths st = ct_lengths ct0" "tl_initially_needed_bytes st = calc_needed_bytes ct0"
    "as_downloaded_and_checked_bytes (tl_stats st) = word_of_nat (downloaded_bytes ct0 ct)"
    by (rule progress_invE)
  obtain r ct' where m: "mark_chunk_request_cancelled ct (ir_piece req) (ir_chunk req) = Return (r, ct')"
    and rest: "cancel_requests reqs (st\<lparr>tl_chunks := Some ct'\<rparr>) = Done (ok, st')"
    using Cons.prems(1) c by auto
  have "downloaded_bytes ct0 ct' = downloaded_bytes ct0 ct"
    by (rule downloaded_bytes_cong [OF cancel_moves(3) [OF progressD(1) [OF P] m]])
  then have "progress_inv ct0 (core (st\<lparr>tl_chunks := Some ct'\<rparr>)) pend"
    using progress_cancel [OF P m] L by (intro progress_invI [of _ ct']) simp_all
  then show ?case by (rule Cons.IH [OF rest])
qed simp

lemma died_progress:
  assumes "on_peer_died e h w st = Done (ok, st')" "progress_inv ct0 (core st) pend"
  shows "progress_inv ct0 (core st') pend"
proof -
  obtain prev ps where r: "with_peer_mut (ph_addr h) (on_state ps_take) (tl_peers st) = (prev, ps)" by fastforce
  have inv: "progress_inv ct0 (core (st\<lparr>tl_peers := ps\<rparr>)) pend" using assms(2) by simp
  show ?thesis
  proof (cases "\<exists>l. prev = Some (PsLive l)")
    case False
    then show ?thesis using assms r
      by (auto simp: on_peer_died_def Let_def split: option.splits peer_state.splits if_splits)
  next
    case True
    then obtain l where l: "prev = Some (PsLive l)" by blast
    then obtain o1 st1 where c: "cancel_requests (lp_inflight_requests l) (st\<lparr>tl_peers := ps\<rparr>) = Done (o1, st1)"
      using assms(1) r by (auto simp: on_peer_died_def Let_def)
    have "core st' = core st1"
      using assms(1) r l c by (auto simp: on_peer_died_def Let_def split: if_splits)
    then show ?thesis using cancel_progress [OF c inv] by simp
  qed
qed

lemma ended_progress:
  assumes "manage_peer_end e h w st = Done (ok, st')" "progress_inv ct0 (core st) pend"
  shows "progress_inv ct0 (core st') pend"
proof -
  obtain st1 where "on_peer_died e h w (st\<lparr>tl_peers := channel_close (ph_tx h) (tl_peers st)\<rparr>) = Done (ok, st1)"
    "core st' = core st1"
    using assms(1) by (auto simp: manage_peer_end_def)
  then show ?thesis using died_progress assms(2) by (metis core_peers(1))
qed

lemma swarm_step_progress:
  assumes "swarm_step e s s'" "progress_inv ct0 (core (sw_torrent s)) (completed_pieces (sw_pending s))"
  shows "progress_inv ct0 (core (sw_torrent s')) (completed_pieces (sw_pending s'))"
  using assms
proof (induction rule: swarm_step.induct)
  case (receive n h p now r h' st)
  then show ?case using received_progress by simp
next
  case (disk_write xs h p ci t ys ok st)
  then show ?case using write_progress by simp
qed (simp_all add: failed_pause_frame(1) adder_frame(1) start_frame(1) incoming_frame(1) message_frame(1) send_chunk_frame(1)
    next_piece_progress ended_progress)

lemma swarm_reach_progress:
  assumes "swarm_reach pa s" "paused_ok pa"
  shows "progress_inv (pa_chunk_tracker pa) (core (sw_torrent s)) (completed_pieces (sw_pending s))"
  using assms(1)
proof (induction rule: swarm_reach.induct)
  case fresh
  have "downloaded_bytes ct ct = 0" for ct
    by (simp add: downloaded_bytes_def bytes_in_sum gained_def)
  then show ?case
    using assms(2) by (auto simp: swarm_new_def torrent_live_new_def paused_ok_def intro!: progress_invI progress_start)
qed (rule swarm_step_progress)

section \<open>What is left to download\<close>

lemma needed_bytes_eq:
  assumes "tracker_ok ct"
  shows "unat (calc_needed_bytes ct) =
    (\<Sum>p | p < n_pieces (ct_lengths ct) \<and> nd ct (idx p). unat (piece_length_of (ct_lengths ct) (idx p)))"
proof -
  have "filter (\<lambda>i. needed_pieces ct ! i) [0..<n_pieces (ct_lengths ct)] =
      pieces_below (n_pieces (ct_lengths ct)) (\<lambda>p. nd ct (idx p))"
    unfolding pieces_below_def
    by (rule filter_cong) (use valid_idx [OF tracker_okD(1) [OF assms]] in \<open>auto simp: nd_def\<close>)
  then show ?thesis
    using sum_piece_bytes_eq [OF tracker_okD(1) [OF assms], of "needed_pieces ct"] assms
    by (simp add: calc_needed_bytes_def tracker_ok_def bytes_in_sum)
qed

text \<open>
  The pieces that were needed at the start of the phase and have not been gained in it. A piece that was
  already verified at the start cannot be gained.
\<close>

definition missing :: "chunk_tracker \<Rightarrow> chunk_tracker \<Rightarrow> nat \<Rightarrow> bool" where
  "missing ct0 ct p \<longleftrightarrow> nd ct0 (idx p) \<and> \<not> gained ct0 ct p"

lemma left_bytes:
  assumes "progress ct0 ct ks pend" "tracker_ok ct0"
  shows "unat (calc_needed_bytes ct0 - word_of_nat (downloaded_bytes ct0 ct)) =
    bytes_in (ct_lengths ct0) (pieces_below (n_pieces (ct_lengths ct0)) (missing ct0 ct))"
proof -
  define L where "L = ct_lengths ct0"
  have ok: "lengths_ok L" using tracker_okD(1) [OF assms(2)] by (simp add: L_def)
  define len where "len = (\<lambda>p. unat (piece_length_of L (idx p)))"
  define N where "N = {p. p < n_pieces L \<and> nd ct0 (idx p)}"
  define G where "G = {p. p < n_pieces L \<and> gained ct0 ct p}"
  have fin: "finite N" by (simp add: N_def)
  have sub: "G \<subseteq> N"
  proof
    fix p assume "p \<in> G"
    then show "p \<in> N"
      using progressD(5) [OF assms(1), of "idx p"] valid_idx [OF ok, of p]
      by (auto simp: G_def N_def gained_def piece_inv_def L_def)
  qed
  have need: "unat (calc_needed_bytes ct0) = sum len N"
    using needed_bytes_eq [OF assms(2)] by (simp add: len_def N_def L_def)
  have down: "downloaded_bytes ct0 ct = sum len G"
    by (simp add: downloaded_bytes_def bytes_in_sum L_def [symmetric] len_def G_def)
  have le: "sum len G \<le> sum len N" using fin sub by (intro sum_mono2) auto
  have diff: "sum len N - sum len G = sum len (N - G)" using fin sub by (simp add: sum_diff_nat finite_subset)
  have "calc_needed_bytes ct0 = word_of_nat (sum len N)" unfolding need [symmetric] by simp
  then have "calc_needed_bytes ct0 - word_of_nat (downloaded_bytes ct0 ct) = word_of_nat (sum len N - sum len G)"
    using le by (simp add: down of_nat_diff)
  moreover have "sum len N - sum len G < 2 ^ 64" using need u64_bound [of "calc_needed_bytes ct0"] by simp
  moreover have "unat (word_of_nat k :: u64) = k" if "k < 2 ^ 64" for k
    using that by (simp add: unat_of_nat take_bit_nat_eq_self)
  ultimately have "unat (calc_needed_bytes ct0 - word_of_nat (downloaded_bytes ct0 ct)) = sum len (N - G)"
    unfolding diff by metis
  moreover have "N - G = {p. p < n_pieces L \<and> missing ct0 ct p}" by (auto simp: N_def G_def missing_def)
  ultimately show ?thesis by (simp add: bytes_in_sum L_def [symmetric] len_def)
qed

lemma bytes_in_zero:
  assumes "lengths_ok L" shows "bytes_in L (pieces_below n P) = 0 \<longleftrightarrow> (\<forall>p < n. \<not> P p)"
  using piece_length_of_bounds(1) [OF assms] by (auto simp: bytes_in_sum less_imp_neq [symmetric])

text \<open>What the invariant says of the state in which a phase is.\<close>

lemma progress_facts:
  fixes s :: "'b swarm"
  assumes "swarm_reach pa s" "paused_ok pa"
  shows "\<exists>ct. tl_chunks (sw_torrent s) = Some ct \<and> tracker_ok ct \<and> ct_lengths ct = ct_lengths (pa_chunk_tracker pa) \<and>
    unat (get_left_to_download_bytes (sw_torrent s)) =
      bytes_in (ct_lengths (pa_chunk_tracker pa)) (pieces_below (n_pieces (ct_lengths (pa_chunk_tracker pa))) (missing (pa_chunk_tracker pa) ct)) \<and>
    (is_finished (sw_torrent s) \<longleftrightarrow> (\<forall>p < n_pieces (ct_lengths (pa_chunk_tracker pa)). \<not> missing (pa_chunk_tracker pa) ct p)) \<and>
    (\<forall>i. valid_index (ct_lengths (pa_chunk_tracker pa)) i \<longrightarrow>
       (hv (pa_chunk_tracker pa) i \<longrightarrow> hv ct i) \<and> (hv ct i \<longrightarrow> full ct i) \<and> (\<not> nd (pa_chunk_tracker pa) i \<longrightarrow> hv ct i = hv (pa_chunk_tracker pa) i) \<and>
       (\<not> full ct i \<longrightarrow> nd ct i \<or> i \<in> fst ` set (tl_inflight (sw_torrent s))))"
proof -
  define ct0 where "ct0 = pa_chunk_tracker pa"
  have ok: "tracker_ok ct0" using assms(2) by (simp add: paused_ok_def tracker_start_def ct0_def)
  from swarm_reach_progress [OF assms(1,2), folded ct0_def] obtain ct where c: "tl_chunks (sw_torrent s) = Some ct"
    and P: "progress ct0 ct (fst ` set (tl_inflight (sw_torrent s))) (completed_pieces (sw_pending s))"
    and L: "tl_initially_needed_bytes (sw_torrent s) = calc_needed_bytes ct0"
    "as_downloaded_and_checked_bytes (tl_stats (sw_torrent s)) = word_of_nat (downloaded_bytes ct0 ct)"
    by (rule progress_invE)
  have left: "unat (get_left_to_download_bytes (sw_torrent s)) =
      bytes_in (ct_lengths ct0) (pieces_below (n_pieces (ct_lengths ct0)) (missing ct0 ct))"
    using left_bytes [OF P ok] L by (simp add: get_left_to_download_bytes_def get_downloaded_bytes_def)
  moreover have "is_finished (sw_torrent s) \<longleftrightarrow> (\<forall>p < n_pieces (ct_lengths ct0). \<not> missing ct0 ct p)"
    unfolding is_finished_def unat_eq_0 [symmetric] left by (rule bytes_in_zero [OF tracker_okD(1) [OF ok]])
  moreover have "(hv ct0 i \<longrightarrow> hv ct i) \<and> (hv ct i \<longrightarrow> full ct i) \<and> (\<not> nd ct0 i \<longrightarrow> hv ct i = hv ct0 i) \<and>
      (\<not> full ct i \<longrightarrow> nd ct i \<or> i \<in> fst ` set (tl_inflight (sw_torrent s)))" if "valid_index (ct_lengths ct0) i" for i
    using progressD(5) [OF P that] by (auto simp: piece_inv_def)
  ultimately show ?thesis using c progressD(1,2) [OF P] unfolding ct0_def by blast
qed

text \<open>
  C6: The progress of the download is what it says. In every state that any interleaving of the tasks of
  a torrent can reach, the bytes left to download are the lengths of the pieces that were needed when the
  phase started and were not gained in it, so the subtraction never wraps; \<open>is_finished\<close> holds exactly when no
  such piece is left. A piece is gained when it is verified now and was not at the start: one that was
  needed at the start although it was verified counts as left for ever. A verified piece is never lost,
  a piece that was not needed is never touched, and a piece that misses a chunk is always either wanted or
  assigned to a peer.
\<close>

theorem download_progress:
  fixes s :: "'b swarm"
  assumes "swarm_reach pa s" "paused_ok pa"
  defines "ct0 \<equiv> pa_chunk_tracker pa"
  shows "\<exists>ct. tl_chunks (sw_torrent s) = Some ct \<and> tracker_ok ct \<and> ct_lengths ct = ct_lengths ct0 \<and>
    unat (get_left_to_download_bytes (sw_torrent s)) =
      bytes_in (ct_lengths ct0) (pieces_below (n_pieces (ct_lengths ct0)) (missing ct0 ct)) \<and>
    (is_finished (sw_torrent s) \<longleftrightarrow> (\<forall>p < n_pieces (ct_lengths ct0). \<not> missing ct0 ct p)) \<and>
    (\<forall>i. valid_index (ct_lengths ct0) i \<longrightarrow>
       (hv ct0 i \<longrightarrow> hv ct i) \<and> (hv ct i \<longrightarrow> full ct i) \<and> (\<not> nd ct0 i \<longrightarrow> hv ct i = hv ct0 i) \<and>
       (\<not> full ct i \<longrightarrow> nd ct i \<or> i \<in> fst ` set (tl_inflight (sw_torrent s))))"
  unfolding ct0_def by (rule progress_facts [OF assms(1,2)])

end
