(* ===== verification/Schedule.thy ===== *)
theory Schedule
  imports Progress
begin

text \<open>
  An executable scheduler for the interleavings of \<open>swarm_step\<close>: an event names the task that has its
  turn and what it is given, \<open>run_events\<close> runs a schedule. What a schedule reaches is reachable, so
  concrete states of a torrent can be computed.
\<close>

datatype event =
    EvAdd socket_addr
  | EvAdder
  | EvStart socket_addr nat
  | EvIncoming socket_addr nat bytes
  | EvConnected nat nat
  | EvHandshake nat handshake
  | EvMessage nat message nat
  | EvWrite
  | EvRequester nat
  | EvNextPiece nat nat
  | EvNoteChunk nat chunk_info
  | EvSendChunk nat chunk_info
  | EvUploaded u32
  | EvEnded nat bool
  | EvElapsed socket_addr

text \<open>The turn of a connection's task, when the connection is there.\<close>

fun on_message_event :: "'b live_env \<Rightarrow> nat \<Rightarrow> message \<Rightarrow> nat \<Rightarrow> peer_handler_state \<Rightarrow> 'b swarm \<Rightarrow> 'b swarm option" where
  "on_message_event e n (Piece p) now h s =
     (case on_received_piece_mark h p now (sw_torrent s) of
        Done (r, h', st) \<Rightarrow> Some (s\<lparr>sw_torrent := st, sw_handlers := (sw_handlers s)(n := Some h'),
          sw_pending := accepted_block h' p r @ sw_pending s\<rparr>)
      | _ \<Rightarrow> None)"
| "on_message_event e n msg now h s =
     (case live_on_received_message e now msg h (sw_torrent s) of
        Done (ok, h', st) \<Rightarrow> Some (s\<lparr>sw_torrent := st, sw_handlers := (sw_handlers s)(n := Some h')\<rparr>)
      | _ \<Rightarrow> None)"

definition with_handler :: "nat \<Rightarrow> (peer_handler_state \<Rightarrow> 'b swarm option) \<Rightarrow> 'b swarm \<Rightarrow> 'b swarm option" where
  "with_handler n f s = (case sw_handlers s n of None \<Rightarrow> None | Some h \<Rightarrow> f h)"

fun event_step :: "'b live_env \<Rightarrow> event \<Rightarrow> 'b swarm \<Rightarrow> 'b swarm option" where
  "event_step e (EvAdd addr) s = Some (s\<lparr>sw_torrent := snd (add_peer_if_not_seen e addr (sw_torrent s))\<rparr>)"
| "event_step e EvAdder s =
     map_option (\<lambda>(a, st). s\<lparr>sw_torrent := st,
       sw_starting := (case a of None \<Rightarrow> [] | Some x \<Rightarrow> [x]) @ sw_starting s\<rparr>) (peer_adder_step (sw_torrent s))"
| "event_step e (EvStart addr n) s =
     (if addr \<in> set (sw_starting s) \<and> sw_handlers s n = None then
        (let (h, st) = manage_outgoing_start addr (sw_torrent s) in
         Some (s\<lparr>sw_torrent := st, sw_starting := remove1 addr (sw_starting s), sw_handlers := (sw_handlers s)(n := h)\<rparr>))
      else None)"
| "event_step e (EvIncoming addr n peer_id) s =
     (if sw_handlers s n = None then
        (let (r, st) = add_incoming_peer e addr peer_id (sw_torrent s) in
         Some (s\<lparr>sw_torrent := st,
           sw_handlers := (sw_handlers s)(n := case r of Inl _ \<Rightarrow> None | Inr h \<Rightarrow> Some h)\<rparr>))
      else None)"
| "event_step e (EvConnected n ms) s =
     with_handler n (\<lambda>h. Some (s\<lparr>sw_torrent := on_connected ms h (sw_torrent s)\<rparr>)) s"
| "event_step e (EvHandshake n hs) s =
     with_handler n (\<lambda>h. Some (s\<lparr>sw_torrent := snd (live_on_handshake hs h (sw_torrent s))\<rparr>)) s"
| "event_step e (EvMessage n msg now) s = with_handler n (\<lambda>h. on_message_event e n msg now h s) s"
| "event_step e EvWrite s =
     (case sw_pending s of
        [] \<Rightarrow> None
      | (h, p, ci, t) # rest \<Rightarrow>
          (case on_received_piece_write e h p ci t (sw_torrent s) of
             Done (ok, st) \<Rightarrow> Some (s\<lparr>sw_torrent := st, sw_pending := rest\<rparr>)
           | _ \<Rightarrow> None))"
| "event_step e (EvRequester n) s =
     with_handler n (\<lambda>h. Some (s\<lparr>sw_torrent := snd (requester_start h (sw_torrent s))\<rparr>)) s"
| "event_step e (EvNextPiece n now) s =
     with_handler n (\<lambda>h.
       case requester_next e h now (sw_torrent s) of
         Done (r, st) \<Rightarrow> Some (s\<lparr>sw_torrent := st\<rparr>)
       | _ \<Rightarrow> None) s"
| "event_step e (EvNoteChunk n chunk) s =
     with_handler n (\<lambda>h. Some (s\<lparr>sw_torrent := snd (request_chunk_note h chunk (sw_torrent s))\<rparr>)) s"
| "event_step e (EvSendChunk n chunk) s =
     with_handler n (\<lambda>h. map_option (\<lambda>(ok, h', st). s\<lparr>sw_torrent := st, sw_handlers := (sw_handlers s)(n := Some h')\<rparr>)
       (request_chunk_send h chunk (sw_torrent s))) s"
| "event_step e (EvUploaded m) s = Some (s\<lparr>sw_torrent := live_on_uploaded_bytes m (sw_torrent s)\<rparr>)"
| "event_step e (EvEnded n with_error) s =
     with_handler n (\<lambda>h.
       case manage_peer_end e h with_error (sw_torrent s) of
         Done (ok, st) \<Rightarrow> Some (s\<lparr>sw_torrent := st, sw_handlers := (sw_handlers s)(n := None)\<rparr>)
       | _ \<Rightarrow> None) s"
| "event_step e (EvElapsed addr) s =
     (if addr \<in> set (tl_waiting (sw_torrent s)) then Some (s\<lparr>sw_torrent := backoff_elapsed addr (sw_torrent s)\<rparr>)
      else None)"

lemma with_handler_Some [simp]:
  "with_handler n f s = Some s' \<longleftrightarrow> (\<exists>h. sw_handlers s n = Some h \<and> f h = Some s')"
  by (simp add: with_handler_def split: option.split)

lemma done_Some [simp]:
  "(case m of Done x \<Rightarrow> f x | Fails \<Rightarrow> None | Panics \<Rightarrow> None | Diverges \<Rightarrow> None) = Some y \<longleftrightarrow>
     (\<exists>x. m = Done x \<and> f x = Some y)"
  by (cases m) simp_all

lemma message_event_sound:
  assumes "on_message_event e n msg now h s = Some s'" "sw_handlers s n = Some h"
  shows "swarm_step e s s'"
proof (cases "\<exists>p. msg = Piece p")
  case True
  then obtain p where p: "msg = Piece p" by blast
  then obtain r h' st where "on_received_piece_mark h p now (sw_torrent s) = Done (r, h', st)"
    "s' = s\<lparr>sw_torrent := st, sw_handlers := (sw_handlers s)(n := Some h'),
      sw_pending := accepted_block h' p r @ sw_pending s\<rparr>"
    using assms(1) by (auto split: run.splits)
  then show ?thesis using swarm_step.receive assms(2) by blast
next
  case False
  then obtain ok h' st where "live_on_received_message e now msg h (sw_torrent s) = Done (ok, h', st)"
    "s' = s\<lparr>sw_torrent := st, sw_handlers := (sw_handlers s)(n := Some h')\<rparr>"
    using assms(1) by (cases msg) (auto split: run.splits)
  then show ?thesis using swarm_step.message assms(2) False by blast
qed

text \<open>Every event is a step.\<close>

lemma event_step_sound: "event_step e ev s = Some s' \<Longrightarrow> swarm_step e s s'"
  by (cases ev)
    (auto split: prod.splits list.splits if_splits intro: swarm_step.intros message_event_sound
      intro!: swarm_step.disk_write [where xs = "[]", simplified])

fun run_events :: "'b live_env \<Rightarrow> event list \<Rightarrow> 'b swarm \<Rightarrow> 'b swarm option" where
  "run_events e [] s = Some s"
| "run_events e (ev # evs) s = (case event_step e ev s of None \<Rightarrow> None | Some s \<Rightarrow> run_events e evs s)"

lemma run_events_reach: "run_events e evs s = Some s' \<Longrightarrow> swarm_reach pa s \<Longrightarrow> swarm_reach pa s'"
  by (induction evs arbitrary: s) (auto split: option.splits dest: event_step_sound intro: swarm_reach.step)

lemma schedule_reach: "run_events e evs (swarm_new pa) = Some s \<Longrightarrow> swarm_reach pa s"
  using run_events_reach swarm_reach.fresh by blast

end
