(* ===== verification/Scenario.thy ===== *)
theory Scenario
  imports Schedule "HOL-Library.Code_Target_Nat"
begin

text \<open>
  A download of a torrent of five bytes, with two pieces and three chunks, by two peers. The states it
  goes through are computed with the scheduler; they show that the hypotheses on reachable states can
  hold.
\<close>

declare update_hash_from_file.simps [code]

definition tiny_lengths :: lengths where
  "tiny_lengths = \<lparr>chunk_length = 2, total_length = 5, piece_length = 4, last_piece_id = 1,
     last_piece_length = 1, max_chunks_per_piece = 2\<rparr>"

lemma tiny_lengths_new: "lengths_new 5 4 (Some 2) = Inr tiny_lengths"
  by code_simp

definition tiny_info :: torrent_info where
  "tiny_info = \<lparr>ti_name = None, ti_pieces = replicate 40 0, ti_piece_length = 4, ti_length = Some 5,
     ti_md5sum = None, ti_files = None\<rparr>"

definition tiny_tracker :: chunk_tracker where
  "tiny_tracker = \<lparr>needed_pieces = [True, True, False, False, False, False, False, False],
     chunk_status = replicate 8 False, have_pieces = replicate 8 False, ct_lengths = tiny_lengths,
     priority_piece_ids = [1], total_selected_bytes = 5\<rparr>"

lemma tiny_tracker_new:
  "chunk_tracker_new [True, True, False, False, False, False, False, False] (replicate 8 False) tiny_lengths 5 =
     Return tiny_tracker"
  by code_simp

definition tiny_paused :: paused where
  "tiny_paused = \<lparr>pa_info = tiny_info, pa_files = [\<lparr>f_data = replicate 5 0, f_writable = True\<rparr>],
     pa_chunk_tracker = tiny_tracker, pa_have_bytes = 0, pa_needed_bytes = 5\<rparr>"

definition tiny_env :: "unit live_env" where
  "tiny_env = \<lparr>en_backoff = \<lparr>bo_new = (), bo_reset = id, bo_next = (\<lambda>b. (Some 0, b))\<rparr>,
     en_sha1 = (\<lambda>_. replicate 20 0), en_too_slow = (\<lambda>elapsed avg k. k < elapsed),
     en_io = (\<lambda>_. None), en_reopen = (\<lambda>_. True),
     en_devnull = (\<lambda>_. True)\<rparr>"

lemma tiny_valid: "valid_index tiny_lengths i \<Longrightarrow> unat (vpi_get i) = 0 \<or> unat (vpi_get i) = 1"
  by (auto simp: valid_index_def tiny_lengths_def word_le_nat_alt)

lemma tiny_lengths_ok: "lengths_ok tiny_lengths"
  by (simp add: lengths_ok_def tiny_lengths_def ceil_div_def word_le_nat_alt)

lemma tiny_paused_ok: "paused_ok tiny_paused"
proof -
  have "geometry_ok tiny_lengths" using tiny_lengths_ok by (simp add: geometry_ok_def tiny_lengths_def)
  moreover have "chunk_bitfield_bytes tiny_lengths = 1" by code_simp
  moreover have "n_pieces tiny_lengths = 2" by (simp add: tiny_lengths_def)
  ultimately have "tracker_ok tiny_tracker" by (simp add: tracker_ok_def tiny_tracker_def)
  moreover have "nd tiny_tracker i" "\<not> hv tiny_tracker i" if "valid_index tiny_lengths i" for i
    using tiny_valid [OF that] by (auto simp: nd_def hv_def tiny_tracker_def)
  moreover have "calc_needed_bytes tiny_tracker = 5" by code_simp
  ultimately show ?thesis by (simp add: paused_ok_def tracker_start_def tiny_paused_def) (simp add: tiny_tracker_def)
qed

section \<open>The download\<close>

abbreviation chunk_of :: "u32 \<Rightarrow> nat \<Rightarrow> chunk_info" where
  "chunk_of i k \<equiv> chunk_at tiny_lengths (ValidPieceIndex i) k"

text \<open>
  Two peers connect; the second has both pieces, reserves the last one and sends its block, which waits
  to be written.
\<close>

definition first_events :: "event list" where
  "first_events =
     [EvIncoming (SocketV4 1 1) 0 [], EvIncoming (SocketV4 2 2) 1 [],
      EvMessage 1 (Have 0) 0, EvMessage 1 (Have 1) 0, EvMessage 1 Unchoke 0,
      EvMessage 0 (Have 0) 0, EvMessage 0 Unchoke 0,
      EvNextPiece 1 0, EvNoteChunk 1 (chunk_of 1 0),
      EvMessage 1 (Piece \<lparr>p_index = 1, p_begin = 0, p_block = [7]\<rparr>) 5000000]"

text \<open>
  The block is written. The first peer reserves the other piece; the second one takes it over, then the
  first connection ends, and the second peer delivers both chunks.
\<close>

definition second_events :: "event list" where
  "second_events =
     [EvWrite, EvNextPiece 0 0, EvNoteChunk 0 (chunk_of 0 0), EvNextPiece 1 100000000, EvEnded 0 False,
      EvNoteChunk 1 (chunk_of 0 0), EvNoteChunk 1 (chunk_of 0 1),
      EvMessage 1 (Piece \<lparr>p_index = 0, p_begin = 0, p_block = [8, 8]\<rparr>) 0, EvWrite,
      EvMessage 1 (Piece \<lparr>p_index = 0, p_begin = 2, p_block = [8, 8]\<rparr>) 0, EvWrite]"

definition tracker_in :: "(chunk_tracker \<Rightarrow> bool) \<Rightarrow> 'b torrent_live \<Rightarrow> bool" where
  "tracker_in P st = (case tl_chunks st of None \<Rightarrow> False | Some ct \<Rightarrow> P ct)"

definition checked :: "('b swarm \<Rightarrow> bool) \<Rightarrow> 'b swarm option \<Rightarrow> bool" where
  "checked P r = (case r of None \<Rightarrow> False | Some s \<Rightarrow> P s)"

lemma checkedE:
  assumes "checked P (run_events e evs (swarm_new pa))" obtains s where "swarm_reach pa s" "P s"
  using assms by (auto simp: checked_def split: option.splits intro: schedule_reach)

lemma full_code [code]:
  "full ct i = list_all (\<lambda>k. chunk_status ct ! (fst (chunk_range (ct_lengths ct) i) + k)) [0..<n_chunks (ct_lengths ct) i]"
proof -
  define n where "n = n_chunks (ct_lengths ct) i"
  define P where "P = (\<lambda>k. chunk_status ct ! (fst (chunk_range (ct_lengths ct) i) + k))"
  have "full ct i \<longleftrightarrow> {k. k < n \<and> P k} = {..<n}" unfolding full_def received_def all_chunks_def n_def P_def by (rule refl)
  also have "\<dots> \<longleftrightarrow> list_all P [0..<n]" unfolding list_all_iff set_upt set_eq_iff Ball_def atLeastLessThan_iff mem_Collect_eq lessThan_iff by (metis le0)
  finally show ?thesis by (simp only: n_def P_def)
qed

text \<open>A piece that is complete and whose block is not written yet.\<close>

lemma first_state:
  "checked (\<lambda>s. tl_inflight (sw_torrent s) = [] \<and> \<not> is_finished (sw_torrent s) \<and>
     map (\<lambda>(h, p, ci, t). ci_piece_index ci) (sw_pending s) = [ValidPieceIndex 1] \<and>
     (case sw_pending s of (h, p, ci, t) # _ \<Rightarrow> t \<noteq> None) \<and>
     ag_live (ps_stats (tl_peers (sw_torrent s))) = 2 \<and>
     tracker_in (\<lambda>ct. full ct (ValidPieceIndex 1) \<and> \<not> hv ct (ValidPieceIndex 1) \<and> \<not> nd ct (ValidPieceIndex 1) \<and>
       nd ct (ValidPieceIndex 0)) (sw_torrent s))
     (run_events tiny_env first_events (swarm_new tiny_paused))"
  by code_simp

text \<open>The end of the download: a piece that is verified and still asked for.\<close>

lemma last_state:
  "checked (\<lambda>s. tl_inflight (sw_torrent s) = [] \<and> sw_pending s = [] \<and> is_finished (sw_torrent s) \<and>
     tracker_in (\<lambda>ct. hv ct (ValidPieceIndex 0) \<and> hv ct (ValidPieceIndex 1) \<and> nd ct (ValidPieceIndex 0)) (sw_torrent s))
     (run_events tiny_env (first_events @ second_events) (swarm_new tiny_paused))"
  by code_simp

section \<open>The invariants hold along the way\<close>

theorem peer_counters_count_witness:
  "\<exists>s :: unit swarm. swarm_reach tiny_paused s \<and> ag_live (ps_stats (tl_peers (sw_torrent s))) = 2 \<and>
     distinct (map fst (ps_states (tl_peers (sw_torrent s)))) \<and>
     word_of_nat (in_state (PsLive (live_peer_new [] 0)) (ps_states (tl_peers (sw_torrent s)))) = (2 :: u32)"
proof -
  obtain s :: "unit swarm" where s: "swarm_reach tiny_paused s" "ag_live (ps_stats (tl_peers (sw_torrent s))) = 2"
    using first_state by (rule checkedE) blast
  show ?thesis using peer_counters_count [OF s(1), of "PsLive (live_peer_new [] 0)"] s by auto
qed

theorem download_progress_witness:
  "\<exists>(s :: unit swarm) ct. swarm_reach tiny_paused s \<and> tl_chunks (sw_torrent s) = Some ct \<and>
     hv ct (ValidPieceIndex 0) \<and> hv ct (ValidPieceIndex 1) \<and> get_left_to_download_bytes (sw_torrent s) = 0"
proof -
  obtain s :: "unit swarm" where s: "swarm_reach tiny_paused s" "is_finished (sw_torrent s)"
    using last_state by (rule checkedE) blast
  obtain ct where ct: "tl_chunks (sw_torrent s) = Some ct"
    "is_finished (sw_torrent s) \<longleftrightarrow> (\<forall>p < n_pieces tiny_lengths. \<not> missing tiny_tracker ct p)"
    using download_progress [OF s(1) tiny_paused_ok] by (auto simp: tiny_paused_def) (auto simp: tiny_tracker_def)
  have "\<not> missing tiny_tracker ct 0" "\<not> missing tiny_tracker ct 1"
    using ct(2) s(2) by (simp_all add: tiny_lengths_def)
  then have "hv ct (ValidPieceIndex 0)" "hv ct (ValidPieceIndex 1)"
    by (auto simp: missing_def gained_def nd_def hv_def idx_def tiny_tracker_def)
  then show ?thesis using s ct(1) by (auto simp: is_finished_def)
qed

end
