(* ===== verification/Resume.thy ===== *)
theory Resume
  imports Scenario
begin

text \<open>
  Pausing a live torrent and starting it again: what \<open>pause\<close> hands over, that the next phase may start
  from it, and two ways in which it never finishes.
\<close>

section \<open>Pausing\<close>

text \<open>\<open>/dev/null\<close> opens for all the files, or there is a first one for which it does not.\<close>

lemma replace_all_files:
  "\<forall>k < length fs. opens (n + k) \<Longrightarrow> replace_files opens n fs = (True, replicate (length fs) dummy_file)"
proof (induction fs arbitrary: n)
  case (Cons f fs)
  have "opens n" "\<forall>k < length fs. opens (Suc n + k)"
    using Cons.prems [rule_format, of 0] Cons.prems [rule_format, of "Suc _"] by simp_all
  then show ?case using Cons.IH [of "Suc n"] by simp
qed simp

lemma replace_files_until:
  "k < length fs \<Longrightarrow> \<not> opens (n + k) \<Longrightarrow> \<forall>j < k. opens (n + j) \<Longrightarrow>
   replace_files opens n fs = (False, replicate k dummy_file @ drop k fs)"
proof (induction fs arbitrary: n k)
  case (Cons f fs)
  show ?case
  proof (cases k)
    case (Suc m)
    then have "opens n" "\<forall>j < m. opens (Suc n + j)"
      using Cons.prems(3) [rule_format, of 0] Cons.prems(3) [rule_format, of "Suc _"] by simp_all
    then show ?thesis using Cons.IH [of m "Suc n"] Cons.prems(1,2) Suc by simp
  qed (use Cons.prems in simp)
qed simp

abbreviation all_open :: "(nat \<Rightarrow> bool) \<Rightarrow> 'b torrent_live \<Rightarrow> bool" where
  "all_open opens st \<equiv> \<forall>k < length (tl_files st). opens k"

lemma pause_stopped:
  assumes "\<not> all_open opens st"
  obtains k st' where "pause opens st = Done (None, st')" "k < length (tl_files st)" "\<not> opens k"
    "tl_files st' = replicate k dummy_file @ drop k (tl_files st)" "tl_cancelled st'" "tl_chunks st' = tl_chunks st"
proof -
  define k where "k = (LEAST k. \<not> opens k)"
  obtain m where m: "m < length (tl_files st)" "\<not> opens m" using assms by blast
  have k: "\<not> opens k" "\<forall>j < k. opens (0 + j)" unfolding k_def by (rule LeastI [of _ m]) (use m in \<open>auto dest: not_less_Least\<close>)
  moreover have "k < length (tl_files st)" unfolding k_def using Least_le [of "\<lambda>k. \<not> opens k" m] m by simp
  moreover from calculation have "replace_files opens 0 (tl_files st) = (False, replicate k dummy_file @ drop k (tl_files st))"
    by (intro replace_files_until) simp_all
  ultimately show thesis
    by (intro that [of "st\<lparr>tl_cancelled := True, tl_files := replicate k dummy_file @ drop k (tl_files st)\<rparr>" k])
      (simp_all add: pause_def Let_def)
qed

lemma pause_all_open:
  assumes "pause opens st = Done (Some pa, st')" shows "all_open opens st"
proof (rule ccontr)
  assume "\<not> all_open opens st"
  then show False by (rule pause_stopped) (use assms in simp)
qed

lemma mark_all_broken_moves:
  assumes "tracker_ok ct" "\<And>i. i \<in> set is \<Longrightarrow> valid_index (ct_lengths ct) i"
  shows "\<exists>ct'. mark_all_broken is ct = Return ct' \<and> tracker_ok ct' \<and> ct_lengths ct' = ct_lengths ct \<and>
    have_pieces ct' = have_pieces ct \<and>
    (\<forall>j. valid_index (ct_lengths ct) j \<longrightarrow>
       (if j \<in> set is \<and> \<not> hv ct j then nd ct' j \<and> \<not> full ct' j else nd ct' j = nd ct j \<and> full ct' j = full ct j))"
  using assms
proof (induction "is" arbitrary: ct)
  case (Cons i "is")
  have i: "valid_index (ct_lengths ct) i" using Cons.prems(2) by simp
  obtain ct1 where b: "mark_piece_broken_if_not_have ct i = Return ct1"
    using broken_eq [OF Cons.prems(1) i] by blast
  note m = broken_moves [OF Cons.prems(1) i b]
  obtain ct' where ct': "mark_all_broken is ct1 = Return ct'" "tracker_ok ct'" "ct_lengths ct' = ct_lengths ct1"
    "have_pieces ct' = have_pieces ct1"
    "\<forall>j. valid_index (ct_lengths ct1) j \<longrightarrow>
       (if j \<in> set is \<and> \<not> hv ct1 j then nd ct' j \<and> \<not> full ct' j else nd ct' j = nd ct1 j \<and> full ct' j = full ct1 j)"
    using Cons.IH [OF m(1)] Cons.prems(2) m(2) by auto
  have h: "hv ct1 j = hv ct j" for j using m(3) by (rule hv_cong)
  have "if j \<in> set (i # is) \<and> \<not> hv ct j then nd ct' j \<and> \<not> full ct' j else nd ct' j = nd ct j \<and> full ct' j = full ct j"
    if j: "valid_index (ct_lengths ct) j" for j
    using ct'(5) [rule_format, of j] j m(2) m(4) [OF j] m(5,6) h by (cases "j = i") (auto split: if_splits)
  then show ?case using b ct'(1-4) m(2,3) by (intro exI [of _ ct']) simp
qed simp

lemma pause_moves:
  assumes "swarm_reach pa s" "paused_ok pa" "all_open opens (sw_torrent s)"
  shows "\<exists>ct pa' st. tl_chunks (sw_torrent s) = Some ct \<and> pause opens (sw_torrent s) = Done (Some pa', st) \<and>
    paused_ok pa' \<and> pa_files pa' = tl_files (sw_torrent s) \<and> ct_lengths (pa_chunk_tracker pa') = ct_lengths (pa_chunk_tracker pa) \<and>
    pa_have_bytes pa' = calc_have_bytes ct \<and>
    (\<forall>i. valid_index (ct_lengths (pa_chunk_tracker pa)) i \<longrightarrow>
       (hv (pa_chunk_tracker pa) i \<longrightarrow> hv ct i) \<and> hv (pa_chunk_tracker pa') i = hv ct i \<and>
       (nd (pa_chunk_tracker pa') i \<longleftrightarrow> nd ct i \<or> i \<in> fst ` set (tl_inflight (sw_torrent s)) \<and> \<not> hv ct i))"
proof -
  define L where "L = ct_lengths (pa_chunk_tracker pa)"
  define ks where "ks = fst ` set (tl_inflight (sw_torrent s))"
  from swarm_reach_progress [OF assms(1,2)] obtain ct where c: "tl_chunks (sw_torrent s) = Some ct"
    and P: "progress (pa_chunk_tracker pa) ct ks (completed_pieces (sw_pending s))"
    unfolding ks_def by (rule progress_invE)
  note ok = progressD(1,2) [OF P, folded L_def]
  have v: "valid_index (ct_lengths ct) i" if "i \<in> set (map fst (tl_inflight (sw_torrent s)))" for i
    using progressD(2) [OF P] progressD(6) [OF P, of i] that by (simp add: ks_def)
  obtain ct' where b: "mark_all_broken (map fst (tl_inflight (sw_torrent s))) ct = Return ct'"
    and ok': "tracker_ok ct'" "ct_lengths ct' = L" "have_pieces ct' = have_pieces ct"
    and m: "\<forall>j. valid_index L j \<longrightarrow> (if j \<in> ks \<and> \<not> hv ct j then nd ct' j \<and> \<not> full ct' j
       else nd ct' j = nd ct j \<and> full ct' j = full ct j)"
    using mark_all_broken_moves [OF ok(1), of "map fst (tl_inflight (sw_torrent s))", OF v] ok(2)
    by (auto simp: ks_def)
  have h: "hv ct' i = hv ct i" for i using ok'(3) by (rule hv_cong)
  have "full ct' i" if i: "valid_index L i" "\<not> nd ct' i \<or> hv ct' i" for i
  proof (cases "i \<in> ks \<and> \<not> hv ct i")
    case True
    then show ?thesis using m [rule_format, OF i(1)] i(2) h [of i] by simp
  next
    case False
    then have "nd ct' i = nd ct i" "full ct' i = full ct i" using m [rule_format, OF i(1)] by simp_all
    then show ?thesis
      using False i(2) h [of i] progressD(5) [OF P, folded L_def, OF i(1)] unfolding piece_inv_def by blast
  qed
  then have start: "tracker_start ct'" using ok' by (simp add: tracker_start_def)
  define pa' where "pa' = \<lparr>pa_info = tl_info (sw_torrent s), pa_files = tl_files (sw_torrent s), pa_chunk_tracker = ct',
    pa_have_bytes = calc_have_bytes ct', pa_needed_bytes = calc_needed_bytes ct'\<rparr>"
  obtain st where p: "pause opens (sw_torrent s) = Done (Some pa', st)"
    using c b replace_all_files [of "tl_files (sw_torrent s)" opens 0] assms(3) by (simp add: pause_def pa'_def Let_def)
  have "calc_have_bytes ct' = calc_have_bytes ct" using ok'(2,3) ok(2) by (simp add: calc_have_bytes_def)
  moreover have "nd ct' i \<longleftrightarrow> nd ct i \<or> i \<in> ks \<and> \<not> hv ct i" if "valid_index L i" for i
    using m [rule_format, OF that] by (cases "i \<in> ks \<and> \<not> hv ct i") auto
  moreover have "hv (pa_chunk_tracker pa) i \<longrightarrow> hv ct i" if "valid_index L i" for i
    using progressD(5) [OF P, folded L_def, OF that] by (simp add: piece_inv_def)
  ultimately show ?thesis
    using c p start ok' h unfolding L_def [symmetric] ks_def [symmetric]
    by (intro exI [of _ ct] exI [of _ pa'] exI [of _ st]) (simp add: pa'_def paused_ok_def)
qed

text \<open>All the states of a torrent over any number of phases, a pause between two of them.\<close>

inductive torrent_reach :: "paused \<Rightarrow> 'b swarm \<Rightarrow> bool" for pa where
  live_new: "torrent_reach pa (swarm_new pa)"
| live_step: "torrent_reach pa s \<Longrightarrow> swarm_step e s s' \<Longrightarrow> torrent_reach pa s'"
| resumed: "torrent_reach pa s \<Longrightarrow> pause opens (sw_torrent s) = Done (Some pa', st) \<Longrightarrow> torrent_reach pa (swarm_new pa')"

text \<open>The phase a state is in.\<close>

lemma torrent_phase:
  assumes "torrent_reach pa s" "paused_ok pa"
  shows "\<exists>pa'. swarm_reach pa' s \<and> paused_ok pa' \<and> ct_lengths (pa_chunk_tracker pa') = ct_lengths (pa_chunk_tracker pa) \<and>
    (\<forall>i. valid_index (ct_lengths (pa_chunk_tracker pa)) i \<longrightarrow> hv (pa_chunk_tracker pa) i \<longrightarrow> hv (pa_chunk_tracker pa') i)"
  using assms
proof (induction rule: torrent_reach.induct)
  case live_new
  then show ?case using swarm_reach.fresh by blast
next
  case (live_step s e s')
  then show ?case using swarm_reach.step by blast
next
  case (resumed s opens pa' st)
  then obtain pa1 where p: "swarm_reach pa1 s" "paused_ok pa1"
    "ct_lengths (pa_chunk_tracker pa1) = ct_lengths (pa_chunk_tracker pa)"
    "\<forall>i. valid_index (ct_lengths (pa_chunk_tracker pa)) i \<longrightarrow> hv (pa_chunk_tracker pa) i \<longrightarrow> hv (pa_chunk_tracker pa1) i"
    by blast
  show ?case
    using pause_moves [OF p(1,2) pause_all_open [OF resumed.hyps(2)]] p(3,4) resumed.hyps(2) swarm_reach.fresh [of pa']
    by fastforce
qed

text \<open>
  C12: A torrent can be paused and resumed for ever. Whatever happens in the live phases, however often the
  torrent was paused before, and whatever pauses failed: when \<open>/dev/null\<close> opens for every file, \<open>pause\<close> succeeds
  with the open files and a state from which the next phase may start: a piece that is not asked for, or is
  there, has all its chunks, the count of needed bytes is right, the count of the bytes that are there is
  right, and exactly the verified pieces are there. When it does not open for some file, \<open>pause\<close> is an error:
  the files before the first such one are lost to \<open>/dev/null\<close>, the token is cancelled, the tracker stays, and the
  torrent is in a state all this holds for again. No piece that was verified at the start is ever lost.
\<close>

theorem pause_and_resume:
  fixes s :: "'b swarm"
  assumes "paused_ok pa" "torrent_reach pa s"
  shows "\<exists>ct. tl_chunks (sw_torrent s) = Some ct \<and>
    (\<forall>i. valid_index (ct_lengths (pa_chunk_tracker pa)) i \<longrightarrow> hv (pa_chunk_tracker pa) i \<longrightarrow> hv ct i) \<and>
    (if \<forall>k < length (tl_files (sw_torrent s)). opens k
     then \<exists>pa' st. pause opens (sw_torrent s) = Done (Some pa', st) \<and> paused_ok pa' \<and>
       pa_files pa' = tl_files (sw_torrent s) \<and> pa_have_bytes pa' = calc_have_bytes ct \<and>
       (\<forall>i. valid_index (ct_lengths (pa_chunk_tracker pa)) i \<longrightarrow> hv (pa_chunk_tracker pa') i = hv ct i)
     else \<exists>k st. pause opens (sw_torrent s) = Done (None, st) \<and> k < length (tl_files (sw_torrent s)) \<and> \<not> opens k \<and>
       tl_files st = replicate k dummy_file @ drop k (tl_files (sw_torrent s)) \<and> tl_cancelled st \<and>
       tl_chunks st = Some ct \<and> torrent_reach pa (s\<lparr>sw_torrent := st\<rparr>))"
proof -
  obtain p where p: "swarm_reach p s" "paused_ok p" "ct_lengths (pa_chunk_tracker p) = ct_lengths (pa_chunk_tracker pa)"
    "\<forall>i. valid_index (ct_lengths (pa_chunk_tracker pa)) i \<longrightarrow> hv (pa_chunk_tracker pa) i \<longrightarrow> hv (pa_chunk_tracker p) i"
    using torrent_phase [OF assms(2,1)] by blast
  obtain ct where ct: "tl_chunks (sw_torrent s) = Some ct"
    "\<forall>i. valid_index (ct_lengths (pa_chunk_tracker pa)) i \<longrightarrow> hv (pa_chunk_tracker pa) i \<longrightarrow> hv ct i"
    using pause_moves [OF p(1,2), of "\<lambda>_. True"] p(3,4) by auto
  show ?thesis
  proof (cases "all_open opens (sw_torrent s)")
    case True
    then show ?thesis using pause_moves [OF p(1,2) True] p(3) ct by auto
  next
    case False
    then obtain k st where f: "pause opens (sw_torrent s) = Done (None, st)" "k < length (tl_files (sw_torrent s))" "\<not> opens k"
      "tl_files st = replicate k dummy_file @ drop k (tl_files (sw_torrent s))" "tl_cancelled st"
      "tl_chunks st = tl_chunks (sw_torrent s)" by (rule pause_stopped)
    have "torrent_reach pa (s\<lparr>sw_torrent := st\<rparr>)"
      by (rule torrent_reach.live_step [OF assms(2) swarm_step.pause_fails [OF f(1)]])
    then show ?thesis using f ct False by auto
  qed
qed

section \<open>Pieces that are lost, and downloads that never end\<close>

text \<open>
  C22: A piece that is complete but not verified yet is lost when the torrent is paused. It is neither in
  flight nor asked for while its last block is written and checked; the paused state does not ask for it
  either, and no phase that starts from it ever has it, or counts it as missing.
\<close>

theorem completing_piece_lost:
  fixes s :: "'a swarm" and s' :: "'b swarm"
  assumes "swarm_reach pa s" "paused_ok pa" "tl_chunks (sw_torrent s) = Some ct"
    and "valid_index (ct_lengths (pa_chunk_tracker pa)) i"
    and "\<not> hv ct i" "\<not> nd ct i" "i \<notin> fst ` set (tl_inflight (sw_torrent s))"
    and "pause opens (sw_torrent s) = Done (Some pa', st)" "swarm_reach pa' s'" "tl_chunks (sw_torrent s') = Some ct'"
  shows "\<not> hv ct' i \<and> \<not> missing (pa_chunk_tracker pa') ct' (unat (vpi_get i))"
proof -
  from pause_moves [OF assms(1,2) pause_all_open [OF assms(8)]] assms(3,4,8) have p: "paused_ok pa'"
    "ct_lengths (pa_chunk_tracker pa') = ct_lengths (pa_chunk_tracker pa)"
    "hv (pa_chunk_tracker pa') i = hv ct i"
    "nd (pa_chunk_tracker pa') i \<longleftrightarrow> nd ct i \<or> i \<in> fst ` set (tl_inflight (sw_torrent s)) \<and> \<not> hv ct i"
    by auto
  have n: "\<not> nd (pa_chunk_tracker pa') i" using p(4) assms(6,7) by simp
  have "hv ct' i = hv (pa_chunk_tracker pa') i"
    using progress_facts [OF assms(9) p(1)] assms(10,4) p(2) n by auto
  then show ?thesis using p(3) assms(5) n by (simp add: missing_def idx_index)
qed

text \<open>
  C23: A piece that is verified and still asked for makes the next phase endless. When the connection of a
  peer from which a piece was taken over ends, the piece is asked for again although another peer is
  fetching it; when that peer completes it, it is verified and still marked as needed. If the torrent is
  paused then, the piece counts as needed for the next phase, in which it can never be downloaded, so the
  torrent is never finished, whatever happens.
\<close>

theorem resume_never_finishes:
  fixes s :: "'a swarm" and s' :: "'b swarm"
  assumes "swarm_reach pa s" "paused_ok pa" "tl_chunks (sw_torrent s) = Some ct"
    and "valid_index (ct_lengths (pa_chunk_tracker pa)) i" "hv ct i" "nd ct i"
    and "pause opens (sw_torrent s) = Done (Some pa', st)" "swarm_reach pa' s'"
  shows "\<not> is_finished (sw_torrent s')"
proof -
  from pause_moves [OF assms(1,2) pause_all_open [OF assms(7)]] assms(3,4,7) have p: "paused_ok pa'"
    "ct_lengths (pa_chunk_tracker pa') = ct_lengths (pa_chunk_tracker pa)"
    "hv (pa_chunk_tracker pa') i = hv ct i" "nd (pa_chunk_tracker pa') i \<longleftrightarrow> nd ct i \<or>
      i \<in> fst ` set (tl_inflight (sw_torrent s)) \<and> \<not> hv ct i"
    by auto
  obtain ct' where f: "is_finished (sw_torrent s') \<longleftrightarrow>
      (\<forall>p < n_pieces (ct_lengths (pa_chunk_tracker pa')). \<not> missing (pa_chunk_tracker pa') ct' p)"
    using progress_facts [OF assms(8) p(1)] by blast
  have "missing (pa_chunk_tracker pa') ct' (unat (vpi_get i))"
    using p(3,4) assms(5,6) by (simp add: missing_def gained_def idx_index)
  moreover have "unat (vpi_get i) < n_pieces (ct_lengths (pa_chunk_tracker pa'))"
    using valid_index_bit [OF assms(4) order_refl] p(2) by simp
  ultimately show ?thesis using f by blast
qed

section \<open>They happen\<close>

lemma tracker_inE:
  assumes "tracker_in P st" obtains ct where "tl_chunks st = Some ct" "P ct"
  using assms by (auto simp: tracker_in_def split: option.splits)

lemma tiny_index: "valid_index (ct_lengths (pa_chunk_tracker tiny_paused)) (ValidPieceIndex 0)"
  "valid_index (ct_lengths (pa_chunk_tracker tiny_paused)) (ValidPieceIndex 1)"
  by (simp_all add: tiny_paused_def tiny_tracker_def tiny_lengths_def valid_index_def)

theorem pause_and_resume_witness:
  "\<exists>(s :: unit swarm) pa' st. torrent_reach tiny_paused s \<and> pause (\<lambda>_. True) (sw_torrent s) = Done (Some pa', st) \<and>
     hv (pa_chunk_tracker pa') (ValidPieceIndex 0)"
proof -
  obtain s :: "unit swarm" where s: "swarm_reach tiny_paused s"
    "tracker_in (\<lambda>ct. hv ct (ValidPieceIndex 0) \<and> hv ct (ValidPieceIndex 1) \<and> nd ct (ValidPieceIndex 0)) (sw_torrent s)"
    using last_state by (rule checkedE) blast
  have "torrent_reach tiny_paused s"
    using s(1) by (induction rule: swarm_reach.induct) (auto intro: torrent_reach.intros)
  then show ?thesis
    using pause_and_resume [OF tiny_paused_ok, of s "\<lambda>_. True"] s(2) tiny_index(1) by (auto elim!: tracker_inE)
qed

theorem completing_piece_lost_witness:
  "\<exists>(s :: unit swarm) pa' st ct'. swarm_reach tiny_paused s \<and> pause (\<lambda>_. True) (sw_torrent s) = Done (Some pa', st) \<and>
     tl_chunks (sw_torrent (swarm_new pa' :: unit swarm)) = Some ct' \<and> \<not> hv ct' (ValidPieceIndex 1) \<and>
     \<not> missing (pa_chunk_tracker pa') ct' 1"
proof -
  obtain s :: "unit swarm" where s: "swarm_reach tiny_paused s" "tl_inflight (sw_torrent s) = []"
    "tracker_in (\<lambda>ct. full ct (ValidPieceIndex 1) \<and> \<not> hv ct (ValidPieceIndex 1) \<and> \<not> nd ct (ValidPieceIndex 1) \<and>
       nd ct (ValidPieceIndex 0)) (sw_torrent s)"
    using first_state by (rule checkedE) blast
  obtain ct where ct: "tl_chunks (sw_torrent s) = Some ct" "\<not> hv ct (ValidPieceIndex 1)" "\<not> nd ct (ValidPieceIndex 1)"
    using s(3) by (auto elim: tracker_inE)
  obtain pa' st where p: "pause (\<lambda>_. True) (sw_torrent s) = Done (Some pa', st)"
    using pause_moves [OF s(1) tiny_paused_ok, of "\<lambda>_. True"] by blast
  have t: "tl_chunks (sw_torrent (swarm_new pa' :: unit swarm)) = Some (pa_chunk_tracker pa')"
    by (simp add: swarm_new_def torrent_live_new_def)
  have "\<not> hv (pa_chunk_tracker pa') (ValidPieceIndex 1) \<and>
      \<not> missing (pa_chunk_tracker pa') (pa_chunk_tracker pa') (unat (vpi_get (ValidPieceIndex 1)))"
    using completing_piece_lost [OF s(1) tiny_paused_ok ct(1) tiny_index(2) ct(2,3) _ p swarm_reach.fresh t] s(2) by simp
  then show ?thesis using s(1) p t by auto
qed

theorem resume_never_finishes_witness:
  "\<exists>(s :: unit swarm) pa' st. swarm_reach tiny_paused s \<and> is_finished (sw_torrent s) \<and>
     pause (\<lambda>_. True) (sw_torrent s) = Done (Some pa', st) \<and> \<not> is_finished (sw_torrent (swarm_new pa' :: unit swarm))"
proof -
  obtain s :: "unit swarm" where s: "swarm_reach tiny_paused s" "is_finished (sw_torrent s)"
    "tracker_in (\<lambda>ct. hv ct (ValidPieceIndex 0) \<and> hv ct (ValidPieceIndex 1) \<and> nd ct (ValidPieceIndex 0)) (sw_torrent s)"
    using last_state by (rule checkedE) blast
  obtain ct where ct: "tl_chunks (sw_torrent s) = Some ct" "hv ct (ValidPieceIndex 0)" "nd ct (ValidPieceIndex 0)"
    using s(3) by (auto elim: tracker_inE)
  obtain pa' st where p: "pause (\<lambda>_. True) (sw_torrent s) = Done (Some pa', st)"
    using pause_moves [OF s(1) tiny_paused_ok, of "\<lambda>_. True"] by blast
  show ?thesis
    using resume_never_finishes [OF s(1) tiny_paused_ok ct(1) tiny_index(1) ct(2,3) p swarm_reach.fresh] s p by blast
qed

end
