(* ===== verification/Managed.thy ===== *)
theory Managed
  imports Resume
begin

text \<open>
  Model of \<open>torrent_state/initializing.rs\<close> and \<open>torrent_state/mod.rs\<close>: opening and checking the files of
  a torrent, and the states a managed torrent goes through. The end ties it to the live torrent: every
  phase of a managed torrent starts from a state the invariants of \<open>Progress\<close> hold for.
\<close>

section \<open>Initializing\<close>

text \<open>
  The file system is a map from paths to contents; \<open>os\<close> says for which paths the operating system creates
  the directory and opens the file. With \<open>overwrite\<close> a file is opened or created, without it the file
  must be new. A path has no parent when it has no component. Files at equal paths are not shared here.
\<close>

type_synonym file_system = "bytes \<rightharpoonup> bytes"

fun open_files ::
  "(bytes \<Rightarrow> bool) \<Rightarrow> bool \<Rightarrow> bytes \<Rightarrow> file_system \<Rightarrow> (file_iterator_name \<times> u64) list \<Rightarrow> disk_file list run" where
  "open_files os overwrite out_dir fs [] = Done []"
| "open_files os overwrite out_dir fs ((path_bits, _) # names) =
     (case to_pathbuf path_bits of
        Inl _ \<Rightarrow> Fails
      | Inr relative_path \<Rightarrow>
          let full_path = path_push out_dir relative_path in
          if path_components full_path = [] then Panics
          else if \<not> os full_path then Fails
          else if \<not> overwrite \<and> fs full_path \<noteq> None then Fails
          else
            let c = (case fs full_path of Some c \<Rightarrow> c | None \<Rightarrow> []) in
            bind_run (open_files os overwrite out_dir (fs(full_path \<mapsto> c)) names) (\<lambda>files.
              Done (\<lparr>f_data = c, f_writable = True\<rparr> # files)))"

definition ensure_file_length :: "disk_file \<Rightarrow> u64 \<Rightarrow> disk_file" where
  "ensure_file_length f len =
     f\<lparr>f_data := take (unat len) (f_data f) @ replicate (unat len - length (f_data f)) 0\<rparr>"

text \<open>The lengths of the selected files are set; \<open>ok\<close>: the operating system does it for this file.\<close>

fun set_lengths :: "(nat \<Rightarrow> bool) \<Rightarrow> nat list option \<Rightarrow> nat \<Rightarrow> disk_file list \<Rightarrow> u64 list \<Rightarrow> disk_file list" where
  "set_lengths ok only_files file_idx (f # fs) (len # ls) =
     (if (case only_files of Some v \<Rightarrow> file_idx \<notin> set v | None \<Rightarrow> False) then f
      else if ok file_idx then ensure_file_length f len else f) # set_lengths ok only_files (file_idx + 1) fs ls"
| "set_lengths ok only_files file_idx fs _ = fs"

text \<open>What a managed torrent is made from, and what the operating system and SHA-1 do for its check.\<close>

record managed_info =
  mi_info :: torrent_info
  mi_out_dir :: bytes
  mi_lengths :: lengths
  mi_overwrite :: bool

record check_env =
  ce_sha1 :: "bytes \<Rightarrow> bytes"
  ce_os :: "bytes \<Rightarrow> bool"
  ce_fs :: file_system
  ce_set_len :: "nat \<Rightarrow> bool"

definition initializing_check :: "check_env \<Rightarrow> managed_info \<Rightarrow> nat list option \<Rightarrow> paused run" where
  "initializing_check e meta only_files =
     (case iter_filenames_and_lengths (mi_info meta) of
        Inl _ \<Rightarrow> Fails
      | Inr names \<Rightarrow>
          bind_run (open_files (ce_os e) (mi_overwrite meta) (mi_out_dir meta) (ce_fs e) names) (\<lambda>files.
          bind_run (initial_check (ce_sha1 e) (mi_info meta) files (mi_lengths meta) only_files) (\<lambda>r.
          let files = set_lengths (ce_set_len e) only_files 0 files (map snd names) in
          bind_run (of_outcome (chunk_tracker_new (ir_needed_pieces r) (ir_have_pieces r) (mi_lengths meta)
              (ir_total_selected_bytes r))) (\<lambda>ct.
          Done \<lparr>pa_info = mi_info meta, pa_files = files, pa_chunk_tracker = ct,
            pa_have_bytes = ir_have_bytes r, pa_needed_bytes = ir_needed_bytes r\<rparr>))))"

section \<open>The managed torrent\<close>

text \<open>
  \<open>mt_inits\<close> are the spawned tasks that run the check, each with its \<open>start_paused\<close>. A live torrent comes
  with its connections and tasks.
\<close>

datatype 'b managed_state =
  MInitializing | MPaused paused | MLive "'b swarm" | MError | MNone

record 'b managed =
  mt_info :: managed_info
  mt_only_files :: "nat list option"
  mt_state :: "'b managed_state"
  mt_inits :: "bool list"

text \<open>\<open>ManagedTorrentBuilder::build\<close>. \<open>sum\<close> adds 64-bit integers.\<close>

definition lengths_from_torrent :: "torrent_info \<Rightarrow> lengths option" where
  "lengths_from_torrent info =
     (case iter_file_lengths info of
        Inl _ \<Rightarrow> None
      | Inr ls \<Rightarrow> (case lengths_new (sum_list ls) (ti_piece_length info) None of Inl _ \<Rightarrow> None | Inr L \<Rightarrow> Some L))"

definition build :: "torrent_info \<Rightarrow> bytes \<Rightarrow> bool \<Rightarrow> nat list option \<Rightarrow> 'b managed option" where
  "build info output_folder overwrite only_files =
     map_option (\<lambda>L. \<lparr>mt_info = \<lparr>mi_info = info, mi_out_dir = output_folder, mi_lengths = L, mi_overwrite = overwrite\<rparr>,
         mt_only_files = only_files, mt_state = MInitializing, mt_inits = []\<rparr>)
       (lengths_from_torrent info)"

definition with_chunk_tracker :: "(chunk_tracker \<Rightarrow> 'r) \<Rightarrow> 'b managed \<Rightarrow> 'r option" where
  "with_chunk_tracker f m =
     (case mt_state m of
        MPaused p \<Rightarrow> Some (f (pa_chunk_tracker p))
      | MLive s \<Rightarrow> map_option f (tl_chunks (sw_torrent s))
      | _ \<Rightarrow> None)"

text \<open>The result of \<open>pause\<close> is dropped; the error takes the place of any state.\<close>

definition stop_with_error :: "'b managed \<Rightarrow> 'b managed" where
  "stop_with_error m = m\<lparr>mt_state := MError\<rparr>"

text \<open>From the error state the torrent is initialized anew and started again.\<close>

definition managed_start :: "bool \<Rightarrow> 'b managed \<Rightarrow> bool \<times> 'b managed" where
  "managed_start start_paused m =
     (case mt_state m of
        MLive _ \<Rightarrow> (False, m)
      | MInitializing \<Rightarrow> (True, m\<lparr>mt_inits := mt_inits m @ [start_paused]\<rparr>)
      | MPaused paused \<Rightarrow> (True, m\<lparr>mt_state := MLive (swarm_new paused)\<rparr>)
      | MError \<Rightarrow> (True, m\<lparr>mt_state := MInitializing, mt_inits := mt_inits m @ [start_paused]\<rparr>)
      | MNone \<Rightarrow> (False, m))"

text \<open>The task of a start ends: with the result of the check, or with its error.\<close>

definition init_done :: "bool \<Rightarrow> paused \<Rightarrow> 'b managed \<Rightarrow> 'b managed" where
  "init_done start_paused paused m =
     (if mt_state m \<noteq> MInitializing then m
      else if start_paused then m\<lparr>mt_state := MPaused paused\<rparr>
      else m\<lparr>mt_state := MLive (swarm_new paused)\<rparr>)"

definition init_failed :: "'b managed \<Rightarrow> 'b managed" where
  "init_failed m = m\<lparr>mt_state := MError\<rparr>"

definition managed_pause :: "(nat \<Rightarrow> bool) \<Rightarrow> 'b managed \<Rightarrow> (bool \<times> 'b managed) run" where
  "managed_pause opens m =
     (case mt_state m of
        MLive s \<Rightarrow>
          bind_run (pause opens (sw_torrent s)) (\<lambda>(r, st).
            case r of
              None \<Rightarrow> Done (False, m\<lparr>mt_state := MLive (s\<lparr>sw_torrent := st\<rparr>)\<rparr>)
            | Some paused \<Rightarrow> Done (True, m\<lparr>mt_state := MPaused paused\<rparr>))
      | _ \<Rightarrow> Done (False, m))"

datatype stats_state = StInitializing | StLive | StPaused | StError

record torrent_stats =
  ts_state :: stats_state
  ts_progress_bytes :: u64
  ts_uploaded_bytes :: u64
  ts_total_bytes :: u64
  ts_finished :: bool

text \<open>\<open>checked_bytes\<close> is what the running check has read so far.\<close>

definition managed_stats :: "u64 \<Rightarrow> 'b managed \<Rightarrow> torrent_stats" where
  "managed_stats checked_bytes m =
     (let resp = \<lparr>ts_state = StError, ts_progress_bytes = 0, ts_uploaded_bytes = 0,
          ts_total_bytes = total_length (mi_lengths (mt_info m)), ts_finished = False\<rparr> in
      case mt_state m of
        MInitializing \<Rightarrow> resp\<lparr>ts_state := StInitializing, ts_progress_bytes := checked_bytes\<rparr>
      | MPaused p \<Rightarrow>
          let tot = total_selected_bytes (pa_chunk_tracker p); progr = tot - pa_needed_bytes p in
          resp\<lparr>ts_state := StPaused, ts_total_bytes := tot, ts_progress_bytes := progr, ts_finished := progr = tot\<rparr>
      | MLive s \<Rightarrow>
          let tot = tl_total_selected_bytes (sw_torrent s); remaining = get_left_to_download_bytes (sw_torrent s) in
          resp\<lparr>ts_state := StLive, ts_total_bytes := tot, ts_progress_bytes := tot - remaining,
            ts_finished := remaining = 0, ts_uploaded_bytes := as_uploaded_bytes (tl_stats (sw_torrent s))\<rparr>
      | _ \<Rightarrow> resp)"

text \<open>
  Everything that happens to a managed torrent: the calls of the session, the ends of the checks (also by
  a panic or a cancelled token, which leave no trace), the fatal errors, and the steps of the live torrent
  itself. A fatal error may come at any time: the task that waits for it can find the torrent paused, or
  started again, since it was sent.
\<close>

inductive managed_step :: "'b managed \<Rightarrow> 'b managed \<Rightarrow> bool" for m where
  starts: "managed_step m (snd (managed_start start_paused m))"
| pauses: "managed_pause opens m = Done (ok, m') \<Longrightarrow> managed_step m m'"
| check_ok: "mt_inits m = xs @ start_paused # ys \<Longrightarrow>
    initializing_check e (mt_info m) (mt_only_files m) = Done paused \<Longrightarrow>
    managed_step m (init_done start_paused paused (m\<lparr>mt_inits := xs @ ys\<rparr>))"
| check_failed: "mt_inits m = xs @ start_paused # ys \<Longrightarrow>
    initializing_check e (mt_info m) (mt_only_files m) = Fails \<Longrightarrow>
    managed_step m (init_failed (m\<lparr>mt_inits := xs @ ys\<rparr>))"
| check_cancelled: "mt_inits m = xs @ start_paused # ys \<Longrightarrow> managed_step m (m\<lparr>mt_inits := xs @ ys\<rparr>)"
| fatal: "managed_step m (stop_with_error m)"
| live_step: "mt_state m = MLive s \<Longrightarrow> swarm_step e s s' \<Longrightarrow> managed_step m (m\<lparr>mt_state := MLive s'\<rparr>)"

inductive managed_reach :: "'b managed \<Rightarrow> 'b managed \<Rightarrow> bool" for m0 where
  built: "managed_reach m0 m0"
| step: "managed_reach m0 m \<Longrightarrow> managed_step m m' \<Longrightarrow> managed_reach m0 m'"

section \<open>What a check gives\<close>

text \<open>Whatever the files hold, the two bit fields exclude each other and the counts are theirs.\<close>

definition results_ok :: "lengths \<Rightarrow> nat \<Rightarrow> (nat \<Rightarrow> bool) \<Rightarrow> (nat \<Rightarrow> bool) \<Rightarrow> initial_results \<Rightarrow> bool" where
  "results_ok L k P Q r \<longleftrightarrow>
     (\<forall>j. \<not> (P j \<and> Q j)) \<and>
     ir_have_pieces r = map (\<lambda>j. j < k \<and> P j) [0..<8 * piece_bitfield_bytes L] \<and>
     ir_needed_pieces r = map (\<lambda>j. j < k \<and> Q j) [0..<8 * piece_bitfield_bytes L] \<and>
     ir_have_bytes r = word_of_nat (bytes_in L (pieces_below k P)) \<and>
     ir_needed_bytes r = word_of_nat (bytes_in L (pieces_below k Q))"

lemma results_ok_upd:
  assumes "results_ok L k P Q r" "\<not> (b \<and> c)" shows "results_ok L k (P(k := b)) (Q(k := c)) r"
proof -
  have f: "pieces_below k (R(k := d)) = pieces_below k R" for R d
    unfolding pieces_below_def by (rule filter_cong) auto
  have g: "map (\<lambda>j. j < k \<and> (R(k := d)) j) xs = map (\<lambda>j. j < k \<and> R j) xs" for R d xs
    by (rule map_cong) auto
  show ?thesis using assms unfolding results_ok_def f g by auto
qed

lemma mark_bit_Done: "mark_bit bs p = Done bs' \<longleftrightarrow> bf_set bs (unat (vpi_get (pi_piece_index p))) True = Return bs'"
  by (simp add: mark_bit_def split: outcome.split)

lemma note_piece_cases:
  assumes "note_piece sha1 info p required broken h r = Done r'"
  obtains (have_it) bs where "bf_set (ir_have_pieces r) (unat (vpi_get (pi_piece_index p))) True = Return bs"
      "ir_have_pieces r' = bs" "ir_needed_pieces r' = ir_needed_pieces r"
      "ir_have_bytes r' = ir_have_bytes r + ucast (pi_len p)" "ir_needed_bytes r' = ir_needed_bytes r"
  | (need_it) bs where "bf_set (ir_needed_pieces r) (unat (vpi_get (pi_piece_index p))) True = Return bs"
      "ir_have_pieces r' = ir_have_pieces r" "ir_needed_pieces r' = bs"
      "ir_have_bytes r' = ir_have_bytes r" "ir_needed_bytes r' = ir_needed_bytes r + ucast (pi_len p)"
  | (neither) "ir_have_pieces r' = ir_have_pieces r" "ir_needed_pieces r' = ir_needed_pieces r"
      "ir_have_bytes r' = ir_have_bytes r" "ir_needed_bytes r' = ir_needed_bytes r"
  using assms
  by (cases required; cases broken; cases "compare_hash info (vpi_get (pi_piece_index p)) (sha1 h)")
    (auto simp: note_piece_def Let_def mark_bit_Done split: bool.splits)

lemma results_ok_step:
  assumes "results_ok L k P Q r" "lengths_ok L" "k < n_pieces L" "p = iter_piece_infos L ! k"
    and "note_piece sha1 info p required broken h r = Done r'"
  shows "\<exists>P Q. results_ok L (Suc k) P Q r'"
proof -
  have p: "pi_piece_index p = ValidPieceIndex (word_of_nat k)"
    "pi_len p = piece_length_of L (ValidPieceIndex (word_of_nat k))"
    using assms(3,4) by (simp_all add: iter_piece_infos_nth [OF assms(2)])
  have k: "unat (word_of_nat k :: u32) = k" "k < 8 * piece_bitfield_bytes L"
    using assms(3) n_pieces_bound [OF assms(2)] bitfield_holds_pieces(1) [OF assms(2)]
    by (simp_all add: unat_u32_of_nat)
  have upd: "(map (\<lambda>j. j < k \<and> R j) [0..<8 * piece_bitfield_bytes L])[k := True] =
      map (\<lambda>j. j < Suc k \<and> R j) [0..<8 * piece_bitfield_bytes L]" if "R k" for R
    using map_bool_update [of k "8 * piece_bitfield_bytes L" R] that k(2) by simp
  have "\<exists>b c. \<not> (b \<and> c) \<and> results_ok L (Suc k) (P(k := b)) (Q(k := c)) r'"
    using assms(5)
  proof (cases rule: note_piece_cases)
    case (have_it bs)
    then show ?thesis
      using results_ok_upd [OF assms(1), of True False] k p upd [of "P(k := True)"] map_bool_Suc [of "Q(k := False)" k]
      by (intro exI [of _ True] exI [of _ False]) (simp add: results_ok_def bf_set_def bytes_in_Suc del: upt_Suc)
  next
    case (need_it bs)
    then show ?thesis
      using results_ok_upd [OF assms(1), of False True] k p upd [of "Q(k := True)"] map_bool_Suc [of "P(k := False)" k]
      by (intro exI [of _ False] exI [of _ True]) (simp add: results_ok_def bf_set_def bytes_in_Suc del: upt_Suc)
  next
    case neither
    then show ?thesis
      using results_ok_upd [OF assms(1), of False False] map_bool_Suc [of "Q(k := False)" k] map_bool_Suc [of "P(k := False)" k]
      by (intro exI [of _ False]) (simp add: results_ok_def bytes_in_Suc del: upt_Suc)
  qed
  then show ?thesis by blast
qed

lemma check_pieces_results:
  assumes "lengths_ok L"
  shows "check_pieces sha1 info (drop k (iter_piece_infos L)) cur rest r = Done r' \<Longrightarrow> k \<le> n_pieces L \<Longrightarrow>
    results_ok L k P Q r \<Longrightarrow> \<exists>P Q. results_ok L (n_pieces L) P Q r'"
proof (induction "n_pieces L - k" arbitrary: k cur rest r P Q)
  case 0
  then have "k = n_pieces L" "drop k (iter_piece_infos L) = []" using assms by (simp_all add: length_iter_piece_infos)
  then show ?case using 0 by auto
next
  case (Suc m)
  then have k: "k < n_pieces L" by simp
  then have dr: "drop k (iter_piece_infos L) = iter_piece_infos L ! k # drop (Suc k) (iter_piece_infos L)"
    using assms by (simp add: Cons_nth_drop_Suc length_iter_piece_infos)
  obtain req broken h r1 cur' rest' where n: "note_piece sha1 info (iter_piece_infos L ! k) req broken h r = Done r1"
    and rest: "check_pieces sha1 info (drop (Suc k) (iter_piece_infos L)) cur' rest' r1 = Done r'"
    using Suc.prems(1) by (auto simp: dr)
  obtain P' Q' where "results_ok L (Suc k) P' Q' r1" using results_ok_step [OF Suc.prems(3) assms k refl n] by blast
  then show ?case using Suc.hyps(1) [of "Suc k"] Suc.hyps(2) rest k by auto
qed

lemma initial_check_results:
  assumes "initial_check sha1 info files L only_files = Done r" "lengths_ok L"
  shows "\<exists>P Q. results_ok L (n_pieces L) P Q r"
proof -
  define zero where "zero = replicate (8 * piece_bitfield_bytes L) False"
  define r0 where "r0 = \<lparr>ir_needed_pieces = zero, ir_have_pieces = zero, ir_have_bytes = 0,
    ir_needed_bytes = 0, ir_total_selected_bytes = 0\<rparr>"
  obtain cur rest where "check_pieces sha1 info (drop 0 (iter_piece_infos L)) cur rest r0 = Done r"
    using assms(1) by (auto simp: initial_check_def bf_from_zeros r0_def zero_def Let_def split: sum.splits list.splits)
  moreover have "results_ok L 0 (\<lambda>_. False) (\<lambda>_. False) r0"
    by (simp add: results_ok_def r0_def zero_def pieces_below_def bytes_in_def map_replicate_const)
  ultimately show ?thesis using check_pieces_results [OF assms(2), of sha1 info 0] by blast
qed

lemma tracker_of_results:
  assumes "geometry_ok L" "results_ok L (n_pieces L) P Q r"
    and "chunk_tracker_new (ir_needed_pieces r) (ir_have_pieces r) L sel = Return ct"
  shows "tracker_start ct" "ct_lengths ct = L" "ir_needed_bytes r = calc_needed_bytes ct" "ir_have_bytes r = calc_have_bytes ct"
proof -
  have ok: "lengths_ok L" using assms(1) by (simp add: geometry_ok_def)
  note b = bitfield_holds_pieces [OF ok]
  have bits: "length (ir_have_pieces r) = 8 * piece_bitfield_bytes L" "length (ir_needed_pieces r) = 8 * piece_bitfield_bytes L"
    using assms(2) by (simp_all add: results_ok_def)
  have ct: "tracker_ok ct" "ct_lengths ct = L" "needed_pieces ct = ir_needed_pieces r" "have_pieces ct = ir_have_pieces r"
    "\<forall>i. valid_index L i \<longrightarrow> received ct i = (if ir_needed_pieces r ! unat (vpi_get i) then {} else all_chunks ct i)"
    using chunk_tracker_new_ok [OF assms(1), of "ir_needed_pieces r" "ir_have_pieces r" sel] bits b assms(3) by auto
  have "full ct i" if i: "valid_index L i" "\<not> nd ct i \<or> hv ct i" for i
  proof -
    have k: "unat (vpi_get i) < 8 * piece_bitfield_bytes L" using valid_index_bit [OF i(1) b(1)] .
    then have "\<not> (hv ct i \<and> nd ct i)" using assms(2) ct(3,4) by (auto simp: results_ok_def hv_def nd_def)
    then show ?thesis using i ct(3,5) by (auto simp: full_def nd_def)
  qed
  then show "tracker_start ct" using ct(1,2) by (simp add: tracker_start_def)
  show "ct_lengths ct = L" by (rule ct(2))
  have "ir_have_bytes r = sum_piece_bytes L (ir_have_pieces r)" "ir_needed_bytes r = sum_piece_bytes L (ir_needed_pieces r)"
    using assms(2) by (simp_all only: results_ok_def sum_piece_bytes_map [OF ok refl])
  then show "ir_needed_bytes r = calc_needed_bytes ct" "ir_have_bytes r = calc_have_bytes ct"
    using ct(2-4) by (simp_all add: calc_needed_bytes_def calc_have_bytes_def)
qed

lemma initializing_check_ok:
  assumes "initializing_check e meta only_files = Done pa" "geometry_ok (mi_lengths meta)"
  shows "paused_ok pa" "ct_lengths (pa_chunk_tracker pa) = mi_lengths meta"
    "pa_have_bytes pa = calc_have_bytes (pa_chunk_tracker pa)"
proof -
  obtain files r ct where r: "initial_check (ce_sha1 e) (mi_info meta) files (mi_lengths meta) only_files = Done r"
    and ct: "chunk_tracker_new (ir_needed_pieces r) (ir_have_pieces r) (mi_lengths meta) (ir_total_selected_bytes r) = Return ct"
    and pa: "pa_chunk_tracker pa = ct" "pa_have_bytes pa = ir_have_bytes r" "pa_needed_bytes pa = ir_needed_bytes r"
    using assms(1) by (auto simp: initializing_check_def Let_def split: sum.splits)
  obtain P Q where "results_ok (mi_lengths meta) (n_pieces (mi_lengths meta)) P Q r"
    using initial_check_results [OF r] assms(2) by (auto simp: geometry_ok_def)
  note t = tracker_of_results [OF assms(2) this ct]
  show "paused_ok pa" "ct_lengths (pa_chunk_tracker pa) = mi_lengths meta"
    "pa_have_bytes pa = calc_have_bytes (pa_chunk_tracker pa)"
    using t pa by (simp_all add: paused_ok_def)
qed

section \<open>The life of a managed torrent\<close>

text \<open>When the properties below say something of a torrent: its sizes fit, and its pieces are made of whole chunks.\<close>

lemma torrent_geometry:
  assumes "lengths_from_torrent info = Some L" "sizes_fit (total_length L) (piece_length L) CHUNK_SIZE"
    and "unat CHUNK_SIZE dvd unat (ti_piece_length info)"
  shows "geometry_ok L"
proof -
  obtain ls where new: "lengths_new (sum_list ls) (ti_piece_length info) None = Inr L"
    using assms(1) by (auto simp: lengths_from_torrent_def split: sum.splits)
  then have L: "total_length L = sum_list ls" "piece_length L = ti_piece_length info" "chunk_length L = CHUNK_SIZE"
    by (auto simp: lengths_new_def Let_def split: if_splits)
  have "lengths_ok L" using lengths_new_ok(1) [OF new] assms(2) L by simp
  then show ?thesis using assms(3) L by (simp add: geometry_ok_def)
qed

definition managed_ok :: "'b managed \<Rightarrow> bool" where
  "managed_ok m \<longleftrightarrow>
     (case mt_state m of
        MPaused p \<Rightarrow> paused_ok p \<and> ct_lengths (pa_chunk_tracker p) = mi_lengths (mt_info m)
      | MLive s \<Rightarrow> (\<exists>pa. paused_ok pa \<and> ct_lengths (pa_chunk_tracker pa) = mi_lengths (mt_info m) \<and> swarm_reach pa s)
      | MNone \<Rightarrow> False
      | _ \<Rightarrow> True)"

lemma managed_ok_inits [simp]: "managed_ok (m\<lparr>mt_inits := i\<rparr>) = managed_ok m"
  by (simp add: managed_ok_def split: managed_state.split)

lemma init_done_ok:
  assumes "managed_ok m" "paused_ok pa" "ct_lengths (pa_chunk_tracker pa) = mi_lengths (mt_info m)"
  shows "managed_ok (init_done b pa m) \<and> mt_info (init_done b pa m) = mt_info m"
proof (cases "mt_state m = MInitializing")
  case True
  then show ?thesis using assms(2,3) by (auto simp: init_done_def managed_ok_def intro: swarm_reach.fresh)
next
  case False
  then show ?thesis using assms(1) by (simp add: init_done_def)
qed

lemma managed_start_ok: "managed_ok m \<Longrightarrow> managed_ok (snd (managed_start b m)) \<and> mt_info (snd (managed_start b m)) = mt_info m"
  by (auto simp: managed_start_def managed_ok_def split: managed_state.splits intro: swarm_reach.fresh)

lemma managed_pause_live:
  assumes "managed_ok m" "mt_state m = MLive s"
  shows "(all_open opens (sw_torrent s) \<longrightarrow> (\<exists>p. managed_pause opens m = Done (True, m\<lparr>mt_state := MPaused p\<rparr>) \<and>
       paused_ok p \<and> ct_lengths (pa_chunk_tracker p) = mi_lengths (mt_info m))) \<and>
    (\<not> all_open opens (sw_torrent s) \<longrightarrow> (\<exists>st. managed_pause opens m = Done (False, m\<lparr>mt_state := MLive (s\<lparr>sw_torrent := st\<rparr>)\<rparr>) \<and>
       managed_ok (m\<lparr>mt_state := MLive (s\<lparr>sw_torrent := st\<rparr>)\<rparr>) \<and> tl_cancelled st \<and> tl_chunks st = tl_chunks (sw_torrent s)))"
proof -
  obtain pa where pa: "paused_ok pa" "ct_lengths (pa_chunk_tracker pa) = mi_lengths (mt_info m)" "swarm_reach pa s"
    using assms by (auto simp: managed_ok_def)
  have "\<exists>p. managed_pause opens m = Done (True, m\<lparr>mt_state := MPaused p\<rparr>) \<and> paused_ok p \<and>
      ct_lengths (pa_chunk_tracker p) = mi_lengths (mt_info m)" if "all_open opens (sw_torrent s)"
    using pause_moves [OF pa(3,1) that] assms(2) pa(2) by (auto simp: managed_pause_def)
  moreover have "\<exists>st. managed_pause opens m = Done (False, m\<lparr>mt_state := MLive (s\<lparr>sw_torrent := st\<rparr>)\<rparr>) \<and>
       managed_ok (m\<lparr>mt_state := MLive (s\<lparr>sw_torrent := st\<rparr>)\<rparr>) \<and> tl_cancelled st \<and> tl_chunks st = tl_chunks (sw_torrent s)"
    if "\<not> all_open opens (sw_torrent s)"
  proof (rule pause_stopped [OF that])
    fix k st assume f: "pause opens (sw_torrent s) = Done (None, st)" "tl_cancelled st" "tl_chunks st = tl_chunks (sw_torrent s)"
    have "swarm_reach pa (s\<lparr>sw_torrent := st\<rparr>)" by (rule swarm_reach.step [OF pa(3) swarm_step.pause_fails [OF f(1)]])
    then show ?thesis using f assms(2) pa(1,2) by (auto simp: managed_pause_def managed_ok_def)
  qed
  ultimately show ?thesis by blast
qed

lemma managed_pause_ok:
  assumes "managed_ok m" "managed_pause opens m = Done (ok, m')"
  shows "managed_ok m' \<and> mt_info m' = mt_info m"
proof (cases "mt_state m")
  case (MLive s)
  show ?thesis
    using managed_pause_live [OF assms(1) MLive, of opens] assms(2)
    by (cases "all_open opens (sw_torrent s)") (auto simp: managed_ok_def)
qed (use assms in \<open>auto simp: managed_pause_def\<close>)

lemma managed_step_ok:
  assumes "managed_step m m'" "managed_ok m" "geometry_ok (mi_lengths (mt_info m))"
  shows "managed_ok m' \<and> mt_info m' = mt_info m"
  using assms
proof (induction rule: managed_step.induct)
  case (starts start_paused)
  then show ?case using managed_start_ok by blast
next
  case (pauses opens ok m')
  then show ?case using managed_pause_ok by blast
next
  case (check_ok xs start_paused ys e paused)
  then show ?case
    using initializing_check_ok(1,2) [OF check_ok(2)] init_done_ok [of "m\<lparr>mt_inits := xs @ ys\<rparr>" paused start_paused]
    by simp
next
  case (live_step s e s')
  then show ?case by (auto simp: managed_ok_def intro: swarm_reach.step)
next
  case (check_cancelled xs start_paused ys)
  then show ?case by (cases "mt_state m") (simp_all add: managed_ok_def)
qed (auto simp: init_failed_def stop_with_error_def managed_ok_def)

lemma managed_reach_ok:
  assumes "managed_reach m0 m" "managed_ok m0" "geometry_ok (mi_lengths (mt_info m0))"
  shows "managed_ok m \<and> mt_info m = mt_info m0"
  using assms(1)
proof (induction rule: managed_reach.induct)
  case (step m m')
  then show ?case using managed_step_ok [of m m'] assms(3) by simp
qed (use assms(2) in simp)

text \<open>The state that stands in for another is never seen, whatever the sizes are.\<close>

lemma managed_step_proper: "managed_step m m' \<Longrightarrow> mt_state m \<noteq> MNone \<Longrightarrow> mt_state m' \<noteq> MNone"
  by (induction rule: managed_step.induct)
    (auto simp: managed_start_def managed_pause_def init_done_def init_failed_def stop_with_error_def
      split: managed_state.splits option.splits)

lemma managed_reach_proper: "managed_reach m0 m \<Longrightarrow> mt_state m0 \<noteq> MNone \<Longrightarrow> mt_state m \<noteq> MNone"
  by (induction rule: managed_reach.induct) (auto dest: managed_step_proper)

lemma build_ok: "build info out_dir overwrite only_files = Some m \<Longrightarrow> managed_ok m"
  by (auto simp: build_def managed_ok_def)

lemma paused_finished:
  assumes "paused_ok p"
  shows "pa_needed_bytes p = 0 \<longleftrightarrow>
    (\<forall>k < n_pieces (ct_lengths (pa_chunk_tracker p)). \<not> nd (pa_chunk_tracker p) (idx k))"
proof -
  have ok: "tracker_ok (pa_chunk_tracker p)" "pa_needed_bytes p = calc_needed_bytes (pa_chunk_tracker p)"
    using assms by (simp_all add: paused_ok_def tracker_start_def)
  have "pa_needed_bytes p = 0 \<longleftrightarrow> unat (calc_needed_bytes (pa_chunk_tracker p)) = 0" using ok(2) by (simp add: unat_eq_0)
  also have "\<dots> \<longleftrightarrow> (\<forall>k < n_pieces (ct_lengths (pa_chunk_tracker p)). \<not> nd (pa_chunk_tracker p) (idx k))"
    unfolding needed_bytes_eq [OF ok(1)] bytes_in_sum [symmetric]
    by (rule bytes_in_zero [OF tracker_okD(1) [OF ok(1)]])
  finally show ?thesis .
qed

text \<open>
  C4: A managed torrent is sound in all its life. From the moment it is built, through any number of starts,
  checks, pauses, failed pauses, errors and restarts, over whatever is on the disk, it is never in the state
  that only stands in for another. When the sizes of the torrent fit the counters and its piece length is a
  multiple of the chunk length: a paused torrent may be started again, and is reported as finished exactly
  when no piece is asked for; a live one was started from such a state, hence the invariants of the download
  hold; and pausing it makes it paused so when \<open>/dev/null\<close> opens for each of its files, and otherwise is an error
  that leaves it live, with its tracker and the invariants, but cancelled. Without the condition on the
  lengths the tracker panics (\<open>odd_piece_length_panics\<close>).
\<close>

theorem managed_torrent_sound:
  fixes m :: "'b managed"
  assumes "build info out_dir overwrite only_files = Some m0" "managed_reach m0 m"
  shows "mt_state m \<noteq> MNone \<and>
    (geometry_ok (mi_lengths (mt_info m0)) \<longrightarrow>
      (\<forall>p. mt_state m = MPaused p \<longrightarrow> paused_ok p \<and>
         (ts_finished (managed_stats c m) \<longleftrightarrow>
           (\<forall>k < n_pieces (mi_lengths (mt_info m0)). \<not> nd (pa_chunk_tracker p) (idx k)))) \<and>
      (\<forall>s. mt_state m = MLive s \<longrightarrow> (\<exists>pa. paused_ok pa \<and> swarm_reach pa s) \<and>
         (if \<forall>k < length (tl_files (sw_torrent s)). opens k
          then \<exists>p. managed_pause opens m = Done (True, m\<lparr>mt_state := MPaused p\<rparr>) \<and> paused_ok p
          else \<exists>s'. managed_pause opens m = Done (False, m\<lparr>mt_state := MLive s'\<rparr>) \<and> tl_cancelled (sw_torrent s') \<and>
            tl_chunks (sw_torrent s') = tl_chunks (sw_torrent s) \<and> (\<exists>pa. paused_ok pa \<and> swarm_reach pa s'))))"
proof -
  have "mt_state m \<noteq> MNone"
    by (rule managed_reach_proper [OF assms(2)]) (use build_ok [OF assms(1)] in \<open>auto simp: managed_ok_def\<close>)
  moreover have "(\<forall>p. mt_state m = MPaused p \<longrightarrow> paused_ok p \<and> (ts_finished (managed_stats c m) \<longleftrightarrow>
      (\<forall>k < n_pieces (mi_lengths (mt_info m0)). \<not> nd (pa_chunk_tracker p) (idx k)))) \<and>
      (\<forall>s. mt_state m = MLive s \<longrightarrow> (\<exists>pa. paused_ok pa \<and> swarm_reach pa s) \<and>
         (if all_open opens (sw_torrent s)
          then \<exists>p. managed_pause opens m = Done (True, m\<lparr>mt_state := MPaused p\<rparr>) \<and> paused_ok p
          else \<exists>s'. managed_pause opens m = Done (False, m\<lparr>mt_state := MLive s'\<rparr>) \<and> tl_cancelled (sw_torrent s') \<and>
            tl_chunks (sw_torrent s') = tl_chunks (sw_torrent s) \<and> (\<exists>pa. paused_ok pa \<and> swarm_reach pa s')))"
    if g: "geometry_ok (mi_lengths (mt_info m0))"
  proof (intro conjI allI impI)
    have ok: "managed_ok m" "mt_info m = mt_info m0" using managed_reach_ok [OF assms(2) build_ok [OF assms(1)] g] by simp_all
    fix p assume p: "mt_state m = MPaused p"
    then show "paused_ok p" using ok(1) by (simp add: managed_ok_def)
    then show "ts_finished (managed_stats c m) \<longleftrightarrow>
        (\<forall>k < n_pieces (mi_lengths (mt_info m0)). \<not> nd (pa_chunk_tracker p) (idx k))"
      using paused_finished [of p] ok p by (simp add: managed_stats_def Let_def managed_ok_def)
  next
    have ok: "managed_ok m" using managed_reach_ok [OF assms(2) build_ok [OF assms(1)] g] by simp
    fix s assume s: "mt_state m = MLive s"
    then show "\<exists>pa. paused_ok pa \<and> swarm_reach pa s" using ok by (auto simp: managed_ok_def)
    show "if all_open opens (sw_torrent s)
        then \<exists>p. managed_pause opens m = Done (True, m\<lparr>mt_state := MPaused p\<rparr>) \<and> paused_ok p
        else \<exists>s'. managed_pause opens m = Done (False, m\<lparr>mt_state := MLive s'\<rparr>) \<and> tl_cancelled (sw_torrent s') \<and>
          tl_chunks (sw_torrent s') = tl_chunks (sw_torrent s) \<and> (\<exists>pa. paused_ok pa \<and> swarm_reach pa s')"
    proof (cases "all_open opens (sw_torrent s)")
      case True
      then show ?thesis using managed_pause_live [OF ok s, of opens] by auto
    next
      case False
      then obtain st where "managed_pause opens m = Done (False, m\<lparr>mt_state := MLive (s\<lparr>sw_torrent := st\<rparr>)\<rparr>)"
        "managed_ok (m\<lparr>mt_state := MLive (s\<lparr>sw_torrent := st\<rparr>)\<rparr>)" "tl_cancelled st" "tl_chunks st = tl_chunks (sw_torrent s)"
        using managed_pause_live [OF ok s, of opens] by blast
      then show ?thesis using False by (auto simp: managed_ok_def intro!: exI [of _ "s\<lparr>sw_torrent := st\<rparr>"])
    qed
  qed
  ultimately show ?thesis by blast
qed

definition fresh_check :: check_env where
  "fresh_check = \<lparr>ce_sha1 = (\<lambda>_. replicate 20 9), ce_os = (\<lambda>_. True), ce_fs = (\<lambda>_. None), ce_set_len = (\<lambda>_. False)\<rparr>"

theorem managed_torrent_sound_witness:
  "\<exists>(m :: unit managed) p. mt_state m = MPaused p \<and> paused_ok p \<and> \<not> ts_finished (managed_stats 0 m) \<and>
     nd (pa_chunk_tracker p) (ValidPieceIndex 0)"
proof -
  define m0 :: "unit managed" where "m0 = \<lparr>mt_info = \<lparr>mi_info = small_info, mi_out_dir = [47],
    mi_lengths = small_lengths, mi_overwrite = False\<rparr>, mt_only_files = None, mt_state = MInitializing, mt_inits = []\<rparr>"
  have b: "lengths_from_torrent small_info = Some small_lengths" by code_simp
  then have m0: "build small_info [47] False None = Some m0" by (simp add: build_def m0_def)
  have c: "case initializing_check fresh_check (mt_info m0) None of
      Done p \<Rightarrow> nd (pa_chunk_tracker p) (ValidPieceIndex 0) | _ \<Rightarrow> False"
    unfolding m0_def by code_simp
  then obtain p where p: "initializing_check fresh_check (mt_info m0) None = Done p" "nd (pa_chunk_tracker p) (ValidPieceIndex 0)"
    by (auto split: run.splits)
  define m1 where "m1 = snd (managed_start True m0)"
  define m2 where "m2 = init_done True p (m1\<lparr>mt_inits := []\<rparr>)"
  have m1: "mt_info m1 = mt_info m0" "mt_only_files m1 = None" "mt_state m1 = MInitializing" "mt_inits m1 = [] @ True # []"
    by (simp_all add: m1_def m0_def managed_start_def)
  have "managed_step m1 m2"
    using managed_step.check_ok [OF m1(4), of fresh_check p] p(1) m1(1,2) by (simp add: m2_def)
  moreover have "managed_reach m0 m1"
    unfolding m1_def by (rule managed_reach.step [OF managed_reach.built managed_step.starts])
  ultimately have r: "managed_reach m0 m2" by (rule managed_reach.step [rotated])
  have s: "mt_state m2 = MPaused p" using m1(3) by (simp add: m2_def init_done_def)
  have g: "geometry_ok (mi_lengths (mt_info m0))" by (simp add: m0_def small_geometry)
  have "idx 0 = ValidPieceIndex 0" "0 < n_pieces (mi_lengths (mt_info m0))" by (simp_all add: idx_def)
  then have "paused_ok p" "\<not> ts_finished (managed_stats 0 m2)"
    using managed_torrent_sound [OF m0 r, of 0] g s p(2) by auto
  then show ?thesis using s p(2) by blast
qed

end
