(* ===== verification/CreateTorrent.thy ===== *)
theory CreateTorrent
  imports TorrentFile Managed
begin

text \<open>
  Model of \<open>crates/librqbit/src/create_torrent_file.rs\<close>: finding the files below a path, hashing them
  piece by piece across their ends, and the torrent made of that. The end checks the files against the
  torrent with \<open>initial_check\<close> of \<open>FileOps\<close>.
\<close>

section \<open>Finding the files\<close>

text \<open>
  A file with its content, a directory with its entries in the order \<open>read_dir\<close> gives them, or one of
  either kind that cannot be opened. What is not a directory is taken for a file.
\<close>

datatype fs_node = FsFile bytes | FsDir "(bytes \<times> fs_node) list" | FsBadFile | FsBadDir

text \<open>A file found: its path below the root, and its content if it can be read.\<close>

type_synonym found_file = "bytes list \<times> bytes option"

type_synonym dir_stack = "(bytes list \<times> (bytes \<times> fs_node) list option) list"

fun scan_entries ::
  "bytes list \<Rightarrow> (bytes \<times> fs_node) list \<Rightarrow> dir_stack \<Rightarrow> found_file list \<Rightarrow> dir_stack \<times> found_file list" where
  "scan_entries dir [] stack out = (stack, out)"
| "scan_entries dir ((name, n) # es) stack out =
     (let full_path = dir @ [name] in
      case n of
        FsDir sub \<Rightarrow> scan_entries dir es ((full_path, Some sub) # stack) out
      | FsBadDir \<Rightarrow> scan_entries dir es ((full_path, None) # stack) out
      | FsFile data \<Rightarrow> scan_entries dir es stack (out @ [(full_path, Some data)])
      | FsBadFile \<Rightarrow> scan_entries dir es stack (out @ [(full_path, None)]))"

abbreviation nodes_size :: "(bytes \<times> fs_node) list \<Rightarrow> nat" where
  "nodes_size es \<equiv> (\<Sum>(_, n) \<leftarrow> es. Suc (size n))"

abbreviation stack_size :: "dir_stack \<Rightarrow> nat" where
  "stack_size stack \<equiv> (\<Sum>(_, es) \<leftarrow> stack. case es of None \<Rightarrow> Suc 0 | Some es \<Rightarrow> Suc (nodes_size es))"

lemma size_dir: "nodes_size es \<le> size (FsDir es)"
  by (induction es) auto

lemma scan_entries_size:
  "stack_size (fst (scan_entries dir es stack out)) \<le> nodes_size es + stack_size stack"
proof (induction dir es stack out rule: scan_entries.induct)
  case (2 dir name n es stack out)
  show ?case
  proof (cases n)
    case (FsFile data)
    then show ?thesis using "2.IH"(1) [OF refl FsFile] by simp
  next
    case (FsDir sub)
    then show ?thesis using "2.IH"(2) [OF refl FsDir] size_dir [of sub] by simp
  next
    case FsBadFile
    then show ?thesis using "2.IH"(3) [OF refl FsBadFile] by simp
  next
    case FsBadDir
    then show ?thesis using "2.IH"(4) [OF refl FsBadDir] by simp
  qed
qed simp

function walk_loop :: "dir_stack \<Rightarrow> found_file list \<Rightarrow> found_file list option" where
  "walk_loop [] out = Some out"
| "walk_loop ((dir, None) # stack) out = None"
| "walk_loop ((dir, Some es) # stack) out =
     (case scan_entries dir es stack out of (stack, out) \<Rightarrow> walk_loop stack out)"
  by pat_completeness auto
termination
proof (relation "measure (\<lambda>(stack, out). stack_size stack)")
  fix dir es stack out stack' out'
  assume "(stack', out') = scan_entries dir es stack out"
  then have "stack_size stack' \<le> nodes_size es + stack_size stack"
    using scan_entries_size [of dir es stack out] by (metis fst_conv)
  then show "((stack', out'), ((dir, Some es) # stack, out)) \<in> measure (\<lambda>(stack, out). stack_size stack)" by simp
qed simp

definition walk_dir_find_paths :: "(bytes \<times> fs_node) list option \<Rightarrow> found_file list option" where
  "walk_dir_find_paths es = walk_loop [([], es)] []"

definition input_files :: "fs_node \<Rightarrow> found_file list option" where
  "input_files root =
     (case root of
        FsFile data \<Rightarrow> Some [([], Some data)]
      | FsBadFile \<Rightarrow> Some [([], None)]
      | FsDir es \<Rightarrow> walk_dir_find_paths (Some es)
      | FsBadDir \<Rightarrow> walk_dir_find_paths None)"

section \<open>Hashing\<close>

definition choose_piece_length :: u32 where
  "choose_piece_length = 2 * 1024 * 1024"

definition READ_SIZE :: u32 where
  "READ_SIZE = 8192"

text \<open>
  \<open>read\<close> gives nothing at the end of the file or when nothing is asked for, and else at least a byte
  and at most what is asked for; \<open>rd\<close> says how many, from what is left.
\<close>

definition read_count :: "(nat \<Rightarrow> nat) \<Rightarrow> bytes \<Rightarrow> nat \<Rightarrow> nat" where
  "read_count rd data n =
     (if data = [] \<or> n = 0 then 0 else max 1 (min (rd (length data)) (min n (length data))))"

lemma read_count_bounds:
  "read_count rd data n \<le> length data" "read_count rd data n \<le> n"
  "read_count rd data n = 0 \<longleftrightarrow> data = [] \<or> n = 0"
  by (cases data; simp add: read_count_def; linarith?)+

text \<open>The bytes given to the hash of the current piece stand for its state.\<close>

record creation =
  cr_length :: u64
  cr_remaining :: u32
  cr_checksum :: bytes
  cr_hashes :: bytes

function hash_input :: "(bytes \<Rightarrow> bytes) \<Rightarrow> (nat \<Rightarrow> nat) \<Rightarrow> u32 \<Rightarrow> bytes \<Rightarrow> creation \<Rightarrow> creation" where
  "hash_input sha1 rd plen data c =
     (let max_bytes_to_read = unat (min (cr_remaining c) READ_SIZE);
          n = read_count rd data max_bytes_to_read in
      if n = 0 then c
      else
        let c = c\<lparr>cr_length := cr_length c + word_of_nat n,
                  cr_checksum := cr_checksum c @ take n data,
                  cr_remaining := cr_remaining c - word_of_nat n\<rparr>;
            c = (if cr_remaining c = 0
                 then c\<lparr>cr_remaining := plen, cr_hashes := cr_hashes c @ sha1 (cr_checksum c), cr_checksum := []\<rparr>
                 else c) in
        hash_input sha1 rd plen (drop n data) c)"
  by pat_completeness auto
termination
proof (relation "measure (\<lambda>(sha1, rd, plen, data, c). length data)")
  fix sha1 rd plen and data :: bytes and c :: creation and m n c1 c2
  assume "n = read_count rd data m" "n \<noteq> 0"
  then have "0 < n" "n \<le> length data" using read_count_bounds(1) [of rd data m] by simp_all
  then have "length (drop n data) < length data" by simp
  then show "((sha1, rd, plen, drop n data, c2), (sha1, rd, plen, data, c)) \<in>
      measure (\<lambda>(sha1, rd, plen, data, c). length data)" by simp
qed simp

declare hash_input.simps [simp del]

text \<open>
  \<open>rd\<close> may depend on the file. A name that is not UTF-8 stops the process (\<open>to_str().unwrap()\<close>) when the
  end of its file is reached.
\<close>

fun hash_files ::
  "(bytes \<Rightarrow> bytes) \<Rightarrow> (bytes list \<Rightarrow> nat \<Rightarrow> nat) \<Rightarrow> u32 \<Rightarrow> found_file list \<Rightarrow> creation \<Rightarrow> torrent_file list \<Rightarrow>
    (creation \<times> torrent_file list) run" where
  "hash_files sha1 rd plen [] c output_files = Done (c, output_files)"
| "hash_files sha1 rd plen ((path, None) # fs) c output_files = Fails"
| "hash_files sha1 rd plen ((path, Some data) # fs) c output_files =
     (let c = hash_input sha1 (rd path) plen data (c\<lparr>cr_length := 0\<rparr>) in
      if \<not> list_all utf8_valid path then Panics
      else hash_files sha1 rd plen fs c (output_files @ [\<lparr>tf_length = cr_length c, tf_path = path\<rparr>]))"

record create_options =
  co_name :: "bytes option"
  co_piece_length :: "u32 option"

definition is_dir :: "fs_node \<Rightarrow> bool" where
  "is_dir n = (case n of FsDir _ \<Rightarrow> True | FsBadDir \<Rightarrow> True | _ \<Rightarrow> False)"

definition options_piece_length :: "create_options \<Rightarrow> u32" where
  "options_piece_length options =
     (case co_piece_length options of Some n \<Rightarrow> n | None \<Rightarrow> choose_piece_length)"

text \<open>\<open>basename\<close> is the last name of the path, if it has one. A path that does not exist is a bad file.\<close>

definition create_torrent_raw ::
  "(bytes \<Rightarrow> bytes) \<Rightarrow> (bytes list \<Rightarrow> nat \<Rightarrow> nat) \<Rightarrow> bytes option \<Rightarrow> fs_node \<Rightarrow> create_options \<Rightarrow> torrent_info run" where
  "create_torrent_raw sha1 rd basename root options =
     (case basename of
        None \<Rightarrow> Fails
      | Some b \<Rightarrow>
          let single_file_mode = \<not> is_dir root in
          bind_run (case co_name options of Some n \<Rightarrow> Done n | None \<Rightarrow> if utf8_valid b then Done b else Panics)
          (\<lambda>name.
            (case input_files root of
               None \<Rightarrow> Fails
             | Some fs \<Rightarrow>
                 let plen = options_piece_length options in
                 bind_run (hash_files sha1 rd plen fs
                     \<lparr>cr_length = 0, cr_remaining = plen, cr_checksum = [], cr_hashes = []\<rparr> [])
                 (\<lambda>(c, output_files).
                   let piece_hashes = cr_hashes c @
                     (if 0 < cr_remaining c \<and> 0 < cr_length c then sha1 (cr_checksum c) else []) in
                   Done \<lparr>ti_name = Some name, ti_pieces = piece_hashes, ti_piece_length = plen,
                     ti_length = (if single_file_mode then Some (cr_length c) else None), ti_md5sum = None,
                     ti_files = (if single_file_mode then None else Some output_files)\<rparr>))))"

definition compute_info_hash :: "(bytes \<Rightarrow> bytes) \<Rightarrow> torrent_info \<Rightarrow> bytes" where
  "compute_info_hash sha1 t = sha1 (serialize_torrent_info t)"

definition create_torrent ::
  "(bytes \<Rightarrow> bytes) \<Rightarrow> (bytes list \<Rightarrow> nat \<Rightarrow> nat) \<Rightarrow> bytes option \<Rightarrow> fs_node \<Rightarrow> create_options \<Rightarrow> torrent_meta run" where
  "create_torrent sha1 rd basename root options =
     bind_run (create_torrent_raw sha1 rd basename root options) (\<lambda>info.
       Done \<lparr>tm_announce = [], tm_announce_list = [], tm_info = info, tm_comment = None, tm_created_by = None,
         tm_encoding = Some (ascii ''utf-8''), tm_publisher = None, tm_publisher_url = None,
         tm_creation_date = None, tm_info_hash = compute_info_hash sha1 info\<rparr>)"

section \<open>What is hashed\<close>

text \<open>The bytes read so far are the pieces hashed and the one being hashed.\<close>

definition hashed :: "(bytes \<Rightarrow> bytes) \<Rightarrow> u32 \<Rightarrow> bytes \<Rightarrow> creation \<Rightarrow> bool" where
  "hashed sha1 plen d c \<longleftrightarrow>
     (\<exists>bs. d = concat bs @ cr_checksum c \<and> (\<forall>b \<in> set bs. length b = unat plen) \<and>
       cr_hashes c = concat (map sha1 bs) \<and>
       unat (cr_remaining c) + length (cr_checksum c) = unat plen \<and> 0 < unat (cr_remaining c))"

lemma hashedI:
  "d = concat bs @ cr_checksum c \<Longrightarrow> (\<And>b. b \<in> set bs \<Longrightarrow> length b = unat plen) \<Longrightarrow>
   cr_hashes c = concat (map sha1 bs) \<Longrightarrow> unat (cr_remaining c) + length (cr_checksum c) = unat plen \<Longrightarrow>
   0 < unat (cr_remaining c) \<Longrightarrow> hashed sha1 plen d c"
  unfolding hashed_def by blast

lemma hash_input_ok:
  assumes "hashed sha1 plen d c" "0 < unat plen"
  shows "hashed sha1 plen (d @ data) (hash_input sha1 rd plen data c) \<and>
    cr_length (hash_input sha1 rd plen data c) = cr_length c + word_of_nat (length data)"
  using assms(1)
proof (induction data arbitrary: c d rule: length_induct)
  case (1 data)
  define n where "n = read_count rd data (unat (min (cr_remaining c) READ_SIZE))"
  from "1.prems" obtain bs where bs: "d = concat bs @ cr_checksum c" "\<And>b. b \<in> set bs \<Longrightarrow> length b = unat plen"
    "cr_hashes c = concat (map sha1 bs)" "unat (cr_remaining c) + length (cr_checksum c) = unat plen"
    "0 < unat (cr_remaining c)"
    unfolding hashed_def by blast
  have pos: "0 < unat (min (cr_remaining c) READ_SIZE)" "unat (min (cr_remaining c) READ_SIZE) \<le> unat (cr_remaining c)"
    using bs(5) by (auto simp: min_def READ_SIZE_def word_le_nat_alt)
  show ?case
  proof (cases "data = []")
    case True
    then show ?thesis using "1.prems" by (subst (1 2) hash_input.simps) (simp add: read_count_def)
  next
    case False
    then have n: "0 < n" "n \<le> length data" "n \<le> unat (cr_remaining c)"
      using read_count_bounds [of rd data "unat (min (cr_remaining c) READ_SIZE)"] pos unfolding n_def by linarith+
    have un: "unat (word_of_nat n :: u32) = n" using n(3) u32_bound [of "cr_remaining c"] by (simp add: unat_of_nat)
    then have rem: "unat (cr_remaining c - word_of_nat n) = unat (cr_remaining c) - n"
      using n(3) by (simp add: unat_sub word_le_nat_alt)
    define c1 where "c1 = c\<lparr>cr_length := cr_length c + word_of_nat n,
      cr_checksum := cr_checksum c @ take n data, cr_remaining := cr_remaining c - word_of_nat n\<rparr>"
    define c2 where "c2 = (if cr_remaining c1 = 0
      then c1\<lparr>cr_remaining := plen, cr_hashes := cr_hashes c1 @ sha1 (cr_checksum c1), cr_checksum := []\<rparr> else c1)"
    have step: "hash_input sha1 rd plen data c = hash_input sha1 rd plen (drop n data) c2"
      using n(1) unfolding n_def c1_def c2_def by (subst hash_input.simps) (simp add: Let_def)
    have lens: "cr_length c2 + word_of_nat (length (drop n data)) = cr_length c + word_of_nat (length data)"
      using n(2) by (simp add: c2_def c1_def of_nat_diff)
    have "hashed sha1 plen (d @ take n data) c2"
    proof (cases "n = unat (cr_remaining c)")
      case True
      then have "cr_remaining c1 = 0" using rem by (simp add: c1_def unat_eq_0)
      then have c2: "c2 = c1\<lparr>cr_remaining := plen, cr_hashes := cr_hashes c1 @ sha1 (cr_checksum c1), cr_checksum := []\<rparr>"
        by (simp add: c2_def)
      show ?thesis
        by (rule hashedI [of _ "bs @ [cr_checksum c @ take n data]"])
          (use bs n True assms(2) in \<open>auto simp: c2 c1_def\<close>)
    next
      case False
      then have "unat (cr_remaining c1) = unat (cr_remaining c) - n" "cr_remaining c1 \<noteq> 0"
        using rem n(3) by (auto simp: c1_def)
      then show ?thesis
        using bs n False by (intro hashedI [of _ bs]) (auto simp: c2_def c1_def)
    qed
    moreover have "length (drop n data) < length data" using n by simp
    ultimately show ?thesis using "1.IH" step lens by (metis append.assoc append_take_drop_id)
  qed
qed

lemma hash_files_ok:
  assumes "hash_files sha1 rd plen fs c out = Done (c', out')" "hashed sha1 plen d c" "0 < unat plen"
  shows "\<exists>contents. map snd fs = map Some contents \<and> hashed sha1 plen (d @ concat contents) c' \<and>
    map tf_length out' = map tf_length out @ map (word_of_nat \<circ> length) contents \<and>
    (contents = [] \<longrightarrow> cr_length c' = cr_length c) \<and>
    (contents \<noteq> [] \<longrightarrow> cr_length c' = word_of_nat (length (last contents)))"
  using assms
proof (induction sha1 rd plen fs c out arbitrary: d rule: hash_files.induct)
  case (1 sha1 rd plen c out)
  then show ?case by (intro exI [of _ "[]"]) simp
next
  case (3 sha1 rd plen path data fs c out)
  define c1 where "c1 = hash_input sha1 (rd path) plen data (c\<lparr>cr_length := 0\<rparr>)"
  have "hashed sha1 plen d (c\<lparr>cr_length := 0\<rparr>)" using "3.prems"(2) by (simp add: hashed_def)
  from hash_input_ok [OF this "3.prems"(3)]
  have c1: "hashed sha1 plen (d @ data) c1" "cr_length c1 = word_of_nat (length data)"
    by (simp_all add: c1_def)
  have utf: "list_all utf8_valid path"
    and rest: "hash_files sha1 rd plen fs c1 (out @ [\<lparr>tf_length = cr_length c1, tf_path = path\<rparr>]) = Done (c', out')"
    using "3.prems"(1) by (auto simp: c1_def Let_def split: if_splits)
  obtain contents where con: "map snd fs = map Some contents" "hashed sha1 plen ((d @ data) @ concat contents) c'"
    "map tf_length out' = map tf_length (out @ [\<lparr>tf_length = cr_length c1, tf_path = path\<rparr>]) @ map (word_of_nat \<circ> length) contents"
    "contents = [] \<longrightarrow> cr_length c' = cr_length c1"
    "contents \<noteq> [] \<longrightarrow> cr_length c' = word_of_nat (length (last contents))"
    using "3.IH" [OF c1_def _ rest c1(1) "3.prems"(3)] utf by blast
  then show ?case by (intro exI [of _ "data # contents"]) (auto simp: c1(2))
qed simp

text \<open>The blocks of some content: its full pieces and the rest.\<close>

definition in_blocks :: "nat \<Rightarrow> bytes \<Rightarrow> bytes list \<Rightarrow> bytes \<Rightarrow> bool" where
  "in_blocks n d bs tail \<longleftrightarrow> d = concat bs @ tail \<and> (\<forall>b \<in> set bs. length b = n) \<and> length tail < n"

lemma length_concat_const: "(\<forall>b \<in> set bs. length b = n) \<Longrightarrow> length (concat bs) = length bs * n"
  by (induction bs) auto




text \<open>What a created torrent holds.\<close>

lemma create_torrent_raw_pieces:
  assumes "create_torrent_raw sha1 rd basename root options = Done info" "input_files root = Some fs"
    and "0 < unat (options_piece_length options)"
  shows "\<exists>contents bs tail. map snd fs = map Some contents \<and>
    in_blocks (unat (options_piece_length options)) (concat contents) bs tail \<and>
    ti_piece_length info = options_piece_length options \<and>
    ti_pieces info = concat (map sha1 (bs @
      (if contents = [] \<or> (word_of_nat (length (last contents)) :: u64) = 0 then [] else [tail]))) \<and>
    (\<forall>ls. iter_file_lengths info = Inr ls \<longrightarrow> ls = map (word_of_nat \<circ> length) contents) \<and>
    pred_option (\<lambda>l. l \<in> word_of_nat ` length ` set contents) (ti_length info) \<and>
    pred_option (list_all (\<lambda>f. tf_length f \<in> word_of_nat ` length ` set contents)) (ti_files info)"
proof -
  let ?plen = "options_piece_length options"
  let ?c0 = "\<lparr>cr_length = 0, cr_remaining = ?plen, cr_checksum = [], cr_hashes = []\<rparr>"
  obtain name c out where run: "hash_files sha1 rd ?plen fs ?c0 [] = Done (c, out)"
    and info: "info = \<lparr>ti_name = Some name, ti_pieces = cr_hashes c @
        (if 0 < cr_remaining c \<and> 0 < cr_length c then sha1 (cr_checksum c) else []), ti_piece_length = ?plen,
      ti_length = (if \<not> is_dir root then Some (cr_length c) else None), ti_md5sum = None,
      ti_files = (if \<not> is_dir root then None else Some out)\<rparr>"
    using assms(1,2) by (auto simp: create_torrent_raw_def Let_def bind_run_Done split: option.splits if_splits)
  have "hashed sha1 ?plen [] ?c0" using assms(3) by (intro hashedI [of _ "[]"]) simp_all
  from hash_files_ok [OF run this assms(3)] obtain contents where con: "map snd fs = map Some contents"
    "hashed sha1 ?plen (concat contents) c" "map tf_length out = map (word_of_nat \<circ> length) contents"
    "contents = [] \<longrightarrow> cr_length c = 0"
    "contents \<noteq> [] \<longrightarrow> cr_length c = word_of_nat (length (last contents))" by auto
  from con(2) obtain bs where bs: "concat contents = concat bs @ cr_checksum c"
    "\<forall>b \<in> set bs. length b = unat ?plen" "cr_hashes c = concat (map sha1 bs)"
    "unat (cr_remaining c) + length (cr_checksum c) = unat ?plen" "0 < unat (cr_remaining c)"
    by (auto simp: hashed_def)
  have r: "0 < cr_remaining c" using bs(5) by (simp add: word_less_nat_alt)
  have l: "0 < cr_length c \<longleftrightarrow> \<not> (contents = [] \<or> (word_of_nat (length (last contents)) :: u64) = 0)"
    using con(4,5) by (cases "contents = []") (auto simp: word_neq_0_conv)
  have single: "contents \<noteq> [] \<and> map (word_of_nat \<circ> length) contents = [cr_length c]" if "\<not> is_dir root"
  proof -
    have "length contents = 1"
      using that assms(2) con(1) by (cases root) (auto simp: is_dir_def input_files_def dest: map_eq_imp_length_eq)
    then obtain d where "contents = [d]" by (cases contents) auto
    then show ?thesis using con(5) by simp
  qed
  have ls: "ls = map (word_of_nat \<circ> length) contents" if "iter_file_lengths info = Inr ls" for ls
    using that single con(3)
    by (auto simp: info iter_file_lengths_def iter_filenames_and_lengths_def comp_def split: if_splits)
  have lens: "tf_length f \<in> word_of_nat ` length ` set contents" if "f \<in> set out" for f
  proof -
    have "tf_length f \<in> set (map tf_length out)" using that by simp
    then show ?thesis unfolding con(3) by (simp add: image_image comp_def)
  qed
  have len: "cr_length c \<in> word_of_nat ` length ` set contents" if "\<not> is_dir root"
    using single [OF that] con(5) by auto
  have blocks: "in_blocks (unat ?plen) (concat contents) bs (cr_checksum c)"
    using bs by (simp add: in_blocks_def)
  have pieces: "ti_pieces info = concat (map sha1 (bs @
      (if contents = [] \<or> (word_of_nat (length (last contents)) :: u64) = 0 then [] else [cr_checksum c])))"
    using r l bs(3) by (simp add: info)
  have "pred_option (\<lambda>l. l \<in> word_of_nat ` length ` set contents) (ti_length info)"
    using len by (simp add: info)
  moreover have "pred_option (list_all (\<lambda>f. tf_length f \<in> word_of_nat ` length ` set contents)) (ti_files info)"
    using lens by (simp add: info list_all_iff)
  ultimately show ?thesis
    using con(1) blocks pieces ls by (intro exI [of _ contents] exI [of _ bs] exI [of _ "cr_checksum c"]) (simp add: info)
qed

lemma lengths_of_torrent:
  assumes "lengths_from_torrent info = Some L"
  obtains ls where "iter_file_lengths info = Inr ls" "total_length L = sum_list ls" "piece_length L = ti_piece_length info"
proof -
  obtain ls where ls: "iter_file_lengths info = Inr ls" "lengths_new (sum_list ls) (ti_piece_length info) None = Inr L"
    using assms by (auto simp: lengths_from_torrent_def split: sum.splits)
  then have "total_length L = sum_list ls" "piece_length L = ti_piece_length info"
    by (auto simp: lengths_new_def Let_def split: if_splits)
  then show thesis using ls(1) by (intro that)
qed

lemma create_torrent_raw_piece_length:
  "create_torrent_raw sha1 rd basename root options = Done info \<Longrightarrow> ti_piece_length info = options_piece_length options"
  by (auto simp: create_torrent_raw_def Let_def split: option.splits if_splits prod.splits)



lemma number_of_blocks:
  assumes "in_blocks (unat (piece_length L)) d bs tail" "lengths_ok L" "length d = unat (total_length L)"
  shows "Suc (length bs) = n_pieces L + (if unat (piece_length L) dvd length d then 1 else 0)"
proof -
  let ?n = "unat (piece_length L)"
  note ok = lengths_okD [OF assms(2)]
  have d: "length d = length bs * ?n + length tail" "length tail < ?n"
    using assms(1) length_concat_const by (auto simp: in_blocks_def)
  then have div: "length d div ?n = length bs" "length d mod ?n = length tail" by simp_all
  have eq: "length d = unat (last_piece_id L) * ?n + unat (last_piece_length L)" using assms(3) ok(10) by simp
  show ?thesis
  proof (cases "unat (last_piece_length L) = ?n")
    case True
    then have e: "length d = Suc (unat (last_piece_id L)) * ?n" using eq by simp
    then have "length bs = n_pieces L" using div(1) d(2) by (simp only: nonzero_mult_div_cancel_right)
    moreover have "?n dvd length d" unfolding e by (rule dvd_triv_right)
    ultimately show ?thesis by simp
  next
    case False
    then have lt: "unat (last_piece_length L) < ?n" using ok(6) by simp
    then have "length bs = unat (last_piece_id L)" "length tail = unat (last_piece_length L)" using div unfolding eq by simp_all
    then show ?thesis using div(2) ok(5) by (simp add: dvd_eq_mod_eq_0)
  qed
qed

text \<open>A torrent made from files: their lengths and the hashes of their blocks.\<close>

lemma create_torrent_over_files:
  assumes "create_torrent sha1 rd basename root options = Done t" "input_files root = Some fs"
    and "map snd fs = map (Some \<circ> f_data) files" "length (disk files) < 2 ^ 63"
    and "lengths_from_torrent (tm_info t) = Some L" "lengths_ok L"
  obtains ls bs tail where "iter_file_lengths (tm_info t) = Inr ls" "sized ls files" "total ls = unat (total_length L)"
    "length (disk files) = unat (total_length L)" "in_blocks (unat (piece_length L)) (disk files) bs tail"
    "ti_pieces (tm_info t) = concat (map sha1 (bs @ (if f_data (last files) = [] then [] else [tail])))"
    "wf_torrent t" "tm_info_hash t = sha1 (serialize_torrent_info (tm_info t))"
proof -
  define info where "info = tm_info t"
  have raw: "create_torrent_raw sha1 rd basename root options = Done info"
    and t: "tm_info_hash t = sha1 (serialize_torrent_info info)" "tm_creation_date t = None"
    using assms(1) by (auto simp: create_torrent_def info_def compute_info_hash_def)
  obtain ls where ls: "iter_file_lengths info = Inr ls" "total_length L = sum_list ls" "piece_length L = ti_piece_length info"
    using lengths_of_torrent assms(5) unfolding info_def by blast
  then have pl: "piece_length L = options_piece_length options" using create_torrent_raw_piece_length [OF raw] by simp
  then have "0 < unat (options_piece_length options)" using lengths_okD(1,3) [OF assms(6)] by simp
  from create_torrent_raw_pieces [OF raw assms(2) this] obtain contents bs tail where
    c: "map snd fs = map Some contents" "in_blocks (unat (piece_length L)) (concat contents) bs tail"
      "ti_pieces info = concat (map sha1 (bs @
        (if contents = [] \<or> (word_of_nat (length (last contents)) :: u64) = 0 then [] else [tail])))"
      "ls = map (word_of_nat \<circ> length) contents"
      "pred_option (\<lambda>l. l \<in> word_of_nat ` length ` set contents) (ti_length info)"
      "pred_option (list_all (\<lambda>f. tf_length f \<in> word_of_nat ` length ` set contents)) (ti_files info)"
    using ls(1) unfolding pl by blast
  have "map Some contents = map Some (map f_data files)" using c(1) assms(3) by (simp add: comp_def)
  then have con: "contents = map f_data files" by (rule map_injective [OF _ inj_Some])
  then have disk: "disk files = concat contents" by (simp add: disk_def)
  have small: "length x < 2 ^ 63" if "x \<in> set contents" for x
    using that assms(4) member_le_sum_list [of "length x" "map length contents"] unfolding disk by (simp add: length_concat)
  then have unat: "unat (word_of_nat (length x) :: u64) = length x" if "x \<in> set contents" for x
    using that by (force simp: unat_of_nat)
  have lens: "map unat ls = map length contents" using unat by (simp add: c(4))
  have sized: "sized ls files" unfolding sized_def lens by (simp add: con)
  have tot: "total ls = unat (total_length L)"
    unfolding ls(2) using length_disk [OF sized] assms(4) by (simp add: unat_sum_list_u64)
  then have len: "length (disk files) = unat (total_length L)" using length_disk [OF sized] by simp
  then have "contents \<noteq> []" using lengths_okD(5,10) [OF assms(6)] disk by auto
  then have "last contents = f_data (last files)" by (simp add: con last_map)
  moreover have "(word_of_nat (length (last contents)) :: u64) = 0 \<longleftrightarrow> last contents = []"
    using unat [of "last contents"] \<open>contents \<noteq> []\<close> by (metis last_in_set length_0_conv unat_0 word_unat_eq_iff)
  ultimately have hashes: "ti_pieces info = concat (map sha1 (bs @ (if f_data (last files) = [] then [] else [tail])))"
    using c(3) \<open>contents \<noteq> []\<close> by simp
  have "small_u64 l" if l: "l \<in> word_of_nat ` length ` set contents" for l
  proof -
    obtain x where "x \<in> set contents" "l = word_of_nat (length x)" using l by auto
    then show ?thesis using small unat by (simp add: small_u64_def uint_nat)
  qed
  then have "wf_torrent t"
    using c(5,6) t(2) by (auto simp: wf_torrent_def wf_info_def info_def [symmetric] option.pred_set list_all_iff)
  then show thesis using that [OF ls(1) [unfolded info_def] sized tot len _ _ _ t(1) [unfolded info_def]] c(2) hashes
    unfolding disk info_def by blast
qed

text \<open>
  A torrent made from files that end with an empty one may lack its last hash. When the last file is
  empty and the content does not fill its last piece, the created torrent has no hash for that piece.
\<close>

theorem last_hash_lost:
  assumes "create_torrent sha1 rd basename root options = Done t" "input_files root = Some fs"
    and "map snd fs = map (Some \<circ> f_data) files" "length (disk files) < 2 ^ 63" "f_data (last files) = []"
    and "\<And>x. length (sha1 x) = 20" "lengths_from_torrent (tm_info t) = Some L" "lengths_ok L"
    and "\<not> unat (piece_length L) dvd unat (total_length L)"
  shows "get_hash (tm_info t) (last_piece_id L) = None"
proof -
  obtain ls bs tail where len: "length (disk files) = unat (total_length L)"
    and bl: "in_blocks (unat (piece_length L)) (disk files) bs tail"
      "ti_pieces (tm_info t) = concat (map sha1 (bs @ (if f_data (last files) = [] then [] else [tail])))"
    using create_torrent_over_files [OF assms(1-4,7,8)] by blast
  then have bl: "in_blocks (unat (piece_length L)) (disk files) bs tail" "ti_pieces (tm_info t) = concat (map sha1 bs)"
    using assms(5) by simp_all
  have "length bs = unat (last_piece_id L)"
    using number_of_blocks [OF bl(1) assms(8) len] assms(9) len by simp
  moreover have "length (ti_pieces (tm_info t)) = length bs * 20"
    unfolding bl(2) using assms(6) length_concat_const [of "map sha1 bs" 20] by simp
  ultimately show ?thesis by (simp add: get_hash_def get_range_def Let_def)
qed


definition example_sha1 :: "bytes \<Rightarrow> bytes" where
  "example_sha1 x = take 20 (x @ replicate 20 0)"

definition example_dir :: "(bytes \<times> fs_node) list" where
  "example_dir = [(ascii ''d'', FsDir [(ascii ''b'', FsFile [4, 5])]), (ascii ''a'', FsFile [1, 2, 3])]"

definition example_options :: create_options where
  "example_options = \<lparr>co_name = None, co_piece_length = Some 16384\<rparr>"

definition example_files :: "bytes list \<Rightarrow> disk_file list" where
  "example_files = map (\<lambda>d. \<lparr>f_data = d, f_writable = True\<rparr>)"

definition example_lengths :: lengths where
  "example_lengths = \<lparr>chunk_length = 16384, total_length = 5, piece_length = 16384, last_piece_id = 0,
     last_piece_length = 5, max_chunks_per_piece = 1\<rparr>"

definition created :: "fs_node \<Rightarrow> torrent_meta" where
  "created root = (case create_torrent example_sha1 (\<lambda>_ _. 2) (Some (ascii ''t'')) root example_options of
     Done t \<Rightarrow> t | _ \<Rightarrow> sample_torrent)"

lemma example_geometry: "geometry_ok example_lengths" "lengths_ok example_lengths"
  by (simp_all add: geometry_ok_def lengths_ok_def example_lengths_def ceil_div_def)


definition example_dir_empty_last :: "(bytes \<times> fs_node) list" where
  "example_dir_empty_last = (ascii ''z'', FsDir [(ascii ''e'', FsFile [])]) # example_dir"

theorem last_hash_lost_witness:
  "get_hash (tm_info (created (FsDir example_dir_empty_last))) 0 = None \<and>
   initial_check example_sha1 (tm_info (created (FsDir example_dir_empty_last)))
     (example_files [[1, 2, 3], [4, 5], []]) example_lengths None = Fails"
proof -
  let ?root = "FsDir example_dir_empty_last"
  have c: "create_torrent example_sha1 (\<lambda>_ _. 2) (Some (ascii ''t'')) ?root example_options = Done (created ?root)"
    by code_simp
  have i: "input_files ?root = Some [([ascii ''a''], Some [1, 2, 3]), ([ascii ''d'', ascii ''b''], Some [4, 5]),
      ([ascii ''z'', ascii ''e''], Some [])]" by code_simp
  have l: "lengths_from_torrent (tm_info (created ?root)) = Some example_lengths" by code_simp
  have h: "length (example_sha1 x) = 20" for x by (simp add: example_sha1_def)
  have "get_hash (tm_info (created ?root)) (last_piece_id example_lengths) = None"
    by (rule last_hash_lost [OF c i _ _ _ h l example_geometry(2), of "example_files [[1, 2, 3], [4, 5], []]"])
      (simp_all add: example_files_def disk_def example_lengths_def comp_def)
  moreover have "initial_check example_sha1 (tm_info (created ?root)) (example_files [[1, 2, 3], [4, 5], []])
      example_lengths None = Fails" by code_simp
  ultimately show ?thesis by (simp add: example_lengths_def)
qed

end
