(* ===== verification/MetadataReader.thy ===== *)
theory MetadataReader
  imports PeerConnection TorrentFile FileOps
begin

text \<open>
  Model of \<open>crates/librqbit/src/peer_info_reader/mod.rs\<close>: how a magnet link gets its info dictionary. The
  handler of a connection asks a peer for the pieces of the metadata, puts them together, compares the
  hash and sends the parsed dictionary to the caller. It is an instance of the handlers of
  \<open>PeerConnection\<close>, so what it does is stated over the runs of a connection.
\<close>

section \<open>Handlers keep their invariants\<close>

text \<open>
  What a handler must keep in its two state changing calls holds in all runs of its connection.
\<close>

locale handler_keeps =
  fixes hn :: "'s peer_handler" and good :: "'s \<Rightarrow> bool"
  assumes deliver_keeps: "good s \<Longrightarrow> deliver hn m ext s = Inr (ext', s') \<Longrightarrow> good s'"
    and uploaded_keeps: "good s \<Longrightarrow> good (on_uploaded_bytes hn n s)"
begin

lemma step_keeps: "conn_step grow enc dec sha1 hn c l c' \<Longrightarrow> good (cn_handler c) \<Longrightarrow> good (cn_handler c')"
proof (induction rule: conn_step.induct)
  case (reading c msg c')
  then show ?case
    using deliver_keeps by (auto simp: reader_step_def bind_result_Inr_iff split: prod.splits sum.splits)
next
  case (writing ev c bs c')
  then show ?case
    using uploaded_keeps
    by (auto simp: writer_step_def bind_result_Inr_iff split: option.splits recv_event.splits if_splits)
qed

lemma run_keeps: "conn_run grow enc dec sha1 hn c ls c' \<Longrightarrow> good (cn_handler c) \<Longrightarrow> good (cn_handler c')"
  by (induction rule: conn_run.induct) (auto dest: step_keeps)

end

section \<open>Putting the pieces together\<close>

record handler_locked =
  hl_metadata_size :: u32
  hl_total_pieces :: nat
  hl_buffer :: bytes
  hl_received_pieces :: "bool list"

definition handler_locked_new :: "u32 \<Rightarrow> handler_locked option" where
  "handler_locked_new metadata_size =
     (if metadata_size > 1024 * 1024 then None
      else
        let total_pieces = ceil_div_u64 (ucast metadata_size) (ucast CHUNK_SIZE) in
        Some \<lparr>hl_metadata_size = metadata_size, hl_total_pieces = unat total_pieces,
              hl_buffer = replicate (unat metadata_size) 0,
              hl_received_pieces = replicate (unat total_pieces) False\<rparr>)"

text \<open>Only called with an index below the number of pieces, which therefore is not zero.\<close>

definition hl_piece_size :: "handler_locked \<Rightarrow> u32 \<Rightarrow> nat" where
  "hl_piece_size hl index =
     (if unat index = hl_total_pieces hl - 1
      then unat (last_element_size_u64 (ucast (hl_metadata_size hl)) (ucast CHUNK_SIZE))
      else unat CHUNK_SIZE)"

text \<open>\<open>Panics\<close> are the places where an index or a slice would be out of bounds.\<close>

definition record_piece ::
  "(bytes \<Rightarrow> bytes) \<Rightarrow> u32 \<Rightarrow> bytes \<Rightarrow> bytes \<Rightarrow> handler_locked \<Rightarrow> (bool \<times> handler_locked) run" where
  "record_piece sha1 index data info_hash hl =
     (if unat index \<ge> hl_total_pieces hl then Fails
      else
        let offset = unat (index * CHUNK_SIZE); n = hl_piece_size hl index in
        if length data \<noteq> n then Fails
        else if unat index \<ge> length (hl_received_pieces hl) then Panics
        else if hl_received_pieces hl ! unat index then Fails
        else if offset + n > length (hl_buffer hl) then Panics
        else
          let hl = hl\<lparr>hl_buffer := splice (hl_buffer hl) offset data,
                      hl_received_pieces := (hl_received_pieces hl)[unat index := True]\<rparr> in
          if list_all id (hl_received_pieces hl) then
            (if sha1 (hl_buffer hl) \<noteq> info_hash then Fails else Done (True, hl))
          else Done (False, hl))"

section \<open>The handler\<close>

text \<open>
  \<open>mr_result\<close> is what was sent to the caller; the one-shot sender is there as long as nothing was. The
  caller waits for it as long as the handler lives. \<open>mr_requests\<close> is what the writer was asked to send.
\<close>

record metadata_reader =
  mr_info_hash :: bytes
  mr_locked :: "handler_locked option"
  mr_result :: "(de_fail + torrent_info) option"
  mr_requests :: "message list"

definition metadata_reader_new :: "bytes \<Rightarrow> metadata_reader" where
  "metadata_reader_new info_hash =
     \<lparr>mr_info_hash = info_hash, mr_locked = None, mr_result = None, mr_requests = []\<rparr>"

definition metadata_on_handshake :: "handshake \<Rightarrow> metadata_reader \<Rightarrow> metadata_reader run" where
  "metadata_on_handshake h st = (if \<not> supports_extended h then Fails else Done st)"

definition metadata_on_received_message ::
  "(bytes \<Rightarrow> bytes) \<Rightarrow> message \<Rightarrow> metadata_reader \<Rightarrow> metadata_reader run" where
  "metadata_on_received_message sha1 msg st =
     (case msg of
        Extended (ExtUtMetadata (UtData piece total_size data)) \<Rightarrow>
          (case mr_locked st of
             None \<Rightarrow> Panics
           | Some hl \<Rightarrow>
               bind_run (record_piece sha1 piece data (mr_info_hash st) hl) (\<lambda>(piece_ready, hl).
                 if piece_ready then
                   let info = from_bytes (deserialize_torrent_info sha1) (hl_buffer hl);
                       st = st\<lparr>mr_locked := None\<rparr> in
                   if mr_result st \<noteq> None then Fails else Done (st\<lparr>mr_result := Some info\<rparr>)
                 else Done (st\<lparr>mr_locked := Some hl\<rparr>)))
      | _ \<Rightarrow> Done st)"

definition metadata_on_extended_handshake ::
  "ext_handshake \<Rightarrow> metadata_reader \<Rightarrow> metadata_reader run" where
  "metadata_on_extended_handshake h st =
     (case hs_metadata_size h of
        None \<Rightarrow> Fails
      | Some metadata_size \<Rightarrow>
          if get_msgid h (ascii ''ut_metadata'') = None then Fails
          else
            let st = st\<lparr>mr_requests := mr_requests st @ [Unchoke, Interested]\<rparr> in
            (case handler_locked_new metadata_size of
               None \<Rightarrow> Fails
             | Some inner \<Rightarrow>
                 Done (st\<lparr>mr_locked := Some inner,
                          mr_requests := mr_requests st @
                            map (\<lambda>i. Extended (ExtUtMetadata (UtRequest (word_of_nat i)))) [0..<hl_total_pieces inner]\<rparr>)))"

text \<open>An error ends the connection, and so does a panic, which takes the task down.\<close>

fun run_result :: "'a run \<Rightarrow> 'a option" where
  "run_result (Done x) = Some x"
| "run_result _ = None"

definition metadata_handler :: "(bytes \<Rightarrow> bytes) \<Rightarrow> metadata_reader peer_handler" where
  "metadata_handler sha1 =
     \<lparr>get_have_bytes = (\<lambda>_. 0), serialize_bitfield_message_to_buf = (\<lambda>_. Some ([], 0)),
      on_handshake = (\<lambda>h st. run_result (metadata_on_handshake h st)),
      on_extended_handshake = (\<lambda>h st. run_result (metadata_on_extended_handshake h st)),
      on_received_message = (\<lambda>m st. run_result (metadata_on_received_message sha1 m st)),
      on_uploaded_bytes = (\<lambda>_ st. st), read_chunk = (\<lambda>_ _. None)\<rparr>"

section \<open>The state is well formed\<close>

definition hl_ok :: "handler_locked \<Rightarrow> bool" where
  "hl_ok hl \<longleftrightarrow> unat (hl_metadata_size hl) \<le> 1024 * 1024 \<and>
     hl_total_pieces hl = ceil_div (unat (hl_metadata_size hl)) 16384 \<and>
     length (hl_buffer hl) = unat (hl_metadata_size hl) \<and> length (hl_received_pieces hl) = hl_total_pieces hl"

lemma run_result_Some [simp]: "run_result r = Some x \<longleftrightarrow> r = Done x"
  by (cases r) auto

lemma chunk_size_values [simp]: "unat CHUNK_SIZE = 16384" "unat (ucast CHUNK_SIZE :: u64) = 16384" "(ucast CHUNK_SIZE :: u64) \<noteq> 0"
  by (simp_all add: CHUNK_SIZE_def)

lemma new_ok: "handler_locked_new n = Some hl \<Longrightarrow>
    hl_ok hl \<and> hl_metadata_size hl = n \<and> hl_buffer hl = replicate (unat n) 0 \<and>
    hl_received_pieces hl = replicate (ceil_div (unat n) 16384) False"
proof -
  assume new: "handler_locked_new n = Some hl"
  then have n: "unat n \<le> 1024 * 1024" by (auto simp: handler_locked_new_def word_le_nat_alt not_less split: if_splits)
  have "unat (ucast n :: u64) = unat n" by (simp add: unat_ucast_u32)
  then have "unat (ceil_div_u64 (ucast n) (ucast CHUNK_SIZE)) = ceil_div (unat n) 16384"
    using n by (subst unat_ceil_div_u64) simp_all
  then show ?thesis using new n by (auto simp: handler_locked_new_def hl_ok_def Let_def split: if_splits)
qed

lemma piece_bounds:
  assumes "hl_ok hl" "unat index < hl_total_pieces hl"
  shows "unat (index * CHUNK_SIZE) = unat index * 16384"
    "hl_piece_size hl index = min 16384 (unat (hl_metadata_size hl) - unat index * 16384)"
    "unat index * 16384 + hl_piece_size hl index \<le> length (hl_buffer hl)" "0 < hl_piece_size hl index"
proof -
  define m where "m = unat (hl_metadata_size hl)"
  have m: "m \<le> 1024 * 1024" "hl_total_pieces hl = ceil_div m 16384" "length (hl_buffer hl) = m"
    using assms(1) by (simp_all add: hl_ok_def m_def)
  have lt: "unat index * 16384 < m" using assms(2) m(2) less_ceil_div_iff [of 16384 "unat index" m] by simp
  then show off: "unat (index * CHUNK_SIZE) = unat index * 16384"
    using m(1) by (subst unat_mult_fits) simp_all
  have cast: "unat (ucast (hl_metadata_size hl) :: u64) = m" by (simp add: m_def unat_ucast_u32)
  have rem: "(ceil_div m 16384 - 1) * 16384 + (if m mod 16384 = 0 then 16384 else m mod 16384) = m"
    using lt by (intro ceil_div_rem) simp_all
  show sz: "hl_piece_size hl index = min 16384 (unat (hl_metadata_size hl) - unat index * 16384)"
  proof (cases "unat index = hl_total_pieces hl - 1")
    case True
    then have "m - unat index * 16384 = (if m mod 16384 = 0 then 16384 else m mod 16384)"
      using rem m(2) by simp
    then show ?thesis
      using True mod_less_divisor [of 16384 m]
      by (simp add: hl_piece_size_def unat_last_element_size cast m_def [symmetric] min_def)
  next
    case False
    then have "Suc (unat index) < ceil_div m 16384" using assms(2) m(2) by simp
    then have "Suc (unat index) * 16384 < m" using less_ceil_div_iff [of 16384 "Suc (unat index)" m] by simp
    then show ?thesis using False by (simp add: hl_piece_size_def m_def)
  qed
  show "unat index * 16384 + hl_piece_size hl index \<le> length (hl_buffer hl)" "0 < hl_piece_size hl index"
    using lt m(3) unfolding sz by (simp_all add: m_def)
qed

text \<open>No index and no slice is ever out of bounds.\<close>

lemma record_piece_cases:
  assumes "hl_ok hl"
  shows "record_piece sha1 index data info_hash hl \<noteq> Panics"
    "record_piece sha1 index data info_hash hl = Done (ready, hl') \<Longrightarrow>
      hl_ok hl' \<and> hl' = hl\<lparr>hl_buffer := splice (hl_buffer hl) (unat index * 16384) data,
        hl_received_pieces := (hl_received_pieces hl)[unat index := True]\<rparr> \<and>
      (ready \<longrightarrow> sha1 (hl_buffer hl') = info_hash)"
proof -
  note b = piece_bounds [OF assms, of index]
  show "record_piece sha1 index data info_hash hl \<noteq> Panics"
    using assms b by (auto simp: record_piece_def Let_def hl_ok_def not_le)
  assume d: "record_piece sha1 index data info_hash hl = Done (ready, hl')"
  then have idx: "unat index < hl_total_pieces hl" "length data = hl_piece_size hl index"
    by (auto simp: record_piece_def Let_def not_le split: if_splits)
  then have "length (splice (hl_buffer hl) (unat index * 16384) data) = length (hl_buffer hl)"
    using b(3) by (simp add: length_splice)
  then show "hl_ok hl' \<and> hl' = hl\<lparr>hl_buffer := splice (hl_buffer hl) (unat index * 16384) data,
        hl_received_pieces := (hl_received_pieces hl)[unat index := True]\<rparr> \<and>
      (ready \<longrightarrow> sha1 (hl_buffer hl') = info_hash)"
    using d b(1) [OF idx(1)] assms by (auto simp: record_piece_def Let_def hl_ok_def split: if_splits)
qed

lemma bind_run_Panics: "bind_run r f = Panics \<longleftrightarrow> r = Panics \<or> (\<exists>x. r = Done x \<and> f x = Panics)"
  by (cases r) simp_all

definition metadata_ok :: "(bytes \<Rightarrow> bytes) \<Rightarrow> bytes \<Rightarrow> metadata_reader \<Rightarrow> bool" where
  "metadata_ok sha1 info_hash st \<longleftrightarrow> mr_info_hash st = info_hash \<and> pred_option hl_ok (mr_locked st) \<and>
     pred_option (\<lambda>r. \<exists>buf. length buf \<le> 1024 * 1024 \<and> sha1 buf = info_hash \<and>
       r = from_bytes (deserialize_torrent_info sha1) buf) (mr_result st)"

lemma message_keeps:
  assumes "metadata_ok sha1 info_hash st" "metadata_on_received_message sha1 msg st = Done st'"
  shows "metadata_ok sha1 info_hash st'"
proof (cases "\<exists>piece tot data. msg = Extended (ExtUtMetadata (UtData piece tot data))")
  case True
  then obtain piece tot data where msg: "msg = Extended (ExtUtMetadata (UtData piece tot data))" by blast
  with assms(2) obtain hl ready hl' where hl: "mr_locked st = Some hl"
    and rec: "record_piece sha1 piece data (mr_info_hash st) hl = Done (ready, hl')"
    and st': "st' = (if ready then st\<lparr>mr_locked := None, mr_result := Some (from_bytes (deserialize_torrent_info sha1) (hl_buffer hl'))\<rparr>
      else st\<lparr>mr_locked := Some hl'\<rparr>)"
    by (auto simp: metadata_on_received_message_def Let_def split: option.splits if_splits)
  have "hl_ok hl" using assms(1) hl by (simp add: metadata_ok_def)
  from record_piece_cases(2) [OF this rec] have hl': "hl_ok hl'" "ready \<longrightarrow> sha1 (hl_buffer hl') = mr_info_hash st"
    by blast+
  then have "length (hl_buffer hl') \<le> 1024 * 1024" by (simp add: hl_ok_def)
  then show ?thesis using assms(1) st' hl' by (cases ready) (auto simp: metadata_ok_def)
next
  case False
  then have "st' = st"
    using assms(2) by (auto simp: metadata_on_received_message_def split: message.splits ext_message.splits ut_metadata.splits)
  then show ?thesis using assms(1) by simp
qed

lemma extended_handshake_keeps:
  assumes "metadata_ok sha1 info_hash st" "metadata_on_extended_handshake h st = Done st'"
  shows "metadata_ok sha1 info_hash st'"
  using assms new_ok
  by (fastforce simp: metadata_on_extended_handshake_def metadata_ok_def Let_def split: option.splits if_splits)

interpretation metadata: handler_keeps "metadata_handler sha1" "metadata_ok sha1 info_hash" for sha1 info_hash
proof
  fix s m ext ext' s'
  assume "metadata_ok sha1 info_hash s" "deliver (metadata_handler sha1) m ext s = Inr (ext', s')"
  then show "metadata_ok sha1 info_hash s'"
    by (auto simp: deliver_def metadata_handler_def split: message.splits ext_message.splits option.splits
        intro: message_keeps extended_handshake_keeps)
qed (simp add: metadata_handler_def)

text \<open>
  C9: Metadata is only accepted when it has the hash that was asked for. Whatever a peer sends, in whatever
  arrivals, and however the two loops of the connection interleave: when the handler has sent a result to
  its caller, the result is the parse of some bytes whose SHA-1 is the info hash, at most a mebibyte of
  them; and at any moment the next piece of metadata, if the handler expects any, is stored or refused
  without an index or a slice out of bounds.
\<close>

theorem only_hashed_metadata:
  assumes "conn_run grow enc dec sha1 (metadata_handler sha1) c ls c'" "cn_handler c = metadata_reader_new info_hash"
  shows "(\<forall>r. mr_result (cn_handler c') = Some r \<longrightarrow>
      (\<exists>buf. length buf \<le> 1024 * 1024 \<and> sha1 buf = info_hash \<and> r = from_bytes (deserialize_torrent_info sha1) buf)) \<and>
    (mr_locked (cn_handler c') \<noteq> None \<longrightarrow> metadata_on_received_message sha1 m (cn_handler c') \<noteq> Panics)"
proof -
  have ok: "metadata_ok sha1 info_hash (cn_handler c')"
    by (rule metadata.run_keeps [OF assms(1)]) (simp add: assms(2) metadata_reader_new_def metadata_ok_def)
  have "metadata_on_received_message sha1 m (cn_handler c') \<noteq> Panics" if "mr_locked (cn_handler c') = Some hl" for hl
    using that ok record_piece_cases(1) [of hl]
    by (auto simp: metadata_on_received_message_def metadata_ok_def Let_def bind_run_Panics
        split: message.splits ext_message.splits ut_metadata.splits if_splits)
  then show ?thesis using ok by (auto simp: metadata_ok_def)
qed

section \<open>The metadata comes together\<close>

text \<open>A peer's answers: the blocks of the metadata.\<close>

definition metadata_block :: "bytes \<Rightarrow> nat \<Rightarrow> bytes" where
  "metadata_block md k = take 16384 (drop (k * 16384) md)"

definition block_message :: "u32 \<Rightarrow> bytes \<Rightarrow> nat \<Rightarrow> message" where
  "block_message total_size md k = Extended (ExtUtMetadata (UtData (word_of_nat k) total_size (metadata_block md k)))"

fun deliver_all :: "'s peer_handler \<Rightarrow> message list \<Rightarrow> ext_handshake option \<Rightarrow> 's \<Rightarrow>
    conn_error + (ext_handshake option \<times> 's)" where
  "deliver_all hn [] ext s = Inr (ext, s)"
| "deliver_all hn (m # ms) ext s = bind_result (deliver hn m ext s) (\<lambda>(ext, s). deliver_all hn ms ext s)"

text \<open>The blocks of \<open>S\<close> are there and marked, and no others are marked.\<close>

definition holds :: "bytes \<Rightarrow> nat set \<Rightarrow> handler_locked \<Rightarrow> bool" where
  "holds md S hl \<longleftrightarrow> hl_ok hl \<and> unat (hl_metadata_size hl) = length md \<and>
     hl_received_pieces hl = map (\<lambda>k. k \<in> S) [0..<hl_total_pieces hl] \<and>
     (\<forall>j < length md. j div 16384 \<in> S \<longrightarrow> hl_buffer hl ! j = md ! j)"

lemma splice_nth:
  assumes "off + length bs \<le> length d" "j < length d"
  shows "splice d off bs ! j = (if off \<le> j \<and> j < off + length bs then bs ! (j - off) else d ! j)"
  using assms by (auto simp: splice_def nth_append min_def)

abbreviation stored :: "bytes \<Rightarrow> nat \<Rightarrow> handler_locked \<Rightarrow> handler_locked" where
  "stored md k hl \<equiv> hl\<lparr>hl_buffer := splice (hl_buffer hl) (k * 16384) (metadata_block md k),
     hl_received_pieces := (hl_received_pieces hl)[k := True]\<rparr>"

lemma holds_pieces: "holds md S hl \<Longrightarrow> hl_total_pieces hl = ceil_div (length md) 16384 \<and> length md \<le> 1024 * 1024"
  by (simp add: holds_def hl_ok_def)

lemma block_size:
  assumes "holds md S hl" "k < hl_total_pieces hl"
  shows "unat (word_of_nat k :: u32) = k" "length (metadata_block md k) = hl_piece_size hl (word_of_nat k)"
    "k * 16384 + length (metadata_block md k) \<le> length (hl_buffer hl)"
proof -
  have "k * 16384 < length md" using assms holds_pieces [OF assms(1)] less_ceil_div_iff [of 16384 k "length md"] by simp
  then have "k < 2 ^ 32" using holds_pieces [OF assms(1)] by simp
  then show k: "unat (word_of_nat k :: u32) = k" by (simp add: unat_of_nat)
  note b = piece_bounds [of hl "word_of_nat k", unfolded k]
  show "length (metadata_block md k) = hl_piece_size hl (word_of_nat k)"
    using assms b(2) by (simp add: holds_def metadata_block_def min.commute)
  then show "k * 16384 + length (metadata_block md k) \<le> length (hl_buffer hl)"
    using assms b(3) by (simp add: holds_def)
qed

lemma stored_holds:
  assumes "holds md S hl" "k < hl_total_pieces hl"
  shows "holds md (insert k S) (stored md k hl)"
proof -
  note b = block_size [OF assms]
  have ok: "hl_ok hl" "unat (hl_metadata_size hl) = length md"
    "hl_received_pieces hl = map (\<lambda>k. k \<in> S) [0..<hl_total_pieces hl]"
    "\<And>j. j < length md \<Longrightarrow> j div 16384 \<in> S \<Longrightarrow> hl_buffer hl ! j = md ! j"
    using assms(1) by (auto simp: holds_def)
  have len: "length (hl_buffer hl) = length md" using ok by (simp add: hl_ok_def)
  have "splice (hl_buffer hl) (k * 16384) (metadata_block md k) ! j = md ! j"
    if j: "j < length md" "j div 16384 \<in> insert k S" for j
  proof (cases "j div 16384 = k")
    case True
    then have "k * 16384 \<le> j" "j < k * 16384 + 16384" by linarith+
    moreover from this have "j < k * 16384 + length (metadata_block md k)"
      using j(1) by (simp add: metadata_block_def min_def)
    moreover from calculation have "metadata_block md k ! (j - k * 16384) = md ! j"
      using j(1) by (simp add: metadata_block_def)
    ultimately show ?thesis using j(1) b(3) len by (simp add: splice_nth)
  next
    case False
    then have "j < k * 16384 \<or> k * 16384 + 16384 \<le> j" by linarith
    then have "\<not> (k * 16384 \<le> j \<and> j < k * 16384 + length (metadata_block md k))"
      by (auto simp: metadata_block_def)
    then show ?thesis using False j b(3) len ok(4) by (auto simp: splice_nth)
  qed
  moreover have "(map (\<lambda>k. k \<in> S) [0..<hl_total_pieces hl])[k := True] = map (\<lambda>i. i \<in> insert k S) [0..<hl_total_pieces hl]"
    by (rule nth_equalityI) (use assms(2) in \<open>auto simp: nth_list_update\<close>)
  moreover have "length (splice (hl_buffer hl) (k * 16384) (metadata_block md k)) = length md"
    using b(3) len by (simp add: length_splice)
  ultimately show ?thesis using ok by (simp add: holds_def hl_ok_def)
qed

lemma holds_all: "holds md {0..<hl_total_pieces hl} hl \<Longrightarrow> hl_buffer hl = md"
proof -
  assume h: "holds md {0..<hl_total_pieces hl} hl"
  have "j div 16384 < ceil_div (length md) 16384" if "j < length md" for j
    using that less_ceil_div_iff [of 16384 "j div 16384" "length md"] div_times_less_eq_dividend [of j 16384] by linarith
  then show ?thesis using h by (intro nth_equalityI) (auto simp: holds_def hl_ok_def)
qed

lemma record_block:
  assumes "holds md S hl" "k < hl_total_pieces hl" "k \<notin> S" "S \<subseteq> {0..<hl_total_pieces hl}"
  shows "record_piece sha1 (word_of_nat k) (metadata_block md k) (sha1 md) hl =
    Done (insert k S = {0..<hl_total_pieces hl}, stored md k hl)"
proof -
  note b = block_size [OF assms(1,2)]
  have off: "unat ((word_of_nat k :: u32) * CHUNK_SIZE) = k * 16384"
    using piece_bounds(1) [of hl "word_of_nat k"] assms(1,2) b(1) by (simp add: holds_def)
  have rec: "hl_received_pieces hl = map (\<lambda>k. k \<in> S) [0..<hl_total_pieces hl]" using assms(1) by (simp add: holds_def)
  have "hl_received_pieces (stored md k hl) = map (\<lambda>i. i \<in> insert k S) [0..<hl_total_pieces hl]"
    using stored_holds [OF assms(1,2)] by (simp add: holds_def)
  then have all: "list_all id ((hl_received_pieces hl)[k := True]) \<longleftrightarrow> insert k S = {0..<hl_total_pieces hl}"
    using assms(2,4) by (auto simp: list_all_iff)
  have md: "splice (hl_buffer hl) (k * 16384) (metadata_block md k) = md" if "insert k S = {0..<hl_total_pieces hl}"
    using holds_all [of md "stored md k hl"] stored_holds [OF assms(1,2)] that by simp
  show ?thesis
    using assms(2,3) b off md by (auto simp: record_piece_def Let_def all) (simp_all add: rec)
qed

lemma deliver_block:
  assumes "mr_locked st = Some hl" "record_piece sha1 (word_of_nat k) (metadata_block md k) (mr_info_hash st) hl = Done (ready, hl')"
    and "mr_result st = None"
  shows "deliver (metadata_handler sha1) (block_message tot md k) ext st = Inr (ext,
    if ready then st\<lparr>mr_locked := None, mr_result := Some (from_bytes (deserialize_torrent_info sha1) (hl_buffer hl'))\<rparr>
    else st\<lparr>mr_locked := Some hl'\<rparr>)"
  using assms by (simp add: deliver_def block_message_def metadata_handler_def metadata_on_received_message_def Let_def)

lemma blocks_assembled:
  assumes "mr_locked st = Some hl" "holds md S hl" "mr_result st = None" "mr_info_hash st = sha1 md"
    and "distinct ks" "set ks \<inter> S = {}" "set ks \<union> S = {0..<hl_total_pieces hl}" "ks \<noteq> []"
  shows "deliver_all (metadata_handler sha1) (map (block_message tot md) ks) ext st =
    Inr (ext, st\<lparr>mr_locked := None, mr_result := Some (from_bytes (deserialize_torrent_info sha1) md)\<rparr>)"
  using assms
proof (induction ks arbitrary: st hl S)
  case (Cons k ks)
  have k: "k < hl_total_pieces hl" "k \<notin> S" "S \<subseteq> {0..<hl_total_pieces hl}" using Cons.prems(6,7) by auto
  note rec = record_block [OF Cons.prems(2) k, of sha1]
  note step = deliver_block [OF Cons.prems(1) rec [folded Cons.prems(4)] Cons.prems(3), of tot ext]
  show ?case
  proof (cases "ks = []")
    case True
    then have all: "insert k S = {0..<hl_total_pieces hl}" using Cons.prems(7) by simp
    then have "hl_buffer (stored md k hl) = md"
      using holds_all [of md "stored md k hl"] stored_holds [OF Cons.prems(2) k(1)] by simp
    then show ?thesis using step all True by simp
  next
    case False
    then have "insert k S \<noteq> {0..<hl_total_pieces hl}" using Cons.prems(5-7) by (cases ks) auto
    then have "deliver (metadata_handler sha1) (block_message tot md k) ext st = Inr (ext, st\<lparr>mr_locked := Some (stored md k hl)\<rparr>)"
      using step by simp
    moreover have "deliver_all (metadata_handler sha1) (map (block_message tot md) ks) ext (st\<lparr>mr_locked := Some (stored md k hl)\<rparr>) =
        Inr (ext, (st\<lparr>mr_locked := Some (stored md k hl)\<rparr>)\<lparr>mr_locked := None,
          mr_result := Some (from_bytes (deserialize_torrent_info sha1) md)\<rparr>)"
      using Cons.prems False stored_holds [OF Cons.prems(2) k(1)]
      by (intro Cons.IH [of _ "stored md k hl" "insert k S"]) auto
    ultimately show ?thesis by simp
  qed
qed simp

lemma handshake_then_blocks:
  assumes "wf_info info" "md = serialize_torrent_info info" "length md \<le> 1024 * 1024"
    and "hs_metadata_size h = Some (word_of_nat (length md))" "hs_ut_metadata h \<noteq> None"
    and "distinct ks" "set ks = {0..<ceil_div (length md) 16384}"
  shows "\<exists>st. deliver_all (metadata_handler sha1) (Extended (ExtHandshake h) # map (block_message tot md) ks) ext
      (metadata_reader_new (sha1 md)) = Inr (Some h, st) \<and>
    mr_result st = Some (Inr info) \<and>
    mr_requests st = [Unchoke, Interested] @
      map (\<lambda>k. Extended (ExtUtMetadata (UtRequest (word_of_nat k)))) [0..<ceil_div (length md) 16384]"
proof -
  have len: "unat (word_of_nat (length md) :: u32) = length md" using assms(3) by (simp add: unat_of_nat)
  then have "\<not> (word_of_nat (length md) :: u32) > 1024 * 1024" using assms(3) by (simp add: word_less_nat_alt)
  then obtain hl where hl: "handler_locked_new (word_of_nat (length md)) = Some hl"
    by (simp add: handler_locked_new_def Let_def)
  note new = new_ok [OF hl]
  have n: "hl_total_pieces hl = ceil_div (length md) 16384" using new len by (simp add: hl_ok_def)
  have h0: "holds md {} hl" using new len by (simp add: holds_def n map_replicate_const)
  define st0 where "st0 = (metadata_reader_new (sha1 md))\<lparr>mr_locked := Some hl,
    mr_requests := [Unchoke, Interested] @ map (\<lambda>k. Extended (ExtUtMetadata (UtRequest (word_of_nat k)))) [0..<hl_total_pieces hl]\<rparr>"
  have "metadata_on_extended_handshake h (metadata_reader_new (sha1 md)) = Done st0"
    using assms(4,5) hl
    by (auto simp: metadata_on_extended_handshake_def hs_ut_metadata_def st0_def metadata_reader_new_def Let_def)
  then have first: "deliver (metadata_handler sha1) (Extended (ExtHandshake h)) ext (metadata_reader_new (sha1 md)) = Inr (Some h, st0)"
    by (simp add: deliver_def metadata_handler_def)
  have "md \<noteq> []" by (simp add: assms(2) serialize_torrent_info_def)
  then have ne: "ks \<noteq> []" using assms(7) ceil_div_pos [of "length md" 16384] by auto
  have "deliver_all (metadata_handler sha1) (map (block_message tot md) ks) (Some h) st0 =
      Inr (Some h, st0\<lparr>mr_locked := None, mr_result := Some (from_bytes (deserialize_torrent_info sha1) md)\<rparr>)"
    using assms(6,7) ne h0 n by (intro blocks_assembled [of _ hl _ "{}"]) (simp_all add: st0_def metadata_reader_new_def)
  moreover have "from_bytes (deserialize_torrent_info sha1) md = Inr info"
    using readsD [OF reads_info [OF assms(1)], of "new_from_buf md" "[]" sha1] assms(2,3) by (simp add: from_bytes_def)
  ultimately show ?thesis using first by (simp add: st0_def n)
qed

text \<open>Data before the extended handshake, or after the last piece, stops the task.\<close>

lemma early_data_panics: "mr_locked st = None \<Longrightarrow>
    metadata_on_received_message sha1 (Extended (ExtUtMetadata (UtData piece total_size data))) st = Panics"
  by (simp add: metadata_on_received_message_def)

text \<open>Messages that a handler accepts one after the other are delivered by some run.\<close>

lemma run_of_messages:
  assumes "bincode_request enc dec" "grow_ok grow"
  shows "conn_ok c \<Longrightarrow> list_all wire_message ms \<Longrightarrow> incoming_bytes c = wire_stream enc ms \<Longrightarrow>
    deliver_all hn ms (cn_ext c) (cn_handler c) = Inr (ext, s) \<Longrightarrow>
    \<exists>ls c'. conn_run grow enc dec sha1 hn c ls c' \<and> delivered ls = ms \<and> cn_handler c' = s"
proof (induction ms arbitrary: c)
  case Nil
  then show ?case by (intro exI [of _ "[]"] exI [of _ c]) (auto intro: conn_run.idle)
next
  case (Cons m ms)
  obtain rb es where rd: "read_message grow (deserialize_message dec sha1) (cn_rb c) (cn_net c) = (Inr m, rb, es)"
    "rb_ok rb" "clean_stream es" "unread rb @ arrivals es = wire_stream enc ms"
    using framing.read_message_delivers [OF bincode_request.peer_framing [OF assms(1)] assms(2),
        of m "cn_rb c" "cn_net c" "wire_stream enc ms" sha1] Cons.prems
    by (auto simp: conn_ok_def incoming_bytes_def wire_stream_def)
  obtain ext1 s1 where dl: "deliver hn m (cn_ext c) (cn_handler c) = Inr (ext1, s1)" "deliver_all hn ms ext1 s1 = Inr (ext, s)"
    using Cons.prems(4) by (auto simp: bind_result_Inr_iff)
  let ?c = "\<lparr>cn_rb = rb, cn_net = es, cn_ext = ext1, cn_handler = s1\<rparr>"
  have "conn_step grow enc dec sha1 hn c (Delivered m) ?c"
    using rd(1) dl(1) by (intro conn_step.reading) (simp add: reader_step_def)
  moreover obtain ls c' where "conn_run grow enc dec sha1 hn ?c ls c'" "delivered ls = ms" "cn_handler c' = s"
    using Cons.IH [of ?c] Cons.prems(2) rd(2-4) dl(2) by (auto simp: conn_ok_def incoming_bytes_def)
  ultimately show ?case by (intro exI [of _ "Delivered m # ls"] exI [of _ c']) (auto intro: conn_run.more)
qed

text \<open>
  C7: The info dictionary of a magnet link arrives. When a peer that speaks \<open>ut_metadata\<close> announces the size
  of its metadata and sends every block of it once, in any order, cut into arrivals in any way, the
  connection delivers all its messages; the handler has then asked for each block exactly once, and has
  sent its caller the dictionary the metadata was written from.
\<close>

theorem metadata_arrives:
  assumes "wf_info info" "md = serialize_torrent_info info" "length md \<le> 1024 * 1024"
    and "hs_metadata_size h = Some (word_of_nat (length md))" "hs_ut_metadata h \<noteq> None"
    and "distinct ks" "set ks = {0..<ceil_div (length md) 16384}"
    and "ms = Extended (ExtHandshake h) # map (block_message tot md) ks" "list_all wire_message ms"
    and "bincode_request enc dec" "grow_ok grow" "conn_ok c" "incoming_bytes c = wire_stream enc ms"
    and "cn_handler c = metadata_reader_new (sha1 md)"
  shows "\<exists>ls c'. conn_run grow enc dec sha1 (metadata_handler sha1) c ls c' \<and> delivered ls = ms \<and>
    mr_result (cn_handler c') = Some (Inr info) \<and>
    mr_requests (cn_handler c') = [Unchoke, Interested] @
      map (\<lambda>k. Extended (ExtUtMetadata (UtRequest (word_of_nat k)))) [0..<ceil_div (length md) 16384]"
proof -
  obtain st where st: "deliver_all (metadata_handler sha1) ms (cn_ext c) (cn_handler c) = Inr (Some h, st)"
    "mr_result st = Some (Inr info)" "mr_requests st = [Unchoke, Interested] @
      map (\<lambda>k. Extended (ExtUtMetadata (UtRequest (word_of_nat k)))) [0..<ceil_div (length md) 16384]"
    using handshake_then_blocks [OF assms(1-7), of sha1 tot "cn_ext c"] unfolding assms(8,14) by blast
  from run_of_messages [OF assms(10-12,9,13) st(1), of sha1] st(2,3) show ?thesis by blast
qed

definition tiny_metadata :: torrent_info where
  "tiny_metadata = \<lparr>ti_name = Some (ascii ''n''), ti_pieces = replicate 20 7, ti_piece_length = 16384,
     ti_length = Some 5, ti_md5sum = None, ti_files = None\<rparr>"

definition metadata_peer :: ext_handshake where
  "metadata_peer = ext_handshake_new\<lparr>hs_metadata_size := Some (word_of_nat (length (serialize_torrent_info tiny_metadata)))\<rparr>"

lemma tiny_sizes: "length (serialize_torrent_info tiny_metadata) \<le> 1024 * 1024"
  "ceil_div (length (serialize_torrent_info tiny_metadata)) 16384 = 1" "wf_info tiny_metadata"
  "hs_metadata_size metadata_peer = Some (word_of_nat (length (serialize_torrent_info tiny_metadata)))"
  "hs_ut_metadata metadata_peer \<noteq> None"
proof -
  let ?md = "serialize_torrent_info tiny_metadata"
  have "0 < length ?md" "length ?md \<le> 16384" by code_simp+
  then show "length ?md \<le> 1024 * 1024" "ceil_div (length ?md) 16384 = 1"
    using ceil_div_pos [of "length ?md" 16384] less_ceil_div_iff [of 16384 1 "length ?md"] by simp_all
  show "wf_info tiny_metadata" by (simp add: wf_info_def small_u64_def tiny_metadata_def)
  show "hs_metadata_size metadata_peer = Some (word_of_nat (length ?md))" "hs_ut_metadata metadata_peer \<noteq> None"
    by (simp_all add: metadata_peer_def hs_ut_metadata_def get_msgid_def ext_handshake_new_def)
qed

definition tiny_messages :: "message list" where
  "tiny_messages = [Extended (ExtHandshake metadata_peer), block_message 0 (serialize_torrent_info tiny_metadata) 0]"

definition tiny_connection :: "metadata_reader conn" where
  "tiny_connection = \<lparr>cn_rb = read_buf_new, cn_net = [Arrive (wire_stream bincode_enc_request tiny_messages)],
     cn_ext = None, cn_handler = metadata_reader_new (replicate 20 9)\<rparr>"

lemma tiny_run:
  "list_all wire_message tiny_messages" "conn_ok tiny_connection"
  "incoming_bytes tiny_connection = wire_stream bincode_enc_request tiny_messages"
  "cn_handler tiny_connection = metadata_reader_new (replicate 20 9)"
proof -
  show "list_all wire_message tiny_messages" by code_simp
  have "wire_stream bincode_enc_request tiny_messages \<noteq> []" by code_simp
  then show "conn_ok tiny_connection" "incoming_bytes tiny_connection = wire_stream bincode_enc_request tiny_messages"
    by (simp_all add: tiny_connection_def conn_ok_def incoming_bytes_def)
  show "cn_handler tiny_connection = metadata_reader_new (replicate 20 9)" by (simp add: tiny_connection_def)
qed

theorem metadata_arrives_witness:
  "\<exists>ls c'. conn_run double_grow bincode_enc_request bincode_dec_request (\<lambda>_. replicate 20 9)
      (metadata_handler (\<lambda>_. replicate 20 9)) tiny_connection ls c' \<and> delivered ls = tiny_messages \<and>
     mr_result (cn_handler c') = Some (Inr tiny_metadata)"
  using metadata_arrives [OF tiny_sizes(3) refl tiny_sizes(1,4,5), of "[0]" tiny_messages 0, OF _ _ _ tiny_run(1)
      bincode_rq.bincode_request_axioms double_grow_ok tiny_run(2,3), of "\<lambda>_. replicate 20 9"] tiny_sizes(2) tiny_run(4)
  by (auto simp: tiny_messages_def)

theorem only_hashed_metadata_witness:
  "\<exists>ls c'. conn_run double_grow bincode_enc_request bincode_dec_request (\<lambda>_. replicate 20 9)
      (metadata_handler (\<lambda>_. replicate 20 9)) tiny_connection ls c' \<and>
     mr_result (cn_handler c') = Some (Inr tiny_metadata) \<and>
     (\<exists>buf. length buf \<le> 1024 * 1024 \<and> Inr tiny_metadata = from_bytes (deserialize_torrent_info (\<lambda>_. replicate 20 9)) buf)"
proof -
  let ?sha = "\<lambda>_. replicate 20 9 :: bytes"
  obtain st where st: "deliver_all (metadata_handler ?sha) tiny_messages (cn_ext tiny_connection) (cn_handler tiny_connection) =
      Inr (Some metadata_peer, st)" "mr_result st = Some (Inr tiny_metadata)"
    using handshake_then_blocks [of tiny_metadata _ metadata_peer "[0]" ?sha 0 None] tiny_sizes
    by (auto simp: tiny_messages_def tiny_connection_def)
  obtain ls c' where run: "conn_run double_grow bincode_enc_request bincode_dec_request ?sha (metadata_handler ?sha) tiny_connection ls c'"
    "cn_handler c' = st"
    using run_of_messages [OF bincode_rq.bincode_request_axioms double_grow_ok tiny_run(2,1,3) st(1), of ?sha] by blast
  from only_hashed_metadata [OF run(1) tiny_run(4)] run st(2) show ?thesis by blast
qed

end
