(* ===== verification/Delivery.thy ===== *)
theory Delivery
  imports Scenario
begin

text \<open>
  Which blocks a torrent takes from a peer: the whole of \<open>on_received_piece\<close>, and how far a block that
  was not asked for gets.
\<close>

definition requested_from :: "socket_addr \<Rightarrow> chunk_info \<Rightarrow> 'b torrent_live \<Rightarrow> bool" where
  "requested_from addr ci st \<longleftrightarrow>
     (\<exists>p l. map_of (ps_states (tl_peers st)) addr = Some p \<and> pe_state p = PsLive l \<and>
        inflight_request_from ci \<in> set (lp_inflight_requests l))"

definition assigned_to :: "socket_addr \<Rightarrow> valid_piece_index \<Rightarrow> 'b torrent_live \<Rightarrow> bool" where
  "assigned_to addr i st \<longleftrightarrow> (\<exists>ip. map_of (tl_inflight st) i = Some ip \<and> ip_peer ip = addr)"

text \<open>The fields a block can change when it is taken.\<close>

definition contents :: "'b torrent_live \<Rightarrow> chunk_tracker option \<times> (valid_piece_index \<times> inflight_piece) list \<times> disk_file list" where
  "contents st = (tl_chunks st, tl_inflight st, tl_files st)"

lemma with_live_mut_requested:
  assumes "with_live_mut addr (remove_request (inflight_request_from ci)) (tl_peers st) = (Some True, ps)"
  shows "requested_from addr ci st"
  using assms
  by (auto simp: with_live_mut_def with_peer_mut_def on_live_def remove_request_def requested_from_def
      split: option.splits peer_state.splits prod.splits)

text \<open>
  C8: A block changes the torrent only when it was asked for. Whatever a peer sends, \<open>on_received_piece\<close>
  leaves the chunk tracker, the pieces in flight and the files as they are unless the block is a chunk of
  the torrent, a request for that chunk is in the peer's own list of requests, and the piece is assigned
  to this peer. Otherwise the connection ends with an error, or the block is ignored; nothing panics.
\<close>

theorem only_requested_blocks:
  assumes "\<And>ci. chunk_info_from_received_piece (tl_lengths st) (p_index p) (p_begin p) (word_of_nat (length (p_block p))) = Some ci \<Longrightarrow>
      \<not> (requested_from (ph_addr h) ci st \<and> assigned_to (ph_addr h) (ci_piece_index ci) st)"
  shows "\<exists>ok h' st'. on_received_piece e h p now st = Done (ok, h', st') \<and> contents st' = contents st"
proof (cases "chunk_info_from_received_piece (tl_lengths st) (p_index p) (p_begin p) (word_of_nat (length (p_block p)))")
  case None
  then show ?thesis by (auto simp: on_received_piece_def on_received_piece_mark_def)
next
  case (Some ci)
  define st1 where "st1 = count_fetched (ph_counters h) (length (p_block p)) st"
  have s1: "contents st1 = contents st" "ps_states (tl_peers st1) = ps_states (tl_peers st)" "tl_inflight st1 = tl_inflight st"
    by (simp_all add: st1_def count_fetched_def on_counters_def counters_update_def contents_def)
  obtain b ps where w: "with_live_mut (ph_addr h) (remove_request (inflight_request_from ci)) (tl_peers st1) = (b, ps)"
    by fastforce
  show ?thesis
  proof (cases "b = Some True")
    case False
    then show ?thesis
      using Some w s1 by (auto simp: on_received_piece_def on_received_piece_mark_def Let_def st1_def [symmetric] contents_def)
  next
    case True
    have "requested_from (ph_addr h) ci st"
      using with_live_mut_requested [of "ph_addr h" ci st1] w True s1(2) by (simp add: requested_from_def)
    then have "\<not> assigned_to (ph_addr h) (ci_piece_index ci) st" using assms [OF Some] by blast
    then have "mark_chunk_under_lock (ph_addr h) p ci now (st1\<lparr>tl_peers := ps\<rparr>) = Done (PieceIgnored, st1\<lparr>tl_peers := ps\<rparr>)"
      using s1(3) by (auto simp: mark_chunk_under_lock_def assigned_to_def split: option.splits)
    then show ?thesis
      using Some w s1(1) True
      by (auto simp: on_received_piece_def on_received_piece_mark_def Let_def st1_def [symmetric] contents_def)
  qed
qed

theorem only_requested_blocks_witness:
  "\<exists>ok h' st'. on_received_piece tiny_env (handler_new (SocketV4 1 1) 0 0)
      \<lparr>p_index = 1, p_begin = 0, p_block = [7]\<rparr> 0 (torrent_live_new tiny_paused) = Done (ok, h', st') \<and>
    contents st' = contents (torrent_live_new tiny_paused :: unit torrent_live)"
  by (rule only_requested_blocks)
    (simp add: assigned_to_def torrent_live_new_def)

end
