(* ===== verification/PeerStore.thy ===== *)
theory PeerStore
  imports BProtocol
begin

text \<open>
  Model of \<open>crates/dht/src/peer_store.rs\<close>: the peers other nodes announced to this one, by info hash,
  and the tokens that let them. The concurrent map is an association list in key order (no operation
  looks at the order of a hash map), its counter is a 32-bit word. The random token and the clock are
  parameters. The second part follows the store through a history of calls.
\<close>

section \<open>The store\<close>

record stored_token =
  st_token :: bytes
  st_node_id :: bytes
  st_addr :: socket_addr

record stored_peer =
  sp_addr :: sock_v4
  sp_time :: nat

record peer_store =
  ps_self_id :: bytes
  ps_max_remembered_tokens :: u32
  ps_max_remembered_peers :: u32
  ps_max_distance :: bytes
  ps_tokens :: "stored_token list"
  ps_peers :: "(bytes \<times> stored_peer list) list"
  ps_peers_len :: u32

definition peer_store_new :: "bytes \<Rightarrow> peer_store" where
  "peer_store_new self_id =
     \<lparr>ps_self_id = self_id, ps_max_remembered_tokens = 1000, ps_max_remembered_peers = 1000,
      ps_max_distance = [0, 0, 0x0f] @ replicate 17 0xff, ps_tokens = [], ps_peers = [], ps_peers_len = 0\<rparr>"

text \<open>What \<open>Deserialize\<close> makes of the stored fields: the counter is computed anew.\<close>

definition peer_store_restore :: "bytes \<Rightarrow> u32 \<Rightarrow> u32 \<Rightarrow> bytes \<Rightarrow> stored_token list \<Rightarrow>
    (bytes \<times> stored_peer list) list \<Rightarrow> peer_store" where
  "peer_store_restore self_id max_tokens max_peers max_distance tokens peers =
     \<lparr>ps_self_id = self_id, ps_max_remembered_tokens = max_tokens, ps_max_remembered_peers = max_peers,
      ps_max_distance = max_distance, ps_tokens = tokens, ps_peers = peers,
      ps_peers_len = sum_list (map (\<lambda>(k, v). word_of_nat (length v)) peers)\<rparr>"

definition gen_token_for :: "peer_store \<Rightarrow> bytes \<Rightarrow> bytes \<Rightarrow> socket_addr \<Rightarrow> bytes \<times> peer_store" where
  "gen_token_for ps random node_id addr =
     (let tokens = ps_tokens ps @ [\<lparr>st_token = random, st_node_id = node_id, st_addr = addr\<rparr>] in
      (random, ps\<lparr>ps_tokens :=
         (if length tokens > unat (ps_max_remembered_tokens ps) then tl tokens else tokens)\<rparr>))"

fun touch :: "nat \<Rightarrow> sock_v4 \<Rightarrow> stored_peer list \<Rightarrow> stored_peer list" where
  "touch now a [] = []"
| "touch now a (s # ss) = (if sp_addr s = a then s\<lparr>sp_time := now\<rparr> # ss else s # touch now a ss)"

definition store_peer :: "nat \<Rightarrow> peer_store \<Rightarrow> announce_peer \<Rightarrow> socket_addr \<Rightarrow> bool \<times> peer_store" where
  "store_peer now ps announce addr =
     (case addr of
        SocketV6 _ _ \<Rightarrow> (False, ps)
      | SocketV4 ip port \<Rightarrow>
          if id_cmp (id_distance (an_info_hash announce) (ps_self_id ps)) (ps_max_distance ps) = Greater
          then (False, ps)
          else if \<not> (\<exists>t \<in> set (ps_tokens ps). st_token t = an_token announce \<and> st_addr t = addr \<and>
              st_node_id t = an_id announce)
          then (False, ps)
          else
            let a = (ip, if an_implied_port announce = 0 then an_port announce else port);
                h = an_info_hash announce;
                peers_len = ps_peers_len ps in
            (case map_of (ps_peers ps) h of
               Some occ \<Rightarrow>
                 if \<exists>s \<in> set occ. sp_addr s = a
                 then (True, ps\<lparr>ps_peers := btree_insert h (touch now a occ) (ps_peers ps)\<rparr>)
                 else if peers_len \<ge> ps_max_remembered_peers ps then (False, ps)
                 else (True, ps\<lparr>ps_peers := btree_insert h (occ @ [\<lparr>sp_addr = a, sp_time = now\<rparr>]) (ps_peers ps),
                   ps_peers_len := peers_len + 1\<rparr>)
             | None \<Rightarrow>
                 if peers_len \<ge> ps_max_remembered_peers ps then (False, ps)
                 else (True, ps\<lparr>ps_peers := btree_insert h [\<lparr>sp_addr = a, sp_time = now\<rparr>] (ps_peers ps),
                   ps_peers_len := peers_len + 1\<rparr>)))"

definition get_for_info_hash :: "peer_store \<Rightarrow> bytes \<Rightarrow> sock_v4 list" where
  "get_for_info_hash ps info_hash =
     (case map_of (ps_peers ps) info_hash of
        Some stored_peers \<Rightarrow> map sp_addr stored_peers
      | None \<Rightarrow> [])"

section \<open>The invariant\<close>

definition stored_total :: "(bytes \<times> stored_peer list) list \<Rightarrow> nat" where
  "stored_total m = sum_list (map (length \<circ> snd) m)"

definition store_ok :: "peer_store \<Rightarrow> bool" where
  "store_ok ps \<longleftrightarrow> keys_sorted (ps_peers ps) \<and> unat (ps_peers_len ps) = stored_total (ps_peers ps) \<and>
     ps_peers_len ps \<le> ps_max_remembered_peers ps \<and>
     length (ps_tokens ps) \<le> unat (ps_max_remembered_tokens ps) \<and>
     (\<forall>(h, ss) \<in> set (ps_peers ps). distinct (map sp_addr ss))"

lemma stored_total_insert:
  "keys_sorted m \<Longrightarrow> stored_total (btree_insert k v m) + (case map_of m k of None \<Rightarrow> 0 | Some w \<Rightarrow> length w) =
     stored_total m + length v"
proof (induction k v m rule: btree_insert.induct)
  case (2 k v k' v' m)
  show ?case
  proof (cases "k < k'")
    case True
    then have "map_of ((k', v') # m) k = None"
      using "2.prems" by (auto simp: map_of_eq_None_iff)
    then show ?thesis using True by (simp add: stored_total_def)
  next
    case False
    then show ?thesis using 2 by (auto simp: stored_total_def)
  qed
qed (simp add: stored_total_def)

lemma touch_addrs [simp]: "map sp_addr (touch now a ss) = map sp_addr ss"
  by (induction ss) simp_all

lemma length_touch [simp]: "length (touch now a ss) = length ss"
  by (induction ss) simp_all

lemma store_insert_ok:
  assumes "store_ok ps" "distinct (map sp_addr v)"
    and "unat n = stored_total (btree_insert h v (ps_peers ps))" "n \<le> ps_max_remembered_peers ps"
  shows "store_ok (ps\<lparr>ps_peers := btree_insert h v (ps_peers ps), ps_peers_len := n\<rparr>)"
  using assms in_set_btree_insert [of _ h v "ps_peers ps"]
  by (fastforce simp: store_ok_def keys_sorted_btree_insert)

lemma peer_store_new_ok: "store_ok (peer_store_new i)"
  by (simp add: store_ok_def peer_store_new_def stored_total_def)

lemma gen_token_ok:
  assumes "store_ok ps" "0 < ps_max_remembered_tokens ps"
  shows "store_ok (snd (gen_token_for ps r i a))"
  using assms by (auto simp: store_ok_def gen_token_for_def Let_def)

lemma store_peer_ok:
  assumes "store_ok ps"
  shows "store_ok (snd (store_peer now ps announce addr))"
proof (cases addr)
  case (SocketV4 ip port)
  define a where "a = (ip, if an_implied_port announce = 0 then an_port announce else port)"
  define h where "h = an_info_hash announce"
  note sorted = assms [unfolded store_ok_def, THEN conjunct1]
  have len: "unat (ps_peers_len ps) = stored_total (ps_peers ps)" using assms by (simp add: store_ok_def)
  have suc: "unat (ps_peers_len ps + 1) = stored_total (ps_peers ps) + 1"
      "ps_peers_len ps + 1 \<le> ps_max_remembered_peers ps"
    if "\<not> ps_max_remembered_peers ps \<le> ps_peers_len ps"
  proof -
    have lt: "ps_peers_len ps < ps_max_remembered_peers ps" using that by simp
    then have "unat (ps_peers_len ps) + 1 < 2 ^ 32"
      using u32_bound [of "ps_max_remembered_peers ps"] by (simp add: word_less_nat_alt)
    then have "unat (ps_peers_len ps + 1) = unat (ps_peers_len ps) + 1" by (subst unat_add_fits) simp_all
    then show "unat (ps_peers_len ps + 1) = stored_total (ps_peers ps) + 1"
      "ps_peers_len ps + 1 \<le> ps_max_remembered_peers ps"
      using len lt by (simp_all add: word_le_nat_alt word_less_nat_alt)
  qed
  show ?thesis
  proof (cases "map_of (ps_peers ps) h")
    case None
    have "store_ok (ps\<lparr>ps_peers := btree_insert h [\<lparr>sp_addr = a, sp_time = now\<rparr>] (ps_peers ps),
        ps_peers_len := ps_peers_len ps + 1\<rparr>)" if "\<not> ps_max_remembered_peers ps \<le> ps_peers_len ps"
      using stored_total_insert [OF sorted, of h "[\<lparr>sp_addr = a, sp_time = now\<rparr>]"] None suc [OF that]
      by (intro store_insert_ok [OF assms]) simp_all
    then show ?thesis
      using assms None SocketV4 by (auto simp: store_peer_def Let_def a_def h_def)
  next
    case (Some occ)
    have d: "distinct (map sp_addr occ)" using assms map_of_SomeD [OF Some] by (auto simp: store_ok_def)
    have 1: "store_ok (ps\<lparr>ps_peers := btree_insert h (touch now a occ) (ps_peers ps)\<rparr>)"
      using store_insert_ok [OF assms, of "touch now a occ" "ps_peers_len ps" h] d len
        stored_total_insert [OF sorted, of h "touch now a occ"] Some assms
      by (simp add: store_ok_def)
    have 2: "store_ok (ps\<lparr>ps_peers := btree_insert h (occ @ [\<lparr>sp_addr = a, sp_time = now\<rparr>]) (ps_peers ps),
        ps_peers_len := ps_peers_len ps + 1\<rparr>)"
      if "\<not> ps_max_remembered_peers ps \<le> ps_peers_len ps" "\<not> (\<exists>s \<in> set occ. sp_addr s = a)"
      using stored_total_insert [OF sorted, of h "occ @ [\<lparr>sp_addr = a, sp_time = now\<rparr>]"] Some suc [OF that(1)] d that(2)
      by (intro store_insert_ok [OF assms]) auto
    show ?thesis
      using assms Some SocketV4 1 2 by (auto simp: store_peer_def Let_def a_def h_def)
  qed
qed (simp add: store_peer_def assms)

section \<open>Histories\<close>

datatype ps_op =
    PsToken bytes bytes socket_addr        \<comment> \<open>the random bytes, the node, its address\<close>
  | PsStore nat announce_peer socket_addr  \<comment> \<open>the time, the announce, its sender\<close>

fun ps_apply :: "peer_store \<Rightarrow> ps_op \<Rightarrow> peer_store" where
  "ps_apply ps (PsToken r i a) = snd (gen_token_for ps r i a)"
| "ps_apply ps (PsStore now announce a) = snd (store_peer now ps announce a)"

definition ps_run :: "bytes \<Rightarrow> ps_op list \<Rightarrow> peer_store" where
  "ps_run self_id ops = foldl ps_apply (peer_store_new self_id) ops"

lemma ps_run_snoc: "ps_run i (ops @ [op]) = ps_apply (ps_run i ops) op"
  by (simp add: ps_run_def)

lemma ps_apply_consts:
  "ps_self_id (ps_apply ps op) = ps_self_id ps" "ps_max_distance (ps_apply ps op) = ps_max_distance ps"
  "ps_max_remembered_tokens (ps_apply ps op) = ps_max_remembered_tokens ps"
  "ps_max_remembered_peers (ps_apply ps op) = ps_max_remembered_peers ps"
  by (cases op; simp add: gen_token_for_def store_peer_def Let_def split: socket_addr.splits option.splits)+

lemma ps_run_consts:
  "ps_self_id (ps_run i ops) = i" "ps_max_distance (ps_run i ops) = [0, 0, 0x0f] @ replicate 17 0xff"
  "ps_max_remembered_tokens (ps_run i ops) = 1000" "ps_max_remembered_peers (ps_run i ops) = 1000"
  by (induction ops rule: rev_induct) (simp_all add: ps_run_snoc ps_apply_consts, simp_all add: ps_run_def peer_store_new_def)

lemma ps_run_ok: "store_ok (ps_run i ops)"
proof (induction ops rule: rev_induct)
  case Nil
  then show ?case by (simp add: ps_run_def peer_store_new_ok)
next
  case (snoc op ops)
  then show ?case
    using gen_token_ok [OF snoc] store_peer_ok [OF snoc] ps_run_consts(3) [of i ops]
    by (cases op) (simp_all add: ps_run_snoc)
qed

text \<open>
  C39: whatever nodes ask and announce, the counter of the store is the number of peers it holds, which
  is at most 1000, as is the number of tokens; no address appears twice under one info hash.
\<close>
theorem peer_store_bounded:
  "unat (ps_peers_len (ps_run i ops)) = sum_list (map (length \<circ> snd) (ps_peers (ps_run i ops))) \<and>
    unat (ps_peers_len (ps_run i ops)) \<le> 1000 \<and> length (ps_tokens (ps_run i ops)) \<le> 1000 \<and>
    distinct (get_for_info_hash (ps_run i ops) h)"
proof -
  note ok = ps_run_ok [of i ops] ps_run_consts [of i ops]
  have "distinct (get_for_info_hash (ps_run i ops) h)"
  proof (cases "map_of (ps_peers (ps_run i ops)) h")
    case (Some ss)
    then show ?thesis using ok(1) map_of_SomeD [OF Some] by (auto simp: store_ok_def get_for_info_hash_def)
  qed (simp add: get_for_info_hash_def)
  then show ?thesis
    using ok by (simp add: store_ok_def stored_total_def word_le_nat_alt)
qed

text \<open>A stored address stays, and a token stays until as many newer ones as are remembered were given out.\<close>

lemma touch_addr_set: "sp_addr ` set (touch now a occ) = sp_addr ` set occ"
  by (metis list.set_map touch_addrs)

lemma address_kept:
  assumes "store_ok ps" "p \<in> set (get_for_info_hash ps h)"
  shows "p \<in> set (get_for_info_hash (ps_apply ps op) h)"
proof (cases op)
  case (PsStore now a addr)
  have sorted: "keys_sorted (ps_peers ps)" using assms(1) by (simp add: store_ok_def)
  show ?thesis
    using assms(2) PsStore
    by (auto simp: store_peer_def Let_def get_for_info_hash_def map_of_btree_insert [OF sorted] touch_addr_set
        split: socket_addr.splits option.splits if_splits)
qed (use assms(2) in \<open>simp add: gen_token_for_def Let_def get_for_info_hash_def\<close>)

lemma ps_apply_ok: "store_ok ps \<Longrightarrow> 0 < ps_max_remembered_tokens ps \<Longrightarrow> store_ok (ps_apply ps op)"
  using gen_token_ok store_peer_ok by (cases op) auto

lemma addresses_kept:
  "store_ok ps \<Longrightarrow> 0 < ps_max_remembered_tokens ps \<Longrightarrow> p \<in> set (get_for_info_hash ps h) \<Longrightarrow>
   p \<in> set (get_for_info_hash (foldl ps_apply ps ops) h)"
  by (induction ops arbitrary: ps) (simp_all add: ps_apply_ok ps_apply_consts address_kept)

lemma token_kept:
  "ps_tokens ps = xs @ t # ys \<Longrightarrow> length ys + length ops < unat (ps_max_remembered_tokens ps) \<Longrightarrow>
   t \<in> set (ps_tokens (foldl ps_apply ps ops))"
proof (induction ops arbitrary: ps xs ys)
  case (Cons op ops)
  show ?case
  proof (cases op)
    case (PsToken r i a)
    let ?new = "\<lparr>st_token = r, st_node_id = i, st_addr = a\<rparr>"
    have "\<exists>xs'. ps_tokens (ps_apply ps op) = xs' @ t # (ys @ [?new])"
      using Cons.prems by (cases xs) (auto simp: PsToken gen_token_for_def Let_def)
    then obtain xs' where "ps_tokens (ps_apply ps op) = xs' @ t # (ys @ [?new])" by blast
    then show ?thesis using Cons.IH [of "ps_apply ps op" xs' "ys @ [?new]"] Cons.prems(2) by (simp add: ps_apply_consts)
  next
    case (PsStore now ann a)
    then have "ps_tokens (ps_apply ps op) = ps_tokens ps"
      by (simp add: store_peer_def Let_def split: socket_addr.splits option.splits)
    then show ?thesis using Cons.IH [of "ps_apply ps op" xs ys] Cons.prems by (simp add: ps_apply_consts)
  qed
qed simp

text \<open>Where a stored address comes from.\<close>

definition announced :: "bytes \<Rightarrow> ps_op list \<Rightarrow> bytes \<Rightarrow> sock_v4 \<Rightarrow> bool" where
  "announced self_id ops h p \<longleftrightarrow>
     (\<exists>before now a ip port later. ops = before @ PsStore now a (SocketV4 ip port) # later \<and>
        an_info_hash a = h \<and> p = (ip, if an_implied_port a = 0 then an_port a else port) \<and>
        PsToken (an_token a) (an_id a) (SocketV4 ip port) \<in> set before \<and>
        id_cmp (id_distance h self_id) ([0, 0, 0x0f] @ replicate 17 0xff) \<noteq> Greater)"

lemma tokens_generated:
  "t \<in> set (ps_tokens (ps_run i ops)) \<Longrightarrow> PsToken (st_token t) (st_node_id t) (st_addr t) \<in> set ops"
proof (induction ops rule: rev_induct)
  case (snoc op ops)
  show ?case
  proof (cases op)
    case (PsToken r n a)
    have "set (tl xs) \<subseteq> set xs" for xs :: "stored_token list" by (cases xs) auto
    with snoc.prems have "t \<in> set (ps_tokens (ps_run i ops)) \<or> t = \<lparr>st_token = r, st_node_id = n, st_addr = a\<rparr>"
      by (fastforce simp: PsToken ps_run_snoc gen_token_for_def Let_def split: if_splits)
    then show ?thesis using snoc.IH by (auto simp: PsToken)
  next
    case (PsStore now a addr)
    from snoc.prems have "t \<in> set (ps_tokens (ps_run i ops))"
      by (auto simp: PsStore ps_run_snoc store_peer_def Let_def split: socket_addr.splits option.splits if_splits)
    then show ?thesis using snoc.IH by simp
  qed
qed (simp add: ps_run_def peer_store_new_def)

lemma announced_more: "announced i ops h p \<Longrightarrow> announced i (ops @ [op]) h p"
  unfolding announced_def by (metis append.assoc append_Cons)

lemma stored_after:
  assumes "store_ok ps" "p \<in> set (get_for_info_hash (snd (store_peer now ps a addr)) h)"
  shows "p \<in> set (get_for_info_hash ps h) \<or>
    (\<exists>ip port. addr = SocketV4 ip port \<and> an_info_hash a = h \<and>
      p = (ip, if an_implied_port a = 0 then an_port a else port) \<and>
      id_cmp (id_distance h (ps_self_id ps)) (ps_max_distance ps) \<noteq> Greater \<and>
      (\<exists>t \<in> set (ps_tokens ps). st_token t = an_token a \<and> st_addr t = addr \<and> st_node_id t = an_id a))"
proof -
  have sorted: "keys_sorted (ps_peers ps)" using assms(1) by (simp add: store_ok_def)
  note ins = map_of_btree_insert [OF sorted]
  have "p \<in> set (get_for_info_hash ps h)" if "sp_addr ` set (touch now' a' occ) = sp_addr ` set occ"
    "map_of (ps_peers ps) h = Some occ" "p \<in> sp_addr ` set (touch now' a' occ)" for now' a' occ
    using that by (simp add: get_for_info_hash_def)
  moreover have "sp_addr ` set (touch now' a' occ) = sp_addr ` set occ" for now' a' occ
    by (metis list.set_map touch_addrs)
  ultimately show ?thesis
    using assms(2)
    by (auto simp: store_peer_def Let_def get_for_info_hash_def ins split: socket_addr.splits option.splits if_splits)
qed

text \<open>
  C35: only announced peers are given out. An address that the store returns for an info hash was
  announced for that info hash, from that IP address, by a node that had been given the token it
  showed, at the same address, before; and the info hash is close to the own identifier.
\<close>
theorem peers_are_announced:
  assumes "p \<in> set (get_for_info_hash (ps_run i ops) h)"
  shows "announced i ops h p"
  using assms
proof (induction ops rule: rev_induct)
  case Nil
  then show ?case by (simp add: ps_run_def peer_store_new_def get_for_info_hash_def)
next
  case (snoc op ops)
  show ?case
  proof (cases op)
    case (PsToken r n a)
    then have "p \<in> set (get_for_info_hash (ps_run i ops) h)"
      using snoc.prems by (simp add: ps_run_snoc gen_token_for_def Let_def get_for_info_hash_def)
    then show ?thesis using snoc.IH announced_more by blast
  next
    case (PsStore now a addr)
    from stored_after [OF ps_run_ok, of p now i ops a addr h] snoc.prems
    consider "p \<in> set (get_for_info_hash (ps_run i ops) h)"
      | ip port t where "addr = SocketV4 ip port" "an_info_hash a = h"
        "p = (ip, if an_implied_port a = 0 then an_port a else port)"
        "id_cmp (id_distance h (ps_self_id (ps_run i ops))) (ps_max_distance (ps_run i ops)) \<noteq> Greater"
        "t \<in> set (ps_tokens (ps_run i ops))" "st_token t = an_token a" "st_addr t = addr" "st_node_id t = an_id a"
      by (auto simp: PsStore ps_run_snoc)
    then show ?thesis
    proof cases
      case 1
      then show ?thesis using snoc.IH announced_more by blast
    next
      case 2
      have "PsToken (an_token a) (an_id a) (SocketV4 ip port) \<in> set ops"
        using tokens_generated [OF 2(5)] 2 by simp
      then show ?thesis
        unfolding announced_def using 2(1-4)
        by (intro exI [of _ ops] exI [of _ now] exI [of _ a] exI [of _ ip] exI [of _ port] exI [of _ "[]"])
          (simp add: PsStore ps_run_consts)
    qed
  qed
qed

definition ex_announce :: announce_peer where
  "ex_announce = \<lparr>an_id = [1], an_implied_port = 0, an_info_hash = replicate 20 0, an_port = 80, an_token = [9]\<rparr>"

definition ex_history :: "ps_op list" where
  "ex_history = [PsToken [9] [1] (SocketV4 7 6881), PsStore 5 ex_announce (SocketV4 7 6881)]"

theorem peers_are_announced_witness:
  "announced (replicate 20 0) ex_history (replicate 20 0) (7, 80)"
proof (rule peers_are_announced)
  show "(7, 80) \<in> set (get_for_info_hash (ps_run (replicate 20 0) ex_history) (replicate 20 0))"
  proof -
    have "id_cmp (id_distance (replicate 20 0) (replicate 20 0)) ([0, 0, 0x0f] @ replicate 17 0xff) = Less"
      by code_simp
    then show ?thesis
      by (simp add: ex_history_def ex_announce_def ps_run_def peer_store_new_def gen_token_for_def store_peer_def
          get_for_info_hash_def)
  qed
qed

end
