(* ===== verification/RoutingTable.thy ===== *)
theory RoutingTable
  imports HashId "HOL-Library.Multiset" "HOL-Library.Product_Lexorder"
begin

text \<open>
  Model of \<open>crates/dht/src/routing_table.rs\<close>: the nodes the DHT knows, in a tree of buckets that is
  kept in a vector (children are indices), split as buckets on the path to the own identifier fill.
  Identifiers are 160-bit words (theory \<open>HashId\<close>); instants are numbers of nanoseconds, with the
  current one as a parameter.
\<close>

section \<open>Nodes\<close>

definition INACTIVITY_TIMEOUT :: nat where
  "INACTIVITY_TIMEOUT = 15 * 60 * 1000000000"

record rt_node =
  nd_id :: id20
  nd_addr :: socket_addr
  nd_last_request :: "nat option"
  nd_last_response :: "nat option"
  nd_last_query :: "nat option"
  nd_errors_in_a_row :: nat

datatype node_status = Good | Questionable | Bad | Unknown

definition elapsed :: "nat \<Rightarrow> nat \<Rightarrow> nat" where
  "elapsed now t = now - t"

text \<open>The guard of an arm with two patterns is tried for each of them.\<close>

definition status :: "nat \<Rightarrow> rt_node \<Rightarrow> node_status" where
  "status now n =
     (let recent = (\<lambda>t. elapsed now t < INACTIVITY_TIMEOUT);
          stale = (\<lambda>t. elapsed now t > INACTIVITY_TIMEOUT);
          long_ago = (\<lambda>r. case r of None \<Rightarrow> True | Some t \<Rightarrow> stale t) in
      if nd_last_request n \<noteq> None \<and> nd_errors_in_a_row n \<ge> 2 then Bad
      else if nd_last_request n \<noteq> None \<and>
        (case nd_last_response n of
           None \<Rightarrow> False
         | Some r \<Rightarrow> recent r \<or> (case nd_last_query n of None \<Rightarrow> False | Some q \<Rightarrow> recent q))
      then Good
      else if (case nd_last_query n of None \<Rightarrow> False | Some q \<Rightarrow> stale q \<and> long_ago (nd_last_request n)) \<or>
        (case nd_last_response n of None \<Rightarrow> False | Some r \<Rightarrow> stale r \<and> long_ago (nd_last_request n))
      then Questionable
      else Unknown)"

definition new_node :: "id20 \<Rightarrow> socket_addr \<Rightarrow> rt_node" where
  "new_node i addr = \<lparr>nd_id = i, nd_addr = addr, nd_last_request = None, nd_last_response = None,
     nd_last_query = None, nd_errors_in_a_row = 0\<rparr>"

definition node_mark_outgoing_request :: "nat \<Rightarrow> rt_node \<Rightarrow> rt_node" where
  "node_mark_outgoing_request now n = n\<lparr>nd_last_request := Some now\<rparr>"

definition node_mark_last_query :: "nat \<Rightarrow> rt_node \<Rightarrow> rt_node" where
  "node_mark_last_query now n = n\<lparr>nd_last_query := Some now\<rparr>"

definition node_mark_response :: "nat \<Rightarrow> rt_node \<Rightarrow> rt_node" where
  "node_mark_response now n =
     n\<lparr>nd_last_response := Some now,
       nd_last_request := (if nd_last_request n = None then Some now else nd_last_request n),
       nd_errors_in_a_row := 0\<rparr>"

definition node_mark_error :: "rt_node \<Rightarrow> rt_node" where
  "node_mark_error n = n\<lparr>nd_errors_in_a_row := nd_errors_in_a_row n + 1\<rparr>"

section \<open>The tree of buckets\<close>

record leaf_bucket =
  lb_nodes :: "rt_node list"
  lb_last_refreshed :: nat

datatype node_data = Leaf leaf_bucket | LeftRight nat nat

record bucket_node =
  bn_bits :: nat
  bn_start :: id20
  bn_end :: id20
  bn_data :: node_data

record bucket_tree =
  bt_data :: "bucket_node list"
  bt_size :: nat
  bt_max_size :: nat

definition bucket_tree_new :: "nat \<Rightarrow> nat \<Rightarrow> bucket_tree" where
  "bucket_tree_new now max_size =
     \<lparr>bt_data = [\<lparr>bn_bits = 160, bn_start = 0, bn_end = - 1,
        bn_data = Leaf \<lparr>lb_nodes = [], lb_last_refreshed = now\<rparr>\<rparr>],
      bt_size = 0, bt_max_size = max_size\<rparr>"

text \<open>
  Random data whose first bits are those of the start of the bucket.
\<close>

fun copy_bits :: "id20 \<Rightarrow> nat list \<Rightarrow> id20 \<Rightarrow> id20" where
  "copy_bits start [] data = data"
| "copy_bits start (k # ks) data = copy_bits start ks (word_set_bit data k (bit start (159 - k)))"

definition generate_random_id :: "id20 \<Rightarrow> id20 \<Rightarrow> nat \<Rightarrow> id20" where
  "generate_random_id random start bits = copy_bits start [0..<160 - bits] random"

text \<open>
  The halves of a bucket; with no bits left there is no bit to change and the access panics.
\<close>

definition compute_split_start_end ::
  "id20 \<Rightarrow> id20 \<Rightarrow> nat \<Rightarrow> ((id20 \<times> id20) \<times> (id20 \<times> id20)) option" where
  "compute_split_start_end start end_inclusive bits =
     (if bits = 0 \<or> 160 < bits then None
      else
        let changing_bit = 160 - bits;
            new_left_end = word_set_bit end_inclusive changing_bit False;
            new_right_start = word_set_bit start changing_bit True in
        Some ((start, new_left_end), (new_right_start, end_inclusive)))"

text \<open>
  \<open>get_leaf\<close> and \<open>insert_into_leaf\<close> loop; the model counts the rounds. \<open>None\<close> is a panic (an index out
  of range, an unreachable arm) or a loop that goes on for too long: theorems below show that neither
  happens.
\<close>

fun find_leaf :: "nat \<Rightarrow> bucket_node list \<Rightarrow> id20 \<Rightarrow> nat \<Rightarrow> nat option" where
  "find_leaf 0 data i idx = None"
| "find_leaf (Suc n) data i idx =
     (case get data idx of
        None \<Rightarrow> None
      | Some node \<Rightarrow>
          (case bn_data node of
             Leaf _ \<Rightarrow> Some idx
           | LeftRight left_idx right_idx \<Rightarrow>
               (case get data left_idx of
                  None \<Rightarrow> None
                | Some left \<Rightarrow>
                    if i \<ge> bn_start left \<and> i \<le> bn_end left then find_leaf n data i left_idx
                    else find_leaf n data i right_idx)))"

definition get_leaf :: "bucket_tree \<Rightarrow> id20 \<Rightarrow> nat option" where
  "get_leaf t i = find_leaf (length (bt_data t)) (bt_data t) i 0"

fun update_first :: "('a \<Rightarrow> bool) \<Rightarrow> ('a \<Rightarrow> 'a) \<Rightarrow> 'a list \<Rightarrow> 'a list" where
  "update_first P f [] = []"
| "update_first P f (x # xs) = (if P x then f x # xs else x # update_first P f xs)"

datatype insert_result = WasExisting | ReplacedBad rt_node | Added | Ignored

definition set_leaf :: "bucket_tree \<Rightarrow> nat \<Rightarrow> leaf_bucket \<Rightarrow> bucket_tree" where
  "set_leaf t idx lb = t\<lparr>bt_data := (bt_data t)[idx := (bt_data t ! idx)\<lparr>bn_data := Leaf lb\<rparr>]\<rparr>"

fun insert_into_leaf ::
  "nat \<Rightarrow> nat \<Rightarrow> bucket_tree \<Rightarrow> nat \<Rightarrow> id20 \<Rightarrow> id20 \<Rightarrow> socket_addr \<Rightarrow> (insert_result \<times> bucket_tree) option" where
  "insert_into_leaf 0 now t idx self_id i addr = None"
| "insert_into_leaf (Suc n) now t idx self_id i addr =
     (case get (bt_data t) idx of
        None \<Rightarrow> None
      | Some leaf \<Rightarrow>
          (case bn_data leaf of
             LeftRight _ _ \<Rightarrow> None
           | Leaf lb \<Rightarrow>
               if \<exists>r \<in> set (lb_nodes lb). nd_id r = i then Some (WasExisting, t)
               else
                 (case find (\<lambda>r. status now r = Bad) (lb_nodes lb) of
                    Some bad_node \<Rightarrow>
                      Some (ReplacedBad bad_node, set_leaf t idx
                        \<lparr>lb_nodes = sort_key nd_id
                           (update_first (\<lambda>r. status now r = Bad) (\<lambda>_. new_node i addr) (lb_nodes lb)),
                         lb_last_refreshed = now\<rparr>)
                  | None \<Rightarrow>
                      if bt_size t = bt_max_size t then Some (Ignored, t)
                      else if length (lb_nodes lb) < 8 then
                        Some (Added, (set_leaf t idx
                          \<lparr>lb_nodes = sort_key nd_id (lb_nodes lb @ [new_node i addr]),
                           lb_last_refreshed = now\<rparr>)\<lparr>bt_size := bt_size t + 1\<rparr>)
                      else if self_id < bn_start leaf \<or> self_id > bn_end leaf then Some (Ignored, t)
                      else
                        (case compute_split_start_end (bn_start leaf) (bn_end leaf) (bn_bits leaf) of
                           None \<Rightarrow> None
                         | Some ((ls, le), (rs, re)) \<Rightarrow>
                             let ld = filter (\<lambda>node. nd_id node < rs) (lb_nodes lb);
                                 rd = filter (\<lambda>node. \<not> nd_id node < rs) (lb_nodes lb);
                                 left = \<lparr>bn_bits = bn_bits leaf - 1, bn_start = ls, bn_end = le,
                                   bn_data = Leaf \<lparr>lb_nodes = ld, lb_last_refreshed = now\<rparr>\<rparr>;
                                 right = \<lparr>bn_bits = bn_bits leaf - 1, bn_start = rs, bn_end = re,
                                   bn_data = Leaf \<lparr>lb_nodes = rd, lb_last_refreshed = now\<rparr>\<rparr>;
                                 left_idx = length (bt_data t);
                                 right_idx = left_idx + 1;
                                 data = (bt_data t @ [left, right])
                                   [idx := leaf\<lparr>bn_data := LeftRight left_idx right_idx\<rparr>] in
                             insert_into_leaf n now (t\<lparr>bt_data := data\<rparr>)
                               (if i < rs then left_idx else right_idx) self_id i addr))))"

definition tree_add_node ::
  "nat \<Rightarrow> bucket_tree \<Rightarrow> id20 \<Rightarrow> id20 \<Rightarrow> socket_addr \<Rightarrow> (insert_result \<times> bucket_tree) option" where
  "tree_add_node now t self_id i addr =
     Option.bind (get_leaf t i) (\<lambda>idx. insert_into_leaf 161 now t idx self_id i addr)"

text \<open>
  \<open>get_mut\<close> with the change the caller makes through the reference: \<open>None\<close> inside when there is no
  such node.
\<close>

definition tree_get_mut ::
  "nat \<Rightarrow> bucket_tree \<Rightarrow> id20 \<Rightarrow> bool \<Rightarrow> (rt_node \<Rightarrow> rt_node) \<Rightarrow> bucket_tree option option" where
  "tree_get_mut now t i refresh f =
     (case get_leaf t i of
        None \<Rightarrow> None
      | Some idx \<Rightarrow>
          (case bn_data (bt_data t ! idx) of
             LeftRight _ _ \<Rightarrow> None
           | Leaf lb \<Rightarrow>
               if \<exists>b \<in> set (lb_nodes lb). nd_id b = i then
                 Some (Some (set_leaf t idx
                   \<lparr>lb_nodes = update_first (\<lambda>b. nd_id b = i) f (lb_nodes lb),
                    lb_last_refreshed = (if refresh then now else lb_last_refreshed lb)\<rparr>))
               else Some None))"

text \<open>The iterator over the leaves: a stack of indices, the left child on top.\<close>

fun iter_leaves_from :: "nat \<Rightarrow> bucket_node list \<Rightarrow> nat list \<Rightarrow> bucket_node list option" where
  "iter_leaves_from 0 data queue = None"
| "iter_leaves_from (Suc n) data [] = Some []"
| "iter_leaves_from (Suc n) data (idx # queue) =
     (case get data idx of
        None \<Rightarrow> iter_leaves_from n data queue
      | Some node \<Rightarrow>
          (case bn_data node of
             Leaf _ \<Rightarrow> map_option (\<lambda>ls. node # ls) (iter_leaves_from n data queue)
           | LeftRight l r \<Rightarrow> iter_leaves_from n data (l # r # queue)))"

definition iter_leaves :: "bucket_tree \<Rightarrow> bucket_node list option" where
  "iter_leaves t = iter_leaves_from (Suc (length (bt_data t))) (bt_data t) [0]"

definition leaf_nodes :: "bucket_node \<Rightarrow> rt_node list" where
  "leaf_nodes p = (case bn_data p of Leaf lb \<Rightarrow> lb_nodes lb | LeftRight _ _ \<Rightarrow> [])"

definition tree_iter :: "bucket_tree \<Rightarrow> rt_node list option" where
  "tree_iter t = map_option (\<lambda>ls. concat (map leaf_nodes ls)) (iter_leaves t)"

section \<open>The table\<close>

record routing_table =
  rt_id :: id20
  rt_size :: nat
  rt_buckets :: bucket_tree

definition DEFAULT_MAX_SIZE :: nat where
  "DEFAULT_MAX_SIZE = 512"

definition routing_table_new :: "nat \<Rightarrow> id20 \<Rightarrow> nat option \<Rightarrow> routing_table" where
  "routing_table_new now i max_size =
     \<lparr>rt_id = i, rt_size = 0,
      rt_buckets = bucket_tree_new now (case max_size of Some m \<Rightarrow> m | None \<Rightarrow> DEFAULT_MAX_SIZE)\<rparr>"

definition status_rank :: "node_status \<Rightarrow> nat" where
  "status_rank s = (case s of Good \<Rightarrow> 0 | Questionable \<Rightarrow> 0 | Unknown \<Rightarrow> 2 | Bad \<Rightarrow> 3)"

definition sorted_by_distance_from :: "nat \<Rightarrow> routing_table \<Rightarrow> id20 \<Rightarrow> rt_node list option" where
  "sorted_by_distance_from now rt i =
     map_option
       (sort_key (\<lambda>n. (status_rank (status now n), i XOR nd_id n)))
       (tree_iter (rt_buckets rt))"

definition rt_add_node ::
  "nat \<Rightarrow> routing_table \<Rightarrow> id20 \<Rightarrow> socket_addr \<Rightarrow> (insert_result \<times> routing_table) option" where
  "rt_add_node now rt i addr =
     (case tree_add_node now (rt_buckets rt) (rt_id rt) i addr of
        None \<Rightarrow> None
      | Some (res, t) \<Rightarrow>
          let replaced = (case res of WasExisting \<Rightarrow> False | ReplacedBad _ \<Rightarrow> True | Added \<Rightarrow> True | Ignored \<Rightarrow> False)
          in Some (res, rt\<lparr>rt_buckets := t, rt_size := (if replaced then rt_size rt + 1 else rt_size rt)\<rparr>))"

definition rt_mark ::
  "nat \<Rightarrow> bool \<Rightarrow> (rt_node \<Rightarrow> rt_node) \<Rightarrow> routing_table \<Rightarrow> id20 \<Rightarrow> (bool \<times> routing_table) option" where
  "rt_mark now refresh f rt i =
     (case tree_get_mut now (rt_buckets rt) i refresh f of
        None \<Rightarrow> None
      | Some None \<Rightarrow> Some (False, rt)
      | Some (Some t) \<Rightarrow> Some (True, rt\<lparr>rt_buckets := t\<rparr>))"

definition rt_mark_outgoing_request :: "nat \<Rightarrow> routing_table \<Rightarrow> id20 \<Rightarrow> (bool \<times> routing_table) option" where
  "rt_mark_outgoing_request now = rt_mark now False (node_mark_outgoing_request now)"

definition rt_mark_response :: "nat \<Rightarrow> routing_table \<Rightarrow> id20 \<Rightarrow> (bool \<times> routing_table) option" where
  "rt_mark_response now = rt_mark now True (node_mark_response now)"

definition rt_mark_error :: "nat \<Rightarrow> routing_table \<Rightarrow> id20 \<Rightarrow> (bool \<times> routing_table) option" where
  "rt_mark_error now = rt_mark now False node_mark_error"

definition rt_mark_last_query :: "nat \<Rightarrow> routing_table \<Rightarrow> id20 \<Rightarrow> (bool \<times> routing_table) option" where
  "rt_mark_last_query now = rt_mark now False (node_mark_last_query now)"

section \<open>Ranges\<close>

definition node_ok :: "bucket_node \<Rightarrow> bool" where
  "node_ok p \<longleftrightarrow> bn_bits p \<le> 160 \<and> unat (bn_start p) mod 2 ^ bn_bits p = 0 \<and>
     unat (bn_end p) = unat (bn_start p) + (2 ^ bn_bits p - 1)"

definition within :: "id20 \<Rightarrow> bucket_node \<Rightarrow> bool" where
  "within x p \<longleftrightarrow> bn_start p \<le> x \<and> x \<le> bn_end p"

definition halves :: "bucket_node \<Rightarrow> bucket_node \<Rightarrow> bucket_node \<Rightarrow> bool" where
  "halves p l r \<longleftrightarrow> bn_bits p = Suc (bn_bits l) \<and> bn_bits r = bn_bits l \<and>
     bn_start l = bn_start p \<and> unat (bn_start r) = unat (bn_start p) + 2 ^ bn_bits l"

lemma within_unat:
  assumes "node_ok p"
  shows "within x p \<longleftrightarrow> unat (bn_start p) \<le> unat x \<and> unat x < unat (bn_start p) + 2 ^ bn_bits p"
proof -
  have "(0 :: nat) < 2 ^ bn_bits p" by simp
  then show ?thesis
    using assms unfolding within_def node_ok_def word_le_nat_alt by linarith
qed

lemma halves_within:
  assumes "node_ok p" "node_ok l" "node_ok r" "halves p l r"
  shows "within x p \<longleftrightarrow> within x l \<or> within x r" "within x l \<Longrightarrow> \<not> within x r"
  using assms by (auto simp: within_unat halves_def)

lemma bit_id_odd: "bit (w :: id20) n \<longleftrightarrow> odd (unat w div 2 ^ n)"
proof -
  have "bit (unat w) n \<longleftrightarrow> bit w n" by (simp add: bit_unsigned_iff bit_imp_possible_bit)
  then show ?thesis by (simp only: bit_iff_odd [of "unat w"])
qed

lemma unat_set_bit_clear:
  assumes "n < 160" "\<not> bit (w :: id20) n"
  shows "unat (set_bit n w) = unat w + 2 ^ n"
proof -
  have "(2 :: nat) ^ n < 2 ^ 160" using assms(1) by (intro power_strict_increasing) simp_all
  moreover have "(2 ^ n :: id20) = word_of_nat (2 ^ n)" by simp
  ultimately have "unat (2 ^ n :: id20) = 2 ^ n"
    using unat_word_of_nat_fits [of "2 ^ n", where 'a = 160] by simp
  then have "unat (set_bit n w) = unat w OR 2 ^ n"
    by (simp add: set_bit_eq_or push_bit_of_1 unsigned_or_eq)
  moreover have "unat w AND 2 ^ n = 0"
    using assms(2) bit_id_odd [of w n] by (simp add: and_exp_eq_0_iff_not_bit bit_iff_odd)
  ultimately show ?thesis by (simp add: disjunctive_add_eq_or)
qed

lemma unat_unset_bit_set:
  assumes "bit (w :: id20) n"
  shows "unat (unset_bit n w) = unat w - 2 ^ n"
proof -
  have n: "n < 160" using assms bit_imp_le_length [OF assms] by simp
  have "\<not> bit (unset_bit n w) n" by (simp add: bit_unset_bit_iff)
  from unat_set_bit_clear [OF n this] have "unat (set_bit n (unset_bit n w)) = unat (unset_bit n w) + 2 ^ n" .
  moreover have "set_bit n (unset_bit n w) = w"
    by (rule bit_eqI) (use assms n in \<open>auto simp: bit_set_bit_iff bit_unset_bit_iff possible_bit_word\<close>)
  ultimately show ?thesis by simp
qed

lemma div_rest: "0 < M \<Longrightarrow> (M * c + (M - 1)) div M = c" for M c :: nat
  by (intro div_nat_eqI) (simp_all add: algebra_simps)

lemma compute_split_ok:
  assumes ok: "node_ok p" and b: "bn_bits p = Suc k"
  obtains le rs where
    "compute_split_start_end (bn_start p) (bn_end p) (bn_bits p) = Some ((bn_start p, le), (rs, bn_end p))"
    "unat le = unat (bn_start p) + (2 ^ k - 1)" "unat rs = unat (bn_start p) + 2 ^ k"
proof -
  have k: "k < 160" using ok b by (simp add: node_ok_def)
  from ok obtain q where q: "unat (bn_start p) = 2 * 2 ^ k * q"
    by (auto simp: node_ok_def b mod_eq_0_iff_dvd dvd_def)
  have e: "unat (bn_end p) = 2 ^ k * (2 * q + 1) + (2 ^ k - 1)"
  proof -
    obtain m where m: "(2 :: nat) ^ k = Suc m" by (metis gr0_conv_Suc zero_less_numeral zero_less_power)
    show ?thesis using ok q by (simp add: node_ok_def b m algebra_simps)
  qed
  have "unat (bn_start p) div 2 ^ k = 2 * q" unfolding q by simp
  then have sb: "\<not> bit (bn_start p) k" by (simp add: bit_id_odd)
  have "unat (bn_end p) div 2 ^ k = 2 * q + 1" unfolding e by (rule div_rest) simp
  then have eb: "bit (bn_end p) k" by (simp add: bit_id_odd)
  have idx: "159 - (160 - Suc k) = k" using k by simp
  show ?thesis
  proof (rule that)
    show "compute_split_start_end (bn_start p) (bn_end p) (bn_bits p) =
        Some ((bn_start p, unset_bit k (bn_end p)), (set_bit k (bn_start p), bn_end p))"
      using k by (simp add: compute_split_start_end_def b word_set_bit_def idx del: diff_Suc_Suc diff_diff_left)
    show "unat (unset_bit k (bn_end p)) = unat (bn_start p) + (2 ^ k - 1)"
      using unat_unset_bit_set [OF eb] e q by (simp add: algebra_simps)
    show "unat (set_bit k (bn_start p)) = unat (bn_start p) + 2 ^ k"
      using unat_set_bit_clear [OF k sb] .
  qed
qed

section \<open>The shape of the tree\<close>

text \<open>
  The vector holds a binary tree. \<open>shape\<close> is that tree with the indices of its nodes; every node of the
  vector is in it exactly once.
\<close>

datatype shape = SLeaf nat | SNode nat shape shape

fun s_root :: "shape \<Rightarrow> nat" where
  "s_root (SLeaf i) = i"
| "s_root (SNode i l r) = i"

fun indices :: "shape \<Rightarrow> nat list" where
  "indices (SLeaf i) = [i]"
| "indices (SNode i l r) = i # indices l @ indices r"

fun leaves :: "shape \<Rightarrow> nat list" where
  "leaves (SLeaf i) = [i]"
| "leaves (SNode i l r) = leaves l @ leaves r"

fun shaped :: "bucket_node list \<Rightarrow> shape \<Rightarrow> bool" where
  "shaped d (SLeaf i) \<longleftrightarrow> i < length d \<and> (\<exists>lb. bn_data (d ! i) = Leaf lb)"
| "shaped d (SNode i l r) \<longleftrightarrow> i < length d \<and> bn_data (d ! i) = LeftRight (s_root l) (s_root r) \<and>
     halves (d ! i) (d ! s_root l) (d ! s_root r) \<and> shaped d l \<and> shaped d r"

lemma s_root_in: "s_root s \<in> set (indices s)"
  by (cases s) simp_all

lemma leaves_in: "set (leaves s) \<subseteq> set (indices s)"
  by (induction s) auto

lemma leaves_distinct: "distinct (indices s) \<Longrightarrow> distinct (leaves s)"
  using leaves_in by (induction s) fastforce+

lemma shaped_bound: "shaped d s \<Longrightarrow> i \<in> set (indices s) \<Longrightarrow> i < length d"
  by (induction s) auto

lemma shaped_leaf: "shaped d s \<Longrightarrow> i \<in> set (leaves s) \<Longrightarrow> \<exists>lb. bn_data (d ! i) = Leaf lb"
  by (induction s) auto

lemma shaped_leaf_iff:
  "shaped d s \<Longrightarrow> i \<in> set (indices s) \<Longrightarrow> distinct (indices s) \<Longrightarrow>
    i \<in> set (leaves s) \<longleftrightarrow> (\<exists>lb. bn_data (d ! i) = Leaf lb)"
proof (induction s)
  case (SLeaf j)
  then show ?case by simp
next
  case (SNode j l r)
  then show ?case using leaves_in [of l] leaves_in [of r] by auto
qed

lemma get_nth: "i < length d \<Longrightarrow> get d i = Some (d ! i)"
  by (simp add: get_def)

lemma leaf_within_root:
  "shaped d s \<Longrightarrow> \<forall>p \<in> set d. node_ok p \<Longrightarrow> k \<in> set (leaves s) \<Longrightarrow> within x (d ! k) \<Longrightarrow>
    within x (d ! s_root s)"
proof (induction s)
  case (SNode i l r)
  have "s_root l < length d" "s_root r < length d" "i < length d"
    using SNode.prems(1) shaped_bound s_root_in by (auto simp: shaped_bound s_root_in)
  then have "within x (d ! i) \<longleftrightarrow> within x (d ! s_root l) \<or> within x (d ! s_root r)"
    using SNode.prems(1,2) by (intro halves_within) simp_all
  then show ?case using SNode by auto
qed simp

lemma find_leaf_eq:
  "shaped d s \<Longrightarrow> \<forall>p \<in> set d. node_ok p \<Longrightarrow> within x (d ! s_root s) \<Longrightarrow> length (indices s) \<le> n \<Longrightarrow>
    \<exists>j \<in> set (leaves s). find_leaf n d x (s_root s) = Some j \<and> within x (d ! j) \<and>
      (\<forall>k \<in> set (leaves s). within x (d ! k) \<longrightarrow> k = j)"
proof (induction s arbitrary: n)
  case (SLeaf i)
  then obtain m where "n = Suc m" by (cases n) simp_all
  with SLeaf show ?case by (auto simp: get_nth)
next
  case (SNode i l r)
  then obtain m where n: "n = Suc m" by (cases n) simp_all
  have b: "s_root l < length d" "s_root r < length d" "i < length d"
    using SNode.prems(1) shaped_bound s_root_in by (auto simp: shaped_bound s_root_in)
  then have ok: "node_ok (d ! s_root l)" "node_ok (d ! s_root r)" "node_ok (d ! i)"
    using SNode.prems(2) by simp_all
  have h: "halves (d ! i) (d ! s_root l) (d ! s_root r)" using SNode.prems(1) by simp
  note hw = halves_within [OF ok(3,1,2) h]
  have lr: "shaped d l" "shaped d r" using SNode.prems(1) by simp_all
  have len: "length (indices l) \<le> m" "length (indices r) \<le> m" using SNode.prems(4) n by simp_all
  have step: "find_leaf n d x i =
      (if within x (d ! s_root l) then find_leaf m d x (s_root l) else find_leaf m d x (s_root r))"
    using SNode.prems(1) b by (simp add: n get_nth within_def)
  show ?case
  proof (cases "within x (d ! s_root l)")
    case True
    then obtain j where j: "j \<in> set (leaves l)" "find_leaf m d x (s_root l) = Some j" "within x (d ! j)"
      "\<forall>k \<in> set (leaves l). within x (d ! k) \<longrightarrow> k = j"
      using SNode.IH(1) [OF lr(1) SNode.prems(2) True len(1)] by blast
    have "\<not> within x (d ! k)" if "k \<in> set (leaves r)" for k
      using leaf_within_root [OF lr(2) SNode.prems(2) that] hw(2) [OF True] by blast
    moreover have "find_leaf n d x (s_root (SNode i l r)) = Some j" using step True j(2) by simp
    moreover have "set (leaves (SNode i l r)) = set (leaves l) \<union> set (leaves r)" by simp
    ultimately show ?thesis using j(1,3,4) by blast
  next
    case False
    then have wr: "within x (d ! s_root r)" using SNode.prems(3) hw(1) by simp
    obtain j where j: "j \<in> set (leaves r)" "find_leaf m d x (s_root r) = Some j" "within x (d ! j)"
      "\<forall>k \<in> set (leaves r). within x (d ! k) \<longrightarrow> k = j"
      using SNode.IH(2) [OF lr(2) SNode.prems(2) wr len(2)] by blast
    have "\<not> within x (d ! k)" if "k \<in> set (leaves l)" for k
      using leaf_within_root [OF lr(1) SNode.prems(2) that] False by blast
    moreover have "find_leaf n d x (s_root (SNode i l r)) = Some j" using step False j(2) by simp
    moreover have "set (leaves (SNode i l r)) = set (leaves l) \<union> set (leaves r)" by simp
    ultimately show ?thesis using j(1,3,4) by blast
  qed
qed

lemma iter_leaves_from_eq:
  "shaped d s \<Longrightarrow> iter_leaves_from (length (indices s) + n) d (s_root s # q) =
    map_option (\<lambda>ls. map ((!) d) (leaves s) @ ls) (iter_leaves_from n d q)"
proof (induction s arbitrary: n q)
  case (SLeaf i)
  then show ?case by (auto simp: get_nth option.map_comp comp_def)
next
  case (SNode i l r)
  have "iter_leaves_from (length (indices (SNode i l r)) + n) d (i # q) =
      iter_leaves_from (length (indices l) + (length (indices r) + n)) d (s_root l # s_root r # q)"
    using SNode.prems by (simp add: get_nth add.assoc)
  also have "\<dots> = map_option (\<lambda>ls. map ((!) d) (leaves l) @ ls)
      (map_option (\<lambda>ls. map ((!) d) (leaves r) @ ls) (iter_leaves_from n d q))"
    using SNode by simp
  finally show ?case by (simp add: option.map_comp comp_def)
qed

text \<open>A leaf that becomes an inner node with two new leaves.\<close>

fun grow :: "nat \<Rightarrow> nat \<Rightarrow> nat \<Rightarrow> shape \<Rightarrow> shape" where
  "grow i a b (SLeaf j) = (if j = i then SNode j (SLeaf a) (SLeaf b) else SLeaf j)"
| "grow i a b (SNode j l r) = SNode j (grow i a b l) (grow i a b r)"

lemma s_root_grow [simp]: "s_root (grow i a b s) = s_root s"
  by (induction s) auto

lemma grow_id: "i \<notin> set (leaves s) \<Longrightarrow> grow i a b s = s"
  by (induction s) auto

lemma indices_grow:
  "distinct (indices s) \<Longrightarrow> i \<in> set (leaves s) \<Longrightarrow>
    mset (indices (grow i a b s)) = mset (indices s) + {#a, b#}"
proof (induction s)
  case (SNode j l r)
  then have d: "set (leaves l) \<inter> set (leaves r) = {}"
    using leaves_in [of l] leaves_in [of r] by auto
  show ?case
  proof (cases "i \<in> set (leaves l)")
    case True
    then have "grow i a b r = r" using d by (intro grow_id) auto
    then show ?thesis using SNode True by simp
  next
    case False
    then have "grow i a b l = l" by (rule grow_id)
    then show ?thesis using SNode False by simp
  qed
qed simp

definition same_frame :: "bucket_node \<Rightarrow> bucket_node \<Rightarrow> bool" where
  "same_frame p q \<longleftrightarrow> bn_bits p = bn_bits q \<and> bn_start p = bn_start q \<and> bn_end p = bn_end q"

lemma shaped_grow:
  assumes "\<forall>k < length d. k \<noteq> i \<longrightarrow> bn_data (d' ! k) = bn_data (d ! k)"
    and "\<forall>k < length d. same_frame (d' ! k) (d ! k)" "length d \<le> length d'"
    and "bn_data (d ! i) = Leaf lb" "bn_data (d' ! i) = LeftRight a b"
    and "a < length d'" "b < length d'" "bn_data (d' ! a) = Leaf la" "bn_data (d' ! b) = Leaf lb'"
    and "halves (d' ! i) (d' ! a) (d' ! b)"
  shows "shaped d s \<Longrightarrow> shaped d' (grow i a b s)"
proof (induction s)
  case (SLeaf j)
  then show ?case using assms by auto
next
  case (SNode j l r)
  have "s_root l < length d" "s_root r < length d"
    using SNode.prems by (auto intro: shaped_bound s_root_in)
  with SNode assms show ?case by (auto simp: halves_def same_frame_def)
qed

lemma shaped_leaf_update:
  assumes "\<forall>k < length d. k \<noteq> i \<longrightarrow> bn_data (d' ! k) = bn_data (d ! k)"
    and "\<forall>k < length d. same_frame (d' ! k) (d ! k)" "length d \<le> length d'"
    and "bn_data (d ! i) = Leaf lb" "bn_data (d' ! i) = Leaf lb'"
  shows "shaped d s \<Longrightarrow> shaped d' s"
proof (induction s)
  case (SLeaf j)
  then show ?case using assms by (cases "j = i") auto
next
  case (SNode j l r)
  have "s_root l < length d" "s_root r < length d"
    using SNode.prems by (auto intro: shaped_bound s_root_in)
  with SNode assms show ?case by (cases "j = i") (auto simp: halves_def same_frame_def)
qed

section \<open>The invariant\<close>

definition leaf_ok :: "bucket_node \<Rightarrow> bool" where
  "leaf_ok p \<longleftrightarrow> length (leaf_nodes p) \<le> 8 \<and> distinct (map nd_id (leaf_nodes p)) \<and>
     sorted (map nd_id (leaf_nodes p)) \<and> (\<forall>n \<in> set (leaf_nodes p). within (nd_id n) p)"

definition all_nodes :: "bucket_node list \<Rightarrow> rt_node list" where
  "all_nodes d = concat (map leaf_nodes d)"

abbreviation tree_nodes :: "bucket_tree \<Rightarrow> rt_node multiset" where
  "tree_nodes t \<equiv> mset (all_nodes (bt_data t))"

definition tree_inv :: "shape \<Rightarrow> bucket_tree \<Rightarrow> bool" where
  "tree_inv s t \<longleftrightarrow> shaped (bt_data t) s \<and> s_root s = 0 \<and> distinct (indices s) \<and>
     set (indices s) = {..<length (bt_data t)} \<and>
     (\<forall>p \<in> set (bt_data t). node_ok p \<and> leaf_ok p) \<and> bn_bits (bt_data t ! 0) = 160 \<and>
     bt_size t = size (tree_nodes t) \<and> bt_size t \<le> bt_max_size t"

definition tree_ok :: "bucket_tree \<Rightarrow> bool" where
  "tree_ok t \<longleftrightarrow> (\<exists>s. tree_inv s t)"

lemma leaf_nodes_Leaf [simp]: "bn_data p = Leaf lb \<Longrightarrow> leaf_nodes p = lb_nodes lb"
  by (simp add: leaf_nodes_def)

lemma leaf_nodes_LeftRight [simp]: "bn_data p = LeftRight l r \<Longrightarrow> leaf_nodes p = []"
  by (simp add: leaf_nodes_def)

lemma root_within:
  assumes "node_ok p" "bn_bits p = 160" shows "within x p"
proof -
  have "unat (bn_start p) mod 2 ^ 160 = unat (bn_start p)"
    using unat_bound [of "bn_start p"] by (intro mod_less) simp
  then have "unat (bn_start p) = 0" using assms by (simp only: node_ok_def)
  then show ?thesis using assms unat_bound [of x] by (simp add: within_unat)
qed

lemma tree_invD:
  assumes "tree_inv s t"
  shows "shaped (bt_data t) s" "s_root s = 0" "distinct (indices s)"
    "set (indices s) = {..<length (bt_data t)}" "\<forall>p \<in> set (bt_data t). node_ok p"
    "\<And>k. k < length (bt_data t) \<Longrightarrow> node_ok (bt_data t ! k)"
    "\<And>k. k < length (bt_data t) \<Longrightarrow> leaf_ok (bt_data t ! k)"
    "bt_size t = size (tree_nodes t)" "bt_size t \<le> bt_max_size t" "bn_bits (bt_data t ! 0) = 160"
    "0 < length (bt_data t)"
proof -
  show "0 < length (bt_data t)" using assms s_root_in [of s] by (auto simp: tree_inv_def)
qed (use assms in \<open>auto simp: tree_inv_def\<close>)

lemma length_indices: "tree_inv s t \<Longrightarrow> length (indices s) = length (bt_data t)"
  using distinct_card [of "indices s"] by (simp add: tree_inv_def)

lemma get_leaf_eq:
  assumes "tree_inv s t"
  obtains j lb where "get_leaf t x = Some j" "j < length (bt_data t)" "bn_data (bt_data t ! j) = Leaf lb"
    "within x (bt_data t ! j)"
    "\<And>k. k < length (bt_data t) \<Longrightarrow> \<exists>l. bn_data (bt_data t ! k) = Leaf l \<Longrightarrow> within x (bt_data t ! k) \<Longrightarrow> k = j"
proof -
  note inv = tree_invD [OF assms]
  have "within x (bt_data t ! s_root s)"
    using root_within [OF inv(6) [OF inv(11)] inv(10)] inv(2) by simp
  from find_leaf_eq [OF inv(1,5) this order_refl] obtain j where
    j: "j \<in> set (leaves s)" "find_leaf (length (indices s)) (bt_data t) x (s_root s) = Some j"
      "within x (bt_data t ! j)" "\<forall>k \<in> set (leaves s). within x (bt_data t ! k) \<longrightarrow> k = j" by blast
  have jd: "j < length (bt_data t)" using j(1) leaves_in inv(4) by blast
  obtain lb where lb: "bn_data (bt_data t ! j) = Leaf lb" using shaped_leaf [OF inv(1) j(1)] by blast
  show ?thesis
  proof (rule that [OF _ jd lb j(3)])
    show "get_leaf t x = Some j" using j(2) inv(2) length_indices [OF assms] by (simp add: get_leaf_def)
  next
    fix k assume "k < length (bt_data t)" "\<exists>l. bn_data (bt_data t ! k) = Leaf l" "within x (bt_data t ! k)"
    then show "k = j" using j(4) shaped_leaf_iff [OF inv(1) _ inv(3), of k] inv(4) by blast
  qed
qed

lemma in_all_nodes:
  "r \<in> set (all_nodes d) \<longleftrightarrow> (\<exists>k lb. k < length d \<and> bn_data (d ! k) = Leaf lb \<and> r \<in> set (lb_nodes lb))"
proof
  assume "r \<in> set (all_nodes d)"
  then obtain p where p: "p \<in> set d" "r \<in> set (leaf_nodes p)" by (auto simp: all_nodes_def)
  from p(1) obtain k where "k < length d" "d ! k = p" by (auto simp: in_set_conv_nth)
  then show "\<exists>k lb. k < length d \<and> bn_data (d ! k) = Leaf lb \<and> r \<in> set (lb_nodes lb)"
    using p(2) by (cases "bn_data p") auto
next
  assume "\<exists>k lb. k < length d \<and> bn_data (d ! k) = Leaf lb \<and> r \<in> set (lb_nodes lb)"
  then obtain k lb where "k < length d" "bn_data (d ! k) = Leaf lb" "r \<in> set (lb_nodes lb)" by blast
  then have "d ! k \<in> set d" "r \<in> set (leaf_nodes (d ! k))" by simp_all
  then show "r \<in> set (all_nodes d)" unfolding all_nodes_def by auto
qed

lemma leaf_unique:
  assumes inv: "tree_inv s t" and j: "j < length (bt_data t)" "bn_data (bt_data t ! j) = Leaf lj"
    "within x (bt_data t ! j)"
    and k: "k < length (bt_data t)" "bn_data (bt_data t ! k) = Leaf lk" "within x (bt_data t ! k)"
  shows "j = k"
proof -
  from get_leaf_eq [OF inv, of x] obtain i where
    "\<And>k. k < length (bt_data t) \<Longrightarrow> \<exists>l. bn_data (bt_data t ! k) = Leaf l \<Longrightarrow>
      within x (bt_data t ! k) \<Longrightarrow> k = i" by metis
  then show ?thesis using j k by blast
qed

lemma id_in_leaf:
  assumes inv: "tree_inv s t" and j: "j < length (bt_data t)" "bn_data (bt_data t ! j) = Leaf lb"
    "within x (bt_data t ! j)"
  shows "r \<in> set (all_nodes (bt_data t)) \<and> nd_id r = x \<longleftrightarrow> r \<in> set (lb_nodes lb) \<and> nd_id r = x"
proof
  assume r: "r \<in> set (all_nodes (bt_data t)) \<and> nd_id r = x"
  then obtain k lk where k: "k < length (bt_data t)" "bn_data (bt_data t ! k) = Leaf lk" "r \<in> set (lb_nodes lk)"
    by (auto simp: in_all_nodes)
  then have "within x (bt_data t ! k)" using tree_invD(7) [OF inv k(1)] r by (auto simp: leaf_ok_def)
  moreover obtain j' where "\<And>k. k < length (bt_data t) \<Longrightarrow> \<exists>l. bn_data (bt_data t ! k) = Leaf l \<Longrightarrow>
      within x (bt_data t ! k) \<Longrightarrow> k = j'" using get_leaf_eq [OF inv, of x] by metis
  ultimately have "k = j" using j k by blast
  then show "r \<in> set (lb_nodes lb) \<and> nd_id r = x" using k j r by simp
next
  assume "r \<in> set (lb_nodes lb) \<and> nd_id r = x"
  then show "r \<in> set (all_nodes (bt_data t)) \<and> nd_id r = x" using j by (auto simp: in_all_nodes)
qed

lemma mset_all_nodes_update:
  assumes "i < length d"
  shows "mset (all_nodes (d[i := p])) + mset (leaf_nodes (d ! i)) = mset (all_nodes d) + mset (leaf_nodes p)"
proof -
  have "d = take i d @ d ! i # drop (Suc i) d" using assms by (rule id_take_nth_drop)
  then have "mset (all_nodes d) = mset (all_nodes (take i d)) + mset (leaf_nodes (d ! i)) + mset (all_nodes (drop (Suc i) d))"
    by (metis (no_types, lifting) add.assoc all_nodes_def concat.simps(2) concat_append list.simps(9) map_append mset_append)
  moreover have "mset (all_nodes (d[i := p])) = mset (all_nodes (take i d)) + mset (leaf_nodes p) + mset (all_nodes (drop (Suc i) d))"
    using assms by (simp add: upd_conv_take_nth_drop all_nodes_def)
  ultimately show ?thesis by simp
qed

section \<open>Changing a leaf\<close>

lemma set_leaf_inv:
  assumes inv: "tree_inv s t" and idx: "idx < length (bt_data t)" "bn_data (bt_data t ! idx) = Leaf lb"
    and new: "length (lb_nodes lb') \<le> 8" "distinct (map nd_id (lb_nodes lb'))" "sorted (map nd_id (lb_nodes lb'))"
      "\<forall>n \<in> set (lb_nodes lb'). within (nd_id n) (bt_data t ! idx)"
    and size: "sz + length (lb_nodes lb) = bt_size t + length (lb_nodes lb')" "sz \<le> bt_max_size t"
  shows "tree_inv s ((set_leaf t idx lb')\<lparr>bt_size := sz\<rparr>)"
    "tree_nodes (set_leaf t idx lb') + mset (lb_nodes lb) = tree_nodes t + mset (lb_nodes lb')"
proof -
  let ?d = "bt_data t" and ?p = "(bt_data t ! idx)\<lparr>bn_data := Leaf lb'\<rparr>"
  note i = tree_invD [OF inv]
  show mm: "tree_nodes (set_leaf t idx lb') + mset (lb_nodes lb) = tree_nodes t + mset (lb_nodes lb')"
    using mset_all_nodes_update [OF idx(1), of ?p] idx(2) by (simp add: set_leaf_def)
  have "shaped (?d[idx := ?p]) s"
    by (rule shaped_leaf_update [OF _ _ _ idx(2) _ i(1), where lb' = lb'])
      (auto simp: nth_list_update same_frame_def idx(1))
  moreover have "node_ok q \<and> leaf_ok q" if "q \<in> set (?d[idx := ?p])" for q
  proof -
    have "node_ok ?p" using i(6) [OF idx(1)] by (simp add: node_ok_def)
    moreover have "leaf_ok ?p" using new by (simp add: leaf_ok_def leaf_nodes_def within_def)
    ultimately show ?thesis
      using that set_update_subset_insert [of ?d idx ?p] i(6,7) inv by (auto simp: tree_inv_def)
  qed
  moreover have "sz = size (mset (all_nodes (?d[idx := ?p])))"
    using arg_cong [OF mm, of size] size(1) i(8) by (simp add: set_leaf_def)
  moreover have "bn_bits (?d[idx := ?p] ! 0) = 160" using i(10) by (cases "idx = 0") (use i(11) in simp_all)
  ultimately show "tree_inv s ((set_leaf t idx lb')\<lparr>bt_size := sz\<rparr>)"
    using i(2,3,4) size(2) by (simp add: tree_inv_def set_leaf_def)
qed

lemma split_leaf_inv:
  fixes now :: nat
  assumes inv: "tree_inv s t" and idx: "idx < length (bt_data t)" "bn_data (bt_data t ! idx) = Leaf lb"
    and bits: "bn_bits (bt_data t ! idx) = Suc k"
    and le: "unat le = unat (bn_start (bt_data t ! idx)) + (2 ^ k - 1)"
    and rs: "unat rs = unat (bn_start (bt_data t ! idx)) + 2 ^ k"
  defines "left \<equiv> \<lparr>bn_bits = k, bn_start = bn_start (bt_data t ! idx), bn_end = le,
      bn_data = Leaf \<lparr>lb_nodes = filter (\<lambda>n. nd_id n < rs) (lb_nodes lb), lb_last_refreshed = now\<rparr>\<rparr>"
    and "right \<equiv> \<lparr>bn_bits = k, bn_start = rs, bn_end = bn_end (bt_data t ! idx),
      bn_data = Leaf \<lparr>lb_nodes = filter (\<lambda>n. \<not> nd_id n < rs) (lb_nodes lb), lb_last_refreshed = now\<rparr>\<rparr>"
  defines "d' \<equiv> (bt_data t @ [left, right])[idx := (bt_data t ! idx)\<lparr>bn_data :=
      LeftRight (length (bt_data t)) (length (bt_data t) + 1)\<rparr>]"
  shows "tree_ok (t\<lparr>bt_data := d'\<rparr>)" "mset (all_nodes d') = tree_nodes t"
    "\<And>x. within x (bt_data t ! idx) \<Longrightarrow> (if x < rs then within x left else within x right)"
    "d' ! length (bt_data t) = left" "d' ! (length (bt_data t) + 1) = right"
    "length d' = length (bt_data t) + 2"
proof -
  let ?d = "bt_data t" and ?n = "length (bt_data t)"
  define p where "p = bt_data t ! idx"
  note i = tree_invD [OF inv]
  have pow: "(0 :: nat) < 2 ^ k" by simp
  have pok: "node_ok p" using i(6) [OF idx(1)] by (simp add: p_def)
  have ends: "unat (bn_end p) = unat (bn_start p) + (2 * 2 ^ k - 1)"
    using pok bits by (simp add: node_ok_def p_def)
  show at: "d' ! ?n = left" "d' ! (?n + 1) = right" "length d' = ?n + 2"
    using idx(1) by (simp_all add: d'_def nth_append)
  have old: "d' ! j = (if j = idx then p\<lparr>bn_data := LeftRight ?n (?n + 1)\<rparr> else ?d ! j)" if "j < ?n" for j
    using that idx(1) by (simp add: d'_def nth_append p_def nth_list_update)
  have dvd: "2 ^ Suc k dvd unat (bn_start p)"
    using pok bits by (simp add: node_ok_def p_def mod_eq_0_iff_dvd)
  then have dvdk: "2 ^ k dvd unat (bn_start p)" by (metis dvd_mult_right power_Suc)
  have lok: "node_ok left"
    using pok bits le dvdk by (simp add: node_ok_def left_def p_def)
  have rok: "node_ok right"
    using pok bits rs ends dvdk pow by (simp add: node_ok_def right_def p_def)
  show w: "if x < rs then within x left else within x right" if "within x (bt_data t ! idx)" for x
  proof -
    have "unat (bn_start p) \<le> unat x" "unat x < unat (bn_start p) + 2 * 2 ^ k"
      using that within_unat [OF pok, of x] bits by (simp_all add: p_def)
    then show ?thesis
      using within_unat [OF lok, of x] within_unat [OF rok, of x] rs
      by (auto simp: left_def right_def p_def word_less_nat_alt)
  qed
  have lbok: "length (lb_nodes lb) \<le> 8" "distinct (map nd_id (lb_nodes lb))" "sorted (map nd_id (lb_nodes lb))"
    "\<forall>n \<in> set (lb_nodes lb). within (nd_id n) p"
    using i(7) [OF idx(1)] idx(2) by (simp_all add: leaf_ok_def p_def)
  have flt: "length (filter P (lb_nodes lb)) \<le> 8" "distinct (map nd_id (filter P (lb_nodes lb)))"
    "sorted (map nd_id (filter P (lb_nodes lb)))" for P
    using lbok(1,2,3) length_filter_le [of P "lb_nodes lb"]
    by (simp_all add: distinct_map_filter sorted_filter del: length_filter_le)
  have leafs: "leaf_ok left" "leaf_ok right"
  proof -
    have "leaf_nodes left = filter (\<lambda>n. nd_id n < rs) (lb_nodes lb)"
      "leaf_nodes right = filter (\<lambda>n. \<not> nd_id n < rs) (lb_nodes lb)"
      by (simp_all add: left_def right_def)
    moreover have "within (nd_id n) left" if "n \<in> set (lb_nodes lb)" "nd_id n < rs" for n
      using w [of "nd_id n"] lbok(4) that by (simp add: p_def)
    moreover have "within (nd_id n) right" if "n \<in> set (lb_nodes lb)" "\<not> nd_id n < rs" for n
      using w [of "nd_id n"] lbok(4) that by (simp add: p_def)
    ultimately show "leaf_ok left" "leaf_ok right" using flt by (simp_all add: leaf_ok_def)
  qed
  have "\<forall>q \<in> set d'. node_ok q \<and> leaf_ok q"
  proof
    fix q assume "q \<in> set d'"
    then obtain j where j: "j < ?n + 2" "q = d' ! j" using at(3) by (auto simp: in_set_conv_nth)
    consider "j < ?n" | "j = ?n" | "j = ?n + 1" using j(1) by linarith
    then show "node_ok q \<and> leaf_ok q"
    proof cases
      case 1
      then show ?thesis
        using j(2) old [OF 1] i(6,7) [OF 1] pok by (auto simp: node_ok_def leaf_ok_def leaf_nodes_def)
    qed (use j at lok rok leafs in simp_all)
  qed
  moreover have "shaped d' (grow idx ?n (?n + 1) s)"
  proof (rule shaped_grow [OF _ _ _ idx(2) _ _ _ _ _ _ i(1)])
    show "halves (d' ! idx) (d' ! ?n) (d' ! (?n + 1))"
      unfolding at old [OF idx(1)] using bits rs by (simp add: halves_def left_def right_def p_def)
    show "\<forall>k<?n. k \<noteq> idx \<longrightarrow> bn_data (d' ! k) = bn_data (?d ! k)" using old by simp
    show "\<forall>k<?n. same_frame (d' ! k) (?d ! k)" using old by (simp add: same_frame_def p_def)
    show "bn_data (d' ! ?n) = Leaf \<lparr>lb_nodes = filter (\<lambda>n. nd_id n < rs) (lb_nodes lb), lb_last_refreshed = now\<rparr>"
      unfolding at by (simp add: left_def)
    show "bn_data (d' ! (?n + 1)) = Leaf \<lparr>lb_nodes = filter (\<lambda>n. \<not> nd_id n < rs) (lb_nodes lb), lb_last_refreshed = now\<rparr>"
      unfolding at by (simp add: right_def)
    show "bn_data (d' ! idx) = LeftRight ?n (?n + 1)" using old [OF idx(1)] by simp
  qed (use at(3) in simp_all)
  moreover have perm: "mset (indices (grow idx ?n (?n + 1) s)) = mset (indices s @ [?n, ?n + 1])"
    using indices_grow [OF i(3), of idx ?n "?n + 1"] shaped_leaf_iff [OF i(1) _ i(3), of idx] idx i(4) by simp
  have "distinct (indices (grow idx ?n (?n + 1) s))"
    using mset_eq_imp_distinct_iff [OF perm] i(3,4) by simp
  moreover have "set (indices (grow idx ?n (?n + 1) s)) = {..<length d'}"
    using mset_eq_setD [OF perm] i(4) at(3) by (simp add: lessThan_Suc insert_commute)
  moreover show nodes: "mset (all_nodes d') = tree_nodes t"
  proof -
    have "mset (all_nodes (?d @ [left, right])) = tree_nodes t + mset (lb_nodes lb)"
      by (simp add: all_nodes_def leaf_nodes_def left_def right_def)
    then show ?thesis
      using mset_all_nodes_update [of idx "?d @ [left, right]"
          "(bt_data t ! idx)\<lparr>bn_data := LeftRight ?n (?n + 1)\<rparr>"] idx
      by (simp add: d'_def nth_append leaf_nodes_def)
  qed
  moreover have "bn_bits (d' ! 0) = 160" using old [OF i(11)] i(10) by (simp add: p_def)
  ultimately show "tree_ok (t\<lparr>bt_data := d'\<rparr>)"
    using i(2,8,9) by (auto simp: tree_ok_def tree_inv_def intro!: exI [of _ "grow idx ?n (?n + 1) s"])
qed

section \<open>Inserting\<close>

text \<open>What an insertion promises about the nodes of the table, \<open>M\<close> before and \<open>M'\<close> after.\<close>

definition insert_spec ::
  "nat \<Rightarrow> id20 \<Rightarrow> socket_addr \<Rightarrow> insert_result \<Rightarrow> rt_node multiset \<Rightarrow> rt_node multiset \<Rightarrow> bool" where
  "insert_spec now i addr res M M' \<longleftrightarrow>
     (case res of
        WasExisting \<Rightarrow> M' = M \<and> (\<exists>r \<in># M. nd_id r = i)
      | Ignored \<Rightarrow> M' = M \<and> (\<forall>r \<in># M. nd_id r \<noteq> i)
      | Added \<Rightarrow> M' = add_mset (new_node i addr) M \<and> (\<forall>r \<in># M. nd_id r \<noteq> i)
      | ReplacedBad b \<Rightarrow> b \<in># M \<and> status now b = Bad \<and> M' = add_mset (new_node i addr) (M - {#b#}) \<and>
          (\<forall>r \<in># M. nd_id r \<noteq> i))"

lemma find_update_first:
  "find P xs = Some x \<Longrightarrow> x \<in> set xs \<and> P x \<and>
    mset (update_first P (\<lambda>_. y) xs) = add_mset y (mset xs - {#x#})"
proof (induction xs)
  case (Cons z xs)
  then show ?case by (cases "P z") (auto simp: diff_union_swap)
qed simp

lemma sort_key_ids:
  "distinct (map f (sort_key f xs)) \<longleftrightarrow> distinct (map f xs)"
  by (metis distinct_map distinct_sort set_sort)

lemma distinct_map_mset: "mset xs = mset ys \<Longrightarrow> distinct (map f xs) \<longleftrightarrow> distinct (map f ys)"
  by (metis mset_eq_imp_distinct_iff mset_map)

lemma full_leaf_has_bits:
  assumes "node_ok p" "distinct (map nd_id ns)" "8 \<le> length ns" "\<forall>n \<in> set ns. within (nd_id n) p"
  shows "bn_bits p \<noteq> 0"
proof
  assume z: "bn_bits p = 0"
  have eq: "unat (nd_id n) = unat (bn_start p)" if "n \<in> set ns" for n
    using assms(1,4) that z within_unat [OF assms(1), of "nd_id n"] by auto
  then have "nd_id n = bn_start p" if "n \<in> set ns" for n using that by (simp add: word_unat_eq_iff)
  then have "set (map nd_id ns) \<subseteq> {bn_start p}" by auto
  then have "card (set (map nd_id ns)) \<le> 1" using card_mono [of "{bn_start p}"] by simp
  then show False using distinct_card [OF assms(2)] assms(3) by simp
qed

declare insert_into_leaf.simps(2) [simp del]

lemma insert_into_leaf_ok:
  "tree_inv s t \<Longrightarrow> idx < length (bt_data t) \<Longrightarrow> bn_data (bt_data t ! idx) = Leaf lb \<Longrightarrow>
   within i (bt_data t ! idx) \<Longrightarrow> bn_bits (bt_data t ! idx) < n \<Longrightarrow>
   \<exists>res t'. insert_into_leaf n now t idx self_id i addr = Some (res, t') \<and> tree_ok t' \<and>
     bt_max_size t' = bt_max_size t \<and> insert_spec now i addr res (tree_nodes t) (tree_nodes t')"
proof (induction n arbitrary: s t idx lb)
  case 0
  then show ?case by simp
next
  case (Suc n)
  note inv = Suc.prems(1) and idx = Suc.prems(2,3) and win = Suc.prems(4)
  note D = tree_invD [OF inv]
  define p where "p = bt_data t ! idx"
  have lok: "length (lb_nodes lb) \<le> 8" "distinct (map nd_id (lb_nodes lb))" "sorted (map nd_id (lb_nodes lb))"
    "\<forall>n \<in> set (lb_nodes lb). within (nd_id n) p"
    using D(7) [OF idx(1)] idx(2) by (simp_all add: leaf_ok_def p_def)
  have ids: "(\<exists>r \<in># tree_nodes t. nd_id r = i) \<longleftrightarrow> (\<exists>r \<in> set (lb_nodes lb). nd_id r = i)"
    using id_in_leaf [OF inv idx win] by (simp only: set_mset_mset) blast
  note step = insert_into_leaf.simps(2) [of n now t idx self_id i addr,
      unfolded get_nth [OF idx(1)] option.case idx(2) node_data.case, folded p_def]
  have tok: "tree_ok t" using inv by (auto simp: tree_ok_def)
  show ?case
  proof (cases "\<exists>r \<in> set (lb_nodes lb). nd_id r = i")
    case True
    then show ?thesis using tok ids by (simp add: step insert_spec_def)
  next
    case fresh: False
    then have new: "\<forall>r \<in># tree_nodes t. nd_id r \<noteq> i" using ids by blast
    have win': "within (nd_id (new_node i addr)) p" using win by (simp add: new_node_def p_def)
    have nid: "nd_id (new_node i addr) = i" by (simp add: new_node_def)
    show ?thesis
    proof (cases "find (\<lambda>r. status now r = Bad) (lb_nodes lb)")
      case (Some bad)
      note f = find_update_first [OF Some, of "new_node i addr"]
      define ns where "ns = update_first (\<lambda>r. status now r = Bad) (\<lambda>_. new_node i addr) (lb_nodes lb)"
      define lb' where "lb' = \<lparr>lb_nodes = sort_key nd_id ns, lb_last_refreshed = now\<rparr>"
      have m: "mset ns = add_mset (new_node i addr) (mset (lb_nodes lb) - {#bad#})" using f by (simp add: ns_def)
      have len: "length ns = length (lb_nodes lb)"
        using arg_cong [OF m, of size] f by (simp add: size_Diff_singleton) (metis One_nat_def Suc_pred length_pos_if_in_set)
      have "mset (lb_nodes lb) - {#bad#} \<subseteq># mset (lb_nodes lb)" by simp
      then obtain rest where rest: "mset rest = mset (lb_nodes lb) - {#bad#}" "set rest \<subseteq> set (lb_nodes lb)"
        by (metis ex_mset mset_subset_eqD set_mset_mset subsetI)
      have "mset (bad # rest) = mset (lb_nodes lb)" using rest(1) f by simp
      then have "distinct (map nd_id (bad # rest))" using distinct_map_mset lok(2) by metis
      then have "distinct (map nd_id (new_node i addr # rest))" using fresh rest(2) nid by auto
      then have "distinct (map nd_id ns)" using distinct_map_mset [of ns "new_node i addr # rest" nd_id] m rest(1) by simp
      moreover have "set ns = insert (new_node i addr) (set rest)"
        using mset_eq_setD [of ns "new_node i addr # rest"] m rest(1) by simp
      ultimately have lb': "length (lb_nodes lb') \<le> 8" "distinct (map nd_id (lb_nodes lb'))"
        "sorted (map nd_id (lb_nodes lb'))" "\<forall>n \<in> set (lb_nodes lb'). within (nd_id n) (bt_data t ! idx)"
        using lok len win' rest(2) by (auto simp: lb'_def sort_key_ids p_def)
      have "tree_inv s ((set_leaf t idx lb')\<lparr>bt_size := bt_size t\<rparr>)"
        by (rule set_leaf_inv(1) [OF inv idx lb']) (use len D(9) in \<open>simp_all add: lb'_def\<close>)
      then have "tree_ok (set_leaf t idx lb')" by (auto simp: tree_ok_def set_leaf_def)
      moreover have "tree_nodes (set_leaf t idx lb') = add_mset (new_node i addr) (tree_nodes t - {#bad#})"
      proof -
        have "tree_nodes (set_leaf t idx lb') + mset (lb_nodes lb) = tree_nodes t + mset (lb_nodes lb')"
          by (rule set_leaf_inv(2) [OF inv idx lb', of "bt_size t"]) (use len D(9) in \<open>simp_all add: lb'_def\<close>)
        moreover have "mset (lb_nodes lb) = add_mset bad (mset rest)" using rest(1) f by simp
        moreover have "mset (lb_nodes lb') = add_mset (new_node i addr) (mset rest)" using m rest(1) by (simp add: lb'_def)
        ultimately have "add_mset bad (tree_nodes (set_leaf t idx lb')) = add_mset (new_node i addr) (tree_nodes t)"
          by simp
        moreover have "bad \<in># tree_nodes t" using f idx by (auto simp: in_all_nodes)
        then obtain T0 where "tree_nodes t = add_mset bad T0" by (metis insert_DiffM)
        ultimately show ?thesis by (simp add: add_mset_commute)
      qed
      moreover have "bad \<in># tree_nodes t" using f idx by (auto simp: in_all_nodes)
      ultimately show ?thesis
        using fresh Some f new by (simp add: step insert_spec_def lb'_def ns_def) (simp add: set_leaf_def)
    next
      case nobad: None
      show ?thesis
      proof (cases "bt_size t = bt_max_size t")
        case True
        then show ?thesis using fresh nobad tok new by (simp add: step insert_spec_def)
      next
        case notfull: False
        show ?thesis
        proof (cases "length (lb_nodes lb) < 8")
          case True
          define lb' where "lb' = \<lparr>lb_nodes = sort_key nd_id (lb_nodes lb @ [new_node i addr]), lb_last_refreshed = now\<rparr>"
          have lb': "length (lb_nodes lb') \<le> 8" "distinct (map nd_id (lb_nodes lb'))"
            "sorted (map nd_id (lb_nodes lb'))" "\<forall>n \<in> set (lb_nodes lb'). within (nd_id n) (bt_data t ! idx)"
            using lok True win' fresh nid by (auto simp: lb'_def sort_key_ids p_def)
          have sz: "bt_size t + 1 + length (lb_nodes lb) = bt_size t + length (lb_nodes lb')"
            "bt_size t + 1 \<le> bt_max_size t" using notfull D(9) by (simp_all add: lb'_def)
          note upd = set_leaf_inv [OF inv idx lb' sz]
          have "tree_nodes (set_leaf t idx lb') = add_mset (new_node i addr) (tree_nodes t)"
            using upd(2) by (simp add: lb'_def)
          then show ?thesis
            using fresh nobad notfull True new upd(1)
            by (auto simp: step insert_spec_def lb'_def tree_ok_def set_leaf_def)
        next
          case full: False
          show ?thesis
          proof (cases "self_id < bn_start p \<or> self_id > bn_end p")
            case True
            then show ?thesis using fresh nobad notfull full tok new by (simp add: step insert_spec_def)
          next
            case False
            have "bn_bits p \<noteq> 0"
              using full_leaf_has_bits [OF _ lok(2) _ lok(4)] D(6) [OF idx(1)] full by (simp add: p_def)
            then obtain k where k: "bn_bits p = Suc k" by (cases "bn_bits p") simp_all
            obtain le rs where sp: "compute_split_start_end (bn_start p) (bn_end p) (bn_bits p) =
                Some ((bn_start p, le), (rs, bn_end p))"
              "unat le = unat (bn_start p) + (2 ^ k - 1)" "unat rs = unat (bn_start p) + 2 ^ k"
              using compute_split_ok [OF _ k] D(6) [OF idx(1)] by (auto simp: p_def)
            note sl = split_leaf_inv [OF inv idx k [unfolded p_def] sp(2,3) [unfolded p_def], where now = now, folded p_def]
            let ?n = "length (bt_data t)"
            define d' where "d' = (bt_data t @
              [\<lparr>bn_bits = k, bn_start = bn_start p, bn_end = le,
                 bn_data = Leaf \<lparr>lb_nodes = filter (\<lambda>n. nd_id n < rs) (lb_nodes lb), lb_last_refreshed = now\<rparr>\<rparr>,
               \<lparr>bn_bits = k, bn_start = rs, bn_end = bn_end p,
                 bn_data = Leaf \<lparr>lb_nodes = filter (\<lambda>n. \<not> nd_id n < rs) (lb_nodes lb), lb_last_refreshed = now\<rparr>\<rparr>])
              [idx := p\<lparr>bn_data := LeftRight ?n (?n + 1)\<rparr>]"
            define j where "j = (if i < rs then ?n else ?n + 1)"
            define t1 where "t1 = t\<lparr>bt_data := d'\<rparr>"
            have eq: "insert_into_leaf (Suc n) now t idx self_id i addr =
                insert_into_leaf n now t1 j self_id i addr"
              using fresh nobad notfull full False sp(1)
              by (simp add: step k t1_def d'_def j_def Let_def)
            obtain s1 where s1: "tree_inv s1 t1" using sl(1) by (auto simp: tree_ok_def t1_def d'_def)
            have j: "j < length (bt_data t1)" "\<exists>lb. bn_data (bt_data t1 ! j) = Leaf lb"
              "within i (bt_data t1 ! j)" "bn_bits (bt_data t1 ! j) = k"
              using sl(3) [OF win [folded p_def]] sl(4,5,6)
              by (simp_all add: j_def t1_def d'_def split: if_splits)
            have "k < n" using Suc.prems(5) k by (simp add: p_def)
            moreover have "tree_nodes t1 = tree_nodes t" "bt_max_size t1 = bt_max_size t"
              using sl(2) by (simp_all add: t1_def d'_def)
            ultimately show ?thesis
              using Suc.IH [OF s1 j(1) _ j(3)] j(2,4) eq by auto
          qed
        qed
      qed
    qed
  qed
qed

lemma bits_bound: "tree_inv s t \<Longrightarrow> k < length (bt_data t) \<Longrightarrow> bn_bits (bt_data t ! k) < 161"
  using tree_invD(6) [of s t k] by (simp add: node_ok_def)

lemma tree_add_node_ok:
  assumes "tree_ok t"
  shows "\<exists>res t'. tree_add_node now t self_id i addr = Some (res, t') \<and> tree_ok t' \<and>
    bt_max_size t' = bt_max_size t \<and> insert_spec now i addr res (tree_nodes t) (tree_nodes t')"
proof -
  obtain s where inv: "tree_inv s t" using assms by (auto simp: tree_ok_def)
  from get_leaf_eq [OF inv, of i] obtain j lb where
    j: "get_leaf t i = Some j" "j < length (bt_data t)" "bn_data (bt_data t ! j) = Leaf lb"
      "within i (bt_data t ! j)" by metis
  then show ?thesis
    using insert_into_leaf_ok [OF inv j(2,3,4) bits_bound [OF inv j(2)]] by (simp add: tree_add_node_def)
qed

lemma tree_new_ok: "tree_ok (bucket_tree_new now max_size)"
proof -
  have "unat (- 1 :: id20) = 2 ^ 160 - 1"
    by (simp only: unsigned_minus_1_eq_mask mask_eq_exp_minus_1) simp
  then have "node_ok \<lparr>bn_bits = 160, bn_start = 0, bn_end = - 1, bn_data = Leaf \<lparr>lb_nodes = [], lb_last_refreshed = now\<rparr>\<rparr>"
    by (simp add: node_ok_def)
  then have "tree_inv (SLeaf 0) (bucket_tree_new now max_size)"
    by (auto simp: tree_inv_def bucket_tree_new_def leaf_ok_def leaf_nodes_def all_nodes_def lessThan_Suc)
  then show ?thesis unfolding tree_ok_def by blast
qed

section \<open>Looking up and iterating\<close>

lemma mset_update_first:
  "distinct (map nd_id ns) \<Longrightarrow> r \<in> set ns \<Longrightarrow> nd_id r = i \<Longrightarrow>
    mset (update_first (\<lambda>b. nd_id b = i) f ns) = add_mset (f r) (mset ns - {#r#})"
proof (induction ns)
  case (Cons n ns)
  show ?case
  proof (cases "nd_id n = i")
    case True
    have "r = n"
    proof (rule ccontr)
      assume "r \<noteq> n"
      then have "nd_id r \<in> set (map nd_id ns)" using Cons.prems(2) by auto
      then show False using Cons.prems(1,3) True by simp
    qed
    then show ?thesis using True by simp
  next
    case False
    then have r: "r \<in> set ns" "r \<noteq> n" using Cons.prems by auto
    then have "mset (update_first (\<lambda>b. nd_id b = i) f ns) = add_mset (f r) (mset ns - {#r#})"
      using Cons.IH Cons.prems by simp
    moreover have "add_mset n (mset ns - {#r#}) = add_mset n (mset ns) - {#r#}"
      using r(2) by (rule diff_union_swap)
    ultimately show ?thesis using False by (simp add: add_mset_commute)
  qed
qed simp

lemma map_id_update_first:
  "(\<And>b. nd_id (f b) = nd_id b) \<Longrightarrow> map nd_id (update_first P f ns) = map nd_id ns"
  by (induction ns) simp_all

lemma tree_get_mut_ok:
  assumes ok: "tree_ok t" and f: "\<And>b. nd_id (f b) = nd_id b"
  shows "(\<exists>r \<in># tree_nodes t. nd_id r = i \<and> (\<exists>t'. tree_get_mut now t i refresh f = Some (Some t') \<and>
      tree_ok t' \<and> bt_max_size t' = bt_max_size t \<and> bt_size t' = bt_size t \<and>
      tree_nodes t' = add_mset (f r) (tree_nodes t - {#r#}))) \<or>
    ((\<forall>r \<in># tree_nodes t. nd_id r \<noteq> i) \<and> tree_get_mut now t i refresh f = Some None)"
proof -
  obtain s where inv: "tree_inv s t" using ok by (auto simp: tree_ok_def)
  note D = tree_invD [OF inv]
  from get_leaf_eq [OF inv, of i] obtain j lb where
    j: "get_leaf t i = Some j" "j < length (bt_data t)" "bn_data (bt_data t ! j) = Leaf lb"
      "within i (bt_data t ! j)" by metis
  have ids: "r \<in># tree_nodes t \<and> nd_id r = i \<longleftrightarrow> r \<in> set (lb_nodes lb) \<and> nd_id r = i" for r
    using id_in_leaf [OF inv j(2,3,4)] by simp
  show ?thesis
  proof (cases "\<exists>r \<in> set (lb_nodes lb). nd_id r = i")
    case False
    then show ?thesis using ids j by (simp add: tree_get_mut_def) blast
  next
    case True
    then obtain r where r: "r \<in> set (lb_nodes lb)" "nd_id r = i" by blast
    have lok: "length (lb_nodes lb) \<le> 8" "distinct (map nd_id (lb_nodes lb))" "sorted (map nd_id (lb_nodes lb))"
      "\<forall>n \<in> set (lb_nodes lb). within (nd_id n) (bt_data t ! j)"
      using D(7) [OF j(2)] j(3) by (simp_all add: leaf_ok_def)
    define ns where "ns = update_first (\<lambda>b. nd_id b = i) f (lb_nodes lb)"
    define lb' where "lb' = \<lparr>lb_nodes = ns, lb_last_refreshed = (if refresh then now else lb_last_refreshed lb)\<rparr>"
    have map: "map nd_id ns = map nd_id (lb_nodes lb)" using map_id_update_first [OF f] by (simp add: ns_def)
    then have len: "length ns = length (lb_nodes lb)" by (metis length_map)
    have win: "\<forall>n \<in> set ns. within (nd_id n) (bt_data t ! j)"
      using lok(4) arg_cong [OF map, of set] by (force simp: image_iff set_eq_iff)
    have lb': "length (lb_nodes lb') \<le> 8" "distinct (map nd_id (lb_nodes lb'))"
      "sorted (map nd_id (lb_nodes lb'))" "\<forall>n \<in> set (lb_nodes lb'). within (nd_id n) (bt_data t ! j)"
      using lok map len win by (simp_all add: lb'_def)
    have sz: "bt_size t + length (lb_nodes lb) = bt_size t + length (lb_nodes lb')" "bt_size t \<le> bt_max_size t"
      using len D(9) by (simp_all add: lb'_def)
    note upd = set_leaf_inv [OF inv j(2,3) lb' sz]
    have "tree_nodes (set_leaf t j lb') = add_mset (f r) (tree_nodes t - {#r#})"
    proof -
      have "mset ns = add_mset (f r) (mset (lb_nodes lb) - {#r#})"
        unfolding ns_def by (rule mset_update_first [OF lok(2) r])
      moreover obtain L where "mset (lb_nodes lb) = add_mset r L" using r(1) by (metis insert_DiffM set_mset_mset)
      moreover obtain T where "tree_nodes t = add_mset r T" using ids r by (metis insert_DiffM)
      ultimately show ?thesis using upd(2) by (simp add: lb'_def add_mset_commute)
    qed
    moreover have "tree_ok (set_leaf t j lb')" using upd(1) by (auto simp: tree_ok_def set_leaf_def)
    moreover have "tree_get_mut now t i refresh f = Some (Some (set_leaf t j lb'))"
      using j True by (simp add: tree_get_mut_def lb'_def ns_def)
    moreover have "bt_max_size (set_leaf t j lb') = bt_max_size t" "bt_size (set_leaf t j lb') = bt_size t"
      by (simp_all add: set_leaf_def)
    ultimately show ?thesis using ids r by blast
  qed
qed

lemma mset_concat_map: "mset (concat (map f xs)) = (\<Sum>k\<in>#mset xs. mset (f k))"
  by (induction xs) simp_all

lemma mset_leaves:
  "shaped d s \<Longrightarrow> (\<Sum>k\<in>#mset (leaves s). mset (leaf_nodes (d ! k))) = (\<Sum>k\<in>#mset (indices s). mset (leaf_nodes (d ! k)))"
  by (induction s) auto

lemma tree_iter_ok:
  assumes "tree_ok t"
  shows "\<exists>ns. tree_iter t = Some ns \<and> mset ns = tree_nodes t"
proof -
  obtain s where inv: "tree_inv s t" using assms by (auto simp: tree_ok_def)
  note D = tree_invD [OF inv]
  let ?d = "bt_data t"
  have "iter_leaves_from (length (indices s) + 1) ?d (s_root s # []) = Some (map ((!) ?d) (leaves s))"
    using iter_leaves_from_eq [OF D(1), of 1 "[]"] by simp
  then have it: "tree_iter t = Some (concat (map (\<lambda>k. leaf_nodes (?d ! k)) (leaves s)))"
    using D(2) length_indices [OF inv] by (simp add: tree_iter_def iter_leaves_def comp_def)
  have "mset (indices s) = mset [0..<length ?d]"
    using D(3,4) by (intro set_eq_iff_mset_eq_distinct [THEN iffD1]) (auto simp: lessThan_atLeast0)
  then have "mset (concat (map (\<lambda>k. leaf_nodes (?d ! k)) (leaves s))) =
      mset (concat (map (\<lambda>k. leaf_nodes (?d ! k)) [0..<length ?d]))"
    unfolding mset_concat_map mset_leaves [OF D(1)] by simp
  also have "map (\<lambda>k. leaf_nodes (?d ! k)) [0..<length ?d] = map leaf_nodes ?d"
    by (rule nth_equalityI) simp_all
  finally show ?thesis using it by (simp add: all_nodes_def)
qed

lemma tree_ids_unique:
  assumes ok: "tree_ok t" and "r \<in># tree_nodes t" "q \<in># tree_nodes t" "nd_id r = nd_id q"
  shows "r = q"
proof -
  obtain s where inv: "tree_inv s t" using ok by (auto simp: tree_ok_def)
  from get_leaf_eq [OF inv, of "nd_id q"] obtain j lb where
    j: "j < length (bt_data t)" "bn_data (bt_data t ! j) = Leaf lb" "within (nd_id q) (bt_data t ! j)" by metis
  have "r \<in> set (lb_nodes lb)" "q \<in> set (lb_nodes lb)"
    using id_in_leaf [OF inv j] assms(2,3,4) by auto
  moreover have "distinct (map nd_id (lb_nodes lb))" using tree_invD(7) [OF inv j(1)] j(2) by (simp add: leaf_ok_def)
  ultimately show ?thesis using assms(4) by (auto simp: distinct_map inj_on_def)
qed

section \<open>Random identifiers\<close>

lemma bit_copy_bits:
  "n < 160 \<Longrightarrow> \<forall>k \<in> set ks. k < 160 \<Longrightarrow>
    bit (copy_bits start ks data) n = (if 159 - n \<in> set ks then bit start n else bit data n)"
proof (induction ks arbitrary: data)
  case (Cons k ks)
  have k: "k < 160" using Cons.prems by simp
  have "bit (word_set_bit data k (bit start (159 - k))) n = (if n = 159 - k then bit start n else bit data n)"
    using Cons.prems(1) by (auto simp: word_set_bit_def bit_set_bit_iff bit_unset_bit_iff possible_bit_word)
  moreover have "n = 159 - k \<longleftrightarrow> k = 159 - n" using k Cons.prems(1) by linarith
  ultimately show ?case using Cons.IH [of "word_set_bit data k (bit start (159 - k))"] Cons.prems by auto
qed simp

lemma random_id_within:
  assumes "node_ok p"
  shows "within (generate_random_id random (bn_start p) (bn_bits p)) p"
proof -
  define b where "b = bn_bits p"
  define w where "w = generate_random_id random (bn_start p) b"
  have b: "b \<le> 160" using assms by (simp add: node_ok_def b_def)
  have "bit w n = bit (bn_start p) n" if "b \<le> n" "n < 160" for n
    using that b unfolding w_def generate_random_id_def by (subst bit_copy_bits) auto
  then have eq: "bit w n = bit (bn_start p) n" if "b \<le> n" for n
    using that by (cases "n < 160") (auto dest: bit_imp_le_length)
  have "drop_bit b w = drop_bit b (bn_start p)"
    by (rule bit_eqI) (simp add: bit_drop_bit_eq eq)
  then have "unat (drop_bit b w) = unat (drop_bit b (bn_start p))" by (rule arg_cong)
  then have "unat w div 2 ^ b = unat (bn_start p) div 2 ^ b"
    by (simp add: unat_drop_bit_eq) (simp add: drop_bit_eq_div)
  moreover have "unat (bn_start p) = 2 ^ b * (unat (bn_start p) div 2 ^ b)"
    using assms mult_div_mod_eq [of "2 ^ b" "unat (bn_start p)"] by (simp add: node_ok_def b_def)
  ultimately have "unat w = unat (bn_start p) + unat w mod 2 ^ b"
    using mult_div_mod_eq [of "2 ^ b" "unat w"] by metis
  moreover have "unat w mod 2 ^ b < 2 ^ b" by simp
  ultimately have "unat (bn_start p) \<le> unat w" "unat w < unat (bn_start p) + 2 ^ b" by linarith+
  then show ?thesis
    unfolding within_unat [OF assms] b_def [symmetric] w_def [symmetric] by simp
qed

section \<open>Histories of a table\<close>

datatype rt_op =
    RtAdd nat id20 socket_addr
  | RtOutgoing nat id20
  | RtResponse nat id20
  | RtError nat id20
  | RtQuery nat id20

fun rt_apply :: "routing_table \<Rightarrow> rt_op \<Rightarrow> routing_table option" where
  "rt_apply rt (RtAdd now i addr) = map_option snd (rt_add_node now rt i addr)"
| "rt_apply rt (RtOutgoing now i) = map_option snd (rt_mark_outgoing_request now rt i)"
| "rt_apply rt (RtResponse now i) = map_option snd (rt_mark_response now rt i)"
| "rt_apply rt (RtError now i) = map_option snd (rt_mark_error now rt i)"
| "rt_apply rt (RtQuery now i) = map_option snd (rt_mark_last_query now rt i)"

fun rt_run :: "routing_table \<Rightarrow> rt_op list \<Rightarrow> routing_table option" where
  "rt_run rt [] = Some rt"
| "rt_run rt (op # ops) = Option.bind (rt_apply rt op) (\<lambda>rt'. rt_run rt' ops)"

abbreviation rt_nodes :: "routing_table \<Rightarrow> rt_node multiset" where
  "rt_nodes rt \<equiv> tree_nodes (rt_buckets rt)"

lemma rt_add_node_ok:
  assumes "tree_ok (rt_buckets rt)"
  shows "\<exists>res rt'. rt_add_node now rt i addr = Some (res, rt') \<and> tree_ok (rt_buckets rt') \<and>
    bt_max_size (rt_buckets rt') = bt_max_size (rt_buckets rt) \<and>
    insert_spec now i addr res (rt_nodes rt) (rt_nodes rt')"
  using tree_add_node_ok [OF assms, of now "rt_id rt" i addr] by (auto simp: rt_add_node_def Let_def)

lemma rt_mark_ok:
  assumes "tree_ok (rt_buckets rt)" "\<And>b. nd_id (f b) = nd_id b"
  shows "\<exists>found rt'. rt_mark now refresh f rt i = Some (found, rt') \<and> tree_ok (rt_buckets rt') \<and>
    bt_max_size (rt_buckets rt') = bt_max_size (rt_buckets rt) \<and>
    (found \<longleftrightarrow> (\<exists>r \<in># rt_nodes rt. nd_id r = i)) \<and>
    (if found then \<exists>r \<in># rt_nodes rt. nd_id r = i \<and> rt_nodes rt' = add_mset (f r) (rt_nodes rt - {#r#})
     else rt' = rt)"
  using tree_get_mut_ok [OF assms, of i now refresh] assms(1)
proof (elim disjE)
  assume "\<exists>r \<in># rt_nodes rt. nd_id r = i \<and> (\<exists>t'. tree_get_mut now (rt_buckets rt) i refresh f = Some (Some t') \<and>
      tree_ok t' \<and> bt_max_size t' = bt_max_size (rt_buckets rt) \<and> bt_size t' = bt_size (rt_buckets rt) \<and>
      tree_nodes t' = add_mset (f r) (rt_nodes rt - {#r#}))"
  then obtain r t' where "r \<in># rt_nodes rt" "nd_id r = i"
    "tree_get_mut now (rt_buckets rt) i refresh f = Some (Some t')" "tree_ok t'"
    "bt_max_size t' = bt_max_size (rt_buckets rt)" "tree_nodes t' = add_mset (f r) (rt_nodes rt - {#r#})" by blast
  then show ?thesis by (intro exI [of _ True] exI [of _ "rt\<lparr>rt_buckets := t'\<rparr>"]) (auto simp: rt_mark_def)
qed (auto simp: rt_mark_def)

lemma node_mark_ids [simp]:
  "nd_id (node_mark_outgoing_request now b) = nd_id b" "nd_id (node_mark_response now b) = nd_id b"
  "nd_id (node_mark_error b) = nd_id b" "nd_id (node_mark_last_query now b) = nd_id b"
  by (simp_all add: node_mark_outgoing_request_def node_mark_response_def node_mark_error_def
      node_mark_last_query_def)

lemma rt_apply_ok:
  assumes "tree_ok (rt_buckets rt)"
  shows "\<exists>rt'. rt_apply rt op = Some rt' \<and> tree_ok (rt_buckets rt') \<and>
    bt_max_size (rt_buckets rt') = bt_max_size (rt_buckets rt)"
proof (cases op)
  case (RtAdd now i addr)
  then show ?thesis using rt_add_node_ok [OF assms, of now i addr] by auto
next
  case (RtOutgoing now i)
  then show ?thesis
    using rt_mark_ok [OF assms, of "node_mark_outgoing_request now" now False i]
    by (auto simp: rt_mark_outgoing_request_def)
next
  case (RtResponse now i)
  then show ?thesis
    using rt_mark_ok [OF assms, of "node_mark_response now" now True i] by (auto simp: rt_mark_response_def)
next
  case (RtError now i)
  then show ?thesis
    using rt_mark_ok [OF assms, of node_mark_error now False i] by (auto simp: rt_mark_error_def)
next
  case (RtQuery now i)
  then show ?thesis
    using rt_mark_ok [OF assms, of "node_mark_last_query now" now False i] by (auto simp: rt_mark_last_query_def)
qed

lemma rt_run_ok:
  "tree_ok (rt_buckets rt) \<Longrightarrow> \<exists>rt'. rt_run rt ops = Some rt' \<and> tree_ok (rt_buckets rt') \<and>
    bt_max_size (rt_buckets rt') = bt_max_size (rt_buckets rt)"
proof (induction ops arbitrary: rt)
  case (Cons op ops)
  from rt_apply_ok [OF Cons.prems, of op] obtain rt1 where
    1: "rt_apply rt op = Some rt1" "tree_ok (rt_buckets rt1)"
      "bt_max_size (rt_buckets rt1) = bt_max_size (rt_buckets rt)" by blast
  from Cons.IH [OF 1(2)] 1(1,3) show ?case by auto
qed simp

definition rt_history :: "nat \<Rightarrow> id20 \<Rightarrow> nat option \<Rightarrow> rt_op list \<Rightarrow> routing_table option" where
  "rt_history t0 me max_size ops = rt_run (routing_table_new t0 me max_size) ops"

lemma history_ok: "rt_history t0 me max_size ops = Some rt \<Longrightarrow> tree_ok (rt_buckets rt)"
  using rt_run_ok [of "routing_table_new t0 me max_size" ops] tree_new_ok
  by (auto simp: rt_history_def routing_table_new_def)

lemma history_max:
  "rt_history t0 me max_size ops = Some rt \<Longrightarrow>
    bt_max_size (rt_buckets rt) = (case max_size of Some m \<Rightarrow> m | None \<Rightarrow> DEFAULT_MAX_SIZE)"
  using rt_run_ok [of "routing_table_new t0 me max_size" ops] tree_new_ok
  by (auto simp: rt_history_def routing_table_new_def bucket_tree_new_def)

lemma ids_distinct:
  assumes "tree_ok t" "mset ns = tree_nodes t"
  shows "distinct (map nd_id ns)"
proof -
  obtain s where inv: "tree_inv s t" using assms(1) by (auto simp: tree_ok_def)
  note D = tree_invD [OF inv]
  have leaf: "distinct (map nd_id (leaf_nodes (bt_data t ! k)))" if "k < length (bt_data t)" for k
    using D(7) [OF that] by (simp add: leaf_ok_def)
  have "distinct (map nd_id (concat (map leaf_nodes (take k (bt_data t)))))"
    if "k \<le> length (bt_data t)" for k
    using that
  proof (induction k)
    case (Suc k)
    let ?d = "bt_data t"
    have k: "k < length ?d" using Suc.prems by simp
    have "nd_id r \<noteq> nd_id q"
      if r: "r \<in> set (concat (map leaf_nodes (take k ?d)))" and q: "q \<in> set (leaf_nodes (?d ! k))" for r q
    proof
      assume eq: "nd_id r = nd_id q"
      from r obtain j where j: "j < k" "r \<in> set (leaf_nodes (?d ! j))"
        by (auto simp: in_set_conv_nth [of _ "take k ?d"])
      then obtain lj where lj: "bn_data (?d ! j) = Leaf lj" by (cases "bn_data (?d ! j)") simp_all
      obtain lk where lk: "bn_data (?d ! k) = Leaf lk" using q by (cases "bn_data (?d ! k)") simp_all
      have jl: "j < length ?d" using j(1) k by simp
      have "within (nd_id r) (?d ! j)" using D(7) [OF jl] j(2) by (simp add: leaf_ok_def)
      moreover have "within (nd_id r) (?d ! k)" using D(7) [OF k] q eq by (simp add: leaf_ok_def)
      ultimately have "j = k" using leaf_unique [OF inv jl lj _ k lk, of "nd_id r"] by blast
      then show False using j(1) by simp
    qed
    then show ?case
      using Suc.IH k leaf [OF k] by (fastforce simp: take_Suc_conv_app_nth)
  qed simp
  from this [of "length (bt_data t)"] have "distinct (map nd_id (all_nodes (bt_data t)))"
    by (simp add: all_nodes_def)
  then show ?thesis using distinct_map_mset [OF assms(2), of nd_id] by simp
qed

lemma iter_leaves_ok:
  assumes "tree_inv s t"
  shows "iter_leaves t = Some (map ((!) (bt_data t)) (leaves s))"
  using iter_leaves_from_eq [OF tree_invD(1) [OF assms], of 1 "[]"] tree_invD(2) [OF assms]
    length_indices [OF assms]
  by (simp add: iter_leaves_def)

text \<open>
  C32: every history of insertions and status updates runs to its end: no index is out of range, no
  arm is unreachable, no loop is stuck. The table it leaves lists every node once, with pairwise
  different identifiers, and never more nodes than its maximal size.
\<close>
theorem table_run_safe:
  "\<exists>rt ns. rt_history t0 me max_size ops = Some rt \<and> tree_iter (rt_buckets rt) = Some ns \<and>
    distinct (map nd_id ns) \<and> length ns = bt_size (rt_buckets rt) \<and>
    length ns \<le> (case max_size of Some m \<Rightarrow> m | None \<Rightarrow> 512)"
proof -
  obtain rt where rt: "rt_history t0 me max_size ops = Some rt"
    using rt_run_ok [of "routing_table_new t0 me max_size" ops] tree_new_ok
    by (auto simp: rt_history_def routing_table_new_def)
  note ok = history_ok [OF rt]
  obtain ns where ns: "tree_iter (rt_buckets rt) = Some ns" "mset ns = rt_nodes rt"
    using tree_iter_ok [OF ok] by blast
  obtain s where inv: "tree_inv s (rt_buckets rt)" using ok by (auto simp: tree_ok_def)
  have "length ns = bt_size (rt_buckets rt)"
    using tree_invD(8) [OF inv] arg_cong [OF ns(2), of size] by simp
  moreover have "bt_size (rt_buckets rt) \<le> (case max_size of Some m \<Rightarrow> m | None \<Rightarrow> 512)"
    using tree_invD(9) [OF inv] history_max [OF rt] by (simp add: DEFAULT_MAX_SIZE_def split: option.splits)
  ultimately show ?thesis using rt ns(1) ids_distinct [OF ok ns(2)] by auto
qed

text \<open>
  C33: insertion refines its contract on the set of nodes. In every reachable table an identifier that
  is there is reported as existing and nothing changes; a new one either replaces one bad node, is
  added, or is ignored, and in each case the other nodes stay as they are.
\<close>
theorem add_node_refines:
  assumes "rt_history t0 me max_size ops = Some rt"
  shows "\<exists>res rt' ns ns'. rt_add_node now rt i addr = Some (res, rt') \<and>
    tree_iter (rt_buckets rt) = Some ns \<and> tree_iter (rt_buckets rt') = Some ns' \<and>
    insert_spec now i addr res (mset ns) (mset ns')"
proof -
  note ok = history_ok [OF assms]
  from rt_add_node_ok [OF ok, of now i addr] obtain res rt' where
    r: "rt_add_node now rt i addr = Some (res, rt')" "tree_ok (rt_buckets rt')"
      "insert_spec now i addr res (rt_nodes rt) (rt_nodes rt')" by blast
  from tree_iter_ok [OF ok] tree_iter_ok [OF r(2)] r show ?thesis by fastforce
qed

text \<open>
  The leaves of a reachable table partition the identifiers: every identifier lies in the range of
  exactly one leaf. A leaf holds at most eight nodes, all of its own range, in the order of their
  identifiers, and the random identifier that refreshes a leaf lies in the range of that leaf.
\<close>
theorem buckets_partition_ids:
  assumes "rt_history t0 me max_size ops = Some rt"
  shows "\<exists>ls. iter_leaves (rt_buckets rt) = Some ls \<and>
    (\<exists>!k. k < length ls \<and> bn_start (ls ! k) \<le> x \<and> x \<le> bn_end (ls ! k)) \<and>
    (\<forall>l \<in> set ls. length (leaf_nodes l) \<le> 8 \<and> sorted (map nd_id (leaf_nodes l)) \<and>
      (\<forall>n \<in> set (leaf_nodes l). bn_start l \<le> nd_id n \<and> nd_id n \<le> bn_end l) \<and>
      (let r = generate_random_id random (bn_start l) (bn_bits l) in bn_start l \<le> r \<and> r \<le> bn_end l))"
proof -
  obtain s where inv: "tree_inv s (rt_buckets rt)" using history_ok [OF assms] by (auto simp: tree_ok_def)
  let ?t = "rt_buckets rt" and ?ls = "map ((!) (bt_data (rt_buckets rt))) (leaves s)"
  note D = tree_invD [OF inv]
  have leaf: "k \<in> set (leaves s) \<longleftrightarrow> k < length (bt_data ?t) \<and> (\<exists>lb. bn_data (bt_data ?t ! k) = Leaf lb)" for k
    using shaped_leaf_iff [OF D(1) _ D(3), of k] D(4) leaves_in [of s] by blast
  from get_leaf_eq [OF inv, of x] obtain j lb where j: "j < length (bt_data ?t)"
    "bn_data (bt_data ?t ! j) = Leaf lb" "within x (bt_data ?t ! j)" by metis
  then obtain k where k: "k < length (leaves s)" "leaves s ! k = j" using leaf by (metis in_set_conv_nth)
  have "\<exists>!k. k < length ?ls \<and> within x (?ls ! k)"
  proof (rule ex1I [of _ k])
    show "k < length ?ls \<and> within x (?ls ! k)" using k j by simp
    fix k' assume k': "k' < length ?ls \<and> within x (?ls ! k')"
    then have "leaves s ! k' = j" using leaf_unique [OF inv _ _ _ j] leaf [of "leaves s ! k'"] by auto
    then show "k' = k" using nth_eq_iff_index_eq [OF leaves_distinct [OF D(3)], of k' k] k k' by simp
  qed
  moreover have "length (leaf_nodes l) \<le> 8 \<and> sorted (map nd_id (leaf_nodes l)) \<and>
      (\<forall>n \<in> set (leaf_nodes l). within (nd_id n) l) \<and>
      within (generate_random_id random (bn_start l) (bn_bits l)) l" if "l \<in> set ?ls" for l
  proof -
    from that obtain k where k: "k \<in> set (leaves s)" "l = bt_data ?t ! k" by auto
    then have "k < length (bt_data ?t)" using leaf [of k] by simp
    with k(2) show ?thesis using D(6,7) random_id_within by (simp add: leaf_ok_def)
  qed
  ultimately show ?thesis using iter_leaves_ok [OF inv] by (simp add: within_def Let_def)
qed

text \<open>
  The nodes by distance are all the nodes of the table, each as often as it is there, with good
  and questionable nodes first, then unknown and bad ones, and by distance within each of these groups.
\<close>
theorem sorted_by_distance_correct:
  assumes "rt_history t0 me max_size ops = Some rt"
  shows "\<exists>ns ms. sorted_by_distance_from now rt i = Some ns \<and> tree_iter (rt_buckets rt) = Some ms \<and>
    mset ns = mset ms \<and>
    sorted_wrt (\<lambda>a b. status_rank (status now a) < status_rank (status now b) \<or>
      status_rank (status now a) = status_rank (status now b) \<and> i XOR nd_id a \<le> i XOR nd_id b) ns"
proof -
  obtain ms where ms: "tree_iter (rt_buckets rt) = Some ms"
    using tree_iter_ok [OF history_ok [OF assms]] by blast
  let ?key = "\<lambda>n. (status_rank (status now n), i XOR nd_id n)"
  have "sorted_wrt (\<lambda>a b. ?key a \<le> ?key b) (sort_key ?key ms)"
    using sorted_sort_key [of ?key ms] by (simp only: sorted_map)
  then have "sorted_wrt (\<lambda>a b. status_rank (status now a) < status_rank (status now b) \<or>
      status_rank (status now a) = status_rank (status now b) \<and> i XOR nd_id a \<le> i XOR nd_id b) (sort_key ?key ms)"
    by (rule sorted_wrt_mono_rel [rotated]) (auto simp: less_eq_prod_def)
  then show ?thesis using ms by (simp add: sorted_by_distance_from_def)
qed

section \<open>Concrete tables\<close>

definition ex_addr :: socket_addr where "ex_addr = SocketV4 0 6881"

definition ex_ops :: "rt_op list" where
  "ex_ops = [RtAdd 1 5 ex_addr, RtAdd 2 9 ex_addr, RtOutgoing 3 5, RtError 4 5, RtError 5 5]"

lemma Suc_160: "Suc 160 = 161" by simp

lemmas insert_into_leaf_161 = insert_into_leaf.simps(2) [of 160, unfolded Suc_160]

text \<open>A table that was never split.\<close>

definition one_leaf :: "nat \<Rightarrow> nat \<Rightarrow> rt_node list \<Rightarrow> nat \<Rightarrow> routing_table" where
  "one_leaf sz n ns refreshed = \<lparr>rt_id = 0, rt_size = sz, rt_buckets =
    \<lparr>bt_data = [\<lparr>bn_bits = 160, bn_start = 0, bn_end = - 1,
       bn_data = Leaf \<lparr>lb_nodes = ns, lb_last_refreshed = refreshed\<rparr>\<rparr>],
     bt_size = n, bt_max_size = 512\<rparr>\<rparr>"

lemma one_leaf_add:
  "i \<notin> nd_id ` set ns \<Longrightarrow> find (\<lambda>r. status now r = Bad) ns = None \<Longrightarrow> n < 512 \<Longrightarrow> length ns < 8 \<Longrightarrow>
    rt_add_node now (one_leaf sz n ns k) i addr =
      Some (Added, one_leaf (sz + 1) (n + 1) (sort_key nd_id (ns @ [new_node i addr])) now)"
  by (auto simp: one_leaf_def rt_add_node_def tree_add_node_def get_leaf_def get_def insert_into_leaf_161 set_leaf_def)

lemma one_leaf_replace:
  "i \<notin> nd_id ` set ns \<Longrightarrow> find (\<lambda>r. status now r = Bad) ns = Some b \<Longrightarrow>
    rt_add_node now (one_leaf sz n ns k) i addr =
      Some (ReplacedBad b, one_leaf (sz + 1) n
        (sort_key nd_id (update_first (\<lambda>r. status now r = Bad) (\<lambda>_. new_node i addr) ns)) now)"
  by (auto simp: one_leaf_def rt_add_node_def tree_add_node_def get_leaf_def get_def insert_into_leaf_161 set_leaf_def)

lemma one_leaf_mark:
  "i \<in> nd_id ` set ns \<Longrightarrow> rt_mark now False f (one_leaf sz n ns k) i =
    Some (True, one_leaf sz n (update_first (\<lambda>b. nd_id b = i) f ns) k)"
  by (auto simp: one_leaf_def rt_mark_def tree_get_mut_def get_leaf_def get_def set_leaf_def)

lemma one_leaf_iter: "tree_iter (rt_buckets (one_leaf sz n ns k)) = Some ns"
  by (simp add: one_leaf_def tree_iter_def iter_leaves_def leaf_nodes_def get_def)

definition ex_bad :: rt_node where
  "ex_bad = \<lparr>nd_id = 5, nd_addr = ex_addr, nd_last_request = Some 3, nd_last_response = None,
    nd_last_query = None, nd_errors_in_a_row = 2\<rparr>"

definition ex_table :: routing_table where
  "ex_table = one_leaf (Suc (Suc 0)) (Suc (Suc 0)) [ex_bad, new_node 9 ex_addr] 2"

lemma new_node_id [simp]: "nd_id (new_node i addr) = i"
  by (simp add: new_node_def)

lemma ex_table: "rt_history 0 0 None ex_ops = Some ex_table"
proof -
  have new: "routing_table_new 0 0 None = one_leaf 0 0 [] 0"
    by (simp add: routing_table_new_def bucket_tree_new_def one_leaf_def DEFAULT_MAX_SIZE_def)
  have fresh: "status now (new_node i addr) = Unknown" for now i addr by (simp add: status_def new_node_def)
  have marks: "node_mark_error (node_mark_error (node_mark_outgoing_request 3 (new_node 5 ex_addr))) = ex_bad"
    by (simp add: new_node_def ex_bad_def node_mark_error_def node_mark_outgoing_request_def)
  show ?thesis
    by (simp add: rt_history_def ex_ops_def new one_leaf_add one_leaf_mark fresh rt_mark_outgoing_request_def
        rt_mark_error_def marks ex_table_def)
qed

text \<open>The table has a bad node: an insertion replaces it, and the counter goes up all the same.\<close>

lemma replaced_nodes_are_counted:
  "map_option (\<lambda>(res, rt). (res, rt_size rt, tree_iter (rt_buckets rt))) (rt_add_node 6 ex_table 7 ex_addr) =
     Some (ReplacedBad ex_bad, 3, Some [new_node 7 ex_addr, new_node 9 ex_addr])"
proof -
  have "status 6 ex_bad = Bad" "nd_id ex_bad = 5" by (simp_all add: ex_bad_def status_def)
  then show ?thesis
    by (simp add: ex_table_def one_leaf_replace one_leaf_iter) (simp add: one_leaf_def)
qed

theorem add_node_refines_witness:
  "\<exists>res rt' ns ns'. rt_add_node 6 ex_table 7 ex_addr = Some (res, rt') \<and>
    tree_iter (rt_buckets ex_table) = Some ns \<and> tree_iter (rt_buckets rt') = Some ns' \<and>
    insert_spec 6 7 ex_addr res (mset ns) (mset ns')"
  by (rule add_node_refines [OF ex_table])

theorem buckets_partition_ids_witness:
  "\<exists>ls. iter_leaves (rt_buckets ex_table) = Some ls \<and>
    (\<exists>!k. k < length ls \<and> bn_start (ls ! k) \<le> 7 \<and> 7 \<le> bn_end (ls ! k))"
proof -
  from buckets_partition_ids [OF ex_table, of 7 3] obtain ls where "iter_leaves (rt_buckets ex_table) = Some ls"
    "\<exists>!k. k < length ls \<and> bn_start (ls ! k) \<le> 7 \<and> 7 \<le> bn_end (ls ! k)" by blast
  then show ?thesis by blast
qed

theorem sorted_by_distance_correct_witness:
  "\<exists>ns ms. sorted_by_distance_from 6 ex_table 7 = Some ns \<and> tree_iter (rt_buckets ex_table) = Some ms \<and>
    mset ns = mset ms \<and>
    sorted_wrt (\<lambda>a b. status_rank (status 6 a) < status_rank (status 6 b) \<or>
      status_rank (status 6 a) = status_rank (status 6 b) \<and> 7 XOR nd_id a \<le> 7 XOR nd_id b) ns"
  by (rule sorted_by_distance_correct [OF ex_table])

end
