(* ===== verification/Dht.thy ===== *)
theory Dht
  imports PeerStore RoutingTable
begin

text \<open>
  Model of \<open>crates/dht/src/dht.rs\<close>: the state of a DHT node, its handling of a received message, the
  life of a request, and the recursive lookups with their list of useful nodes. Requests are known by
  handles (the model of the one-shot channel to the task that waits); what a task sends over a channel
  is appended to a list. The clock and the random bytes are parameters.
\<close>

section \<open>The state\<close>

datatype dht_request =
    RqGetPeers bytes
  | RqFindNode bytes
  | RqAnnounce bytes bytes u16
  | RqPing

datatype response_or_error = ROk response | RErr error_description

record worker_send =
  ws_our_tid :: "u16 option"
  ws_message :: dht_message
  ws_addr :: socket_addr

type_synonym handle = nat

text \<open>
  \<open>d_done\<close> lists what was delivered to waiting tasks; \<open>d_open\<close> says whether the worker still takes
  messages.
\<close>

record dht_state =
  d_id :: bytes
  d_next_tid :: u16
  d_inflight :: "u16 \<times> socket_addr \<rightharpoonup> handle"
  d_table :: routing_table
  d_peer_store :: peer_store
  d_sent :: "worker_send list"
  d_open :: bool
  d_done :: "(handle \<times> response_or_error) list"

definition dht_new :: "nat \<Rightarrow> bytes \<Rightarrow> routing_table option \<Rightarrow> peer_store \<Rightarrow> dht_state" where
  "dht_new now i table ps =
     \<lparr>d_id = i, d_next_tid = 0, d_inflight = (\<lambda>_. None),
      d_table = (case table of Some t \<Rightarrow> t | None \<Rightarrow> routing_table_new now (id_word i) None),
      d_peer_store = ps, d_sent = [], d_open = True, d_done = []\<rparr>"

datatype dht_failure = Closed | BadTransactionId | NotOutstanding | RecvError | RequestTimeout | SendFailed

definition worker_sender_send :: "dht_state \<Rightarrow> worker_send \<Rightarrow> dht_failure option \<times> dht_state" where
  "worker_sender_send st w =
     (if d_open st then (None, st\<lparr>d_sent := d_sent st @ [w]\<rparr>) else (Some Closed, st))"

section \<open>Requests\<close>

definition tid_bytes :: "u16 \<Rightarrow> bytes" where
  "tid_bytes tid = [ucast (drop_bit 8 tid), ucast (tid AND 0xff)]"

definition create_request :: "dht_state \<Rightarrow> dht_request \<Rightarrow> (u16 \<times> dht_message) \<times> dht_state" where
  "create_request st request =
     (let transaction_id = d_next_tid st;
          kind = (case request of
              RqGetPeers info_hash \<Rightarrow> KGetPeers \<lparr>gp_id = d_id st, gp_info_hash = info_hash\<rparr>
            | RqFindNode target \<Rightarrow> KFindNode \<lparr>fn_id = d_id st, fn_target = target\<rparr>
            | RqPing \<Rightarrow> KPing \<lparr>pg_id = d_id st\<rparr>
            | RqAnnounce info_hash token port \<Rightarrow>
                KAnnounce \<lparr>an_id = d_id st, an_implied_port = 0, an_info_hash = info_hash, an_port = port,
                  an_token = token\<rparr>)
      in ((transaction_id, \<lparr>m_kind = kind, m_transaction_id = tid_bytes transaction_id, m_version = None, m_ip = None\<rparr>),
          st\<lparr>d_next_tid := transaction_id + 1\<rparr>))"

text \<open>
  \<open>request\<close> up to the point where it waits: the key it waits under, or the error of a closed worker.
\<close>

definition request_start ::
  "dht_state \<Rightarrow> handle \<Rightarrow> dht_request \<Rightarrow> socket_addr \<Rightarrow> (dht_failure + u16 \<times> socket_addr) \<times> dht_state" where
  "request_start st h request addr =
     (case create_request st request of
        ((tid, message), st1) \<Rightarrow>
          let key = (tid, addr);
              st2 = st1\<lparr>d_inflight := (d_inflight st1)(key \<mapsto> h)\<rparr> in
          (case worker_sender_send st2 \<lparr>ws_our_tid = Some tid, ws_message = message, ws_addr = addr\<rparr> of
             (None, st3) \<Rightarrow> (Inr key, st3)
           | (Some e, st3) \<Rightarrow> (Inl e, st3\<lparr>d_inflight := (d_inflight st3)(key := None)\<rparr>)))"

text \<open>
  And from there on: the channel delivers a result, its other end is dropped, or the time is over.
\<close>

datatype wakeup = Delivered "dht_failure + response_or_error" | Dropped | TimedOut

definition request_finish ::
  "dht_state \<Rightarrow> u16 \<times> socket_addr \<Rightarrow> wakeup \<Rightarrow> (dht_failure + response_or_error) \<times> dht_state" where
  "request_finish st key w =
     (case w of
        Delivered r \<Rightarrow> (r, st)
      | Dropped \<Rightarrow> (Inl RecvError, st\<lparr>d_inflight := (d_inflight st)(key := None)\<rparr>)
      | TimedOut \<Rightarrow> (Inl RequestTimeout, st\<lparr>d_inflight := (d_inflight st)(key := None)\<rparr>))"

text \<open>\<open>DhtWorker::on_send_error\<close>: the handle that is told of the error, if one still waits.\<close>

definition on_send_error :: "dht_state \<Rightarrow> u16 \<Rightarrow> socket_addr \<Rightarrow> handle option \<times> dht_state" where
  "on_send_error st tid addr =
     (d_inflight st (tid, addr), st\<lparr>d_inflight := (d_inflight st)((tid, addr) := None)\<rparr>)"

section \<open>A received message\<close>

definition id_bytes :: "id20 \<Rightarrow> bytes" where
  "id_bytes w = to_be 20 (unat w)"

definition generate_compact_nodes :: "nat \<Rightarrow> dht_state \<Rightarrow> bytes \<Rightarrow> node list option" where
  "generate_compact_nodes now st target =
     map_option
       (\<lambda>ns. take 8 (List.map_filter
         (\<lambda>r. case nd_addr r of
                SocketV4 ip port \<Rightarrow> Some \<lparr>n_id = id_bytes (nd_id r), n_addr = (ip, port)\<rparr>
              | SocketV6 _ _ \<Rightarrow> None) ns))
       (sorted_by_distance_from now (d_table st) (id_word target))"

definition default_response :: "bytes \<Rightarrow> response" where
  "default_response i = \<lparr>rs_values = None, rs_id = i, rs_nodes = None, rs_token = None\<rparr>"

definition reply :: "dht_state \<Rightarrow> dht_message \<Rightarrow> socket_addr \<Rightarrow> response \<Rightarrow> dht_failure option \<times> dht_state" where
  "reply st msg addr r =
     worker_sender_send st
       \<lparr>ws_our_tid = None,
        ws_message = \<lparr>m_kind = KResponse r, m_transaction_id = m_transaction_id msg, m_version = None, m_ip = None\<rparr>,
        ws_addr = addr\<rparr>"

definition table_mark_last_query :: "nat \<Rightarrow> dht_state \<Rightarrow> bytes \<Rightarrow> dht_state outcome" where
  "table_mark_last_query now st i =
     (case rt_mark_last_query now (d_table st) (id_word i) of
        None \<Rightarrow> Panic
      | Some (_, t) \<Rightarrow> Return (st\<lparr>d_table := t\<rparr>))"

definition on_response :: "dht_state \<Rightarrow> dht_message \<Rightarrow> socket_addr \<Rightarrow> response_or_error \<Rightarrow> dht_failure option \<times> dht_state" where
  "on_response st msg addr r =
     (case get_our_transaction_id msg of
        None \<Rightarrow> (Some BadTransactionId, st)
      | Some tid \<Rightarrow>
          (case d_inflight st (tid, addr) of
             None \<Rightarrow> (Some NotOutstanding, st)
           | Some h \<Rightarrow>
               (None, st\<lparr>d_inflight := (d_inflight st)((tid, addr) := None), d_done := d_done st @ [(h, r)]\<rparr>)))"

definition on_received_message ::
  "nat \<Rightarrow> bytes \<Rightarrow> dht_state \<Rightarrow> dht_message \<Rightarrow> socket_addr \<Rightarrow> (dht_failure option \<times> dht_state) outcome" where
  "on_received_message now random st msg addr =
     (case m_kind msg of
        KError e \<Rightarrow> Return (on_response st msg addr (RErr e))
      | KResponse r \<Rightarrow> Return (on_response st msg addr (ROk r))
      | KPing req \<Rightarrow>
          bind_outcome (table_mark_last_query now st (pg_id req)) (\<lambda>st1.
            Return (reply st1 msg addr (default_response (d_id st))))
      | KAnnounce ann \<Rightarrow>
          bind_outcome (table_mark_last_query now st (an_id ann)) (\<lambda>st1.
            let st2 = st1\<lparr>d_peer_store := snd (store_peer now (d_peer_store st1) ann addr)\<rparr> in
            Return (reply st2 msg addr (default_response (d_id st))))
      | KGetPeers req \<Rightarrow>
          bind_outcome (unwrap (generate_compact_nodes now st (gp_info_hash req))) (\<lambda>nodes.
            let peers = get_for_info_hash (d_peer_store st) (gp_info_hash req) in
            bind_outcome (table_mark_last_query now st (gp_id req)) (\<lambda>st1.
              case gen_token_for (d_peer_store st1) random (gp_id req) addr of
                (token, ps) \<Rightarrow>
                  Return (reply (st1\<lparr>d_peer_store := ps\<rparr>) msg addr
                    \<lparr>rs_values = Some peers, rs_id = d_id st, rs_nodes = Some nodes, rs_token = Some token\<rparr>)))
      | KFindNode req \<Rightarrow>
          bind_outcome (unwrap (generate_compact_nodes now st (fn_target req))) (\<lambda>nodes.
            bind_outcome (table_mark_last_query now st (fn_id req)) (\<lambda>st1.
              Return (reply st1 msg addr ((default_response (d_id st))\<lparr>rs_nodes := Some nodes\<rparr>)))))"

section \<open>Recursive lookups\<close>

record useful_node =
  un_id :: bytes
  un_addr :: socket_addr
  un_last_request :: nat
  un_last_response :: "nat option"
  un_errors_in_a_row :: nat
  un_returned_peers :: bool

text \<open>
  The two implementations of \<open>RecursiveRequestCallbacks\<close>: looking for peers (and announcing to the
  close ones), or for nodes to fill the routing table with.
\<close>

datatype callbacks = CbGetPeers bytes "u16 option" | CbFindNodes

record rec_request =
  rr_max_depth :: nat
  rr_useful_nodes_limit :: nat
  rr_info_hash :: bytes
  rr_request :: dht_request
  rr_useful_nodes :: "useful_node list"
  rr_peer_tx :: "socket_addr list"
  rr_peer_open :: bool
  rr_node_tx :: "(bytes option \<times> socket_addr \<times> nat) list"
  rr_callbacks :: callbacks

definition get_peers_request_new :: "bytes \<Rightarrow> u16 option \<Rightarrow> rec_request" where
  "get_peers_request_new info_hash announce_port =
     \<lparr>rr_max_depth = 4, rr_useful_nodes_limit = 256, rr_info_hash = info_hash,
      rr_request = RqGetPeers info_hash, rr_useful_nodes = [], rr_peer_tx = [], rr_peer_open = True, rr_node_tx = [],
      rr_callbacks = CbGetPeers ([0, 0] @ replicate 18 0xff) announce_port\<rparr>"

text \<open>The channel of the peers has no receiver here.\<close>

definition find_node_request_new :: "bytes \<Rightarrow> rec_request" where
  "find_node_request_new target =
     \<lparr>rr_max_depth = 4, rr_useful_nodes_limit = 32, rr_info_hash = target,
      rr_request = RqFindNode target, rr_useful_nodes = [], rr_peer_tx = [], rr_peer_open = False, rr_node_tx = [],
      rr_callbacks = CbFindNodes\<rparr>"

definition on_request_start :: "nat \<Rightarrow> dht_state \<Rightarrow> rec_request \<Rightarrow> bytes \<Rightarrow> socket_addr \<Rightarrow> dht_state outcome" where
  "on_request_start now st req target_node addr =
     (case rr_callbacks req of
        CbGetPeers _ _ \<Rightarrow> Return st
      | CbFindNodes \<Rightarrow>
          (case rt_add_node now (d_table st) (id_word target_node) addr of
             None \<Rightarrow> Panic
           | Some (Ignored, t) \<Rightarrow> Return (st\<lparr>d_table := t\<rparr>)
           | Some (_, t) \<Rightarrow>
               (case rt_mark_outgoing_request now t (id_word target_node) of
                  None \<Rightarrow> Panic
                | Some (_, t') \<Rightarrow> Return (st\<lparr>d_table := t'\<rparr>))))"

definition on_request_end ::
  "nat \<Rightarrow> dht_state \<Rightarrow> rec_request \<Rightarrow> bytes \<Rightarrow> socket_addr \<Rightarrow> dht_failure + response_or_error \<Rightarrow> dht_state outcome" where
  "on_request_end now st req target_node addr resp =
     (case rr_callbacks req of
        CbGetPeers min_distance announce_port \<Rightarrow>
          (case (announce_port, resp) of
             (Some port, Inr (ROk r)) \<Rightarrow>
               (case rs_token r of
                  None \<Rightarrow> Return st
                | Some token \<Rightarrow>
                    if id_cmp (id_distance (rr_info_hash req) target_node) min_distance = Greater then Return st
                    else
                      (case create_request st (RqAnnounce (rr_info_hash req) token port) of
                         ((tid, message), st1) \<Rightarrow>
                           Return (snd (worker_sender_send st1
                             \<lparr>ws_our_tid = Some tid, ws_message = message, ws_addr = addr\<rparr>))))
           | _ \<Rightarrow> Return st)
      | CbFindNodes \<Rightarrow>
          (case (case resp of
                   Inr _ \<Rightarrow> rt_mark_response now (d_table st) (id_word target_node)
                 | Inl _ \<Rightarrow> rt_mark_error now (d_table st) (id_word target_node)) of
             None \<Rightarrow> Panic
           | Some (_, t) \<Rightarrow> Return (st\<lparr>d_table := t\<rparr>)))"

definition mark_node_error :: "rec_request \<Rightarrow> socket_addr \<Rightarrow> bool \<times> rec_request" where
  "mark_node_error req addr =
     (\<exists>n \<in> set (rr_useful_nodes req). un_addr n = addr,
      req\<lparr>rr_useful_nodes := update_first (\<lambda>n. un_addr n = addr)
        (\<lambda>n. n\<lparr>un_errors_in_a_row := un_errors_in_a_row n + 1\<rparr>) (rr_useful_nodes req)\<rparr>)"

definition mark_node_responded :: "nat \<Rightarrow> rec_request \<Rightarrow> socket_addr \<Rightarrow> response_or_error \<Rightarrow> bool \<times> rec_request" where
  "mark_node_responded now req addr r =
     (\<exists>n \<in> set (rr_useful_nodes req). un_addr n = addr,
      req\<lparr>rr_useful_nodes := update_first (\<lambda>n. un_addr n = addr)
        (\<lambda>n. n\<lparr>un_last_response := Some now, un_errors_in_a_row := 0,
          un_returned_peers := (case r of
              ROk resp \<Rightarrow> (case rs_values resp of None \<Rightarrow> False | Some c \<Rightarrow> c \<noteq> [])
            | RErr _ \<Rightarrow> False)\<rparr>) (rr_useful_nodes req)\<rparr>)"

definition DURATION_MAX :: nat where
  "DURATION_MAX = (2 ^ 64 - 1) * 1000000000 + 999999999"

definition useful_key :: "nat \<Rightarrow> bytes \<Rightarrow> useful_node \<Rightarrow> nat \<times> nat \<times> bytes \<times> nat" where
  "useful_key now info_hash n =
     (if un_returned_peers n then 0 else 1,
      if un_last_response n \<noteq> None then 0 else 1,
      id_distance (un_id n) info_hash,
      case un_last_response n of Some r \<Rightarrow> elapsed now r | None \<Rightarrow> DURATION_MAX)"

definition should_request_node :: "nat \<Rightarrow> rec_request \<Rightarrow> bytes \<Rightarrow> socket_addr \<Rightarrow> nat \<Rightarrow> bool \<times> rec_request" where
  "should_request_node now req node_id addr depth =
     (if depth \<ge> rr_max_depth req then (False, req)
      else
        (case find (\<lambda>n. un_id n = node_id) (rr_useful_nodes req) of
           Some existing \<Rightarrow>
             if elapsed now (un_last_request existing) > 60 * 1000000000
             then (True, req\<lparr>rr_useful_nodes := update_first (\<lambda>n. un_id n = node_id)
               (\<lambda>n. n\<lparr>un_last_request := now\<rparr>) (rr_useful_nodes req)\<rparr>)
             else (False, req)
         | None \<Rightarrow>
             let closest_nodes = sort_key (useful_key now (rr_info_hash req))
               (rr_useful_nodes req @ [\<lparr>un_id = node_id, un_addr = addr, un_last_request = now,
                  un_last_response = None, un_errors_in_a_row = 0, un_returned_peers = False\<rparr>]) in
             if length closest_nodes > rr_useful_nodes_limit req
             then (un_id (last closest_nodes) \<noteq> node_id,
                   req\<lparr>rr_useful_nodes := butlast closest_nodes\<rparr>)
             else (True, req\<lparr>rr_useful_nodes := closest_nodes\<rparr>)))"

text \<open>
  \<open>request_one\<close> in its three parts, between which it waits for the outcome of the same request, sent
  twice. A send to the channel of the peers fails when nobody receives.
\<close>

definition request_one_start ::
  "nat \<Rightarrow> dht_state \<Rightarrow> rec_request \<Rightarrow> bytes option \<Rightarrow> socket_addr \<Rightarrow> dht_state outcome" where
  "request_one_start now st req i addr =
     (case i of Some target \<Rightarrow> on_request_start now st req target addr | None \<Rightarrow> Return st)"

definition request_one_first ::
  "nat \<Rightarrow> dht_state \<Rightarrow> rec_request \<Rightarrow> bytes option \<Rightarrow> socket_addr \<Rightarrow> dht_failure + response_or_error \<Rightarrow>
    (dht_state \<times> rec_request) outcome" where
  "request_one_first now st req i addr resp =
     (let req1 = (case resp of Inr r \<Rightarrow> snd (mark_node_responded now req addr r) | Inl _ \<Rightarrow> req) in
      bind_outcome (case i of Some target \<Rightarrow> on_request_end now st req1 target addr resp | None \<Rightarrow> Return st)
        (\<lambda>st1. Return (st1, req1)))"

fun send_peers :: "rec_request \<Rightarrow> sock_v4 list \<Rightarrow> (dht_failure option \<times> rec_request)" where
  "send_peers req [] = (None, req)"
| "send_peers req (p # ps) =
     (if rr_peer_open req then send_peers (req\<lparr>rr_peer_tx := rr_peer_tx req @ [SocketV4 (fst p) (snd p)]\<rparr>) ps
      else (Some SendFailed, req))"

fun request_nodes :: "nat \<Rightarrow> rec_request \<Rightarrow> nat \<Rightarrow> node list \<Rightarrow> rec_request" where
  "request_nodes now req depth [] = req"
| "request_nodes now req depth (n # ns) =
     (let addr = SocketV4 (fst (n_addr n)) (snd (n_addr n)) in
      case should_request_node now req (n_id n) addr depth of
        (should_request, req1) \<Rightarrow>
          request_nodes now
            (if should_request then req1\<lparr>rr_node_tx := rr_node_tx req1 @ [(Some (n_id n), addr, depth + 1)]\<rparr> else req1)
            depth ns)"

datatype lookup_failure = LookupFailed dht_failure | ErrorResponse error_description

definition request_one_second ::
  "nat \<Rightarrow> rec_request \<Rightarrow> socket_addr \<Rightarrow> nat \<Rightarrow> dht_failure + response_or_error \<Rightarrow> lookup_failure option \<times> rec_request" where
  "request_one_second now req addr depth resp =
     (case resp of
        Inl e \<Rightarrow> (Some (LookupFailed e), snd (mark_node_error req addr))
      | Inr (RErr e) \<Rightarrow> (Some (ErrorResponse e), req)
      | Inr (ROk r) \<Rightarrow>
          (case send_peers req (case rs_values r of Some ps \<Rightarrow> ps | None \<Rightarrow> []) of
             (Some e, req1) \<Rightarrow> (Some (LookupFailed e), req1)
           | (None, req1) \<Rightarrow>
               (None, request_nodes now req1 depth (case rs_nodes r of Some ns \<Rightarrow> ns | None \<Rightarrow> []))))"

text \<open>
  The root of a lookup: the eight closest nodes of the table, and how long the looper then sleeps.
\<close>

definition get_peers_root :: "nat \<Rightarrow> dht_state \<Rightarrow> rec_request \<Rightarrow> (nat \<times> rec_request) option" where
  "get_peers_root now st req =
     map_option
       (\<lambda>ns. let roots = take 8 (map (\<lambda>n. (nd_id n, nd_addr n)) ns) in
         (length roots, req\<lparr>rr_node_tx := rr_node_tx req @ map (\<lambda>(i, a). (Some (id_bytes i), a, 0)) roots\<rparr>))
       (sorted_by_distance_from now (d_table st) (id_word (rr_info_hash req)))"

definition REQUERY_INTERVAL :: nat where
  "REQUERY_INTERVAL = 60 * 1000000000"

definition looper_sleep :: "nat \<Rightarrow> nat" where
  "looper_sleep n =
     (if n = 0 then 1000000000 else if n < 8 then REQUERY_INTERVAL div 8 * n else REQUERY_INTERVAL)"

section \<open>Upkeep of the table\<close>

text \<open>
  One round of the filler of \<open>bucket_refresher\<close>: a random identifier for every bucket that was not
  refreshed lately (\<open>randoms\<close> gives the random data of each), and one round of the looper of
  \<open>pinger\<close>: the nodes to ping.
\<close>

definition refresh_ids :: "nat \<Rightarrow> routing_table \<Rightarrow> (nat \<Rightarrow> id20) \<Rightarrow> id20 list option" where
  "refresh_ids now rt randoms =
     map_option
       (\<lambda>ls. List.map_filter
         (\<lambda>(k, b). case bn_data b of
            Leaf lb \<Rightarrow> if elapsed now (lb_last_refreshed lb) < INACTIVITY_TIMEOUT then None
              else Some (generate_random_id (randoms k) (bn_start b) (bn_bits b))
          | LeftRight _ _ \<Rightarrow> None) (enumerate 0 ls))
       (iter_leaves (rt_buckets rt))"

definition ping_targets :: "nat \<Rightarrow> routing_table \<Rightarrow> (id20 \<times> socket_addr) list option" where
  "ping_targets now rt =
     map_option
       (\<lambda>ns. map (\<lambda>n. (nd_id n, nd_addr n)) (filter (\<lambda>n. status now n \<in> {Questionable, Unknown}) ns))
       (tree_iter (rt_buckets rt))"

section \<open>The socket\<close>

text \<open>The writer and the reader of \<open>framer\<close>, per message; a datagram is cut at the size of the buffer.\<close>

definition framer_write :: "worker_send \<Rightarrow> bytes" where
  "framer_write w =
     (let m = ws_message w in serialize_dht_message (m_transaction_id m) (m_version m) (m_ip m) (m_kind m))"

definition framer_read :: "(bytes \<Rightarrow> bytes) \<Rightarrow> bytes \<Rightarrow> dht_error + dht_message" where
  "framer_read sha1 datagram = deserialize_dht_message sha1 (take 16384 datagram)"

text \<open>A lookup for nodes gives up on an answer that also names peers, before it looks at the nodes.\<close>

lemma values_fail_a_node_lookup:
  assumes "rs_values r = Some (p # ps)"
  shows "fst (request_one_second now (find_node_request_new target) addr depth (Inr (ROk r))) =
    Some (LookupFailed SendFailed)"
  using assms by (simp add: request_one_second_def find_node_request_new_def)

section \<open>Invariant\<close>

definition dht_ok :: "dht_state \<Rightarrow> bool" where
  "dht_ok st \<longleftrightarrow> length (d_id st) = 20 \<and> tree_ok (rt_buckets (d_table st)) \<and> store_ok (d_peer_store st) \<and>
     0 < ps_max_remembered_tokens (d_peer_store st)"

lemma length_id_bytes [simp]: "length (id_bytes w) = 20"
  by (simp add: id_bytes_def)

lemma id_word_id_bytes: "id_word (id_bytes w) = w"
proof -
  have "unat w < 256 ^ 20" using unat_bound [of w] by simp
  then show ?thesis by (simp add: id_word_def id_bytes_def from_be_to_be)
qed

lemma dht_new_ok:
  "length i = 20 \<Longrightarrow> store_ok ps \<Longrightarrow> 0 < ps_max_remembered_tokens ps \<Longrightarrow> dht_ok (dht_new now i None ps)"
  by (simp add: dht_ok_def dht_new_def routing_table_new_def tree_new_ok)

lemma sorted_ok:
  assumes "tree_ok (rt_buckets rt)"
  shows "\<exists>ns. sorted_by_distance_from now rt i = Some ns"
  using tree_iter_ok [OF assms] by (auto simp: sorted_by_distance_from_def)

lemma compact_nodes_ok:
  assumes "dht_ok st"
  shows "\<exists>ns. generate_compact_nodes now st target = Some ns \<and> length ns \<le> 8 \<and> (\<forall>n \<in> set ns. length (n_id n) = 20)"
proof -
  obtain ns where ns: "sorted_by_distance_from now (d_table st) (id_word target) = Some ns"
    using sorted_ok assms by (fastforce simp: dht_ok_def)
  define f :: "rt_node \<Rightarrow> node option" where "f = (\<lambda>r. case nd_addr r of
      SocketV4 ip port \<Rightarrow> Some \<lparr>n_id = id_bytes (nd_id r), n_addr = (ip, port)\<rparr> | SocketV6 _ _ \<Rightarrow> None)"
  have eq: "generate_compact_nodes now st target = Some (take 8 (List.map_filter f ns))"
    using ns by (simp add: generate_compact_nodes_def f_def)
  have "length (n_id n) = 20" if "n \<in> set (take 8 (List.map_filter f ns))" for n
    using set_take_subset [of 8 "List.map_filter f ns"] that
    by (auto simp: List.map_filter_def f_def split: socket_addr.splits)
  then show ?thesis using eq by auto
qed

lemma table_mark_ok:
  assumes "dht_ok st"
  shows "\<exists>t. table_mark_last_query now st i = Return (st\<lparr>d_table := t\<rparr>) \<and> dht_ok (st\<lparr>d_table := t\<rparr>)"
proof -
  have "tree_ok (rt_buckets (d_table st))" using assms by (simp add: dht_ok_def)
  from rt_mark_ok [OF this, of "node_mark_last_query now" now False "id_word i"]
  obtain found t where "rt_mark_last_query now (d_table st) (id_word i) = Some (found, t)" "tree_ok (rt_buckets t)"
    by (auto simp: rt_mark_last_query_def)
  then show ?thesis using assms by (auto simp: table_mark_last_query_def dht_ok_def)
qed

lemma dht_ok_frame [simp]:
  "dht_ok (st\<lparr>d_sent := x\<rparr>) = dht_ok st" "dht_ok (st\<lparr>d_inflight := y\<rparr>) = dht_ok st" "dht_ok (st\<lparr>d_done := z\<rparr>) = dht_ok st"
  "dht_ok (st\<lparr>d_next_tid := n\<rparr>) = dht_ok st"
  by (simp_all add: dht_ok_def)

definition is_query :: "message_kind \<Rightarrow> bool" where
  "is_query k = (case k of KError _ \<Rightarrow> False | KResponse _ \<Rightarrow> False | _ \<Rightarrow> True)"

text \<open>What the answer to a query is: one message to its sender, with its transaction id.\<close>

definition answers :: "dht_state \<Rightarrow> dht_message \<Rightarrow> socket_addr \<Rightarrow> worker_send \<Rightarrow> bool" where
  "answers st msg addr w \<longleftrightarrow>
     ws_our_tid w = None \<and> ws_addr w = addr \<and> m_transaction_id (ws_message w) = m_transaction_id msg \<and>
     wf_kind (m_kind (ws_message w)) \<and>
     (\<exists>r. m_kind (ws_message w) = KResponse r \<and> rs_id r = d_id st \<and>
       (case rs_nodes r of None \<Rightarrow> True | Some ns \<Rightarrow> length ns \<le> 8) \<and>
       (rs_token r \<noteq> None \<longleftrightarrow> (\<exists>q. m_kind msg = KGetPeers q)))"

lemma gen_token_consts:
  "ps_max_remembered_tokens (snd (gen_token_for ps r i a)) = ps_max_remembered_tokens ps"
  "ps_max_remembered_tokens (snd (store_peer now ps ann a)) = ps_max_remembered_tokens ps"
  using ps_apply_consts(3) [of ps "PsToken r i a"] ps_apply_consts(3) [of ps "PsStore now ann a"] by simp_all

text \<open>
  C25: every query is answered. In a well-formed state a query never stops the process; it leaves the
  state well-formed and, while the worker takes messages, queues exactly one message: a well-formed
  response to the sender under the transaction id of the query, with the own identifier, at most eight
  nodes, and a token exactly if peers were asked for.
\<close>
theorem query_is_answered:
  assumes "dht_ok st" "is_query (m_kind msg)" "d_open st"
  shows "\<exists>st' w. on_received_message now random st msg addr = Return (None, st') \<and> dht_ok st' \<and>
    d_sent st' = d_sent st @ [w] \<and> answers st msg addr w \<and>
    d_done st' = d_done st \<and> d_inflight st' = d_inflight st"
proof (cases "m_kind msg")
  case (KPing req)
  obtain t where "table_mark_last_query now st (pg_id req) = Return (st\<lparr>d_table := t\<rparr>)" "dht_ok (st\<lparr>d_table := t\<rparr>)"
    using table_mark_ok [OF assms(1)] by blast
  then show ?thesis
    using assms KPing
    by (simp add: on_received_message_def reply_def worker_sender_send_def answers_def default_response_def
        wf_kind_def wf_response_def) (simp add: dht_ok_def)
next
  case (KAnnounce ann)
  obtain t where t: "table_mark_last_query now st (an_id ann) = Return (st\<lparr>d_table := t\<rparr>)" "dht_ok (st\<lparr>d_table := t\<rparr>)"
    using table_mark_ok [OF assms(1)] by blast
  have "dht_ok (st\<lparr>d_table := t, d_peer_store := snd (store_peer now (d_peer_store st) ann addr)\<rparr>)"
    using t(2) store_peer_ok [of "d_peer_store st"] by (simp add: dht_ok_def gen_token_consts)
  then show ?thesis
    using t assms KAnnounce
    by (simp add: on_received_message_def reply_def worker_sender_send_def answers_def default_response_def
        wf_kind_def wf_response_def Let_def) (simp add: dht_ok_def)
next
  case (KGetPeers req)
  obtain t where t: "table_mark_last_query now st (gp_id req) = Return (st\<lparr>d_table := t\<rparr>)" "dht_ok (st\<lparr>d_table := t\<rparr>)"
    using table_mark_ok [OF assms(1)] by blast
  obtain ns where ns: "generate_compact_nodes now st (gp_info_hash req) = Some ns" "length ns \<le> 8"
    "\<forall>n \<in> set ns. length (n_id n) = 20" using compact_nodes_ok [OF assms(1)] by blast
  obtain tok ps where g: "gen_token_for (d_peer_store st) random (gp_id req) addr = (tok, ps)" by fastforce
  have "dht_ok (st\<lparr>d_table := t, d_peer_store := ps\<rparr>)"
    using t(2) gen_token_ok [of "d_peer_store st" random "gp_id req" addr]
      gen_token_consts(1) [of "d_peer_store st" random "gp_id req" addr] g by (simp add: dht_ok_def)
  then show ?thesis
    using t ns assms KGetPeers g
    by (simp add: on_received_message_def reply_def worker_sender_send_def answers_def
        wf_kind_def wf_response_def Let_def) (simp add: dht_ok_def)
next
  case (KFindNode req)
  obtain t where t: "table_mark_last_query now st (fn_id req) = Return (st\<lparr>d_table := t\<rparr>)" "dht_ok (st\<lparr>d_table := t\<rparr>)"
    using table_mark_ok [OF assms(1)] by blast
  obtain ns where ns: "generate_compact_nodes now st (fn_target req) = Some ns" "length ns \<le> 8"
    "\<forall>n \<in> set ns. length (n_id n) = 20" using compact_nodes_ok [OF assms(1)] by blast
  then show ?thesis
    using t assms KFindNode
    by (simp add: on_received_message_def reply_def worker_sender_send_def answers_def default_response_def
        wf_kind_def wf_response_def) (simp add: dht_ok_def)
qed (use assms(2) in \<open>simp_all add: is_query_def\<close>)

section \<open>Requests and their responses\<close>

text \<open>
  The life of the requests of a node: tasks start requests under fresh handles, messages arrive,
  requests time out, sending fails. The ghost state remembers what every handle asked for.
\<close>

record dht_system =
  sys :: dht_state
  started :: "handle \<rightharpoonup> u16 \<times> socket_addr"
  arrived :: "(u16 \<times> socket_addr \<times> response_or_error) list"

fun result_of :: "message_kind \<Rightarrow> response_or_error option" where
  "result_of (KError e) = Some (RErr e)"
| "result_of (KResponse r) = Some (ROk r)"
| "result_of _ = None"

inductive dht_step :: "dht_system \<Rightarrow> dht_system \<Rightarrow> bool" where
  start: "started s h = None \<Longrightarrow> request_start (sys s) h rq addr = (Inr key, st') \<Longrightarrow>
    dht_step s (s\<lparr>sys := st', started := (started s)(h \<mapsto> key)\<rparr>)"
| refused: "started s h = None \<Longrightarrow> request_start (sys s) h rq addr = (Inl e, st') \<Longrightarrow> dht_step s (s\<lparr>sys := st'\<rparr>)"
| receive: "on_received_message now random (sys s) msg addr = Return (e, st') \<Longrightarrow>
    dht_step s (s\<lparr>sys := st', arrived := arrived s @
      (case (get_our_transaction_id msg, result_of (m_kind msg)) of
         (Some tid, Some r) \<Rightarrow> [(tid, addr, r)] | _ \<Rightarrow> [])\<rparr>)"
| wake: "started s h = Some key \<Longrightarrow> w \<in> {Dropped, TimedOut} \<Longrightarrow> request_finish (sys s) key w = (res, st') \<Longrightarrow>
    dht_step s (s\<lparr>sys := st'\<rparr>)"
| send_failed: "on_send_error (sys s) tid addr = (h, st') \<Longrightarrow> dht_step s (s\<lparr>sys := st'\<rparr>)"

definition dht_start :: "dht_state \<Rightarrow> dht_system" where
  "dht_start st = \<lparr>sys = st, started = (\<lambda>_. None), arrived = []\<rparr>"

text \<open>
  Every waiting entry is the key its handle was started with, no handle that has its result still
  waits, and no handle has two results.
\<close>

definition requests_ok :: "dht_system \<Rightarrow> bool" where
  "requests_ok s \<longleftrightarrow>
     (\<forall>key h. d_inflight (sys s) key = Some h \<longrightarrow> started s h = Some key \<and> h \<notin> fst ` set (d_done (sys s))) \<and>
     distinct (map fst (d_done (sys s))) \<and>
     (\<forall>(h, r) \<in> set (d_done (sys s)). \<exists>tid addr. started s h = Some (tid, addr) \<and> (tid, addr, r) \<in> set (arrived s))"

lemma requests_okI:
  assumes "requests_ok s" "\<And>key h. d_inflight st' key = Some h \<Longrightarrow> d_inflight (sys s) key = Some h"
    and "d_done st' = d_done (sys s)" "set (arrived s) \<subseteq> set log"
  shows "requests_ok (s\<lparr>sys := st', arrived := log\<rparr>)"
  using assms unfolding requests_ok_def by simp blast

lemma inflight_query:
  assumes "on_received_message now random st msg addr = Return (e, st')" "result_of (m_kind msg) = None"
  shows "d_inflight st' = d_inflight st \<and> d_done st' = d_done st"
proof -
  have m: "d_inflight st1 = d_inflight st \<and> d_done st1 = d_done st"
    if "table_mark_last_query now st i = Return st1" for i st1
    using that by (auto simp: table_mark_last_query_def split: option.splits)
  show ?thesis
    using assms
    by (cases "m_kind msg")
      (auto simp: on_received_message_def bind_outcome_Return_iff reply_def worker_sender_send_def gen_token_for_def
        Let_def dest!: m split: if_splits)
qed

lemma dht_step_ok: "dht_step s s' \<Longrightarrow> requests_ok s \<Longrightarrow> requests_ok s'"
proof (induction rule: dht_step.induct)
  case (start s h rq addr key st')
  define st2 where "st2 = (snd (create_request (sys s) rq))\<lparr>d_inflight := (d_inflight (sys s))(key \<mapsto> h)\<rparr>"
  have "d_inflight st' = (d_inflight (sys s))(key \<mapsto> h)" "d_done st' = d_done (sys s)"
    using start(2)
    by (auto simp: request_start_def create_request_def worker_sender_send_def Let_def split: if_splits)
  moreover have "h \<notin> fst ` set (d_done (sys s))" "\<And>k. d_inflight (sys s) k \<noteq> Some h"
    using start(1,3) unfolding requests_ok_def by force+
  moreover have "\<exists>tid addr. ((started s)(h \<mapsto> key)) g = Some (tid, addr) \<and> (tid, addr, r) \<in> set (arrived s)"
    if "(g, r) \<in> set (d_done (sys s))" for g r
    using that start(1,3) unfolding requests_ok_def by fastforce
  ultimately show ?case using start(1,3) unfolding requests_ok_def by auto
next
  case (refused s h rq addr e st')
  have "d_done st' = d_done (sys s)" "\<And>k v. d_inflight st' k = Some v \<Longrightarrow> d_inflight (sys s) k = Some v"
    using refused(2)
    by (auto simp: request_start_def create_request_def worker_sender_send_def Let_def split: if_splits)
  then show ?case using requests_okI [OF refused(3), of st' "arrived s"] by simp
next
  case (receive now random s msg addr e st')
  show ?case
  proof (cases "result_of (m_kind msg)")
    case None
    then show ?thesis
      using inflight_query [OF receive(1) None] by (intro requests_okI [OF receive(2)]) auto
  next
    case (Some r)
    then have on: "(e, st') = on_response (sys s) msg addr r"
      using receive(1) by (cases "m_kind msg") (simp_all add: on_received_message_def)
    show ?thesis
    proof (cases "get_our_transaction_id msg")
      case None
      then show ?thesis using on by (intro requests_okI [OF receive(2)]) (auto simp: on_response_def)
    next
      case tid: (Some tid)
      show ?thesis
      proof (cases "d_inflight (sys s) (tid, addr)")
        case None
        then show ?thesis using on tid by (intro requests_okI [OF receive(2)]) (auto simp: on_response_def)
      next
        case h: (Some h)
        then have st': "d_inflight st' = (d_inflight (sys s))((tid, addr) := None)"
          "d_done st' = d_done (sys s) @ [(h, r)]"
          using on tid by (auto simp: on_response_def)
        have "started s h = Some (tid, addr)" "h \<notin> fst ` set (d_done (sys s))"
          using receive(2) h unfolding requests_ok_def by blast+
        then show ?thesis
          using receive(2) st' tid Some unfolding requests_ok_def by (auto split: if_splits)
      qed
    qed
  qed
next
  case (wake s h key w res st')
  then have "d_done st' = d_done (sys s)" "\<And>k v. d_inflight st' k = Some v \<Longrightarrow> d_inflight (sys s) k = Some v"
    by (auto simp: request_finish_def split: if_splits)
  then show ?case using requests_okI [OF wake(4), of st' "arrived s"] by simp
next
  case (send_failed s tid addr h st')
  then have "d_done st' = d_done (sys s)" "\<And>k v. d_inflight st' k = Some v \<Longrightarrow> d_inflight (sys s) k = Some v"
    by (auto simp: on_send_error_def split: if_splits)
  then show ?case using requests_okI [OF send_failed(2), of st' "arrived s"] by simp
qed

text \<open>
  C27: a response goes to the request it answers. In every run of the node, from an idle state, a task
  that is given a result had asked the address the message came from, under the transaction id the
  message carries; and no task is given two results.
\<close>
theorem responses_reach_their_request:
  assumes "dht_step\<^sup>*\<^sup>* (dht_start st) s" "d_inflight st = (\<lambda>_. None)" "d_done st = []"
  shows "distinct (map fst (d_done (sys s))) \<and>
    (\<forall>(h, r) \<in> set (d_done (sys s)).
      \<exists>tid addr. started s h = Some (tid, addr) \<and> (tid, addr, r) \<in> set (arrived s))"
proof -
  have "requests_ok s"
    using assms(1)
  proof (induction rule: rtranclp_induct)
    case base
    then show ?case using assms(2,3) by (simp add: requests_ok_def dht_start_def)
  qed (rule dht_step_ok)
  then show ?thesis by (simp add: requests_ok_def)
qed

section \<open>Announcing oneself\<close>

text \<open>Whatever the node does, its store makes at most one move of its own, and the invariant holds.\<close>

lemma received_store:
  assumes "on_received_message now random st msg addr = Return (e, st')" "dht_ok st" "d_open st"
  shows "dht_ok st' \<and> d_open st' \<and>
    (\<exists>ops. length ops \<le> 1 \<and> d_peer_store st' = foldl ps_apply (d_peer_store st) ops)"
proof -
  have quiet: ?thesis if "d_peer_store st' = d_peer_store st" "dht_ok st'" "d_open st'"
    using that by (intro conjI exI [of _ "[]"]) simp_all
  have moved: ?thesis if "d_peer_store st' = ps_apply (d_peer_store st) op" "dht_ok st'" "d_open st'" for op
    using that by (intro conjI exI [of _ "[op]"]) simp_all
  have answered: "dht_ok (snd (on_response st msg addr r)) \<and> d_open (snd (on_response st msg addr r)) \<and>
      d_peer_store (snd (on_response st msg addr r)) = d_peer_store st" for r
    using assms(2,3) by (auto simp: on_response_def dht_ok_def split: option.splits)
  show ?thesis
  proof (cases "m_kind msg")
    case (KAnnounce ann)
    obtain t where t: "table_mark_last_query now st (an_id ann) = Return (st\<lparr>d_table := t\<rparr>)" "dht_ok (st\<lparr>d_table := t\<rparr>)"
      using table_mark_ok [OF assms(2)] by blast
    have "dht_ok (st\<lparr>d_table := t, d_peer_store := snd (store_peer now (d_peer_store st) ann addr)\<rparr>)"
      using t(2) store_peer_ok [of "d_peer_store st"] by (simp add: dht_ok_def gen_token_consts)
    then show ?thesis
      using assms t KAnnounce
      by (intro moved [of "PsStore now ann addr"]) (auto simp: on_received_message_def reply_def worker_sender_send_def Let_def)
  next
    case (KGetPeers req)
    obtain ns where ns: "generate_compact_nodes now st (gp_info_hash req) = Some ns"
      using compact_nodes_ok [OF assms(2)] by blast
    obtain t where t: "table_mark_last_query now st (gp_id req) = Return (st\<lparr>d_table := t\<rparr>)" "dht_ok (st\<lparr>d_table := t\<rparr>)"
      using table_mark_ok [OF assms(2)] by blast
    define ps where "ps = snd (gen_token_for (d_peer_store st) random (gp_id req) addr)"
    have g: "gen_token_for (d_peer_store st) random (gp_id req) addr = (random, ps)"
      by (simp add: ps_def gen_token_for_def Let_def)
    have "dht_ok (st\<lparr>d_table := t, d_peer_store := ps\<rparr>)"
      using t(2) gen_token_ok [of "d_peer_store st" random "gp_id req" addr]
        gen_token_consts(1) [of "d_peer_store st" random "gp_id req" addr] by (simp add: dht_ok_def ps_def)
    then have "d_peer_store st' = ps \<and> dht_ok st' \<and> d_open st'"
      using assms t ns g KGetPeers
      by (auto simp: on_received_message_def reply_def worker_sender_send_def Let_def)
    then show ?thesis by (intro moved [of "PsToken random (gp_id req) addr"]) (simp_all add: ps_def)
  next
    case (KPing req)
    obtain t where t: "table_mark_last_query now st (pg_id req) = Return (st\<lparr>d_table := t\<rparr>)" "dht_ok (st\<lparr>d_table := t\<rparr>)"
      using table_mark_ok [OF assms(2)] by blast
    then show ?thesis
      using assms(1,3) KPing by (intro quiet) (auto simp: on_received_message_def reply_def worker_sender_send_def)
  next
    case (KFindNode req)
    obtain ns where ns: "generate_compact_nodes now st (fn_target req) = Some ns"
      using compact_nodes_ok [OF assms(2)] by blast
    obtain t where t: "table_mark_last_query now st (fn_id req) = Return (st\<lparr>d_table := t\<rparr>)" "dht_ok (st\<lparr>d_table := t\<rparr>)"
      using table_mark_ok [OF assms(2)] by blast
    then show ?thesis
      using assms(1,3) ns KFindNode by (intro quiet) (auto simp: on_received_message_def reply_def worker_sender_send_def)
  next
    case (KError err)
    then have "st' = snd (on_response st msg addr (RErr err))"
      using assms(1) by (simp add: on_received_message_def)
    then show ?thesis using answered by (intro quiet) simp_all
  next
    case (KResponse r)
    then have "st' = snd (on_response st msg addr (ROk r))"
      using assms(1) by (simp add: on_received_message_def)
    then show ?thesis using answered by (intro quiet) simp_all
  qed
qed

lemma dht_step_store:
  assumes "dht_step s s'" "dht_ok (sys s)" "d_open (sys s)"
  shows "dht_ok (sys s') \<and> d_open (sys s') \<and>
    (\<exists>ops. length ops \<le> 1 \<and> d_peer_store (sys s') = foldl ps_apply (d_peer_store (sys s)) ops)"
  using assms
proof (induction rule: dht_step.induct)
  case (receive now random s msg addr e st')
  then show ?case using received_store by simp
next
  case (start s h rq addr key st')
  then show ?case
    by (intro conjI exI [of _ "[]"])
      (auto simp: request_start_def create_request_def worker_sender_send_def Let_def dht_ok_def split: if_splits)
next
  case (refused s h rq addr e st')
  then show ?case
    by (intro conjI exI [of _ "[]"])
      (auto simp: request_start_def create_request_def worker_sender_send_def Let_def dht_ok_def split: if_splits)
next
  case (wake s h key w res st')
  then show ?case
    by (intro conjI exI [of _ "[]"]) (auto simp: request_finish_def dht_ok_def split: if_splits)
next
  case (send_failed s tid addr h st')
  then show ?case
    by (intro conjI exI [of _ "[]"]) (auto simp: on_send_error_def dht_ok_def split: if_splits)
qed

lemma dht_steps_store:
  assumes "(dht_step ^^ n) s s'" "dht_ok (sys s)" "d_open (sys s)"
  shows "dht_ok (sys s') \<and> d_open (sys s') \<and>
    (\<exists>ops. length ops \<le> n \<and> d_peer_store (sys s') = foldl ps_apply (d_peer_store (sys s)) ops)"
  using assms
proof (induction n arbitrary: s')
  case 0
  then show ?case by (intro conjI exI [of _ "[]"]) auto
next
  case (Suc n)
  then obtain u where u: "(dht_step ^^ n) s u" "dht_step u s'" by auto
  obtain ops where ops: "dht_ok (sys u)" "d_open (sys u)" "length ops \<le> n"
    "d_peer_store (sys u) = foldl ps_apply (d_peer_store (sys s)) ops"
    using Suc.IH [OF u(1) Suc.prems(2,3)] by blast
  obtain more where more: "dht_ok (sys s')" "d_open (sys s')" "length more \<le> 1"
    "d_peer_store (sys s') = foldl ps_apply (d_peer_store (sys u)) more"
    using dht_step_store [OF u(2) ops(1,2)] by blast
  then show ?case using ops(3,4) by (intro conjI exI [of _ "ops @ more"]) simp_all
qed

lemma foldl_consts:
  "ps_self_id (foldl ps_apply ps ops) = ps_self_id ps" "ps_max_distance (foldl ps_apply ps ops) = ps_max_distance ps"
  "ps_max_remembered_peers (foldl ps_apply ps ops) = ps_max_remembered_peers ps"
  by (induction ops arbitrary: ps) (simp_all add: ps_apply_consts)

lemma announce_stored:
  assumes "store_ok ps" "t \<in> set (ps_tokens ps)" "st_token t = an_token ann" "st_node_id t = an_id ann"
    and "st_addr t = SocketV4 ip port"
    and "id_cmp (id_distance (an_info_hash ann) (ps_self_id ps)) (ps_max_distance ps) \<noteq> Greater"
    and "ps_peers_len ps < ps_max_remembered_peers ps"
  shows "(ip, if an_implied_port ann = 0 then an_port ann else port) \<in>
    set (get_for_info_hash (snd (store_peer now ps ann (SocketV4 ip port))) (an_info_hash ann))"
proof -
  have sorted: "keys_sorted (ps_peers ps)" using assms(1) by (simp add: store_ok_def)
  have "\<exists>t \<in> set (ps_tokens ps). st_token t = an_token ann \<and> st_addr t = SocketV4 ip port \<and> st_node_id t = an_id ann"
    using assms(2-5) by blast
  moreover have "\<not> ps_max_remembered_peers ps \<le> ps_peers_len ps" using assms(7) by simp
  ultimately show ?thesis
    using assms(6)
    by (auto simp: store_peer_def Let_def get_for_info_hash_def map_of_btree_insert [OF sorted] touch_addr_set
        intro: rev_image_eqI split: option.splits)
qed

text \<open>
  C29: A node that asked for peers may announce. A node at an IPv4 address that asked for peers is given a token.
  Let anything happen at the asked node then, in fewer steps than it remembers tokens (requests of its own,
  messages of any nodes, timeouts, failed sends). If that node now announces itself from the same address
  with the token, for an info hash close enough to the own identifier, and the store has room, then the
  announce is accepted without an error, and from then on, whatever happens, the node's address, with the
  port it asks for, is among the peers the store gives out for the info hash.
\<close>
theorem announce_after_get_peers:
  assumes "dht_ok st" "d_open st" "m_kind q = KGetPeers req"
    and "on_received_message now random st q (SocketV4 ip port) = Return (None, sys s1)"
    and "m_kind (ws_message (last (d_sent (sys s1)))) = KResponse r" "rs_token r = Some token"
    and "(dht_step ^^ n) s1 s2" "n < unat (ps_max_remembered_tokens (d_peer_store st))"
    and "m_kind q' = KAnnounce ann" "an_token ann = token" "an_id ann = gp_id req"
    and "id_cmp (id_distance (an_info_hash ann) (ps_self_id (d_peer_store st))) (ps_max_distance (d_peer_store st)) \<noteq> Greater"
    and "ps_peers_len (d_peer_store (sys s2)) < ps_max_remembered_peers (d_peer_store st)"
  shows "\<exists>st3. on_received_message later random' (sys s2) q' (SocketV4 ip port) = Return (None, st3) \<and>
    (\<forall>s3 s4. sys s3 = st3 \<and> dht_step\<^sup>*\<^sup>* s3 s4 \<longrightarrow>
       (ip, if an_implied_port ann = 0 then an_port ann else port) \<in>
         set (get_for_info_hash (d_peer_store (sys s4)) (an_info_hash ann)))"
proof -
  let ?addr = "SocketV4 ip port" and ?ps = "d_peer_store st"
  obtain t where t: "table_mark_last_query now st (gp_id req) = Return (st\<lparr>d_table := t\<rparr>)"
    using table_mark_ok [OF assms(1)] by blast
  obtain ns where ns: "generate_compact_nodes now st (gp_info_hash req) = Some ns"
    using compact_nodes_ok [OF assms(1)] by blast
  define ps where "ps = snd (gen_token_for ?ps random (gp_id req) ?addr)"
  have g: "gen_token_for ?ps random (gp_id req) ?addr = (random, ps)"
    by (simp add: ps_def gen_token_for_def Let_def)
  define u where "u = sys s1"
  have "d_peer_store u = ps" "token = random"
    using assms(2,3) assms(4-6) [folded u_def] t ns g
    by (auto simp: on_received_message_def reply_def worker_sender_send_def Let_def)
  then have st1: "d_peer_store (sys s1) = ps" "token = random" by (simp_all add: u_def)
  have ok1: "dht_ok (sys s1)" "d_open (sys s1)" using received_store [OF assms(4,1,2)] by simp_all
  let ?t = "\<lparr>st_token = random, st_node_id = gp_id req, st_addr = ?addr\<rparr>"
  obtain xs where tok: "ps_tokens ps = xs @ ?t # []"
  proof -
    have "ps_tokens ?ps \<noteq> [] \<or> \<not> length (ps_tokens ?ps) + 1 > unat (ps_max_remembered_tokens ?ps)"
      using assms(1) by (auto simp: dht_ok_def word_less_nat_alt)
    then show thesis
      using that [of "[]"]
        that [of "if unat (ps_max_remembered_tokens ?ps) < Suc (length (ps_tokens ?ps)) then tl (ps_tokens ?ps) else ps_tokens ?ps"]
      by (cases "ps_tokens ?ps") (auto simp: ps_def gen_token_for_def Let_def)
  qed
  have same: "ps_self_id ps = ps_self_id ?ps" "ps_max_distance ps = ps_max_distance ?ps"
    "ps_max_remembered_peers ps = ps_max_remembered_peers ?ps" "ps_max_remembered_tokens ps = ps_max_remembered_tokens ?ps"
    by (simp_all add: ps_def gen_token_for_def Let_def)
  obtain ops where ok2: "dht_ok (sys s2)" "d_open (sys s2)"
    and ops: "length ops \<le> n" "d_peer_store (sys s2) = foldl ps_apply ps ops"
    using dht_steps_store [OF assms(7) ok1] st1(1) by auto
  have store2: "store_ok (d_peer_store (sys s2))" using ok2(1) by (simp add: dht_ok_def)
  have "?t \<in> set (ps_tokens (d_peer_store (sys s2)))"
    unfolding ops(2) by (rule token_kept [OF tok]) (use ops(1) assms(8) same in simp)
  then have stored: "(ip, if an_implied_port ann = 0 then an_port ann else port) \<in>
      set (get_for_info_hash (snd (store_peer later (d_peer_store (sys s2)) ann ?addr)) (an_info_hash ann))"
    by (rule announce_stored [OF store2]) (use assms(10-13) st1(2) ops(2) same in \<open>simp_all add: foldl_consts\<close>)
  obtain t2 where "table_mark_last_query later (sys s2) (an_id ann) = Return ((sys s2)\<lparr>d_table := t2\<rparr>)"
    using table_mark_ok [OF ok2(1)] by blast
  then obtain st3 where st3: "on_received_message later random' (sys s2) q' ?addr = Return (None, st3)"
    "d_peer_store st3 = snd (store_peer later (d_peer_store (sys s2)) ann ?addr)"
    using assms(9) ok2(2) by (simp add: on_received_message_def reply_def worker_sender_send_def Let_def)
  have ok3: "dht_ok st3" "d_open st3" using received_store [OF st3(1) ok2] by simp_all
  have "(ip, if an_implied_port ann = 0 then an_port ann else port) \<in>
      set (get_for_info_hash (d_peer_store (sys s4)) (an_info_hash ann))" if s3: "sys s3 = st3" "dht_step\<^sup>*\<^sup>* s3 s4" for s3 s4
  proof -
    obtain k where "(dht_step ^^ k) s3 s4" using \<open>dht_step\<^sup>*\<^sup>* s3 s4\<close> by (auto simp: rtranclp_power)
    then obtain more where "d_peer_store (sys s4) = foldl ps_apply (d_peer_store st3) more"
      using dht_steps_store [of k s3 s4] ok3 s3(1) by auto
    then show ?thesis using addresses_kept [of "d_peer_store st3"] stored ok3(1) st3(2) by (simp add: dht_ok_def)
  qed
  then show ?thesis using st3(1) by blast
qed

section \<open>The useful nodes of a lookup\<close>

datatype lookup_op =
    LkError socket_addr
  | LkResponded nat socket_addr response_or_error
  | LkShould nat bytes socket_addr nat
  | LkSecond nat socket_addr nat "dht_failure + response_or_error"

fun lookup_apply :: "rec_request \<Rightarrow> lookup_op \<Rightarrow> rec_request" where
  "lookup_apply req (LkError a) = snd (mark_node_error req a)"
| "lookup_apply req (LkResponded now a r) = snd (mark_node_responded now req a r)"
| "lookup_apply req (LkShould now i a depth) = snd (should_request_node now req i a depth)"
| "lookup_apply req (LkSecond now a depth r) = snd (request_one_second now req a depth r)"

definition lookup_ok :: "rec_request \<Rightarrow> bool" where
  "lookup_ok req \<longleftrightarrow> distinct (map un_id (rr_useful_nodes req)) \<and>
     length (rr_useful_nodes req) \<le> rr_useful_nodes_limit req \<and>
     (\<forall>(i, a, depth) \<in> set (rr_node_tx req). depth \<le> rr_max_depth req)"

lemma update_first_map:
  "(\<And>x. f (g x) = f x) \<Longrightarrow> map f (update_first P g xs) = map f xs"
  by (induction xs) simp_all

lemma update_first_ids [simp]:
  "(\<And>x. un_id (g x) = un_id x) \<Longrightarrow> map un_id (update_first P g xs) = map un_id xs"
  "(\<And>x. un_id (g x) = un_id x) \<Longrightarrow> length (update_first P g xs) = length xs"
  using update_first_map [of un_id g P xs] by (simp_all, metis length_map)

lemma lookup_ok_update:
  assumes "lookup_ok req" "\<And>x. un_id (g x) = un_id x"
  shows "lookup_ok (req\<lparr>rr_useful_nodes := update_first P g (rr_useful_nodes req)\<rparr>)"
  using assms by (simp add: lookup_ok_def)

lemma should_request_ok:
  assumes "lookup_ok req"
  shows "lookup_ok (snd (should_request_node now req i a depth))"
    "fst (should_request_node now req i a depth) \<Longrightarrow> depth < rr_max_depth req"
    "rr_max_depth (snd (should_request_node now req i a depth)) = rr_max_depth req"
    "rr_useful_nodes_limit (snd (should_request_node now req i a depth)) = rr_useful_nodes_limit req"
    "rr_node_tx (snd (should_request_node now req i a depth)) = rr_node_tx req"
proof -
  show "lookup_ok (snd (should_request_node now req i a depth))"
  proof (cases "find (\<lambda>n. un_id n = i) (rr_useful_nodes req)")
    case (Some e)
    then show ?thesis using assms lookup_ok_update [OF assms] by (simp add: should_request_node_def)
  next
    case None
    define new where "new = \<lparr>un_id = i, un_addr = a, un_last_request = now, un_last_response = None,
      un_errors_in_a_row = 0, un_returned_peers = False\<rparr>"
    define ns where "ns = sort_key (useful_key now (rr_info_hash req)) (rr_useful_nodes req @ [new])"
    have "i \<notin> un_id ` set (rr_useful_nodes req)" using None by (auto simp: find_None_iff)
    then have "distinct (map un_id (rr_useful_nodes req @ [new]))" using assms by (simp add: lookup_ok_def new_def)
    moreover have "mset (map un_id ns) = mset (map un_id (rr_useful_nodes req @ [new]))" by (simp add: ns_def)
    ultimately have d: "distinct (map un_id ns)" using mset_eq_imp_distinct_iff by blast
    then have "distinct (map un_id (butlast ns))" by (simp add: map_butlast distinct_butlast)
    moreover have "length ns = length (rr_useful_nodes req) + 1" by (simp add: ns_def)
    ultimately show ?thesis
      using assms d None by (simp add: should_request_node_def lookup_ok_def Let_def ns_def new_def)
  qed
qed (auto simp: should_request_node_def Let_def split: if_splits option.splits)

lemma request_nodes_ok:
  "lookup_ok req \<Longrightarrow> lookup_ok (request_nodes now req depth ns) \<and>
     rr_max_depth (request_nodes now req depth ns) = rr_max_depth req \<and>
     rr_useful_nodes_limit (request_nodes now req depth ns) = rr_useful_nodes_limit req"
proof (induction ns arbitrary: req)
  case (Cons n ns)
  let ?addr = "SocketV4 (fst (n_addr n)) (snd (n_addr n))"
  obtain b req1 where s: "should_request_node now req (n_id n) ?addr depth = (b, req1)" by fastforce
  note ok = should_request_ok [OF Cons.prems, of now "n_id n" ?addr depth, unfolded s]
  have "lookup_ok (if b then req1\<lparr>rr_node_tx := rr_node_tx req1 @ [(Some (n_id n), ?addr, depth + 1)]\<rparr> else req1)"
    using ok by (auto simp: lookup_ok_def)
  from Cons.IH [OF this] show ?case using s ok by simp
qed simp

lemma send_peers_ok:
  "lookup_ok req \<Longrightarrow> lookup_ok (snd (send_peers req ps)) \<and>
     rr_max_depth (snd (send_peers req ps)) = rr_max_depth req \<and>
     rr_useful_nodes_limit (snd (send_peers req ps)) = rr_useful_nodes_limit req"
proof (induction ps arbitrary: req)
  case (Cons p ps)
  have "lookup_ok (req\<lparr>rr_peer_tx := rr_peer_tx req @ [SocketV4 (fst p) (snd p)]\<rparr>)"
    using Cons.prems by (simp add: lookup_ok_def)
  from Cons.IH [OF this] Cons.prems show ?case by simp
qed simp

lemma lookup_apply_ok:
  assumes "lookup_ok req"
  shows "lookup_ok (lookup_apply req op) \<and> rr_max_depth (lookup_apply req op) = rr_max_depth req \<and>
    rr_useful_nodes_limit (lookup_apply req op) = rr_useful_nodes_limit req"
proof (cases op)
  case (LkError a)
  then show ?thesis using lookup_ok_update [OF assms] by (simp add: mark_node_error_def)
next
  case (LkResponded now a r)
  then show ?thesis using lookup_ok_update [OF assms] by (simp add: mark_node_responded_def)
next
  case (LkShould now i a depth)
  then show ?thesis using should_request_ok [OF assms] by simp
next
  case (LkSecond now a depth r)
  have e: "lookup_ok (snd (mark_node_error req a))" "rr_max_depth (snd (mark_node_error req a)) = rr_max_depth req"
    "rr_useful_nodes_limit (snd (mark_node_error req a)) = rr_useful_nodes_limit req"
    using lookup_ok_update [OF assms] by (simp_all add: mark_node_error_def)
  show ?thesis
  proof (cases r)
    case (Inl f)
    then show ?thesis using LkSecond e by (simp add: request_one_second_def)
  next
    case (Inr q)
    show ?thesis
    proof (cases q)
      case (ROk x)
      obtain f req1 where s: "send_peers req (case rs_values x of Some ps \<Rightarrow> ps | None \<Rightarrow> []) = (f, req1)" by fastforce
      note s1 = send_peers_ok [OF assms, of "case rs_values x of Some ps \<Rightarrow> ps | None \<Rightarrow> []", unfolded s snd_conv]
      from request_nodes_ok [of req1 now depth "case rs_nodes x of Some ns \<Rightarrow> ns | None \<Rightarrow> []"] s1 s
      show ?thesis using LkSecond Inr ROk by (cases f) (simp_all add: request_one_second_def)
    next
      case (RErr x)
      then show ?thesis using LkSecond Inr assms by (simp add: request_one_second_def)
    qed
  qed
qed

definition lookup_run :: "rec_request \<Rightarrow> lookup_op list \<Rightarrow> rec_request" where
  "lookup_run req ops = foldl lookup_apply req ops"

lemma lookup_run_ok:
  "lookup_ok req \<Longrightarrow> lookup_ok (lookup_run req ops) \<and> rr_max_depth (lookup_run req ops) = rr_max_depth req \<and>
    rr_useful_nodes_limit (lookup_run req ops) = rr_useful_nodes_limit req"
proof (induction ops rule: rev_induct)
  case (snoc op ops)
  then show ?case using lookup_apply_ok [of "lookup_run req ops" op] by (simp add: lookup_run_def)
qed (simp add: lookup_run_def)

lemma find_unique: "x \<in> set xs \<Longrightarrow> P x \<Longrightarrow> (\<And>y. y \<in> set xs \<Longrightarrow> P y \<Longrightarrow> y = x) \<Longrightarrow> find P xs = Some x"
proof (induction xs)
  case (Cons y xs)
  show ?case
  proof (cases "P y")
    case True
    then show ?thesis using Cons.prems(3) [of y] by simp
  next
    case False
    then have "x \<in> set xs" using Cons.prems(1,2) by auto
    then have "find P xs = Some x"
      by (rule Cons.IH [OF _ Cons.prems(2)]) (rule Cons.prems(3), simp_all)
    then show ?thesis using False by simp
  qed
qed simp

lemma in_butlast: "x \<in> set xs \<Longrightarrow> last xs \<noteq> x \<Longrightarrow> x \<in> set (butlast xs)"
  by (induction xs) (auto split: if_splits)

lemma find_update_request:
  "find (\<lambda>n. un_id n = i) (update_first (\<lambda>n. un_id n = i) (\<lambda>n. n\<lparr>un_last_request := now\<rparr>) ns) =
     map_option (\<lambda>n. n\<lparr>un_last_request := now\<rparr>) (find (\<lambda>n. un_id n = i) ns)"
  by (induction ns) simp_all

lemma requested_is_remembered:
  assumes t: "fst (should_request_node now req i a depth)"
  shows "\<exists>n. find (\<lambda>n. un_id n = i) (rr_useful_nodes (snd (should_request_node now req i a depth))) = Some n \<and>
      un_last_request n = now"
proof (cases "find (\<lambda>n. un_id n = i) (rr_useful_nodes req)")
  case (Some e)
  then show ?thesis using t by (auto simp: should_request_node_def find_update_request split: if_splits)
next
  case None
  define new where "new = \<lparr>un_id = i, un_addr = a, un_last_request = now, un_last_response = None,
    un_errors_in_a_row = 0, un_returned_peers = False\<rparr>"
  define ns where "ns = sort_key (useful_key now (rr_info_hash req)) (rr_useful_nodes req @ [new])"
  have ne: "new \<in> set ns" "un_id new = i" by (simp_all add: ns_def new_def)
  have old: "n = new" if "n \<in> set ns" "un_id n = i" for n
    using that None by (auto simp: ns_def find_None_iff)
  have r: "should_request_node now req i a depth =
      (if length ns > rr_useful_nodes_limit req then (un_id (last ns) \<noteq> i, req\<lparr>rr_useful_nodes := butlast ns\<rparr>)
       else (True, req\<lparr>rr_useful_nodes := ns\<rparr>))"
    using t None by (simp add: should_request_node_def Let_def ns_def new_def split: if_splits)
  have "find (\<lambda>n. un_id n = i) (rr_useful_nodes (snd (should_request_node now req i a depth))) = Some new"
  proof (cases "length ns > rr_useful_nodes_limit req")
    case True
    then have "last ns \<noteq> new" using t r ne by auto
    then have "new \<in> set (butlast ns)" using in_butlast ne by metis
    then have "find (\<lambda>n. un_id n = i) (butlast ns) = Some new"
    proof (rule find_unique)
      fix y assume "y \<in> set (butlast ns)" "un_id y = i"
      then show "y = new" using old in_set_butlastD by metis
    qed (simp_all add: ne)
    then show ?thesis using True r by simp
  next
    case False
    have "find (\<lambda>n. un_id n = i) ns = Some new" by (rule find_unique, rule ne(1), rule ne(2), rule old)
    then show ?thesis using False r by simp
  qed
  then show ?thesis by (simp add: new_def)
qed

text \<open>
  A lookup stays small. Whatever responses come, the lookup for the routing table remembers at most
  32 nodes, each once, and asks nodes at most four steps away from its roots; a node it decided to ask
  is not asked again through the list within a minute.
\<close>
theorem lookup_is_bounded:
  "let req = lookup_run (find_node_request_new target) ops in
    length (rr_useful_nodes req) \<le> 32 \<and> distinct (map un_id (rr_useful_nodes req)) \<and>
    (\<forall>(i, a, depth) \<in> set (rr_node_tx req). depth \<le> 4) \<and>
    (fst (should_request_node now req i a depth) \<longrightarrow> now' \<le> now + 60 * 1000000000 \<longrightarrow>
      \<not> fst (should_request_node now' (snd (should_request_node now req i a depth)) i a' depth'))"
proof -
  define req where "req = lookup_run (find_node_request_new target) ops"
  have "lookup_ok (find_node_request_new target)" by (simp add: lookup_ok_def find_node_request_new_def)
  from lookup_run_ok [OF this, of ops] have ok: "lookup_ok req" "rr_max_depth req = 4" "rr_useful_nodes_limit req = 32"
    by (simp_all add: req_def find_node_request_new_def)
  have "\<not> fst (should_request_node now' (snd (should_request_node now req i a depth)) i a' depth')"
    if "fst (should_request_node now req i a depth)" "now' \<le> now + 60 * 1000000000"
    using requested_is_remembered [OF that(1)] that(2) by (auto simp: should_request_node_def [of now'] elapsed_def split: if_splits)
  then show ?thesis using ok unfolding req_def [symmetric] by (auto simp: lookup_ok_def)
qed

section \<open>A concrete node\<close>

definition ex_id :: bytes where "ex_id = replicate 20 0"

definition ex_node :: dht_state where
  "ex_node = dht_new 0 ex_id None (peer_store_new ex_id)"

lemma ex_node_ok: "dht_ok ex_node" "d_open ex_node"
  using dht_new_ok [of ex_id "peer_store_new ex_id" 0] peer_store_new_ok
  by (simp_all add: ex_node_def ex_id_def dht_new_def peer_store_new_def)

definition ex_get_peers :: dht_message where
  "ex_get_peers = \<lparr>m_kind = KGetPeers \<lparr>gp_id = replicate 20 1, gp_info_hash = ex_id\<rparr>,
     m_transaction_id = ascii ''aa'', m_version = None, m_ip = None\<rparr>"

theorem query_is_answered_witness:
  "\<exists>st' w. on_received_message 5 [1, 2, 3, 4] ex_node ex_get_peers (SocketV4 7 6881) = Return (None, st') \<and> dht_ok st' \<and>
    d_sent st' = d_sent ex_node @ [w] \<and> answers ex_node ex_get_peers (SocketV4 7 6881) w \<and>
    d_done st' = d_done ex_node \<and> d_inflight st' = d_inflight ex_node"
  by (rule query_is_answered [OF ex_node_ok(1) _ ex_node_ok(2)]) (simp add: ex_get_peers_def is_query_def)

definition ex_answered :: dht_state where
  "ex_answered = (case on_received_message 5 [1, 2, 3, 4] ex_node ex_get_peers (SocketV4 7 6881) of
     Return (_, st) \<Rightarrow> st | Panic \<Rightarrow> ex_node)"

lemma ex_compact_nodes: "generate_compact_nodes now ex_node i = Some []"
  by (simp add: generate_compact_nodes_def sorted_by_distance_from_def tree_iter_def iter_leaves_def leaf_nodes_def
      ex_node_def dht_new_def routing_table_new_def bucket_tree_new_def get_def List.map_filter_def)

lemma ex_answered:
  "on_received_message 5 [1, 2, 3, 4] ex_node ex_get_peers (SocketV4 7 6881) = Return (None, ex_answered)"
  "m_kind (ws_message (last (d_sent ex_answered))) =
     KResponse \<lparr>rs_values = Some [], rs_id = ex_id, rs_nodes = Some [], rs_token = Some [1, 2, 3, 4]\<rparr>"
  "ps_peers_len (d_peer_store ex_answered) = 0"
proof -
  obtain t where t: "table_mark_last_query 5 ex_node (replicate 20 1) = Return (ex_node\<lparr>d_table := t\<rparr>)"
    using table_mark_ok [OF ex_node_ok(1)] by blast
  define st where "st = snd (reply (ex_node\<lparr>d_table := t,
      d_peer_store := snd (gen_token_for (d_peer_store ex_node) [1, 2, 3, 4] (replicate 20 1) (SocketV4 7 6881))\<rparr>)
      ex_get_peers (SocketV4 7 6881)
      \<lparr>rs_values = Some [], rs_id = ex_id, rs_nodes = Some [], rs_token = Some [1, 2, 3, 4]\<rparr>)"
  have "d_id ex_node = ex_id" "get_for_info_hash (d_peer_store ex_node) ex_id = []"
    by (simp_all add: ex_node_def dht_new_def peer_store_new_def get_for_info_hash_def)
  then have r: "on_received_message 5 [1, 2, 3, 4] ex_node ex_get_peers (SocketV4 7 6881) = Return (None, st)"
    using t ex_node_ok(2) ex_compact_nodes
    by (simp add: on_received_message_def ex_get_peers_def st_def reply_def worker_sender_send_def Let_def
        gen_token_for_def)
  then have st: "ex_answered = st" by (simp add: ex_answered_def)
  show "on_received_message 5 [1, 2, 3, 4] ex_node ex_get_peers (SocketV4 7 6881) = Return (None, ex_answered)"
    using r st by simp
  show "m_kind (ws_message (last (d_sent ex_answered))) =
     KResponse \<lparr>rs_values = Some [], rs_id = ex_id, rs_nodes = Some [], rs_token = Some [1, 2, 3, 4]\<rparr>"
    using ex_node_ok(2) by (simp add: st st_def reply_def worker_sender_send_def)
  have "ps_peers_len (d_peer_store ex_node) = 0" by (simp add: ex_node_def dht_new_def peer_store_new_def)
  then show "ps_peers_len (d_peer_store ex_answered) = 0"
    using ex_node_ok(2) by (simp add: st st_def reply_def worker_sender_send_def gen_token_for_def Let_def)
qed

definition ex_announcement :: dht_message where
  "ex_announcement = \<lparr>m_kind = KAnnounce \<lparr>an_id = replicate 20 1, an_implied_port = 0, an_info_hash = ex_id,
     an_port = 80, an_token = [1, 2, 3, 4]\<rparr>, m_transaction_id = ascii ''ab'', m_version = None, m_ip = None\<rparr>"

theorem announce_after_get_peers_witness:
  "\<exists>st3. on_received_message 9 [5, 6, 7, 8] ex_answered ex_announcement (SocketV4 7 6881) = Return (None, st3) \<and>
    (7, 80) \<in> set (get_for_info_hash (d_peer_store st3) ex_id)"
proof -
  have near: "id_cmp (id_distance ex_id (ps_self_id (d_peer_store ex_node))) (ps_max_distance (d_peer_store ex_node)) \<noteq> Greater"
  proof -
    have "id_cmp (id_distance (replicate 20 0) (replicate 20 0)) ([0, 0, 0x0f] @ replicate 17 0xff) = Less"
      by code_simp
    then show ?thesis by (simp add: ex_node_def dht_new_def peer_store_new_def ex_id_def)
  qed
  have room: "ps_peers_len (d_peer_store (sys (dht_start ex_answered))) < ps_max_remembered_peers (d_peer_store ex_node)"
    using ex_answered(3) by (simp add: dht_start_def) (simp add: ex_node_def dht_new_def peer_store_new_def)
  have kind: "m_kind ex_get_peers = KGetPeers \<lparr>gp_id = replicate 20 1, gp_info_hash = ex_id\<rparr>"
    by (simp add: ex_get_peers_def)
  have many: "0 < unat (ps_max_remembered_tokens (d_peer_store ex_node))"
    by (simp add: ex_node_def dht_new_def peer_store_new_def)
  have stay: "(dht_step ^^ 0) (dht_start ex_answered) (dht_start ex_answered)" by simp
  have sys: "sys (dht_start ex_answered) = ex_answered" by (simp add: dht_start_def)
  have got: "on_received_message 5 [1, 2, 3, 4] ex_node ex_get_peers (SocketV4 7 6881) = Return (None, sys (dht_start ex_answered))"
    "m_kind (ws_message (last (d_sent (sys (dht_start ex_answered))))) =
       KResponse \<lparr>rs_values = Some [], rs_id = ex_id, rs_nodes = Some [], rs_token = Some [1, 2, 3, 4]\<rparr>"
    by (simp_all only: sys ex_answered(1,2))
  from announce_after_get_peers [OF ex_node_ok kind got, where later = 9 and random' = "[5, 6, 7, 8]"
      and token = "[1, 2, 3, 4]" and q' = ex_announcement and ?s2.0 = "dht_start ex_answered" and n = 0
      and ann = "\<lparr>an_id = replicate 20 1, an_implied_port = 0, an_info_hash = ex_id, an_port = 80, an_token = [1, 2, 3, 4]\<rparr>",
      OF _ stay many _ _ _ _ room]
    near
  obtain st3 where st3: "on_received_message 9 [5, 6, 7, 8] ex_answered ex_announcement (SocketV4 7 6881) = Return (None, st3)"
    "\<forall>s3 s4. sys s3 = st3 \<and> dht_step\<^sup>*\<^sup>* s3 s4 \<longrightarrow> (7, 80) \<in> set (get_for_info_hash (d_peer_store (sys s4)) ex_id)"
    by (auto simp: ex_announcement_def sys)
  then show ?thesis using st3(2) [rule_format, of "dht_start st3" "dht_start st3"] by (auto simp: dht_start_def)
qed

text \<open>A ping that is answered.\<close>

definition ex_addr4 :: socket_addr where "ex_addr4 = SocketV4 7 6881"

definition ex_pong :: dht_message where
  "ex_pong = \<lparr>m_kind = KResponse (default_response (replicate 20 1)), m_transaction_id = [0, 0], m_version = None, m_ip = None\<rparr>"

definition ex_asked :: dht_state where
  "ex_asked = snd (request_start ex_node 0 RqPing ex_addr4)"

definition ex_run :: dht_system where
  "ex_run = \<lparr>sys = snd (on_response ex_asked ex_pong ex_addr4 (ROk (default_response (replicate 20 1)))),
     started = [0 \<mapsto> (0, ex_addr4)], arrived = [(0, ex_addr4, ROk (default_response (replicate 20 1)))]\<rparr>"

lemma ex_request: "request_start ex_node 0 RqPing ex_addr4 = (Inr (0, ex_addr4), ex_asked)"
  by (simp add: ex_asked_def request_start_def create_request_def worker_sender_send_def ex_node_def dht_new_def Let_def)

lemma ex_run: "dht_step\<^sup>*\<^sup>* (dht_start ex_node) ex_run"
proof -
  define s1 where "s1 = (dht_start ex_node)\<lparr>sys := ex_asked, started := [0 \<mapsto> (0, ex_addr4)]\<rparr>"
  have "dht_step (dht_start ex_node) s1"
    using dht_step.start [of "dht_start ex_node" 0 RqPing ex_addr4 "(0, ex_addr4)" ex_asked] ex_request
    by (simp add: dht_start_def s1_def)
  moreover have "dht_step s1 ex_run"
  proof -
    have tid: "get_our_transaction_id ex_pong = Some 0" by (simp add: get_our_transaction_id_def ex_pong_def)
    have "on_received_message 3 [] (sys s1) ex_pong ex_addr4 =
        Return (fst (on_response ex_asked ex_pong ex_addr4 (ROk (default_response (replicate 20 1)))), sys ex_run)"
      by (simp add: on_received_message_def s1_def ex_run_def) (simp add: ex_pong_def)
    from dht_step.receive [OF this] show ?thesis
      using tid by (simp add: s1_def ex_run_def dht_start_def) (simp add: ex_pong_def)
  qed
  ultimately show ?thesis by simp
qed

theorem responses_reach_their_request_witness:
  "distinct (map fst (d_done (sys ex_run))) \<and>
    (\<exists>tid addr. started ex_run 0 = Some (tid, addr) \<and>
      (tid, addr, ROk (default_response (replicate 20 1))) \<in> set (arrived ex_run))"
proof -
  have idle: "d_inflight ex_node = (\<lambda>_. None)" "d_done ex_node = []" by (simp_all add: ex_node_def dht_new_def)
  have "(0, ROk (default_response (replicate 20 1))) \<in> set (d_done (sys ex_run))"
    by (simp add: ex_run_def on_response_def ex_pong_def get_our_transaction_id_def ex_asked_def request_start_def
        create_request_def worker_sender_send_def ex_node_def dht_new_def Let_def)
  then show ?thesis using responses_reach_their_request [OF ex_run idle] by blast
qed

theorem lookup_is_bounded_witness:
  "let req = lookup_run (find_node_request_new ex_id) [LkShould 1 (replicate 20 1) ex_addr4 0] in
    \<not> fst (should_request_node 2 (snd (should_request_node 1 req (replicate 20 2) ex_addr4 0)) (replicate 20 2) ex_addr4 0)"
proof -
  let ?req = "lookup_run (find_node_request_new ex_id) [LkShould 1 (replicate 20 1) ex_addr4 0]"
  have "fst (should_request_node 1 ?req (replicate 20 2) ex_addr4 0)"
    by (simp add: lookup_run_def find_node_request_new_def should_request_node_def Let_def)
  with lookup_is_bounded [of ex_id "[LkShould 1 (replicate 20 1) ex_addr4 0]" 1 "replicate 20 2" ex_addr4 0 2 ex_addr4 0]
  show ?thesis by (simp add: Let_def)
qed

end
