(* ===== verification/DhtWorker.thy ===== *)
theory DhtWorker
  imports Dht
begin

text \<open>
  Model of what runs a DHT node (\<open>dht.rs\<close>): the lookup that fills the routing table, from its first addresses to
  its end, the bootstrapping over several hosts, the rounds of the bucket refresher and the pinger, and the
  making of a node; and of the file its table is kept in (\<open>persistence.rs\<close>).
\<close>

section \<open>A lookup for the routing table\<close>

text \<open>
  A future of \<open>request_one\<close>: not yet polled, or waiting for what comes of its first or its second request. The
  requests themselves are operations of the node (\<open>request_start\<close>, \<open>request_finish\<close>).
\<close>

datatype phase = Unpolled | AwaitFirst | AwaitSecond

record node_lookup =
  nl_req :: rec_request
  nl_futs :: "(bytes option \<times> socket_addr \<times> nat \<times> phase) list"
  nl_successes :: nat
  nl_errors :: nat

definition find_node_lookup_new :: "bytes \<Rightarrow> socket_addr list \<Rightarrow> node_lookup" where
  "find_node_lookup_new target addrs =
     \<lparr>nl_req = find_node_request_new target, nl_futs = map (\<lambda>a. (None, a, 0, Unpolled)) addrs,
      nl_successes = 0, nl_errors = 0\<rparr>"

definition lookup_recv :: "node_lookup \<Rightarrow> node_lookup option" where
  "lookup_recv l =
     (case rr_node_tx (nl_req l) of
        [] \<Rightarrow> None
      | (i, addr, depth) # rest \<Rightarrow>
          Some (l\<lparr>nl_req := (nl_req l)\<lparr>rr_node_tx := rest\<rparr>, nl_futs := nl_futs l @ [(i, addr, depth, Unpolled)]\<rparr>))"

text \<open>One turn of the \<open>k\<close>-th future, which gets on to its next wait; after the last it is gone and counted.\<close>

definition lookup_turn ::
  "nat \<Rightarrow> dht_state \<Rightarrow> nat \<Rightarrow> dht_failure + response_or_error \<Rightarrow> node_lookup \<Rightarrow> (dht_state \<times> node_lookup) outcome" where
  "lookup_turn now st k resp l =
     (case nl_futs l ! k of (i, addr, depth, phase) \<Rightarrow>
        (case phase of
           Unpolled \<Rightarrow>
             bind_outcome (request_one_start now st (nl_req l) i addr) (\<lambda>st.
               Return (st, l\<lparr>nl_futs := (nl_futs l)[k := (i, addr, depth, AwaitFirst)]\<rparr>))
         | AwaitFirst \<Rightarrow>
             bind_outcome (request_one_first now st (nl_req l) i addr resp) (\<lambda>(st, req).
               Return (st, l\<lparr>nl_req := req, nl_futs := (nl_futs l)[k := (i, addr, depth, AwaitSecond)]\<rparr>))
         | AwaitSecond \<Rightarrow>
             (case request_one_second now (nl_req l) addr depth resp of
                (failure, req) \<Rightarrow>
                  let l = l\<lparr>nl_req := req, nl_futs := take k (nl_futs l) @ drop (k + 1) (nl_futs l)\<rparr> in
                  Return (st, if failure = None then l\<lparr>nl_successes := nl_successes l + 1\<rparr>
                    else l\<lparr>nl_errors := nl_errors l + 1\<rparr>))))"

definition lookup_over :: "node_lookup \<Rightarrow> bool" where
  "lookup_over l \<longleftrightarrow> rr_node_tx (nl_req l) = [] \<and> nl_futs l = []"

definition lookup_result :: "node_lookup \<Rightarrow> nat + unit" where
  "lookup_result l = (if nl_successes l = 0 then Inl (nl_errors l) else Inr ())"

inductive lookup_step :: "dht_state \<Rightarrow> node_lookup \<Rightarrow> dht_state \<Rightarrow> node_lookup \<Rightarrow> bool" where
  receives: "lookup_recv l = Some l' \<Longrightarrow> lookup_step st l st l'"
| turns: "k < length (nl_futs l) \<Longrightarrow> lookup_turn now st k resp l = Return (st', l') \<Longrightarrow> lookup_step st l st' l'"

section \<open>Bootstrapping\<close>

text \<open>
  One host: the outcome of each attempt, with what the backoff policy says after it. The result is missing while
  the attempts go on.
\<close>

fun bootstrap_hostname_with_backoff :: "(bool \<times> nat option) list \<Rightarrow> nat list \<times> bool option" where
  "bootstrap_hostname_with_backoff [] = ([], None)"
| "bootstrap_hostname_with_backoff ((ok, next_backoff) # attempts) =
     (if ok then ([], Some True)
      else
        (case next_backoff of
           None \<Rightarrow> ([], Some False)
         | Some backoff \<Rightarrow> apfst (\<lambda>sleeps. backoff # sleeps) (bootstrap_hostname_with_backoff attempts)))"

definition bootstrap_hostname :: "bytes \<Rightarrow> socket_addr list option \<Rightarrow> node_lookup option" where
  "bootstrap_hostname own_id addrs = map_option (find_node_lookup_new own_id) addrs"

text \<open>All hosts, when each has its result; the worker ends with this result if it is an error.\<close>

definition bootstrap :: "bool list \<Rightarrow> bool" where
  "bootstrap results = (length (filter id results) \<noteq> 0)"

section \<open>Refreshing and pinging\<close>

definition refresh_lookup :: "nat \<Rightarrow> dht_state \<Rightarrow> id20 \<Rightarrow> node_lookup option" where
  "refresh_lookup now st random_id =
     map_option (\<lambda>ns. find_node_lookup_new (id_bytes random_id) (take 8 (map nd_addr ns)))
       (sorted_by_distance_from now (d_table st) random_id)"

definition with_table :: "dht_state \<Rightarrow> (bool \<times> routing_table) option \<Rightarrow> dht_state outcome" where
  "with_table st r = (case r of None \<Rightarrow> Panic | Some (_, t) \<Rightarrow> Return (st\<lparr>d_table := t\<rparr>))"

definition ping_start ::
  "nat \<Rightarrow> dht_state \<Rightarrow> handle \<Rightarrow> id20 \<Rightarrow> socket_addr \<Rightarrow> ((dht_failure + u16 \<times> socket_addr) \<times> dht_state) outcome" where
  "ping_start now st h i addr =
     bind_outcome (with_table st (rt_mark_outgoing_request now (d_table st) i)) (\<lambda>st.
       Return (request_start st h RqPing addr))"

definition ping_end :: "nat \<Rightarrow> dht_state \<Rightarrow> id20 \<Rightarrow> dht_failure + response_or_error \<Rightarrow> dht_state outcome" where
  "ping_end now st i resp =
     with_table st (case resp of
       Inr _ \<Rightarrow> rt_mark_response now (d_table st) i
     | Inl _ \<Rightarrow> rt_mark_error now (d_table st) i)"

section \<open>The making of a node\<close>

record dht_config =
  dc_peer_id :: "bytes option"
  dc_bootstrap_addrs :: "bytes list option"
  dc_routing_table :: "routing_table option"
  dc_listen_addr :: "socket_addr option"
  dc_peer_store :: "peer_store option"

definition default_dht_config :: dht_config where
  "default_dht_config = \<lparr>dc_peer_id = None, dc_bootstrap_addrs = None, dc_routing_table = None, dc_listen_addr = None,
     dc_peer_store = None\<rparr>"

text \<open>
  \<open>bind\<close> is the address the socket is bound to, if it can be; \<open>default_bootstrap\<close> the list of \<open>lib.rs\<close>. The result
  is the node, its address and the hosts its worker starts with.
\<close>

definition with_config ::
  "nat \<Rightarrow> (socket_addr \<Rightarrow> socket_addr option) \<Rightarrow> bytes \<Rightarrow> bytes list \<Rightarrow> (bytes \<Rightarrow> peer_store) \<Rightarrow> dht_config \<Rightarrow>
    (dht_state \<times> socket_addr \<times> bytes list) option" where
  "with_config now bind random_id default_bootstrap store_new config =
     (case bind (case dc_listen_addr config of Some a \<Rightarrow> a | None \<Rightarrow> SocketV4 0 0) of
        None \<Rightarrow> None
      | Some listen_addr \<Rightarrow>
          let peer_id = (case dc_peer_id config of Some i \<Rightarrow> i | None \<Rightarrow> random_id);
              bootstrap_addrs = (case dc_bootstrap_addrs config of Some b \<Rightarrow> b | None \<Rightarrow> default_bootstrap);
              store = (case dc_peer_store config of Some s \<Rightarrow> s | None \<Rightarrow> store_new peer_id) in
          Some (dht_new now peer_id (dc_routing_table config) store, listen_addr, bootstrap_addrs))"

section \<open>The end of a lookup\<close>

lemma lookup_step_cases:
  assumes "lookup_step st l st' l'"
  obtains (receives) "lookup_recv l = Some l'" "st' = st"
    | (turns) k now resp where "k < length (nl_futs l)" "lookup_turn now st k resp l = Return (st', l')"
  using assms by (auto elim: lookup_step.cases)

lemma should_request_tx:
  "rr_node_tx (snd (should_request_node now req i a depth)) = rr_node_tx req"
  "rr_max_depth (snd (should_request_node now req i a depth)) = rr_max_depth req"
  "fst (should_request_node now req i a depth) \<Longrightarrow> depth < rr_max_depth req"
  by (auto simp: should_request_node_def Let_def split: if_splits option.splits)

lemma request_nodes_tx:
  "\<exists>new. rr_node_tx (request_nodes now req depth ns) = rr_node_tx req @ new \<and>
     (\<forall>x \<in> set new. snd (snd x) = depth + 1 \<and> depth < rr_max_depth req) \<and>
     rr_max_depth (request_nodes now req depth ns) = rr_max_depth req"
proof (induction ns arbitrary: req)
  case (Cons n ns)
  let ?addr = "SocketV4 (fst (n_addr n)) (snd (n_addr n))"
  obtain b req1 where s: "should_request_node now req (n_id n) ?addr depth = (b, req1)" by fastforce
  note tx = should_request_tx [of now req "n_id n" ?addr depth, unfolded s fst_conv snd_conv]
  show ?case
  proof (cases b)
    case True
    from Cons.IH [of "req1\<lparr>rr_node_tx := rr_node_tx req1 @ [(Some (n_id n), ?addr, depth + 1)]\<rparr>"]
    obtain new where "rr_node_tx (request_nodes now req depth (n # ns)) = rr_node_tx req @ ((Some (n_id n), ?addr, depth + 1) # new)"
      "\<forall>x \<in> set new. snd (snd x) = depth + 1 \<and> depth < rr_max_depth req"
      "rr_max_depth (request_nodes now req depth (n # ns)) = rr_max_depth req"
      using s tx True by auto
    then show ?thesis using tx(3) True by (intro exI [of _ "(Some (n_id n), ?addr, depth + 1) # new"]) auto
  next
    case False
    then show ?thesis using Cons.IH [of req1] s tx by auto
  qed
qed simp

lemma send_peers_tx:
  "rr_node_tx (snd (send_peers req ps)) = rr_node_tx req \<and> rr_max_depth (snd (send_peers req ps)) = rr_max_depth req"
  by (induction ps arbitrary: req) simp_all

lemma request_one_second_tx:
  assumes "request_one_second now req addr depth resp = (f, req')"
  shows "\<exists>new. rr_node_tx req' = rr_node_tx req @ new \<and>
    (\<forall>x \<in> set new. snd (snd x) = depth + 1 \<and> depth < rr_max_depth req) \<and> rr_max_depth req' = rr_max_depth req"
proof (cases resp)
  case (Inl e)
  then show ?thesis using assms by (auto simp: request_one_second_def mark_node_error_def)
next
  case (Inr r)
  show ?thesis
  proof (cases r)
    case (ROk x)
    let ?peers = "case rs_values x of Some ps \<Rightarrow> ps | None \<Rightarrow> []"
    let ?nodes = "case rs_nodes x of Some ns \<Rightarrow> ns | None \<Rightarrow> []"
    obtain e r1 where s: "send_peers req ?peers = (e, r1)" by fastforce
    have tx: "rr_node_tx r1 = rr_node_tx req" "rr_max_depth r1 = rr_max_depth req"
      using send_peers_tx [of req ?peers] s by simp_all
    show ?thesis
    proof (cases e)
      case None
      then have "req' = request_nodes now r1 depth ?nodes" using assms Inr ROk s by (simp add: request_one_second_def)
      then show ?thesis using request_nodes_tx [of now r1 depth ?nodes] tx by simp
    next
      case (Some y)
      then have "req' = r1" using assms Inr ROk s by (simp add: request_one_second_def)
      then show ?thesis using tx by simp
    qed
  next
    case (RErr x)
    then show ?thesis using assms Inr by (simp add: request_one_second_def)
  qed
qed

lemma request_one_first_tx:
  "request_one_first now st req i addr resp = Return (st', req') \<Longrightarrow>
   rr_node_tx req' = rr_node_tx req \<and> rr_max_depth req' = rr_max_depth req"
  by (auto simp: request_one_first_def mark_node_responded_def Let_def bind_outcome_Return_iff split: sum.splits)

text \<open>Work that is left: a request has two waits before it, and what it brings is one deeper.\<close>

fun phase_rank :: "phase \<Rightarrow> nat" where
  "phase_rank Unpolled = 2"
| "phase_rank AwaitFirst = 1"
| "phase_rank AwaitSecond = 0"

definition lookup_work :: "node_lookup \<Rightarrow> nat multiset" where
  "lookup_work l =
     image_mset (\<lambda>(i, a, d). 4 * (rr_max_depth (nl_req l) - d) + 3) (mset (rr_node_tx (nl_req l))) +
     image_mset (\<lambda>(i, a, d, p). 4 * (rr_max_depth (nl_req l) - d) + phase_rank p) (mset (nl_futs l))"

lemma less_work: "\<forall>k \<in># K. k < j \<Longrightarrow> (I + K, I + {#j#}) \<in> mult less_than"
  by (rule one_step_implies_mult) auto

lemma less_work2: "\<forall>k \<in># K. k < j \<Longrightarrow> (K + I, add_mset j I) \<in> mult less_than"
  using less_work [of K j I] by (simp add: add.commute)

lemma lookup_step_work:
  assumes "lookup_step st l st' l'"
  shows "(lookup_work l', lookup_work l) \<in> mult less_than"
  using assms
proof (cases rule: lookup_step_cases)
  case receives
  then obtain i a d rest where "rr_node_tx (nl_req l) = (i, a, d) # rest"
    "l' = l\<lparr>nl_req := (nl_req l)\<lparr>rr_node_tx := rest\<rparr>, nl_futs := nl_futs l @ [(i, a, d, Unpolled)]\<rparr>"
    by (auto simp: lookup_recv_def split: list.splits)
  then show ?thesis
    using less_work [of "{#4 * (rr_max_depth (nl_req l) - d) + 2#}" "4 * (rr_max_depth (nl_req l) - d) + 3"]
    by (simp add: lookup_work_def ac_simps)
next
  case (turns k now resp)
  obtain i a d p where f: "nl_futs l ! k = (i, a, d, p)" by (cases "nl_futs l ! k")
  define xs ys where "xs = take k (nl_futs l)" and "ys = drop (k + 1) (nl_futs l)"
  have futs: "nl_futs l = xs @ (i, a, d, p) # ys"
    using id_take_nth_drop [OF turns(1)] f by (simp add: xs_def ys_def)
  have upd: "(nl_futs l)[k := x] = xs @ x # ys" for x
    using upd_conv_take_nth_drop [OF turns(1), of x] by (simp add: xs_def ys_def)
  have rest: "take k (nl_futs l) @ drop (k + 1) (nl_futs l) = xs @ ys" by (simp add: xs_def ys_def)
  let ?M = "rr_max_depth (nl_req l)"
  show ?thesis
  proof (cases p)
    case Unpolled
    then have "l' = l\<lparr>nl_futs := xs @ (i, a, d, AwaitFirst) # ys\<rparr>" using turns(2) f by (auto simp: lookup_turn_def upd bind_outcome_Return_iff)
    then show ?thesis using less_work [of "{#4 * (?M - d) + 1#}" "4 * (?M - d) + 2"] Unpolled futs
      by (simp add: lookup_work_def ac_simps)
  next
    case AwaitFirst
    then obtain req where "request_one_first now st (nl_req l) i a resp = Return (st', req)"
      "l' = l\<lparr>nl_req := req, nl_futs := xs @ (i, a, d, AwaitSecond) # ys\<rparr>"
      using turns(2) f by (auto simp: lookup_turn_def upd bind_outcome_Return_iff)
    then show ?thesis using less_work [of "{#4 * (?M - d)#}" "4 * (?M - d) + 1"] AwaitFirst futs request_one_first_tx
      by (fastforce simp: lookup_work_def ac_simps)
  next
    case AwaitSecond
    obtain e req where second: "request_one_second now (nl_req l) a d resp = (e, req)" by fastforce
    then have l': "nl_req l' = req" "nl_futs l' = xs @ ys"
      using turns(2) f AwaitSecond rest by (auto simp: lookup_turn_def Let_def split: if_splits)
    obtain new where new: "rr_node_tx req = rr_node_tx (nl_req l) @ new" "rr_max_depth req = ?M"
      "\<forall>x \<in> set new. snd (snd x) = d + 1 \<and> d < ?M"
      using request_one_second_tx [OF second] by blast
    have "\<forall>n \<in># image_mset (\<lambda>(i, a, d). 3 + 4 * (?M - d)) (mset new). n < 4 * (?M - d)" using new(3) by auto
    note less = less_work2 [OF this]
    show ?thesis
      unfolding lookup_work_def l' futs new(1,2) AwaitSecond by (simp add: ac_simps del: set_mset_mset) (rule less)
  qed
qed


lemma rt_marks_total:
  assumes "tree_ok (rt_buckets t)"
  shows "\<exists>b t'. rt_mark_outgoing_request now t i = Some (b, t') \<and> tree_ok (rt_buckets t')"
    "\<exists>b t'. rt_mark_response now t i = Some (b, t') \<and> tree_ok (rt_buckets t')"
    "\<exists>b t'. rt_mark_error now t i = Some (b, t') \<and> tree_ok (rt_buckets t')"
  using rt_mark_ok [OF assms, of "node_mark_outgoing_request now" now False i]
    rt_mark_ok [OF assms, of "node_mark_response now" now True i] rt_mark_ok [OF assms, of node_mark_error now False i]
  by (auto simp: rt_mark_outgoing_request_def rt_mark_response_def rt_mark_error_def
      node_mark_outgoing_request_def node_mark_response_def node_mark_error_def)

lemma on_request_end_ok:
  assumes "dht_ok st"
  shows "\<exists>st'. on_request_end now st req target addr resp = Return st' \<and> dht_ok st'"
proof (cases "rr_callbacks req")
  case (CbGetPeers dist port)
  have "dht_ok (snd (worker_sender_send (snd (create_request st r)) w))" for r w
    using assms by (auto simp: worker_sender_send_def create_request_def Let_def split: dht_request.splits)
  then show ?thesis using CbGetPeers assms
    by (auto simp: on_request_end_def split: option.splits sum.splits response_or_error.splits prod.splits) (metis snd_conv)
next
  case CbFindNodes
  have ok: "tree_ok (rt_buckets (d_table st))" using assms by (simp add: dht_ok_def)
  show ?thesis
    using rt_marks_total(2) [OF ok, of now "id_word target"] rt_marks_total(3) [OF ok, of now "id_word target"] CbFindNodes assms
    by (cases resp) (auto simp: on_request_end_def dht_ok_def)
qed

lemma on_request_start_ok:
  assumes "dht_ok st"
  shows "\<exists>st'. request_one_start now st req i addr = Return st' \<and> dht_ok st'"
proof (cases i)
  case (Some target)
  show ?thesis
  proof (cases "rr_callbacks req")
    case CbFindNodes
    have ok: "tree_ok (rt_buckets (d_table st))" using assms by (simp add: dht_ok_def)
    obtain res t where t: "rt_add_node now (d_table st) (id_word target) addr = Some (res, t)" "tree_ok (rt_buckets t)"
      using rt_add_node_ok [OF ok] by blast
    obtain found t' where "rt_mark_outgoing_request now t (id_word target) = Some (found, t')" "tree_ok (rt_buckets t')"
      using rt_marks_total(1) [OF t(2)] by blast
    then show ?thesis using assms t Some CbFindNodes
      by (cases res) (auto simp: request_one_start_def on_request_start_def dht_ok_def)
  qed (use assms Some in \<open>simp add: request_one_start_def on_request_start_def\<close>)
qed (use assms in \<open>simp add: request_one_start_def\<close>)


lemma lookup_turn_ok:
  assumes "dht_ok st"
  shows "\<exists>st' l'. lookup_turn now st k resp l = Return (st', l') \<and> dht_ok st'"
proof -
  obtain i a d p where f: "nl_futs l ! k = (i, a, d, p)" by (cases "nl_futs l ! k")
  show ?thesis
  proof (cases p)
    case Unpolled
    then show ?thesis using on_request_start_ok [OF assms, of now "nl_req l" i a] f by (auto simp: lookup_turn_def)
  next
    case AwaitFirst
    obtain st' where "(case i of Some target \<Rightarrow> on_request_end now st (case resp of Inr r \<Rightarrow> snd (mark_node_responded now (nl_req l) a r)
        | Inl _ \<Rightarrow> nl_req l) target a resp | None \<Rightarrow> Return st) = Return st'" "dht_ok st'"
      using on_request_end_ok [OF assms] assms by (cases i) fastforce+
    then show ?thesis using AwaitFirst f by (simp add: lookup_turn_def request_one_first_def Let_def)
  next
    case AwaitSecond
    then show ?thesis using assms f by (auto simp: lookup_turn_def Let_def split: prod.splits)
  qed
qed


text \<open>
  C20: A lookup for the routing table ends. Whatever the nodes answer and whatever else happens to the node in
  between, there is no infinite run of a lookup: no request goes deeper than the limit, and each brings
  finitely many. It never gets stuck either: until it is over, each request that is under way can get on
  with any answer, and no step panics, so every run that goes on while it can comes to its end.
\<close>

theorem find_node_lookup_ends:
  "(\<nexists>f :: nat \<Rightarrow> node_lookup. \<forall>n. \<exists>st st'. lookup_step st (f n) st' (f (Suc n))) \<and>
   (\<forall>st (l :: node_lookup). dht_ok st \<longrightarrow> \<not> lookup_over l \<longrightarrow>
     (\<forall>k < length (nl_futs l). \<forall>now resp. \<exists>st' l'. lookup_turn now st k resp l = Return (st', l') \<and>
        dht_ok st' \<and> lookup_step st l st' l') \<and>
     (\<exists>st' l'. lookup_step st l st' l' \<and> dht_ok st'))"
proof (intro conjI allI impI)
  show "\<nexists>f :: nat \<Rightarrow> node_lookup. \<forall>n. \<exists>st st'. lookup_step st (f n) st' (f (Suc n))"
  proof
    assume "\<exists>f :: nat \<Rightarrow> node_lookup. \<forall>n. \<exists>st st'. lookup_step st (f n) st' (f (Suc n))"
    then obtain f where "\<forall>n. (lookup_work (f (Suc n)), lookup_work (f n)) \<in> mult less_than"
      using lookup_step_work by blast
    then have "\<exists>g. \<forall>n. (g (Suc n), g n) \<in> mult less_than" by (intro exI [of _ "\<lambda>n. lookup_work (f n)"])
    then show False using wf_mult [OF wf_less_than] by (auto simp: wf_iff_no_infinite_down_chain)
  qed
next
  fix st and l :: node_lookup and k now resp assume "dht_ok st" "k < length (nl_futs l)"
  then show "\<exists>st' l'. lookup_turn now st k resp l = Return (st', l') \<and> dht_ok st' \<and> lookup_step st l st' l'"
    using lookup_turn_ok [of st now k resp l] lookup_step.turns [of k l now st resp] by blast
next
  fix st and l :: node_lookup assume st: "dht_ok st" and going: "\<not> lookup_over l"
  show "\<exists>st' l'. lookup_step st l st' l' \<and> dht_ok st'"
  proof (cases "rr_node_tx (nl_req l)")
    case Nil
    then have "0 < length (nl_futs l)" using going by (simp add: lookup_over_def)
    then show ?thesis using lookup_turn_ok [OF st, of _ 0 _ l] lookup_step.turns [of 0 l] by blast
  next
    case (Cons x rest)
    then obtain l' where "lookup_recv l = Some l'" by (cases x) (auto simp: lookup_recv_def)
    then show ?thesis using st lookup_step.receives by blast
  qed
qed

theorem find_node_lookup_ends_witness:
  "\<exists>st' l'. lookup_step ex_node (find_node_lookup_new ex_id [ex_addr4]) st' l' \<and> dht_ok st'"
proof -
  have "\<not> lookup_over (find_node_lookup_new ex_id [ex_addr4])" by (simp add: lookup_over_def find_node_lookup_new_def)
  then show ?thesis using find_node_lookup_ends ex_node_ok(1) by blast
qed

text \<open>What a lookup comes to: it is an error exactly when no request of it succeeded.\<close>

inductive lookup_reach :: "node_lookup \<Rightarrow> node_lookup \<Rightarrow> bool" for l0 where
  begun: "lookup_reach l0 l0"
| goes_on: "lookup_reach l0 l \<Longrightarrow> lookup_step st l st' l' \<Longrightarrow> lookup_reach l0 l'"

definition requests_made :: "node_lookup \<Rightarrow> nat" where
  "requests_made l = length (nl_futs l) + nl_successes l + nl_errors l"

lemma lookup_step_requests: "lookup_step st l st' l' \<Longrightarrow> requests_made l \<le> requests_made l'"
proof (erule lookup_step_cases)
  assume "lookup_recv l = Some l'"
  then show ?thesis by (auto simp: lookup_recv_def requests_made_def split: list.splits)
next
  fix k now resp assume "k < length (nl_futs l)" "lookup_turn now st k resp l = Return (st', l')"
  then show ?thesis
    by (cases "nl_futs l ! k")
      (auto simp: lookup_turn_def requests_made_def bind_outcome_Return_iff Let_def split: phase.splits prod.splits if_splits)
qed

lemma lookup_of_no_address_fails:
  "lookup_over (find_node_lookup_new target []) \<and> lookup_result (find_node_lookup_new target []) = Inl 0"
  by (simp add: lookup_over_def find_node_lookup_new_def find_node_request_new_def lookup_result_def)

lemma lookup_counts:
  assumes "lookup_reach (find_node_lookup_new target addrs) l" "lookup_over l"
  shows "length addrs \<le> nl_successes l + nl_errors l \<and>
    (addrs \<noteq> [] \<longrightarrow> lookup_result l \<noteq> Inl 0)"
proof -
  have "requests_made (find_node_lookup_new target addrs) \<le> requests_made l"
    using assms(1) by induction (auto dest: lookup_step_requests)
  then show ?thesis using assms(2)
    by (cases addrs) (auto simp: requests_made_def find_node_lookup_new_def lookup_over_def lookup_result_def)
qed

text \<open>
  When every host has failed for good, bootstrapping is an error, and the worker ends with it: a node that took its
  table from a file and has answered ever since stops a day after its hosts went away.
\<close>

lemma bootstrap_fails_iff: "\<not> bootstrap results \<longleftrightarrow> True \<notin> set results"
  by (auto simp: bootstrap_def filter_empty_conv)


section \<open>The file of the table\<close>

text \<open>
  Instants are not stored: a leaf that is read was refreshed just now, and nothing is known of its nodes but
  identifier and address. \<open>reload_table now rt\<close> is what reading gives of the table \<open>rt\<close> that was written.
\<close>

definition forget_node :: "rt_node \<Rightarrow> rt_node" where
  "forget_node n = \<lparr>nd_id = nd_id n, nd_addr = nd_addr n, nd_last_request = None, nd_last_response = None,
     nd_last_query = None, nd_errors_in_a_row = 0\<rparr>"

definition reload_bucket :: "nat \<Rightarrow> bucket_node \<Rightarrow> bucket_node" where
  "reload_bucket now b =
     b\<lparr>bn_data := (case bn_data b of
         Leaf lb \<Rightarrow> Leaf \<lparr>lb_nodes = map forget_node (lb_nodes lb), lb_last_refreshed = now\<rparr>
       | LeftRight l r \<Rightarrow> LeftRight l r)\<rparr>"

definition reload_table :: "nat \<Rightarrow> routing_table \<Rightarrow> routing_table" where
  "reload_table now rt = rt\<lparr>rt_buckets := (rt_buckets rt)\<lparr>bt_data := map (reload_bucket now) (bt_data (rt_buckets rt))\<rparr>\<rparr>"

record dht_file =
  df_addr :: socket_addr
  df_table :: routing_table
  df_peer_store :: "peer_store option"

text \<open>
  A dump: whether the temporary file opens, how much has left the buffer when the serializer is through, how much
  the system takes at all, whether it renames. The file is renamed while the buffer still holds the rest,
  which is written when the buffer is dropped. The result has the stored bytes right after the renaming,
  and in the end.
\<close>

record dht_dump_io =
  dd_opens :: bool
  dd_flushed :: nat
  dd_room :: nat
  dd_renames :: bool

definition dump_dht :: "(dht_file \<Rightarrow> bytes) \<Rightarrow> dht_dump_io \<Rightarrow> dht_file \<Rightarrow> bytes option \<Rightarrow> bool \<times> bytes option \<times> bytes option" where
  "dump_dht json_write io file stored =
     (let data = json_write file in
      if \<not> dd_opens io \<or> dd_room io < min (length data) (dd_flushed io) \<or> \<not> dd_renames io then (False, stored, stored)
      else (True, Some (take (dd_flushed io) data), Some (take (dd_room io) data)))"

datatype stored_file = Missing | Unreadable | Contents bytes

text \<open>What the file gives for the making of a node; without a table in it all is new.\<close>

definition stored_config :: "(bytes \<Rightarrow> dht_file option) \<Rightarrow> stored_file \<Rightarrow> dht_config option" where
  "stored_config json_read f =
     (case f of
        Unreadable \<Rightarrow> None
      | Missing \<Rightarrow> Some default_dht_config
      | Contents b \<Rightarrow>
          Some (case json_read b of
             None \<Rightarrow> default_dht_config
           | Some de \<Rightarrow> default_dht_config\<lparr>dc_peer_id := Some (id_bytes (rt_id (df_table de))),
               dc_routing_table := Some (df_table de), dc_listen_addr := Some (df_addr de),
               dc_peer_store := df_peer_store de\<rparr>))"

lemma forget_sel [simp]: "nd_id (forget_node n) = nd_id n" "nd_addr (forget_node n) = nd_addr n"
  by (simp_all add: forget_node_def)

lemma reload_bucket_sel [simp]:
  "bn_bits (reload_bucket now b) = bn_bits b" "bn_start (reload_bucket now b) = bn_start b"
  "bn_end (reload_bucket now b) = bn_end b"
  by (simp_all add: reload_bucket_def)

lemma reload_leaf_nodes [simp]: "leaf_nodes (reload_bucket now b) = map forget_node (leaf_nodes b)"
  by (cases "bn_data b") (simp_all add: leaf_nodes_def reload_bucket_def)

lemma reload_all_nodes: "all_nodes (map (reload_bucket now) d) = map forget_node (all_nodes d)"
  by (induction d) (simp_all add: all_nodes_def)

lemma reload_shaped: "shaped d s \<Longrightarrow> shaped (map (reload_bucket now) d) s"
proof (induction s)
  case (SNode i l r)
  have "s_root l < length d" "s_root r < length d"
    using SNode.prems shaped_bound [OF _ s_root_in] by auto
  then show ?case using SNode by (simp add: halves_def) (simp add: reload_bucket_def)
qed (auto simp: reload_bucket_def)

text \<open>
  A stored routing table is taken up again. Reading the table that was written gives a table that is in order
  again, with the same identifier and with the same nodes under the same addresses, of which nothing is
  known yet; a node made from it has the old identifier and is fit to serve.
\<close>

theorem stored_table_comes_back:
  assumes "tree_ok (rt_buckets rt)" "json_read b = Some \<lparr>df_addr = a, df_table = reload_table now rt, df_peer_store = Some ps\<rparr>"
    and "store_ok ps" "0 < ps_max_remembered_tokens ps" "bind a = Some a'"
  shows "\<exists>config st boots. stored_config json_read (Contents b) = Some config \<and>
    with_config later bind random_id default_bootstrap store_new config = Some (st, a', boots) \<and>
    d_id st = id_bytes (rt_id rt) \<and> dht_ok st \<and>
    rt_nodes (d_table st) = image_mset forget_node (rt_nodes rt)"
proof -
  obtain s where "tree_inv s (rt_buckets rt)" using assms(1) by (auto simp: tree_ok_def)
  then have "tree_inv s (rt_buckets (reload_table now rt))"
    using shaped_bound [of "bt_data (rt_buckets rt)" s "s_root s"] s_root_in [of s]
    by (auto simp: tree_inv_def reload_table_def reload_shaped reload_all_nodes node_ok_def leaf_ok_def comp_def within_def)
  then have ok: "tree_ok (rt_buckets (reload_table now rt))" by (auto simp: tree_ok_def)
  show ?thesis
    using assms(2-5) ok
    by (auto simp: stored_config_def with_config_def default_dht_config_def dht_new_def dht_ok_def reload_table_def
        reload_all_nodes Let_def)
qed

lemma stored_table_example:
  "\<exists>config st boots. stored_config (\<lambda>_. Some \<lparr>df_addr = ex_addr4, df_table = reload_table 5 (d_table ex_node),
       df_peer_store = Some (d_peer_store ex_node)\<rparr>) (Contents []) = Some config \<and>
     with_config 7 Some [] [] (\<lambda>_. d_peer_store ex_node) config = Some (st, ex_addr4, boots) \<and> dht_ok st"
proof -
  have "tree_ok (rt_buckets (d_table ex_node))" "store_ok (d_peer_store ex_node)"
    "0 < ps_max_remembered_tokens (d_peer_store ex_node)"
    using ex_node_ok(1) by (simp_all add: dht_ok_def)
  then show ?thesis
    using stored_table_comes_back [of "d_table ex_node" "\<lambda>_. Some \<lparr>df_addr = ex_addr4, df_table = reload_table 5 (d_table ex_node),
       df_peer_store = Some (d_peer_store ex_node)\<rparr>" "[]" ex_addr4 5 "d_peer_store ex_node" Some ex_addr4 7] by blast
qed

text \<open>Right after a successful dump the stored file lacks what is still in the buffer, and for good when that cannot be written.\<close>

lemma renamed_before_flush:
  assumes "dump_dht json_write io file stored = (True, at_rename, at_end)"
  shows "at_rename = Some (take (dd_flushed io) (json_write file)) \<and> at_end = Some (take (dd_room io) (json_write file))"
  using assms by (auto simp: dump_dht_def Let_def split: if_splits)

end
