(* ===== verification/UdpTracker.thy ===== *)
theory UdpTracker
  imports FileOps
begin

text \<open>
  Model of \<open>tracker_comms/src/tracker_comms_udp.rs\<close>: the requests and responses of the UDP tracker
  protocol, and the requester that sends one and waits for the other. The transaction ids are arguments,
  as the source draws them at random; so are the results of the socket.
\<close>

section \<open>Requests\<close>

definition ACTION_CONNECT :: u32 where "ACTION_CONNECT = 0"
definition ACTION_ANNOUNCE :: u32 where "ACTION_ANNOUNCE = 1"
definition EVENT_NONE :: u32 where "EVENT_NONE = 0"
definition EVENT_COMPLETED :: u32 where "EVENT_COMPLETED = 1"
definition EVENT_STARTED :: u32 where "EVENT_STARTED = 2"
definition EVENT_STOPPED :: u32 where "EVENT_STOPPED = 3"
definition CONNECTION_ID_MAGIC :: u64 where "CONNECTION_ID_MAGIC = 0x41727101980"

record announce_fields =
  af_info_hash :: bytes
  af_peer_id :: bytes
  af_downloaded :: u64
  af_left :: u64
  af_uploaded :: u64
  af_event :: u32
  af_key :: u32
  af_port :: u16

datatype udp_request = ConnectRequest | AnnounceRequest u64 announce_fields

definition udp_request_serialize :: "udp_request \<Rightarrow> u32 \<Rightarrow> bytes \<Rightarrow> bytes \<times> nat" where
  "udp_request_serialize req transaction_id buf =
     (let cur_len = length buf;
          buf = (case req of
              ConnectRequest \<Rightarrow>
                buf @ be64 CONNECTION_ID_MAGIC @ be32 ACTION_CONNECT @ be32 transaction_id
            | AnnounceRequest connection_id fs \<Rightarrow>
                buf @ be64 connection_id @ be32 ACTION_ANNOUNCE @ be32 transaction_id
                  @ af_info_hash fs @ af_peer_id fs
                  @ be64 (af_downloaded fs) @ be64 (af_left fs) @ be64 (af_uploaded fs)
                  @ be32 (af_event fs) @ be32 0 @ be32 (af_key fs) @ be32 (-1) @ be16 (af_port fs)) in
      (buf, length buf - cur_len))"

section \<open>Responses\<close>

record announce_response =
  ar_interval :: u32
  ar_leechers :: u32
  ar_seeders :: u32
  ar_addrs :: "(u32 \<times> u16) list"

datatype udp_response = ConnectResponse u64 | AnnounceResponse announce_response

definition split_slice :: "bytes \<Rightarrow> nat \<Rightarrow> (bytes \<times> bytes) option" where
  "split_slice s first_len = (if length s < first_len then None else Some (take first_len s, drop first_len s))"

datatype udp_error = TooShort nat | UnsupportedAction u32 | Remaining nat

text \<open>\<open>ParseNum\<close>, for a type of \<open>n\<close> bytes.\<close>

definition parse_num :: "nat \<Rightarrow> (bytes \<Rightarrow> 'a) \<Rightarrow> bytes \<Rightarrow> udp_error + ('a \<times> bytes)" where
  "parse_num n from_be_bytes buf =
     (case split_slice buf n of None \<Rightarrow> Inl (TooShort n) | Some (b, rest) \<Rightarrow> Inr (from_be_bytes b, rest))"

abbreviation parse_u16 where "parse_u16 \<equiv> parse_num 2 of_be16"
abbreviation parse_u32 where "parse_u32 \<equiv> parse_num 4 of_be32"
abbreviation parse_u64 where "parse_u64 \<equiv> parse_num 8 of_be64"

lemma parse_num_rest: "parse_num n f b = Inr (x, rest) \<Longrightarrow> length b = n + length rest"
  by (auto simp: parse_num_def split_slice_def split: if_splits)

text \<open>The loop over the addresses of an announce response, up to the end of the datagram.\<close>

function parse_addrs :: "bytes \<Rightarrow> (u32 \<times> u16) list \<Rightarrow> udp_error + (u32 \<times> u16) list" where
  "parse_addrs b addrs =
     (if b = [] then Inr addrs
      else case parse_u32 b of
        Inl e \<Rightarrow> Inl e
      | Inr (ip, b2) \<Rightarrow>
          (case parse_u16 b2 of
             Inl e \<Rightarrow> Inl e
           | Inr (port, b2) \<Rightarrow> parse_addrs b2 (addrs @ [(ip, port)])))"
  by pat_completeness auto
termination
  by (relation "measure (\<lambda>(b, addrs). length b)") (auto dest!: parse_num_rest)

declare parse_addrs.simps [simp del]

definition udp_response_parse :: "bytes \<Rightarrow> udp_error + (u32 \<times> udp_response)" where
  "udp_response_parse buf =
     bind_result (parse_u32 buf) (\<lambda>(action, buf).
     bind_result (parse_u32 buf) (\<lambda>(tid, buf).
     bind_result
       (if action = ACTION_CONNECT then
          bind_result (parse_u64 buf) (\<lambda>(connection_id, b). Inr (ConnectResponse connection_id, b))
        else if action = ACTION_ANNOUNCE then
          bind_result (parse_u32 buf) (\<lambda>(interval, b).
          bind_result (parse_u32 b) (\<lambda>(leechers, b).
          bind_result (parse_u32 b) (\<lambda>(seeders, b).
          bind_result (parse_addrs b []) (\<lambda>addrs.
            Inr (AnnounceResponse \<lparr>ar_interval = interval, ar_leechers = leechers, ar_seeders = seeders,
              ar_addrs = addrs\<rparr>, [])))))
        else Inl (UnsupportedAction action))
     (\<lambda>(response, buf).
       if buf \<noteq> [] then Inl (Remaining (length buf)) else Inr (tid, response))))"

section \<open>The requester\<close>

text \<open>
  \<open>send_ok\<close>: the socket takes the datagram; \<open>reply\<close>: what \<open>recv\<close> gives, \<open>None\<close> for an error. A datagram
  longer than the buffer of 4096 bytes is cut. The first component is what was sent.
\<close>

record requester =
  rq_connection_id :: u64
  rq_write_buf :: bytes

definition received_datagram :: "bytes \<Rightarrow> bytes" where
  "received_datagram d = take 4096 d"

definition requester_new :: "u32 \<Rightarrow> bool \<Rightarrow> bytes option \<Rightarrow> bytes \<times> requester run" where
  "requester_new tid send_ok reply =
     (let (write_buf, n) = udp_request_serialize ConnectRequest tid [] in
      (write_buf,
       if \<not> send_ok then Fails
       else case reply of
         None \<Rightarrow> Fails
       | Some d \<Rightarrow>
           (case udp_response_parse (received_datagram d) of
              Inl _ \<Rightarrow> Fails
            | Inr (rtid, response) \<Rightarrow>
                if tid \<noteq> rtid then Fails
                else case response of
                  ConnectResponse connection_id \<Rightarrow> Done \<lparr>rq_connection_id = connection_id, rq_write_buf = write_buf\<rparr>
                | _ \<Rightarrow> Fails)))"

text \<open>Here \<open>recv\<close> and \<open>parse\<close> are unwrapped.\<close>

definition requester_request ::
  "u32 \<Rightarrow> bool \<Rightarrow> bytes option \<Rightarrow> udp_request \<Rightarrow> requester \<Rightarrow> (bytes \<times> requester) \<times> udp_response run" where
  "requester_request tid send_ok reply request rq =
     (let (write_buf, n) = udp_request_serialize request tid []; rq = rq\<lparr>rq_write_buf := write_buf\<rparr> in
      ((take n write_buf, rq),
       if \<not> send_ok then Fails
       else case reply of
         None \<Rightarrow> Panics
       | Some d \<Rightarrow>
           (case udp_response_parse (received_datagram d) of
              Inl _ \<Rightarrow> Panics
            | Inr (rtid, response) \<Rightarrow> if tid \<noteq> rtid then Fails else Done response)))"

definition requester_announce ::
  "u32 \<Rightarrow> bool \<Rightarrow> bytes option \<Rightarrow> announce_fields \<Rightarrow> requester \<Rightarrow> (bytes \<times> requester) \<times> announce_response run" where
  "requester_announce tid send_ok reply fs rq =
     (let (out, response) =
        requester_request tid send_ok reply (AnnounceRequest (rq_connection_id rq) fs) rq in
      (out, bind_run response (\<lambda>response. case response of AnnounceResponse r \<Rightarrow> Done r | _ \<Rightarrow> Fails)))"

section \<open>What the tracker sends is what is read\<close>

text \<open>The datagrams of BEP 15.\<close>

definition response_datagram :: "u32 \<Rightarrow> udp_response \<Rightarrow> bytes" where
  "response_datagram tid r =
     (case r of
        ConnectResponse connection_id \<Rightarrow> be32 0 @ be32 tid @ be64 connection_id
      | AnnounceResponse a \<Rightarrow>
          be32 1 @ be32 tid @ be32 (ar_interval a) @ be32 (ar_leechers a) @ be32 (ar_seeders a)
            @ concat (map (\<lambda>(ip, port). be32 ip @ be16 port) (ar_addrs a)))"

lemma parse_num_iff:
  "parse_u16 b = Inr (x, rest) \<longleftrightarrow> b = be16 x @ rest"
  "parse_u32 b = Inr (y, rest) \<longleftrightarrow> b = be32 y @ rest"
  "parse_u64 b = Inr (z, rest) \<longleftrightarrow> b = be64 z @ rest"
proof -
  have dec: "take n b @ drop n b = b" for n by simp
  show "parse_u16 b = Inr (x, rest) \<longleftrightarrow> b = be16 x @ rest"
    using dec [of 2] by (auto simp: parse_num_def split_slice_def be16_of_be16)
  show "parse_u32 b = Inr (y, rest) \<longleftrightarrow> b = be32 y @ rest"
    using dec [of 4] by (auto simp: parse_num_def split_slice_def be32_of_be32)
  show "parse_u64 b = Inr (z, rest) \<longleftrightarrow> b = be64 z @ rest"
    using dec [of 8] by (auto simp: parse_num_def split_slice_def be64_of_be64)
qed

lemma parse_num_be [simp]:
  "parse_u16 (be16 x @ rest) = Inr (x, rest)" "parse_u32 (be32 y @ rest) = Inr (y, rest)"
  "parse_u64 (be64 z @ rest) = Inr (z, rest)"
  by (simp_all only: parse_num_iff)

lemma parse_u64_be64 [simp]: "parse_u64 (be64 z) = Inr (z, [])"
  using parse_num_be(3) [of z "[]"] by simp

lemma be_not_Nil [simp]: "be32 x \<noteq> []"
  using length_be(2) [of x] by (metis length_0_conv zero_neq_numeral)

lemma parse_addrs_iff:
  "parse_addrs b addrs = Inr r \<longleftrightarrow> (\<exists>as. r = addrs @ as \<and> b = concat (map (\<lambda>(ip, port). be32 ip @ be16 port) as))"
proof (induction b arbitrary: addrs r rule: length_induct)
  case (1 b)
  show ?case
  proof
    assume r: "parse_addrs b addrs = Inr r"
    show "\<exists>as. r = addrs @ as \<and> b = concat (map (\<lambda>(ip, port). be32 ip @ be16 port) as)"
    proof (cases "b = []")
      case True
      then show ?thesis using r by (subst (asm) parse_addrs.simps) (auto intro: exI [of _ "[]"])
    next
      case False
      with r obtain ip b1 port b2 where b: "parse_u32 b = Inr (ip, b1)" "parse_u16 b1 = Inr (port, b2)"
        and rest: "parse_addrs b2 (addrs @ [(ip, port)]) = Inr r"
        by (subst (asm) parse_addrs.simps) (auto split: sum.splits)
      have "length b2 < length b" using b [THEN parse_num_rest] by simp
      with "1.IH" rest obtain as where "r = addrs @ (ip, port) # as"
        "b2 = concat (map (\<lambda>(ip, port). be32 ip @ be16 port) as)" by auto
      then show ?thesis using b unfolding parse_num_iff by (intro exI [of _ "(ip, port) # as"]) simp
    qed
  next
    assume "\<exists>as. r = addrs @ as \<and> b = concat (map (\<lambda>(ip, port). be32 ip @ be16 port) as)"
    then obtain as where as: "r = addrs @ as" "b = concat (map (\<lambda>(ip, port). be32 ip @ be16 port) as)" by blast
    show "parse_addrs b addrs = Inr r"
    proof (cases as)
      case Nil
      then show ?thesis using as by (subst parse_addrs.simps) simp
    next
      case (Cons a as')
      obtain ip port where a: "a = (ip, port)" by (cases a)
      let ?b2 = "concat (map (\<lambda>(ip, port). be32 ip @ be16 port) as')"
      have b: "b = be32 ip @ be16 port @ ?b2" using as(2) Cons a by simp
      then have "length ?b2 < length b" by simp
      then have "parse_addrs ?b2 (addrs @ [(ip, port)]) = Inr r" using "1.IH" as(1) Cons a by auto
      then show ?thesis using b by (subst parse_addrs.simps) simp
    qed
  qed
qed

text \<open>
  The parser accepts exactly the datagrams of the protocol: a connection id, or the announce fields
  followed by nothing but whole addresses.
\<close>

lemma udp_response_parse_iff:
  "udp_response_parse buf = Inr (tid, r) \<longleftrightarrow> buf = response_datagram tid r"
proof
  assume r: "udp_response_parse buf = Inr (tid, r)"
  then obtain action b1 b2 where b: "buf = be32 action @ b1" "b1 = be32 tid @ b2"
    by (auto simp: udp_response_parse_def parse_num_iff split: if_splits)
  show "buf = response_datagram tid r"
    using r unfolding b
    by (auto simp: udp_response_parse_def response_datagram_def ACTION_CONNECT_def ACTION_ANNOUNCE_def
        parse_num_iff parse_addrs_iff split: if_splits)
next
  assume "buf = response_datagram tid r"
  then show "udp_response_parse buf = Inr (tid, r)"
    using parse_addrs_iff [of _ "[]"]
    by (cases r) (auto simp: udp_response_parse_def response_datagram_def ACTION_CONNECT_def ACTION_ANNOUNCE_def)
qed

lemma response_datagram_inj [simp]: "response_datagram tid r = response_datagram tid' r' \<longleftrightarrow> tid = tid' \<and> r = r'"
  by (metis Pair_inject sum.inject(2) udp_response_parse_iff)

lemma not_response_datagram: "udp_response_parse buf = Inl e \<Longrightarrow> buf \<noteq> response_datagram tid r"
  by (metis Inl_Inr_False udp_response_parse_iff)

text \<open>
  C18: What an announce to a UDP tracker comes to. It succeeds exactly when the datagram that arrives, cut to
  4096 bytes, is the announce response to this transaction, and gives that response. Whenever anything
  else than a well-formed response arrives, the error message of the protocol and an error of the socket
  included, the task panics. What was sent is the announce of these fields on the tracker's connection.
\<close>

theorem udp_announce_outcome:
  "(snd (requester_announce tid send_ok reply fs rq) = Done a \<longleftrightarrow>
      send_ok \<and> (\<exists>d. reply = Some d \<and> received_datagram d = response_datagram tid (AnnounceResponse a))) \<and>
   (snd (requester_announce tid send_ok reply fs rq) = Panics \<longleftrightarrow>
      send_ok \<and> \<not> (\<exists>d tid' r. reply = Some d \<and> received_datagram d = response_datagram tid' r)) \<and>
   fst (requester_announce tid send_ok reply fs rq) =
      (let b = fst (udp_request_serialize (AnnounceRequest (rq_connection_id rq) fs) tid []) in (b, rq\<lparr>rq_write_buf := b\<rparr>))"
proof (cases "\<exists>d. reply = Some d \<and> send_ok")
  case True
  then obtain d where d: "reply = Some d" "send_ok" by blast
  show ?thesis
  proof (cases "udp_response_parse (received_datagram d)")
    case (Inl e)
    then show ?thesis using d not_response_datagram [OF Inl]
      by (auto simp: requester_announce_def requester_request_def udp_request_serialize_def Let_def)
  next
    case (Inr x)
    then obtain t r where x: "udp_response_parse (received_datagram d) = Inr (t, r)" by (cases x) simp
    then have "received_datagram d = response_datagram t r" by (simp add: udp_response_parse_iff)
    then show ?thesis using d x
      by (auto simp: requester_announce_def requester_request_def udp_request_serialize_def Let_def
          split: udp_response.splits)
  qed
next
  case False
  then show ?thesis
    by (auto simp: requester_announce_def requester_request_def udp_request_serialize_def Let_def split: option.splits)
qed

text \<open>An announce is 98 bytes, and no two of them, on any connection, are the same.\<close>

lemma announce_datagram_inj:
  assumes "length (af_info_hash f) = 20" "length (af_peer_id f) = 20" "length (af_info_hash g) = 20" "length (af_peer_id g) = 20"
    and "fst (udp_request_serialize (AnnounceRequest i f) t []) = fst (udp_request_serialize (AnnounceRequest j g) u [])"
  shows "i = j \<and> t = u \<and> f = g"
proof -
  have inj: "be64 x = be64 y \<longleftrightarrow> x = y" "be16 v = be16 w \<longleftrightarrow> v = w" for x y :: u64 and v w :: u16
    by (metis of_be_be(3), metis of_be_be(1))
  show ?thesis
    using assms by (simp add: udp_request_serialize_def Let_def append_eq_append_conv inj announce_fields.equality)
qed

lemma announce_datagram_length:
  assumes "length (af_info_hash f) = 20" "length (af_peer_id f) = 20"
  shows "length (fst (udp_request_serialize (AnnounceRequest i f) t [])) = 98"
  using assms by (simp add: udp_request_serialize_def Let_def)

end
