(* ===== verification/TrackerComms.thy ===== *)
theory TrackerComms
  imports UdpTracker TorrentFile
begin

text \<open>
  Model of \<open>tracker_comms.rs\<close> and \<open>tracker_comms_http.rs\<close>: what is told to a tracker and when, the query
  of an HTTP tracker, and the reading of its responses. URLs, percent encoding, the text form of IP
  addresses and the transfers themselves belong to libraries or the system and are arguments. The tracker
  tasks send into a channel that the same stream reads, so that a send does not fail.
\<close>

section \<open>What is told\<close>

datatype comms_state = CsNone | CsInitializing | CsPaused | CsLive

record comms_stats =
  cs_uploaded_bytes :: u64
  cs_downloaded_bytes :: u64
  cs_total_bytes :: u64
  cs_torrent_state :: comms_state

definition default_comms_stats :: comms_stats where
  "default_comms_stats =
     \<lparr>cs_uploaded_bytes = 0, cs_downloaded_bytes = 0, cs_total_bytes = 0, cs_torrent_state = CsNone\<rparr>"

definition cs_left_to_download :: "comms_stats \<Rightarrow> u64" where
  "cs_left_to_download s =
     (let tot = cs_total_bytes s; down = cs_downloaded_bytes s in if down \<le> tot then tot - down else 0)"

definition cs_is_completed :: "comms_stats \<Rightarrow> bool" where
  "cs_is_completed s \<longleftrightarrow> cs_total_bytes s \<le> cs_downloaded_bytes s"

text \<open>Durations in milliseconds.\<close>

type_synonym duration = nat

abbreviation from_secs :: "nat \<Rightarrow> duration" where "from_secs s \<equiv> 1000 * s"

record tracker_comms =
  tc_info_hash :: bytes
  tc_peer_id :: bytes
  tc_force_tracker_interval :: "duration option"
  tc_tcp_listen_port :: "u16 option"

definition force_or :: "tracker_comms \<Rightarrow> duration \<Rightarrow> duration" where
  "force_or c d = (case tc_force_tracker_interval c of Some i \<Rightarrow> i | None \<Rightarrow> d)"

definition listen_port_or_zero :: "tracker_comms \<Rightarrow> u16" where
  "listen_port_or_zero c = (case tc_tcp_listen_port c of Some p \<Rightarrow> p | None \<Rightarrow> 0)"

section \<open>The trackers of a torrent\<close>

record url =
  url_scheme :: bytes
  url_host_str :: "bytes option"
  url_port :: "u16 option"
  url_path :: bytes
  url_query :: "bytes option"

datatype supported_tracker = UdpUrl url | HttpUrl url

definition supported_tracker_of :: "(bytes \<Rightarrow> url option) \<Rightarrow> bytes \<Rightarrow> supported_tracker option" where
  "supported_tracker_of url_parse t =
     (case url_parse t of
        Some parsed \<Rightarrow>
          if url_scheme parsed \<in> {ascii ''http'', ascii ''https''} then Some (HttpUrl parsed)
          else if url_scheme parsed = ascii ''udp'' then Some (UdpUrl parsed)
          else None
      | None \<Rightarrow> None)"

text \<open>\<open>TrackerComms::start\<close>: no stream when no tracker is left.\<close>

definition comms_start :: "(bytes \<Rightarrow> url option) \<Rightarrow> bytes list \<Rightarrow> supported_tracker list option" where
  "comms_start url_parse trackers =
     (let ts = List.map_filter (supported_tracker_of url_parse) trackers in if ts = [] then None else Some ts)"

section \<open>A UDP tracker\<close>

definition udp_event :: "comms_stats \<Rightarrow> u32" where
  "udp_event s =
     (case cs_torrent_state s of
        CsNone \<Rightarrow> EVENT_NONE
      | CsInitializing \<Rightarrow> EVENT_STARTED
      | CsPaused \<Rightarrow> EVENT_STOPPED
      | CsLive \<Rightarrow> if cs_is_completed s then EVENT_COMPLETED else EVENT_STARTED)"

definition udp_announce_fields :: "tracker_comms \<Rightarrow> comms_stats \<Rightarrow> announce_fields" where
  "udp_announce_fields c s =
     \<lparr>af_info_hash = tc_info_hash c, af_peer_id = tc_peer_id c, af_downloaded = cs_downloaded_bytes s,
      af_left = cs_left_to_download s, af_uploaded = cs_uploaded_bytes s, af_event = udp_event s, af_key = 0,
      af_port = listen_port_or_zero c\<rparr>"

text \<open>
  One round of the loop, from the end of the sleep on: what was sent, the addresses handed over, and the
  next sleep. \<open>sleep_interval\<close> is \<open>None\<close> before the first round.
\<close>

definition udp_round ::
  "tracker_comms \<Rightarrow> comms_stats \<Rightarrow> u32 \<Rightarrow> bool \<Rightarrow> bytes option \<Rightarrow> requester \<times> duration option \<Rightarrow>
    bytes \<times> (socket_addr list \<times> requester \<times> duration option) run" where
  "udp_round c stats tid send_ok reply st =
     (let (rq, sleep_interval) = st;
          ((out, rq), r) = requester_announce tid send_ok reply (udp_announce_fields c stats) rq in
      (out,
       case r of
         Done response \<Rightarrow>
           Done (map (\<lambda>(ip, port). SocketV4 ip port) (ar_addrs response), rq,
             Some (force_or c (from_secs (unat (max (ar_interval response) 5)))))
       | Fails \<Rightarrow>
           Done ([], rq, if sleep_interval = None then Some (force_or c (from_secs 60)) else sleep_interval)
       | Panics \<Rightarrow> Panics))"

record udp_input =
  ui_stats :: comms_stats
  ui_tid :: u32
  ui_send_ok :: bool
  ui_reply :: "bytes option"

text \<open>\<open>task_single_tracker_monitor_udp\<close> as far as its inputs go: the sleeps before each round and what each hands over.\<close>

fun udp_monitor ::
  "tracker_comms \<Rightarrow> udp_input list \<Rightarrow> requester \<times> duration option \<Rightarrow> (duration option \<times> bytes \<times> socket_addr list) list run" where
  "udp_monitor c [] st = Done []"
| "udp_monitor c (i # is) st =
     (case udp_round c (ui_stats i) (ui_tid i) (ui_send_ok i) (ui_reply i) st of
        (out, Done (addrs, st')) \<Rightarrow> bind_run (udp_monitor c is st') (\<lambda>l. Done ((snd st, out, addrs) # l))
      | (out, Fails) \<Rightarrow> Fails
      | (out, Panics) \<Rightarrow> Panics)"

definition udp_task ::
  "tracker_comms \<Rightarrow> url \<Rightarrow> u32 \<Rightarrow> bool \<Rightarrow> bytes option \<Rightarrow> udp_input list \<Rightarrow>
    (duration option \<times> bytes \<times> socket_addr list) list run" where
  "udp_task c u tid send_ok reply is =
     (if url_scheme u \<noteq> ascii ''udp'' then Fails
      else if url_host_str u = None \<or> url_port u = None then Fails
      else bind_run (snd (requester_new tid send_ok reply)) (\<lambda>rq. udp_monitor c is (rq, None)))"

section \<open>An HTTP tracker\<close>

datatype request_event = EvStarted | EvStopped | EvCompleted

record tracker_request =
  tq_info_hash :: bytes
  tq_peer_id :: bytes
  tq_event :: "request_event option"
  tq_port :: u16
  tq_uploaded :: u64
  tq_downloaded :: u64
  tq_left :: u64
  tq_compact :: bool
  tq_no_peer_id :: bool
  tq_ip :: "ip_addr option"
  tq_numwant :: "u64 option"
  tq_key :: "bytes option"
  tq_trackerid :: "bytes option"

definition show_word :: "'a::len word \<Rightarrow> bytes" where
  "show_word w = show_nat (unat w)"

fun opt_param :: "string \<Rightarrow> ('a \<Rightarrow> bytes) \<Rightarrow> 'a option \<Rightarrow> bytes" where
  "opt_param name f None = []"
| "opt_param name f (Some x) = ascii name @ f x"

fun event_text :: "request_event \<Rightarrow> bytes" where
  "event_text EvStarted = ascii ''started''"
| "event_text EvStopped = ascii ''stopped''"
| "event_text EvCompleted = ascii ''completed''"

text \<open>\<open>encode\<close> is the percent encoding of bytes, \<open>show_ip\<close> the text form of an address.\<close>

definition as_querystring :: "(bytes \<Rightarrow> bytes) \<Rightarrow> (ip_addr \<Rightarrow> bytes) \<Rightarrow> tracker_request \<Rightarrow> bytes" where
  "as_querystring encode show_ip r =
     ascii ''info_hash='' @ encode (tq_info_hash r)
     @ ascii ''&peer_id='' @ encode (tq_peer_id r)
     @ opt_param ''&event='' event_text (tq_event r)
     @ ascii ''&port='' @ show_word (tq_port r)
     @ ascii ''&uploaded='' @ show_word (tq_uploaded r)
     @ ascii ''&downloaded='' @ show_word (tq_downloaded r)
     @ ascii ''&left='' @ show_word (tq_left r)
     @ ascii ''&compact='' @ (if tq_compact r then ascii ''1'' else ascii ''0'')
     @ ascii ''&no_peer_id='' @ (if tq_no_peer_id r then ascii ''1'' else ascii ''0'')
     @ opt_param ''&ip='' show_ip (tq_ip r)
     @ opt_param ''&numwant='' show_word (tq_numwant r)
     @ opt_param ''&key='' id (tq_key r)
     @ opt_param ''&trackerid='' id (tq_trackerid r)"

subsection \<open>Reading a response\<close>

text \<open>\<open>deserialize_str\<close> with a visitor that is given the text.\<close>

definition deserialize_str_as :: "(bytes \<Rightarrow> 'v option) \<Rightarrow> 'v de" where
  "deserialize_str_as f st =
     (case de_buf st of
        [] \<Rightarrow> Inl (DeError ExpectedStrEof)
      | first # _ \<Rightarrow>
          if \<not> is_digit first then Inl (DeError ExpectedStr)
          else (case parse_bytes st of
                  Inl e \<Rightarrow> Inl e
                | Inr (b, st') \<Rightarrow>
                    if \<not> utf8_valid b then Inl (DeError NotUtf8)
                    else (case f b of None \<Rightarrow> Inl (DeError InvalidValue) | Some v \<Rightarrow> Inr (v, st'))))"

datatype dp_field = DpIp ip_addr | DpId bytes | DpPort u16

fun dp_ip :: "dp_field \<Rightarrow> ip_addr option" where "dp_ip (DpIp x) = Some x" | "dp_ip _ = None"
fun dp_port :: "dp_field \<Rightarrow> u16" where "dp_port (DpPort x) = x" | "dp_port _ = 0"

definition dict_peer_readers :: "(bytes \<Rightarrow> ip_addr option) \<Rightarrow> bytes \<rightharpoonup> dp_field de" where
  "dict_peer_readers ip_from_str k =
     (if k = ascii ''ip'' then Some (deserialize_str_as (map_option DpIp \<circ> ip_from_str))
      else if k = ascii ''peer_id'' then Some (bytes_as DpId)
      else if k = ascii ''port'' then Some (de_map_with (DpPort \<circ> word_of_int) (deserialize_uint 16))
      else None)"

fun socket_of :: "ip_addr \<Rightarrow> u16 \<Rightarrow> socket_addr" where
  "socket_of (IpV4 ip) port = SocketV4 ip port"
| "socket_of (IpV6 ip) port = SocketV6 ip port"

definition deserialize_dict_peer :: "(bytes \<Rightarrow> ip_addr option) \<Rightarrow> (bytes \<Rightarrow> bytes) \<Rightarrow> socket_addr de" where
  "deserialize_dict_peer ip_from_str sha1 = de_struct_with sha1 (dict_peer_readers ip_from_str)
     (\<lambda>f. bind_result (require f (ascii ''ip'')) (\<lambda>i.
          bind_result (require f (ascii ''port'')) (\<lambda>p.
            case dp_ip i of None \<Rightarrow> Inl (DeError InvalidType) | Some ip \<Rightarrow> Inr (socket_of ip (dp_port p)))))"

text \<open>\<open>chunks_exact(6)\<close>: what is left over at the end is not looked at.\<close>

fun parse_compact_peers :: "bytes \<Rightarrow> socket_addr list" where
  "parse_compact_peers (a # b # c # d # e # f # rest) =
     SocketV4 (of_be32 [a, b, c, d]) (of_be16 [e, f]) # parse_compact_peers rest"
| "parse_compact_peers _ = []"

text \<open>\<open>Peers\<close> asks for any value; a list holds dictionaries, a byte string the compact form.\<close>

definition deserialize_peers :: "(bytes \<Rightarrow> ip_addr option) \<Rightarrow> (bytes \<Rightarrow> bytes) \<Rightarrow> socket_addr list de" where
  "deserialize_peers ip_from_str sha1 st =
     (case de_buf st of
        [] \<Rightarrow> Inl (DeError EmptyInput)
      | b # r \<Rightarrow>
          if b = 100 then Inl (DeError InvalidType)
          else if b = 105 then
            (case deserialize_i64 st of Inl e \<Rightarrow> Inl e | Inr _ \<Rightarrow> Inl (DeError InvalidType))
          else if b = 108 then deserialize_vec (deserialize_dict_peer ip_from_str sha1) st
          else deserialize_bytes_as (Some \<circ> parse_compact_peers) st)"

definition deserialize_tracker_error :: "(bytes \<Rightarrow> bytes) \<Rightarrow> bytes de" where
  "deserialize_tracker_error sha1 = de_struct_with sha1
     (\<lambda>k. if k = ascii ''failure reason'' then Some (bytes_as id) else None)
     (\<lambda>f. require f (ascii ''failure reason''))"

record tracker_response =
  tp_warning_message :: "bytes option"
  tp_complete :: u64
  tp_interval :: u64
  tp_min_interval :: "u64 option"
  tp_tracker_id :: "bytes option"
  tp_incomplete :: u64
  tp_peers :: "socket_addr list"

datatype tp_field = TpBytes bytes | TpNum u64 | TpPeers "socket_addr list"

fun tf_text :: "tp_field \<Rightarrow> bytes" where "tf_text (TpBytes x) = x" | "tf_text _ = []"
fun tf_num :: "tp_field \<Rightarrow> u64" where "tf_num (TpNum x) = x" | "tf_num _ = 0"
fun tf_peers :: "tp_field \<Rightarrow> socket_addr list" where "tf_peers (TpPeers x) = x" | "tf_peers _ = []"

definition tracker_response_readers ::
  "(bytes \<Rightarrow> ip_addr option) \<Rightarrow> (bytes \<Rightarrow> bytes) \<Rightarrow> bytes \<rightharpoonup> tp_field de" where
  "tracker_response_readers ip_from_str sha1 k =
     (if k \<in> {ascii ''warning message'', ascii ''tracker_id''} then Some (bytes_as TpBytes)
      else if k \<in> {ascii ''complete'', ascii ''interval'', ascii ''min interval'', ascii ''incomplete''} then
        Some (u64_as TpNum)
      else if k = ascii ''peers'' then Some (de_map_with TpPeers (deserialize_peers ip_from_str sha1))
      else None)"

definition tracker_response_of_fields :: "(bytes \<rightharpoonup> tp_field) \<Rightarrow> de_fail + tracker_response" where
  "tracker_response_of_fields f =
     bind_result (require f (ascii ''complete'')) (\<lambda>c.
     bind_result (require f (ascii ''interval'')) (\<lambda>i.
     bind_result (require f (ascii ''incomplete'')) (\<lambda>n.
     bind_result (require f (ascii ''peers'')) (\<lambda>p.
       Inr \<lparr>tp_warning_message = map_option tf_text (f (ascii ''warning message'')), tp_complete = tf_num c,
            tp_interval = tf_num i, tp_min_interval = map_option tf_num (f (ascii ''min interval'')),
            tp_tracker_id = map_option tf_text (f (ascii ''tracker_id'')), tp_incomplete = tf_num n,
            tp_peers = tf_peers p\<rparr>))))"

definition deserialize_tracker_response ::
  "(bytes \<Rightarrow> ip_addr option) \<Rightarrow> (bytes \<Rightarrow> bytes) \<Rightarrow> tracker_response de" where
  "deserialize_tracker_response ip_from_str sha1 =
     de_struct_with sha1 (tracker_response_readers ip_from_str sha1) tracker_response_of_fields"

subsection \<open>Asking\<close>

text \<open>
  \<open>body\<close> is what the tracker sent with a status of success. The result is the addresses handed over and
  the interval.
\<close>

definition tracker_one_request_http ::
  "(bytes \<Rightarrow> ip_addr option) \<Rightarrow> (bytes \<Rightarrow> bytes) \<Rightarrow> bytes option \<Rightarrow> (socket_addr list \<times> u64) run" where
  "tracker_one_request_http ip_from_str sha1 body =
     (case body of
        None \<Rightarrow> Fails
      | Some b \<Rightarrow>
          (case from_bytes (deserialize_tracker_error sha1) b of
             Inr _ \<Rightarrow> Fails
           | Inl DePanic \<Rightarrow> Panics
           | Inl _ \<Rightarrow>
               (case from_bytes (deserialize_tracker_response ip_from_str sha1) b of
                  Inl DePanic \<Rightarrow> Panics
                | Inl _ \<Rightarrow> Fails
                | Inr response \<Rightarrow> Done (tp_peers response, tp_interval response))))"

definition http_request :: "tracker_comms \<Rightarrow> comms_stats \<Rightarrow> request_event option \<Rightarrow> tracker_request" where
  "http_request c stats event =
     \<lparr>tq_info_hash = tc_info_hash c, tq_peer_id = tc_peer_id c, tq_event = event, tq_port = listen_port_or_zero c,
      tq_uploaded = cs_uploaded_bytes stats, tq_downloaded = cs_downloaded_bytes stats,
      tq_left = cs_left_to_download stats, tq_compact = True, tq_no_peer_id = False, tq_ip = None, tq_numwant = None,
      tq_key = None, tq_trackerid = None\<rparr>"

text \<open>
  One round of \<open>task_single_tracker_monitor_http\<close>: the URL asked, the addresses, the sleep after it, and the
  event of the next round. \<open>fetch\<close> is the body that the tracker answers to a URL.
\<close>

definition http_round ::
  "(bytes \<Rightarrow> bytes) \<Rightarrow> (ip_addr \<Rightarrow> bytes) \<Rightarrow> (bytes \<Rightarrow> ip_addr option) \<Rightarrow> (bytes \<Rightarrow> bytes) \<Rightarrow> tracker_comms \<Rightarrow>
    comms_stats \<Rightarrow> (url \<Rightarrow> bytes option) \<Rightarrow> url \<times> request_event option \<Rightarrow>
    (socket_addr list \<times> duration \<times> url \<times> request_event option) run" where
  "http_round encode show_ip ip_from_str sha1 c stats fetch st =
     (let (tracker_url, event) = st;
          tracker_url = tracker_url\<lparr>url_query := Some (as_querystring encode show_ip (http_request c stats event))\<rparr> in
      case tracker_one_request_http ip_from_str sha1 (fetch tracker_url) of
        Done (addrs, interval) \<Rightarrow> Done (addrs, force_or c (from_secs (unat interval)), tracker_url, None)
      | Fails \<Rightarrow> Done ([], from_secs 60, tracker_url, event)
      | Panics \<Rightarrow> Panics)"

section \<open>Unknown fields are passed over\<close>

definition passable :: "(bytes \<rightharpoonup> 'v de) \<Rightarrow> 'v field_form list \<Rightarrow> bool" where
  "passable flds fs \<longleftrightarrow>
     (\<forall>(k, b, v) \<in> set fs. case flds k of Some rd \<Rightarrow> reads rd b v | None \<Rightarrow> plain b)"

definition known :: "(bytes \<rightharpoonup> 'v de) \<Rightarrow> 'v field_form list \<Rightarrow> 'v field_form list" where
  "known flds fs = filter (\<lambda>(k, b, v). flds k \<noteq> None) fs"

lemma known_simps [simp]:
  "known flds [] = []"
  "known flds ((k, b, v) # fs) = (if flds k = None then known flds fs else (k, b, v) # known flds fs)"
  "known flds (fs @ gs) = known flds fs @ known flds gs"
  by (simp_all add: known_def)

lemma passable_simps [simp]:
  "passable flds []" "passable flds (fs @ gs) \<longleftrightarrow> passable flds fs \<and> passable flds gs"
  "passable flds ((k, b, v) # fs) \<longleftrightarrow>
     (case flds k of Some rd \<Rightarrow> reads rd b v | None \<Rightarrow> plain b) \<and> passable flds fs"
  by (simp_all add: passable_def ball_Un)

lemma struct_loop_passes:
  assumes "passable flds fs" "distinct (map fst acc @ map fst fs)"
    and "de_buf st = concat (map (\<lambda>(k, b, v). write_bytes False k @ b) fs) @ 101 # rest"
    and "length (de_buf st) < 2 ^ 64" "\<not> parsing_key st" "hook_idle st" "length fs < n"
  shows "struct_loop sha1 flds n acc st = Inr (acc @ field_values (known flds fs), st\<lparr>de_buf := rest\<rparr>)"
  using assms
proof (induction fs arbitrary: n acc st)
  case Nil
  then show ?case by (cases n) (simp_all add: next_key_end field_values_def)
next
  case (Cons f fs)
  obtain k b v where f: "f = (k, b, v)" by (cases f)
  obtain m where n: "n = Suc m" using Cons.prems(7) by (cases n) simp_all
  define tail where "tail = concat (map (\<lambda>(k, b, v). write_bytes False k @ b) fs) @ 101 # rest"
  have buf: "de_buf st = write_bytes False k @ b @ tail" using Cons.prems(3) by (simp add: tail_def f)
  have p: "passable flds fs" "case flds k of Some rd \<Rightarrow> reads rd b v | None \<Rightarrow> plain b"
    using Cons.prems(1) by (simp_all add: f)
  have k: "k \<notin> fst ` set acc" using Cons.prems(2) f by auto
  show ?case
  proof (cases "flds k")
    case None
    then have "reads (ignored sha1) b ()" using p(2) by (intro reads_ignored) simp
    then obtain st1 where key: "next_key st = Inr (Some k, st1)"
      and val: "next_value sha1 (ignored sha1) st1 = Inr ((), st\<lparr>de_buf := tail\<rparr>)"
      using reads_entry_below [OF _ buf Cons.prems(4-6), of "ignored sha1" "()" sha1] by blast
    have "next_value sha1 (de_ignored sha1 (fuel_for (de_buf st1))) st1 = next_value sha1 (ignored sha1) st1"
      by (simp add: next_value_def ignored_def)
    moreover have "struct_loop sha1 flds m acc (st\<lparr>de_buf := tail\<rparr>) =
        Inr (acc @ field_values (known flds fs), (st\<lparr>de_buf := tail\<rparr>)\<lparr>de_buf := rest\<rparr>)"
      using Cons.prems buf p by (intro Cons.IH) (auto simp: n f tail_def)
    ultimately show ?thesis using None val by (simp add: n f key)
  next
    case (Some rd)
    then have "reads rd b v" using p(2) by simp
    then obtain st1 where key: "next_key st = Inr (Some k, st1)"
      and val: "next_value sha1 rd st1 = Inr (v, st\<lparr>de_buf := tail\<rparr>)"
      using reads_entry_below [OF _ buf Cons.prems(4-6), of rd v sha1] by blast
    have "struct_loop sha1 flds m (acc @ [(k, v)]) (st\<lparr>de_buf := tail\<rparr>) =
        Inr ((acc @ [(k, v)]) @ field_values (known flds fs), (st\<lparr>de_buf := tail\<rparr>)\<lparr>de_buf := rest\<rparr>)"
      using Cons.prems buf p by (intro Cons.IH) (auto simp: n f tail_def)
    then show ?thesis using k Some val by (simp add: n f key field_values_def)
  qed
qed

lemma struct_passes:
  assumes "passable flds fs" "distinct (map fst fs)"
    and "de_buf st = serialize_struct (field_entries fs) @ rest" "length (de_buf st) < 2 ^ 64"
    and "\<not> parsing_key st" "hook_idle st"
  shows "\<exists>acc. deserialize_struct sha1 flds st = Inr (acc, st\<lparr>de_buf := rest\<rparr>) \<and>
    map_of acc = map_of (field_values (known flds fs))"
proof -
  from assms(2) obtain es where es: "set es = set fs" "distinct (map fst es)"
    and ser: "serialize_struct (field_entries fs) =
      100 # concat (map (\<lambda>(k, b, v). write_bytes False k @ b) es) @ [101]"
    by (rule sorted_fields)
  have "length es \<le> length (concat (map (\<lambda>(k, b, v). write_bytes False k @ b) es))"
    using length_entries [of "map (\<lambda>(k, b, v). (k, b)) es" id] by (simp add: comp_def case_prod_unfold)
  then have len: "length es < fuel_for (de_buf st)" using assms(3) ser by (simp add: fuel_for_def)
  have "struct_loop sha1 flds (fuel_for (de_buf st)) [] (st\<lparr>de_buf := drop 1 (de_buf st)\<rparr>) =
      Inr ([] @ field_values (known flds es), (st\<lparr>de_buf := drop 1 (de_buf st)\<rparr>)\<lparr>de_buf := rest\<rparr>)"
    using assms es ser len by (intro struct_loop_passes) (auto simp: passable_def)
  moreover have "map_of (field_values (known flds es)) = map_of (field_values (known flds fs))"
  proof (subst map_of_inject_set)
    show "distinct (map fst (field_values (known flds es)))" "distinct (map fst (field_values (known flds fs)))"
      using es(2) assms(2) by (simp_all add: field_values_def known_def comp_def case_prod_unfold distinct_map
          inj_on_def)
    show "set (field_values (known flds es)) = set (field_values (known flds fs))"
      using es(1) by (simp add: field_values_def known_def)
  qed
  ultimately show ?thesis using assms(3) ser by (simp add: deserialize_struct_def starts_with_def)
qed

section \<open>The peers of an HTTP tracker\<close>

text \<open>
  A tracker's body: the fields of the response, with the peers in one of their two forms, and any other
  fields. \<open>ip_text\<close> stands for the text form of an address.
\<close>

datatype peers_form = CompactPeers "(u32 \<times> u16) list" | DictPeers "(bytes \<times> ip_addr \<times> u16) list"

definition dict_peer_forms :: "bytes \<Rightarrow> ip_addr \<Rightarrow> u16 \<Rightarrow> dp_field field_form list" where
  "dict_peer_forms t ip port =
     [(ascii ''ip'', write_bytes False t, DpIp ip), (ascii ''port'', write_number (uint port), DpPort port)]"

fun peers_bytes :: "peers_form \<Rightarrow> bytes" where
  "peers_bytes (CompactPeers ps) = write_bytes False (concat (map (\<lambda>(ip, port). be32 ip @ be16 port) ps))"
| "peers_bytes (DictPeers ps) =
     108 # concat (map (\<lambda>(t, ip, port). serialize_struct (field_entries (dict_peer_forms t ip port))) ps) @ [101]"

fun peers_addrs :: "peers_form \<Rightarrow> socket_addr list" where
  "peers_addrs (CompactPeers ps) = map (\<lambda>(ip, port). SocketV4 ip port) ps"
| "peers_addrs (DictPeers ps) = map (\<lambda>(t, ip, port). socket_of ip port) ps"

fun peers_ok :: "(bytes \<Rightarrow> ip_addr option) \<Rightarrow> peers_form \<Rightarrow> bool" where
  "peers_ok ip_from_str (CompactPeers ps) \<longleftrightarrow> True"
| "peers_ok ip_from_str (DictPeers ps) \<longleftrightarrow> list_all (\<lambda>(t, ip, port). utf8_valid t \<and> ip_from_str t = Some ip) ps"

lemma be_bytes: "\<exists>a b c d. be32 x = [a, b, c, d]" "\<exists>e f. be16 y = [e, f]"
proof -
  have "\<exists>a b c d. xs = [a, b, c, d]" if "length xs = 4" for xs :: bytes
    using that by (auto simp: length_Suc_conv numeral_eq_Suc)
  moreover have "\<exists>e f. xs = [e, f]" if "length xs = 2" for xs :: bytes
    using that by (auto simp: length_Suc_conv numeral_eq_Suc)
  ultimately show "\<exists>a b c d. be32 x = [a, b, c, d]" "\<exists>e f. be16 y = [e, f]" by simp_all
qed

lemma compact_peers_parse:
  "parse_compact_peers (concat (map (\<lambda>(ip, port). be32 ip @ be16 port) ps)) = map (\<lambda>(ip, port). SocketV4 ip port) ps"
proof (induction ps)
  case (Cons p ps)
  obtain ip port where p: "p = (ip, port)" by (cases p)
  obtain a b c d e f where be: "be32 ip = [a, b, c, d]" "be16 port = [e, f]" using be_bytes by blast
  then have "of_be32 [a, b, c, d] = ip" "of_be16 [e, f] = port" by (simp_all flip: be)
  then show ?case using Cons by (simp add: p be)
qed simp

lemma reads_str: "utf8_valid t \<Longrightarrow> f t = Some v \<Longrightarrow> reads (deserialize_str_as f) (write_bytes False t) v"
proof (rule readsI)
  fix st :: de_state and rest
  assume t: "utf8_valid t" "f t = Some v" and st: "de_buf st = write_bytes False t @ rest" "length (de_buf st) < 2 ^ 64"
  obtain d r where "de_buf st = d # r" "is_digit d" using write_bytes_hd [of t rest] st(1) by auto
  then show "deserialize_str_as f st = Inr (v, st\<lparr>de_buf := rest\<rparr>)"
    using parse_bytes_write_bytes [OF st] t by (simp add: deserialize_str_as_def)
qed

lemma reads_dict_peer:
  assumes "utf8_valid t" "ip_from_str t = Some ip"
  shows "reads (deserialize_dict_peer ip_from_str sha1) (serialize_struct (field_entries (dict_peer_forms t ip port))) (socket_of ip port)"
  unfolding deserialize_dict_peer_def
proof (rule reads_struct)
  have "reads (de_map_with (DpPort \<circ> word_of_int) (deserialize_uint 16)) (write_number (uint port)) (DpPort port)"
    using reads_de_map_with [OF reads_deserialize_uint [of 16 "uint port"], of "DpPort \<circ> word_of_int"] uint_bound [of port]
    by (simp add: ucast_id)
  then show "fields_readable (dict_peer_readers ip_from_str) (dict_peer_forms t ip port)"
    using assms by (auto simp: dict_peer_forms_def fields_readable_Cons dict_peer_readers_def intro!: reads_str)
qed (simp_all add: dict_peer_forms_def field_values_Cons require_def)

lemma reads_peers_form:
  assumes "peers_ok ip_from_str pf"
  shows "reads (deserialize_peers ip_from_str sha1) (peers_bytes pf) (peers_addrs pf)"
proof (rule readsI)
  fix st :: de_state and rest
  assume st: "de_buf st = peers_bytes pf @ rest" "length (de_buf st) < 2 ^ 64" "\<not> parsing_key st" "hook_idle st"
  show "deserialize_peers ip_from_str sha1 st = Inr (peers_addrs pf, st\<lparr>de_buf := rest\<rparr>)"
  proof (cases pf)
    case (CompactPeers ps)
    let ?b = "concat (map (\<lambda>(ip, port). be32 ip @ be16 port) ps)"
    obtain d r where d: "de_buf st = d # r" "is_digit d" using write_bytes_hd [of ?b rest] st(1) CompactPeers by auto
    have "reads (deserialize_bytes_as (Some \<circ> parse_compact_peers)) (write_bytes False ?b) (peers_addrs pf)"
      by (rule reads_deserialize_bytes_as) (simp add: compact_peers_parse CompactPeers)
    then have "deserialize_bytes_as (Some \<circ> parse_compact_peers) st = Inr (peers_addrs pf, st\<lparr>de_buf := rest\<rparr>)"
      by (rule readsD) (use st CompactPeers in simp_all)
    then show ?thesis using is_digit_cases [OF d(2)] unfolding deserialize_peers_def d(1) by simp
  next
    case (DictPeers ps)
    let ?f = "\<lambda>(t, ip, port). (serialize_struct (field_entries (dict_peer_forms t ip port)), socket_of ip port)"
    have "reads (deserialize_vec (deserialize_dict_peer ip_from_str sha1)) (108 # concat (map fst (map ?f ps)) @ [101])
        (map snd (map ?f ps))"
      using assms by (intro reads_vec_forms) (auto simp: DictPeers list_all_iff intro!: reads_dict_peer)
    moreover have "peers_bytes pf = 108 # concat (map fst (map ?f ps)) @ [101]" "peers_addrs pf = map snd (map ?f ps)"
      by (simp_all add: DictPeers comp_def case_prod_unfold)
    ultimately have "deserialize_vec (deserialize_dict_peer ip_from_str sha1) st = Inr (peers_addrs pf, st\<lparr>de_buf := rest\<rparr>)"
      using readsD [of _ "peers_bytes pf" "peers_addrs pf", OF _ st] by simp
    then show ?thesis using st(1) DictPeers by (simp add: deserialize_peers_def)
  qed
qed

definition extra_forms :: "'v \<Rightarrow> (bytes \<times> bytes) list \<Rightarrow> 'v field_form list" where
  "extra_forms v extra = map (\<lambda>(k, b). (k, b, v)) extra"

definition body_forms :: "tracker_response \<Rightarrow> peers_form \<Rightarrow> (bytes \<times> bytes) list \<Rightarrow> tp_field field_form list" where
  "body_forms r pf extra =
     [(ascii ''complete'', write_number (uint (tp_complete r)), TpNum (tp_complete r)),
      (ascii ''interval'', write_number (uint (tp_interval r)), TpNum (tp_interval r)),
      (ascii ''incomplete'', write_number (uint (tp_incomplete r)), TpNum (tp_incomplete r)),
      (ascii ''peers'', peers_bytes pf, TpPeers (peers_addrs pf))]
     @ opt_form ''warning message'' (write_bytes False) TpBytes (tp_warning_message r)
     @ opt_form ''min interval'' (write_number \<circ> uint) TpNum (tp_min_interval r)
     @ opt_form ''tracker_id'' (write_bytes False) TpBytes (tp_tracker_id r)
     @ extra_forms (TpNum 0) extra"

definition tracker_body :: "tracker_response \<Rightarrow> peers_form \<Rightarrow> (bytes \<times> bytes) list \<Rightarrow> bytes" where
  "tracker_body r pf extra = serialize_struct (field_entries (body_forms r pf extra))"

definition response_keys :: "bytes set" where
  "response_keys = {ascii ''complete'', ascii ''interval'', ascii ''incomplete'', ascii ''peers'', ascii ''warning message'',
     ascii ''min interval'', ascii ''tracker_id''}"

definition extra_ok :: "(bytes \<times> bytes) list \<Rightarrow> bool" where
  "extra_ok extra \<longleftrightarrow> distinct (map fst extra) \<and> set (map fst extra) \<inter> response_keys = {} \<and> list_all (plain \<circ> snd) extra"

definition response_ok :: "tracker_response \<Rightarrow> bool" where
  "response_ok r \<longleftrightarrow> small_u64 (tp_complete r) \<and> small_u64 (tp_interval r) \<and> small_u64 (tp_incomplete r) \<and>
     pred_option small_u64 (tp_min_interval r)"

lemma map_fst_extra [simp]: "map fst (extra_forms v extra) = map fst extra"
  by (simp add: extra_forms_def comp_def case_prod_unfold)

lemma readers_known: "tracker_response_readers ip_from_str sha1 k \<noteq> None \<longleftrightarrow> k \<in> response_keys"
  by (simp add: tracker_response_readers_def response_keys_def)

lemma distinct_body_forms:
  assumes "extra_ok extra" shows "distinct (map fst (body_forms r pf extra))"
proof -
  have e: "distinct (map fst extra)" "\<And>k. k \<in> response_keys \<Longrightarrow> k \<notin> fst ` set extra"
    using assms by (auto simp: extra_ok_def)
  have k: "ascii ''complete'' \<notin> fst ` set extra" "ascii ''interval'' \<notin> fst ` set extra" "ascii ''incomplete'' \<notin> fst ` set extra"
    "ascii ''peers'' \<notin> fst ` set extra" "ascii ''warning message'' \<notin> fst ` set extra"
    "ascii ''min interval'' \<notin> fst ` set extra" "ascii ''tracker_id'' \<notin> fst ` set extra"
    by (rule e(2), simp add: response_keys_def)+
  have o: "distinct (map fst (opt_form name ser val z) @ l) \<longleftrightarrow> distinct l \<and> (z \<noteq> None \<longrightarrow> ascii name \<notin> set l)"
    for name ser z l and val :: "'c \<Rightarrow> tp_field" by (rule distinct_opt_form(1))
  show ?thesis
    unfolding body_forms_def map_append map_fst_extra using e(1) k
    by (simp add: o opt_form_mem del: ascii_simps distinct_append) (simp add: distinct_append)
qed

lemma known_all: "(\<And>k b v. (k, b, v) \<in> set fs \<Longrightarrow> flds k \<noteq> None) \<Longrightarrow> known flds fs = fs"
  by (auto simp: known_def intro!: filter_True)

lemma known_none: "(\<And>k b v. (k, b, v) \<in> set fs \<Longrightarrow> flds k = None) \<Longrightarrow> known flds fs = []"
  by (auto simp: known_def filter_empty_conv)

lemma known_extra: "(\<And>k. k \<in> fst ` set extra \<Longrightarrow> flds k = None) \<Longrightarrow> known flds (extra_forms v extra) = []"
  by (rule known_none) (force simp: extra_forms_def)

lemma passable_extra:
  "(\<And>k. k \<in> fst ` set extra \<Longrightarrow> flds k = None) \<Longrightarrow> list_all (plain \<circ> snd) extra \<Longrightarrow> passable flds (extra_forms v extra)"
  by (force simp: passable_def extra_forms_def list_all_iff)

lemma passable_readable: "fields_readable flds fs \<Longrightarrow> passable flds fs"
  by (force simp: passable_def fields_readable_def)

lemma known_readable: "fields_readable flds fs \<Longrightarrow> known flds fs = fs"
  by (rule known_all) (force simp: fields_readable_def)

text \<open>The fields of a response without the extra ones are readable.\<close>

lemma body_forms_readable:
  assumes "response_ok r" "peers_ok ip_from_str pf"
  shows "fields_readable (tracker_response_readers ip_from_str sha1) (body_forms r pf [])"
proof -
  let ?rd = "tracker_response_readers ip_from_str sha1"
  have b: "fields_readable ?rd (opt_form k (write_bytes False) TpBytes z)" if "k \<in> {''warning message'', ''tracker_id''}" for k z
    using that by (intro opt_form_readable [where rd = "bytes_as TpBytes"])
      (auto simp: tracker_response_readers_def reads_bytes_as)
  have m: "fields_readable ?rd (opt_form ''min interval'' (write_number \<circ> uint) TpNum (tp_min_interval r))"
    using assms(1) by (intro opt_form_readable [where rd = "u64_as TpNum"])
      (auto simp: tracker_response_readers_def response_ok_def reads_u64)
  have p: "reads (de_map_with TpPeers (deserialize_peers ip_from_str sha1)) (peers_bytes pf) (TpPeers (peers_addrs pf))"
    by (intro reads_de_map_with reads_peers_form assms(2))
  show ?thesis
    using b m p assms(1) unfolding body_forms_def field_append extra_forms_def
    by (simp add: fields_readable_Cons tracker_response_readers_def response_ok_def reads_u64)
qed

lemma body_values:
  "tracker_response_of_fields (map_of (field_values (body_forms r pf []))) = Inr (r\<lparr>tp_peers := peers_addrs pf\<rparr>)"
proof -
  let ?m = "map_of (field_values (body_forms r pf []))"
  note look = body_forms_def extra_forms_def field_append field_values_Cons map_of_opt last_opt_value
  have "?m (ascii ''complete'') = Some (TpNum (tp_complete r))" "?m (ascii ''interval'') = Some (TpNum (tp_interval r))"
    "?m (ascii ''incomplete'') = Some (TpNum (tp_incomplete r))" "?m (ascii ''peers'') = Some (TpPeers (peers_addrs pf))"
    "?m (ascii ''warning message'') = map_option TpBytes (tp_warning_message r)"
    "?m (ascii ''min interval'') = map_option TpNum (tp_min_interval r)"
    "?m (ascii ''tracker_id'') = map_option TpBytes (tp_tracker_id r)"
    by (simp_all add: look del: map_of_append)
  then show ?thesis
    by (simp only: tracker_response_of_fields_def require_def option.case bind_result.simps)
      (simp add: option.map_comp comp_def option.map_ident)
qed

lemma peers_plain: "plain (peers_bytes pf)"
proof (cases pf)
  case (CompactPeers ps)
  then show ?thesis by (simp add: plain_bytes)
next
  case (DictPeers ps)
  have "plain (serialize_struct (field_entries (dict_peer_forms t ip port)))" for t ip port
    by (rule plain_struct) (auto simp: dict_peer_forms_def plain_bytes plain_number_word)
  then show ?thesis unfolding DictPeers peers_bytes.simps by (intro plain_list) auto
qed

lemma plain_u64: "small_u64 x \<Longrightarrow> plain (write_number (uint x))"
  by (rule plain_number) (simp add: in_i64_def small_u64_def, smt (verit) uint_ge_0)

lemma set_opt_form:
  "set (opt_form name ser val z) = (case z of None \<Rightarrow> {} | Some x \<Rightarrow> {(ascii name, ser x, val x)})"
  by (cases z) simp_all

lemma body_plain:
  assumes "response_ok r" "(k, b, v) \<in> set (body_forms r pf [])" shows "plain b"
  using assms
  by (auto simp: body_forms_def extra_forms_def response_ok_def peers_plain plain_u64 plain_bytes set_opt_form
      split: option.splits)

lemma body_forms_extra: "body_forms r pf extra = body_forms r pf [] @ extra_forms (TpNum 0) extra"
  by (simp add: body_forms_def extra_forms_def)

text \<open>The same body as the reader of an error sees it: it knows one key.\<close>

lemma one_key_read:
  fixes sha1 fr
  defines "reader \<equiv> de_struct_with sha1 (\<lambda>k. if k = fr then Some (bytes_as id) else None) (\<lambda>f. require f fr)"
  assumes "extra_ok extra" "response_ok r" "length (tracker_body r pf extra) < 2 ^ 64"
    and "fr \<notin> response_keys" "fr \<in> set (map fst extra) \<longrightarrow> (\<exists>b. map_of extra fr = Some (write_bytes False b))"
  shows "if fr \<in> set (map fst extra)
    then (\<exists>b. from_bytes (reader) (tracker_body r pf extra) = Inr b)
    else from_bytes (reader) (tracker_body r pf extra) =
      Inl (DeError (MissingField (fr)))"
proof -
  define rd where "rd = (\<lambda>k. if k = fr then Some (bytes_as (id :: bytes \<Rightarrow> bytes)) else None)"
  define reason where "reason = (SOME b. map_of extra fr = Some (write_bytes False b))"
  define fs where "fs = map (\<lambda>(k, b, v). (k, b, reason)) (body_forms r pf extra)"
  note key = assms(5)
  have dist: "distinct (map fst fs)"
    using distinct_body_forms [OF assms(2), of r pf] by (simp add: fs_def comp_def case_prod_unfold)
  have ents: "tracker_body r pf extra = serialize_struct (field_entries fs)"
    by (simp add: tracker_body_def fs_def field_entries_def comp_def case_prod_unfold)
  have body: "k \<in> response_keys \<and> plain b" if "(k, b, v) \<in> set (body_forms r pf [])" for k b v
    using body_plain [OF assms(3) that] that
    by (auto simp: body_forms_def extra_forms_def set_opt_form response_keys_def split: option.splits)
  have mem: "(k, b) \<in> set extra \<or> (k \<in> response_keys \<and> plain b)" if "(k, b, v) \<in> set fs" for k b v
    using that body [of k b] unfolding fs_def body_forms_extra [of r pf extra] by (auto simp: extra_forms_def)
  have reason: "b = write_bytes False reason" if "(fr, b) \<in> set extra" for b
  proof -
    have "map_of extra fr = Some b" using that assms(2) by (simp add: extra_ok_def)
    have "fr \<in> set (map fst extra)" using that by (metis fst_conv imageI set_map)
    then have "\<exists>c. map_of extra fr = Some (write_bytes False c)" using assms(6) by blast
    then have "map_of extra fr = Some (write_bytes False reason)" unfolding reason_def by (rule someI_ex)
    with \<open>map_of extra fr = Some b\<close> show ?thesis by simp
  qed
  have "passable rd fs"
  proof -
    have "case rd k of Some d \<Rightarrow> reads d b v | None \<Rightarrow> plain b" if "(k, b, v) \<in> set fs" for k b v
    proof (cases "k = fr")
      case True
      have "v = reason" using that by (auto simp: fs_def)
      moreover have "b = write_bytes False reason" using mem [OF that] key True reason by blast
      ultimately show ?thesis using True reads_bytes_as [of id reason] by (simp add: rd_def)
    next
      case False
      then show ?thesis using mem [OF that] assms(2) by (auto simp: rd_def extra_ok_def list_all_iff)
    qed
    then show ?thesis by (auto simp: passable_def)
  qed
  from struct_passes [OF this dist, of "new_from_buf (tracker_body r pf extra)" "[]" sha1]
  obtain acc where acc: "deserialize_struct sha1 rd (new_from_buf (tracker_body r pf extra)) = Inr (acc, new_from_buf [])"
    "map_of acc = map_of (field_values (known rd fs))"
    using assms(4) by (auto simp: ents)
  have look: "map_of acc (fr) = None \<longleftrightarrow> fr \<notin> set (map fst extra)"
  proof -
    have "map fst (field_values (known rd fs)) = filter (\<lambda>k. rd k \<noteq> None) (map fst fs)"
      by (simp add: field_values_def known_def comp_def case_prod_unfold filter_map)
    then have "map_of acc (fr) = None \<longleftrightarrow> fr \<notin> set (map fst fs)"
      unfolding acc(2) by (simp add: map_of_eq_None_iff rd_def flip: set_map)
    moreover have "set (map fst fs) = set (map fst (body_forms r pf [])) \<union> set (map fst extra)"
      unfolding fs_def body_forms_extra [of r pf extra] by (simp add: extra_forms_def comp_def case_prod_unfold image_Un image_image)
    moreover have "fr \<notin> set (map fst (body_forms r pf []))" using body key by fastforce
    ultimately show ?thesis by blast
  qed
  have "reader = de_struct_with sha1 rd (\<lambda>f. require f fr)" by (simp add: reader_def rd_def)
  then show ?thesis
    using acc(1) look by (auto simp: from_bytes_def de_struct_with_def require_def split: option.splits)
qed

lemma response_read:
  assumes "extra_ok extra" "response_ok r" "peers_ok ip_from_str pf" "length (tracker_body r pf extra) < 2 ^ 64"
  shows "from_bytes (deserialize_tracker_response ip_from_str sha1) (tracker_body r pf extra) = Inr (r\<lparr>tp_peers := peers_addrs pf\<rparr>)"
proof -
  let ?rd = "tracker_response_readers ip_from_str sha1"
  note readable = body_forms_readable [OF assms(2,3), of sha1]
  have e: "?rd k = None" if "k \<in> fst ` set extra" for k
    using that assms(1) readers_known [of ip_from_str sha1 k] by (auto simp: extra_ok_def)
  have "known ?rd (body_forms r pf extra) = body_forms r pf []"
    unfolding body_forms_extra [of r pf extra] by (simp add: known_readable [OF readable] known_extra e)
  moreover have "passable ?rd (body_forms r pf extra)"
    unfolding body_forms_extra [of r pf extra]
    using passable_readable [OF readable] passable_extra [OF e] assms(1) by (simp add: extra_ok_def)
  ultimately obtain acc where
    "deserialize_struct sha1 ?rd (new_from_buf (tracker_body r pf extra)) = Inr (acc, new_from_buf [])"
    "map_of acc = map_of (field_values (body_forms r pf []))"
    using struct_passes [of ?rd "body_forms r pf extra" "new_from_buf (tracker_body r pf extra)" "[]" sha1]
      distinct_body_forms [OF assms(1), of r pf] assms(4) by (auto simp: tracker_body_def)
  then show ?thesis
    by (simp add: from_bytes_def deserialize_tracker_response_def de_struct_with_def body_values)
qed

text \<open>
  C15: An HTTP tracker is asked and read. A well-formed body, with its peers in the compact form or as
  dictionaries and any other fields beside, is deserialized to exactly its fields and its peers, in order.
  When the tracker answers the query with it, the round hands over exactly these peers, sleeps for the tracker's
  interval unless another is forced, and the next query has no event; when the body has a failure reason,
  nothing is handed over, and the same event is sent again after a minute.
\<close>

theorem http_tracker_read:
  assumes "response_ok r" "peers_ok ip_from_str pf" "extra_ok extra" "length (tracker_body r pf extra) < 2 ^ 64"
    and "\<And>b. map_of extra (ascii ''failure reason'') = Some b \<Longrightarrow> \<exists>c. b = write_bytes False c"
    and "u' = u\<lparr>url_query := Some (as_querystring encode show_ip (http_request c stats event))\<rparr>"
    and "fetch u' = Some (tracker_body r pf extra)"
  shows "from_bytes (deserialize_tracker_response ip_from_str sha1) (tracker_body r pf extra) =
      Inr (r\<lparr>tp_peers := peers_addrs pf\<rparr>) \<and>
    http_round encode show_ip ip_from_str sha1 c stats fetch (u, event) =
    (if ascii ''failure reason'' \<in> set (map fst extra) then Done ([], 60000, u', event)
     else Done (peers_addrs pf, force_or c (from_secs (unat (tp_interval r))), u', None))"
proof -
  define fr where "fr = ascii ''failure reason''"
  have key: "fr \<notin> response_keys" by (simp add: response_keys_def fr_def)
  have "fr \<in> set (map fst extra) \<longrightarrow> (\<exists>b. map_of extra fr = Some (write_bytes False b))"
    using assms(5) [folded fr_def] by (metis map_of_eq_None_iff not_None_eq set_map)
  note one = one_key_read [OF assms(3,1,4) key this, of sha1]
  have err: "deserialize_tracker_error sha1 = de_struct_with sha1 (\<lambda>k. if k = fr then Some (bytes_as id) else None) (\<lambda>f. require f fr)"
    by (simp add: deserialize_tracker_error_def fr_def)
  show ?thesis
    using one response_read [OF assms(3,1,2,4), of sha1]
    unfolding http_round_def Let_def prod.case assms(6) [symmetric] tracker_one_request_http_def assms(7) err fr_def [symmetric]
    by (auto split: if_splits)
qed

text \<open>A tracker that answers an interval of zero is asked again at once.\<close>

lemma http_interval_has_no_minimum:
  assumes "tracker_one_request_http ip_from_str sha1 (fetch (u\<lparr>url_query := Some q\<rparr>)) = Done (as, 0)"
    and "q = as_querystring encode show_ip (http_request c stats event)" "tc_force_tracker_interval c = None"
  shows "\<exists>u'. http_round encode show_ip ip_from_str sha1 c stats fetch (u, event) = Done (as, 0, u', None)"
  using assms by (simp add: http_round_def force_or_def)

section \<open>A UDP tracker that answers\<close>

text \<open>
  What a round of the loop comes to when the task survives it: the announce response to this transaction, or
  nothing, when the announce could not be sent or another well-formed response came back.
\<close>

definition round_outcome :: "udp_input \<Rightarrow> announce_response option \<Rightarrow> bool" where
  "round_outcome i oa \<longleftrightarrow>
     (case oa of
        Some a \<Rightarrow> ui_send_ok i \<and>
          (\<exists>d. ui_reply i = Some d \<and> received_datagram d = response_datagram (ui_tid i) (AnnounceResponse a))
      | None \<Rightarrow> \<not> ui_send_ok i \<or>
          (\<exists>d t r. ui_reply i = Some d \<and> received_datagram d = response_datagram t r \<and>
             (\<forall>a. (t, r) \<noteq> (ui_tid i, AnnounceResponse a))))"

definition addresses_of :: "announce_response option \<Rightarrow> socket_addr list" where
  "addresses_of oa = (case oa of None \<Rightarrow> [] | Some a \<Rightarrow> map (\<lambda>(ip, port). SocketV4 ip port) (ar_addrs a))"

text \<open>The sleep after a round, and the sleeps before each of a list of rounds.\<close>

definition next_sleep :: "tracker_comms \<Rightarrow> duration option \<Rightarrow> announce_response option \<Rightarrow> duration option" where
  "next_sleep c sleep oa =
     (case oa of
        Some a \<Rightarrow> Some (force_or c (from_secs (max (unat (ar_interval a)) 5)))
      | None \<Rightarrow> Some (case sleep of None \<Rightarrow> force_or c (from_secs 60) | Some d \<Rightarrow> d))"

fun sleeps :: "tracker_comms \<Rightarrow> duration option \<Rightarrow> announce_response option list \<Rightarrow> duration option list" where
  "sleeps c sleep [] = []"
| "sleeps c sleep (oa # oas) = sleep # sleeps c (next_sleep c sleep oa) oas"

abbreviation announce_of :: "tracker_comms \<Rightarrow> u64 \<Rightarrow> udp_input \<Rightarrow> bytes" where
  "announce_of c cid i \<equiv> fst (udp_request_serialize (AnnounceRequest cid (udp_announce_fields c (ui_stats i))) (ui_tid i) [])"

lemma unat_max_interval: "unat (max x 5) = max (unat x) 5" for x :: u32
  by (simp add: max_def word_le_nat_alt)

lemma round_answered:
  assumes "round_outcome i oa"
  shows "udp_round c (ui_stats i) (ui_tid i) (ui_send_ok i) (ui_reply i) (rq, sleep) =
    (announce_of c (rq_connection_id rq) i,
     Done (addresses_of oa, rq\<lparr>rq_write_buf := announce_of c (rq_connection_id rq) i\<rparr>, next_sleep c sleep oa))"
proof (cases oa)
  case (Some a)
  then show ?thesis using assms
    by (auto simp: round_outcome_def udp_round_def requester_announce_def requester_request_def Let_def
        udp_response_parse_iff [THEN iffD2, OF refl] udp_request_serialize_def addresses_of_def next_sleep_def unat_max_interval)
next
  case None
  show ?thesis
  proof (cases "ui_send_ok i")
    case False
    then show ?thesis using None
      by (auto simp: udp_round_def requester_announce_def requester_request_def Let_def udp_request_serialize_def
          addresses_of_def next_sleep_def split: option.splits)
  next
    case True
    then obtain d t r where d: "ui_reply i = Some d" "received_datagram d = response_datagram t r"
      "t = ui_tid i \<longrightarrow> (\<forall>a. r \<noteq> AnnounceResponse a)"
      using assms None by (auto simp: round_outcome_def)
    then have "udp_response_parse (received_datagram d) = Inr (t, r)" by (simp add: udp_response_parse_iff)
    then show ?thesis using None True d
      by (auto simp: udp_round_def requester_announce_def requester_request_def Let_def udp_request_serialize_def
          addresses_of_def next_sleep_def split: option.splits udp_response.splits)
  qed
qed

lemma round_unanswered:
  assumes "\<And>oa. \<not> round_outcome i oa"
  shows "\<exists>out. udp_round c (ui_stats i) (ui_tid i) (ui_send_ok i) (ui_reply i) st = (out, Panics)"
proof -
  have ok: "ui_send_ok i" using assms [of None] by (simp add: round_outcome_def)
  have no: "received_datagram d \<noteq> response_datagram t r" if "ui_reply i = Some d" for d t r
  proof
    assume e: "received_datagram d = response_datagram t r"
    show False
    proof (cases "\<exists>a. (t, r) = (ui_tid i, AnnounceResponse a)")
      case True
      then show False using assms [of "Some _"] e that ok by (auto simp: round_outcome_def)
    next
      case False
      then show False using assms [of None] e that by (auto simp: round_outcome_def)
    qed
  qed
  show ?thesis
  proof (cases "ui_reply i")
    case None
    then show ?thesis using ok
      by (auto simp: udp_round_def requester_announce_def requester_request_def Let_def udp_request_serialize_def split: prod.splits)
  next
    case (Some d)
    obtain e where "udp_response_parse (received_datagram d) = Inl e"
    proof (cases "udp_response_parse (received_datagram d)")
      case (Inr x)
      then have "received_datagram d = response_datagram (fst x) (snd x)"
        by (cases x) (simp add: udp_response_parse_iff)
      then show ?thesis using no [OF Some] by blast
    qed (rule that)
    then show ?thesis using ok Some
      by (auto simp: udp_round_def requester_announce_def requester_request_def Let_def udp_request_serialize_def split: prod.splits)
  qed
qed

text \<open>
  C24: A UDP tracker is polled for ever, or the task panics, and it is said exactly when. A round is survived
  when the announce cannot be sent, or a well-formed response, cut to 4096 bytes, comes back. While every round
  is survived the loop goes on, whatever the statistics are; each round sends the announce of the torrent's
  current statistics on the connection it was given; when what came back is the announce response to this
  transaction, its addresses are handed over in order, and the next sleep is its interval, but at least
  five seconds, unless another is forced; any other response is an error that hands over nothing and
  keeps the sleep, at first one minute, or the forced one. A round that is not survived ends the task by a
  panic.
\<close>

theorem udp_tracker_polled:
  "(list_all2 round_outcome ins oas \<longrightarrow>
     udp_monitor c ins (rq, sleep) =
       Done (zip (sleeps c sleep oas) (zip (map (announce_of c (rq_connection_id rq)) ins) (map addresses_of oas)))) \<and>
   ((\<exists>i \<in> set ins. \<forall>oa. \<not> round_outcome i oa) \<longrightarrow> udp_monitor c ins (rq, sleep) = Panics)"
proof (intro conjI impI)
  assume "list_all2 round_outcome ins oas"
  then show "udp_monitor c ins (rq, sleep) =
      Done (zip (sleeps c sleep oas) (zip (map (announce_of c (rq_connection_id rq)) ins) (map addresses_of oas)))"
  proof (induction arbitrary: rq sleep rule: list_all2_induct)
    case (Cons i ins oa oas)
    show ?case
      using Cons.IH [of "rq\<lparr>rq_write_buf := _\<rparr>"] by (simp add: round_answered [OF Cons.hyps(1)])
  qed simp
next
  assume "\<exists>i \<in> set ins. \<forall>oa. \<not> round_outcome i oa"
  then show "udp_monitor c ins (rq, sleep) = Panics"
  proof (induction ins arbitrary: rq sleep)
    case (Cons i ins)
    show ?case
    proof (cases "\<exists>oa. round_outcome i oa")
      case True
      then obtain oa where oa: "round_outcome i oa" by blast
      then have "\<exists>i \<in> set ins. \<forall>oa. \<not> round_outcome i oa" using Cons.prems by auto
      then show ?thesis using Cons.IH by (simp add: round_answered [OF oa])
    next
      case False
      then obtain out where "udp_round c (ui_stats i) (ui_tid i) (ui_send_ok i) (ui_reply i) (rq, sleep) = (out, Panics)"
        using round_unanswered by blast
      then show ?thesis by simp
    qed
  qed simp
qed

definition sample_comms :: tracker_comms where
  "sample_comms = \<lparr>tc_info_hash = replicate 20 1, tc_peer_id = replicate 20 2, tc_force_tracker_interval = None,
     tc_tcp_listen_port = Some 6881\<rparr>"

definition sample_answer :: announce_response where
  "sample_answer = \<lparr>ar_interval = 1, ar_leechers = 0, ar_seeders = 1, ar_addrs = [(0x01020304, 80)]\<rparr>"

definition sample_input :: "u32 \<Rightarrow> udp_input" where
  "sample_input tid = \<lparr>ui_stats = default_comms_stats, ui_tid = tid, ui_send_ok = True,
     ui_reply = Some (response_datagram tid (AnnounceResponse sample_answer))\<rparr>"

theorem udp_tracker_polled_witness:
  "\<exists>d1 d2 d3. udp_monitor sample_comms [sample_input 7, (sample_input 8)\<lparr>ui_send_ok := False\<rparr>, sample_input 9]
       (\<lparr>rq_connection_id = 3, rq_write_buf = []\<rparr>, None) =
     Done [(None, d1, [SocketV4 0x01020304 80]), (Some 5000, d2, []), (Some 5000, d3, [SocketV4 0x01020304 80])] \<and>
   udp_monitor sample_comms [(sample_input 7)\<lparr>ui_reply := None\<rparr>] (\<lparr>rq_connection_id = 3, rq_write_buf = []\<rparr>, None) = Panics"
proof -
  have "round_outcome (sample_input t) (Some sample_answer)" for t
    by (simp add: round_outcome_def sample_input_def sample_answer_def response_datagram_def received_datagram_def)
  moreover have "round_outcome ((sample_input t)\<lparr>ui_send_ok := False\<rparr>) None" for t
    by (simp add: round_outcome_def)
  ultimately have a: "list_all2 round_outcome [sample_input 7, (sample_input 8)\<lparr>ui_send_ok := False\<rparr>, sample_input 9]
      [Some sample_answer, None, Some sample_answer]" by simp
  have p: "\<exists>i \<in> set [(sample_input 7)\<lparr>ui_reply := None\<rparr>]. \<forall>oa. \<not> round_outcome i oa"
    by (simp add: round_outcome_def sample_input_def split: option.split)
  show ?thesis
    using udp_tracker_polled [of "[sample_input 7, (sample_input 8)\<lparr>ui_send_ok := False\<rparr>, sample_input 9]"
        "[Some sample_answer, None, Some sample_answer]" sample_comms "\<lparr>rq_connection_id = 3, rq_write_buf = []\<rparr>" None]
      udp_tracker_polled [of "[(sample_input 7)\<lparr>ui_reply := None\<rparr>]" "[]" sample_comms "\<lparr>rq_connection_id = 3, rq_write_buf = []\<rparr>" None]
      a p
    by (simp add: addresses_of_def next_sleep_def sample_answer_def sample_comms_def force_or_def)
qed

definition sample_response :: tracker_response where
  "sample_response = \<lparr>tp_warning_message = None, tp_complete = 1, tp_interval = 1800, tp_min_interval = Some 60,
     tp_tracker_id = None, tp_incomplete = 0, tp_peers = []\<rparr>"

definition sample_url :: url where
  "sample_url = \<lparr>url_scheme = ascii ''http'', url_host_str = Some (ascii ''t''), url_port = None, url_path = ascii ''/a'',
     url_query = None\<rparr>"

theorem http_tracker_read_witness:
  "\<exists>u'. http_round id (\<lambda>_. []) (\<lambda>_. None) id sample_comms default_comms_stats
     (\<lambda>_. Some (tracker_body sample_response (CompactPeers [(0x01020304, 80)]) [(ascii ''x'', write_bytes False [1])]))
     (sample_url, Some EvStarted) = Done ([SocketV4 0x01020304 80], 1800000, u', None)"
proof -
  let ?extra = "[(ascii ''x'', write_bytes False [1])]"
  let ?body = "tracker_body sample_response (CompactPeers [(0x01020304, 80)]) ?extra"
  have 1: "response_ok sample_response" by (simp add: response_ok_def sample_response_def small_u64_def)
  have 2: "peers_ok (\<lambda>_. None) (CompactPeers [(0x01020304, 80)])" by simp
  have 3: "extra_ok ?extra" by (simp add: extra_ok_def response_keys_def plain_bytes)
  have 4: "length ?body < 2 ^ 64" by code_simp
  have 5: "\<exists>c. b = write_bytes False c" if "map_of ?extra (ascii ''failure reason'') = Some b" for b
    using that by simp
  have 6: "ascii ''failure reason'' \<notin> set (map fst ?extra)" by simp
  show ?thesis
    using http_tracker_read [where fetch = "\<lambda>_. Some ?body" and u = sample_url and encode = id and show_ip = "\<lambda>_. []"
        and c = sample_comms and stats = default_comms_stats and event = "Some EvStarted" and ?sha1.0 = id,
        OF 1 2 3 4 5 refl refl] 6
    by (simp add: sample_response_def sample_comms_def force_or_def)
qed

end
