(* ===== verification/Magnet.thy ===== *)
theory Magnet
  imports TrackerComms "HOL-Library.Sublist"
begin

text \<open>
  Model of \<open>magnet.rs\<close> and \<open>peer_id.rs\<close> of \<open>librqbit_core\<close>. Parsing a URL, taking its query apart and the
  hexadecimal form of bytes belong to libraries: they are arguments, and what the theorems rely on is
  stated as \<open>url_library\<close> and \<open>hex_library\<close>.
\<close>

section \<open>Magnet links\<close>

record magnet =
  mg_id20 :: "bytes option"
  mg_id32 :: "bytes option"
  mg_trackers :: "bytes list"

definition strip_prefix :: "bytes \<Rightarrow> bytes \<Rightarrow> bytes option" where
  "strip_prefix p s = (if prefix p s then Some (drop (length p) s) else None)"

definition BTIH :: bytes where "BTIH = ascii ''urn:btih:''"
definition BTMH :: bytes where "BTMH = ascii ''urn:btmh:1220''"

definition id_of_text :: "(string \<Rightarrow> bytes option) \<Rightarrow> nat \<Rightarrow> bytes \<Rightarrow> bytes option" where
  "id_of_text hex_decode n t = id_from_str hex_decode n (map (char_of \<circ> unat) t)"

record magnet_scan =
  ms_info_hash_found :: bool
  ms_id20 :: "bytes option"
  ms_id32 :: "bytes option"
  ms_trackers :: "bytes list"

definition magnet_pair :: "(string \<Rightarrow> bytes option) \<Rightarrow> bytes \<Rightarrow> bytes \<Rightarrow> magnet_scan \<Rightarrow> magnet_scan option" where
  "magnet_pair hex_decode key v s =
     (if key = ascii ''xt'' then
        (case strip_prefix BTIH v of
           Some ih \<Rightarrow> map_option (\<lambda>i. s\<lparr>ms_id20 := Some i, ms_info_hash_found := True\<rparr>) (id_of_text hex_decode 20 ih)
         | None \<Rightarrow>
             (case strip_prefix BTMH v of
                Some ih \<Rightarrow> map_option (\<lambda>i. s\<lparr>ms_id32 := Some i, ms_info_hash_found := True\<rparr>) (id_of_text hex_decode 32 ih)
              | None \<Rightarrow> None))
      else if key = ascii ''tr'' then Some (s\<lparr>ms_trackers := ms_trackers s @ [v]\<rparr>)
      else Some s)"

fun magnet_pairs :: "(string \<Rightarrow> bytes option) \<Rightarrow> (bytes \<times> bytes) list \<Rightarrow> magnet_scan \<Rightarrow> magnet_scan option" where
  "magnet_pairs hex_decode [] s = Some s"
| "magnet_pairs hex_decode ((key, v) # ps) s = Option.bind (magnet_pair hex_decode key v s) (magnet_pairs hex_decode ps)"

definition magnet_parse ::
  "(bytes \<Rightarrow> url option) \<Rightarrow> (url \<Rightarrow> (bytes \<times> bytes) list) \<Rightarrow> (string \<Rightarrow> bytes option) \<Rightarrow> bytes \<Rightarrow> magnet option" where
  "magnet_parse url_parse query_pairs hex_decode t =
     (case url_parse t of
        None \<Rightarrow> None
      | Some u \<Rightarrow>
          if url_scheme u \<noteq> ascii ''magnet'' then None
          else
            (case magnet_pairs hex_decode (query_pairs u)
                \<lparr>ms_info_hash_found = False, ms_id20 = None, ms_id32 = None, ms_trackers = []\<rparr> of
               None \<Rightarrow> None
             | Some s \<Rightarrow>
                 if ms_info_hash_found s
                 then Some \<lparr>mg_id20 = ms_id20 s, mg_id32 = ms_id32 s, mg_trackers = ms_trackers s\<rparr>
                 else None))"

fun join :: "bytes \<Rightarrow> bytes list \<Rightarrow> bytes" where
  "join sep [] = []"
| "join sep [x] = x"
| "join sep (x # y # r) = x @ sep @ join sep (y # r)"

definition magnet_display :: "(bytes \<Rightarrow> bytes) \<Rightarrow> magnet \<Rightarrow> bytes outcome" where
  "magnet_display hex_encode m =
     (case (mg_id20 m, mg_id32 m) of
        (Some i20, Some i32) \<Rightarrow>
          Return (ascii ''magnet:?xt=urn:btih:'' @ hex_encode i20 @ ascii ''?xt=urn:btmh:1220'' @ hex_encode i32
            @ ascii ''&tr='' @ join (ascii ''&tr='') (mg_trackers m))
      | (Some i20, None) \<Rightarrow>
          Return (ascii ''magnet:?xt=urn:btih:'' @ hex_encode i20 @ ascii ''&tr='' @ join (ascii ''&tr='') (mg_trackers m))
      | (None, Some i32) \<Rightarrow>
          Return (ascii ''magnet:?xt=urn:btmh:1220'' @ hex_encode i32 @ ascii ''&tr='' @ join (ascii ''&tr='') (mg_trackers m))
      | (None, None) \<Rightarrow> Panic)"

section \<open>Peer ids\<close>

datatype azureus_kind = Deluge | LibTorrent | Transmission | OtherKind byte byte

record azureus_style =
  az_kind :: azureus_kind
  az_version :: bytes

definition azureus_kind_of :: "byte \<Rightarrow> byte \<Rightarrow> azureus_kind" where
  "azureus_kind_of b1 b2 =
     (if [b1, b2] = ascii ''DE'' then Deluge
      else if [b1, b2] = ascii ''lt'' \<or> [b1, b2] = ascii ''LT'' then LibTorrent
      else if [b1, b2] = ascii ''TR'' then Transmission
      else OtherKind b1 b2)"

text \<open>A peer id is an array of 20 bytes.\<close>

definition try_decode_peer_id :: "bytes \<Rightarrow> azureus_style option" where
  "try_decode_peer_id p =
     (if \<not> (p ! 0 = 45 \<and> p ! 7 = 45) then None
      else Some \<lparr>az_kind = azureus_kind_of (p ! 1) (p ! 2), az_version = take 4 (drop 3 p)\<rparr>)"

text \<open>\<open>u\<close> are the 16 bytes of a random UUID; the prefix overwrites the first four of them.\<close>

definition generate_peer_id :: "bytes \<Rightarrow> bytes" where
  "generate_peer_id u =
     (let peer_id = replicate 20 0; peer_id = take 4 peer_id @ u in ascii ''-rQ0001-'' @ drop 8 peer_id)"

lemma generated_peer_id_decodes:
  "length u = 16 \<Longrightarrow> length (generate_peer_id u) = 20 \<and>
   try_decode_peer_id (generate_peer_id u) = Some \<lparr>az_kind = OtherKind 114 81, az_version = ascii ''0001''\<rparr>"
proof -
  assume "length u = 16"
  moreover have "generate_peer_id u = [45, 114, 81, 48, 48, 48, 49, 45] @ drop 4 u"
    by (simp add: generate_peer_id_def Let_def)
  ultimately show ?thesis by (simp add: try_decode_peer_id_def azureus_kind_of_def)
qed

section \<open>What a link holds\<close>

text \<open>A value of \<open>xt\<close> with the hash it names.\<close>

definition xt_id20 :: "(string \<Rightarrow> bytes option) \<Rightarrow> bytes \<Rightarrow> bytes option" where
  "xt_id20 hex_decode v = Option.bind (strip_prefix BTIH v) (id_of_text hex_decode 20)"

definition xt_id32 :: "(string \<Rightarrow> bytes option) \<Rightarrow> bytes \<Rightarrow> bytes option" where
  "xt_id32 hex_decode v = Option.bind (strip_prefix BTMH v) (id_of_text hex_decode 32)"

definition values_of :: "bytes \<Rightarrow> (bytes \<times> bytes) list \<Rightarrow> bytes list" where
  "values_of key ps = map snd (filter (\<lambda>(k, v). k = key) ps)"

definition last_opt :: "'a list \<Rightarrow> 'a option \<Rightarrow> 'a option" where
  "last_opt xs d = (if xs = [] then d else Some (last xs))"

lemma strip_prefix_append [simp]: "strip_prefix p (p @ s) = Some s"
  by (simp add: strip_prefix_def)

lemma prefixes_differ: "strip_prefix BTIH v = Some x \<Longrightarrow> strip_prefix BTMH v = None"
  by (auto simp: strip_prefix_def BTIH_def BTMH_def prefix_def split: if_splits)

lemma values_of_Cons: "values_of key ((k, v) # ps) = (if k = key then v # values_of key ps else values_of key ps)"
  by (simp add: values_of_def)

lemma magnet_pairs_iff:
  "magnet_pairs hex_decode ps s = Some s' \<longleftrightarrow>
     (\<forall>v \<in> set (values_of (ascii ''xt'') ps). xt_id20 hex_decode v \<noteq> None \<or> xt_id32 hex_decode v \<noteq> None) \<and>
     s' = \<lparr>ms_info_hash_found = (ms_info_hash_found s \<or> values_of (ascii ''xt'') ps \<noteq> []),
           ms_id20 = last_opt (List.map_filter (xt_id20 hex_decode) (values_of (ascii ''xt'') ps)) (ms_id20 s),
           ms_id32 = last_opt (List.map_filter (xt_id32 hex_decode) (values_of (ascii ''xt'') ps)) (ms_id32 s),
           ms_trackers = ms_trackers s @ values_of (ascii ''tr'') ps\<rparr>"
proof (induction ps arbitrary: s)
  case Nil
  then show ?case by (auto simp: values_of_def last_opt_def List.map_filter_def)
next
  case (Cons p ps)
  obtain k v where p: "p = (k, v)" by (cases p)
  note defs = magnet_pair_def values_of_Cons last_opt_def List.map_filter_def xt_id20_def xt_id32_def
  consider (xt) "k = ascii ''xt''" | (tr) "k = ascii ''tr''" | (other) "k \<noteq> ascii ''xt''" "k \<noteq> ascii ''tr''" by blast
  then show ?case
  proof cases
    case xt
    show ?thesis
    proof (cases "strip_prefix BTIH v")
      case (Some x)
      then show ?thesis using Cons.IH prefixes_differ [OF Some] xt
        by (cases "id_of_text hex_decode 20 x") (auto simp: p defs)
    next
      case None
      then show ?thesis using Cons.IH xt
        by (cases "strip_prefix BTMH v"; cases "id_of_text hex_decode 32 (the (strip_prefix BTMH v))") (auto simp: p defs)
    qed
  next
    case tr
    then show ?thesis using Cons.IH by (auto simp: p defs)
  next
    case other
    then show ?thesis using Cons.IH by (auto simp: p defs)
  qed
qed

text \<open>
  A magnet link holds what it says. A URL of scheme \<open>magnet\<close> parses exactly when it has some \<open>xt\<close> and each of
  its \<open>xt\<close> names a BitTorrent hash that decodes; the link then has the last hash of each version and its
  trackers in order, and every other part of the query is passed over.
\<close>

theorem magnet_parse_iff:
  "magnet_parse url_parse query_pairs hex_decode t = Some m \<longleftrightarrow>
    (\<exists>u xts. url_parse t = Some u \<and> url_scheme u = ascii ''magnet'' \<and>
      xts = values_of (ascii ''xt'') (query_pairs u) \<and> xts \<noteq> [] \<and>
      filter (\<lambda>v. xt_id20 hex_decode v = None \<and> xt_id32 hex_decode v = None) xts = [] \<and>
      m = \<lparr>mg_id20 = last_opt (List.map_filter (xt_id20 hex_decode) xts) None,
           mg_id32 = last_opt (List.map_filter (xt_id32 hex_decode) xts) None,
           mg_trackers = values_of (ascii ''tr'') (query_pairs u)\<rparr>)"
proof (cases "url_parse t")
  case None
  then show ?thesis by (simp add: magnet_parse_def)
next
  case (Some u)
  let ?s = "\<lparr>ms_info_hash_found = False, ms_id20 = None, ms_id32 = None, ms_trackers = []\<rparr>"
  define xts where "xts = values_of (ascii ''xt'') (query_pairs u)"
  define ok where "ok \<longleftrightarrow> filter (\<lambda>v. xt_id20 hex_decode v = None \<and> xt_id32 hex_decode v = None) xts = []"
  define r where "r = \<lparr>ms_info_hash_found = (xts \<noteq> []), ms_id20 = last_opt (List.map_filter (xt_id20 hex_decode) xts) None,
    ms_id32 = last_opt (List.map_filter (xt_id32 hex_decode) xts) None, ms_trackers = values_of (ascii ''tr'') (query_pairs u)\<rparr>"
  have iff: "magnet_pairs hex_decode (query_pairs u) ?s = Some s' \<longleftrightarrow> ok \<and> s' = r" for s'
    unfolding magnet_pairs_iff magnet_scan.select_convs xts_def [symmetric] r_def ok_def by (simp add: filter_empty_conv)
  have pairs: "magnet_pairs hex_decode (query_pairs u) ?s = (if ok then Some r else None)"
    using iff [of r] iff by (cases "magnet_pairs hex_decode (query_pairs u) ?s") auto
  show ?thesis
    unfolding magnet_parse_def Some option.case pairs option.inject ex_simps xts_def [symmetric] ok_def [symmetric]
    by (simp add: r_def xts_def [symmetric] ok_def [symmetric] del: ascii_simps cong: conj_cong) blast
qed

section \<open>A displayed link\<close>

definition text_byte :: "byte \<Rightarrow> bool" where
  "text_byte b \<longleftrightarrow> 33 \<le> unat b \<and> unat b \<le> 126 \<and> b \<notin> {34, 35, 37, 38, 39, 43, 60, 62}"

definition query_text :: "(bytes \<times> bytes) list \<Rightarrow> bytes" where
  "query_text kvs = join [38] (map (\<lambda>(k, v). k @ [61] @ v) kvs)"

text \<open>
  What is relied on of the URL library: a magnet URL whose query is a list of pairs, all of plain
  characters, is taken apart into these pairs.
\<close>

definition url_library :: "(bytes \<Rightarrow> url option) \<Rightarrow> (url \<Rightarrow> (bytes \<times> bytes) list) \<Rightarrow> bool" where
  "url_library url_parse query_pairs \<longleftrightarrow>
     (\<forall>kvs. kvs \<noteq> [] \<and> (\<forall>(k, v) \<in> set kvs. k \<noteq> [] \<and> list_all (\<lambda>b. text_byte b \<and> b \<noteq> 61) k \<and> list_all text_byte v) \<longrightarrow>
       (\<exists>u. url_parse (ascii ''magnet:?'' @ query_text kvs) = Some u \<and> url_scheme u = ascii ''magnet'' \<and> query_pairs u = kvs))"

definition hex_library :: "(bytes \<Rightarrow> bytes) \<Rightarrow> (string \<Rightarrow> bytes option) \<Rightarrow> bool" where
  "hex_library hex_encode hex_decode \<longleftrightarrow>
     (\<forall>b. hex_decode (map (char_of \<circ> unat) (hex_encode b)) = Some b \<and> length (hex_encode b) = 2 * length b \<and>
       list_all text_byte (hex_encode b))"

lemma hex_id: "hex_library hex_encode hex_decode \<Longrightarrow> length b = n \<Longrightarrow> id_of_text hex_decode n (hex_encode b) = Some b"
  by (simp add: hex_library_def id_of_text_def id_from_str_def)

lemma join_Cons: "xs \<noteq> [] \<Longrightarrow> join sep (x # xs) = x @ sep @ join sep xs"
  by (cases xs) simp_all

lemma tracker_query:
  "ts \<noteq> [] \<Longrightarrow> query_text ((k, v) # map (\<lambda>t. (ascii ''tr'', t)) ts) = k @ [61] @ v @ ascii ''&tr='' @ join (ascii ''&tr='') ts"
proof (induction ts arbitrary: k v)
  case (Cons t ts)
  show ?case
  proof (cases "ts = []")
    case False
    have "query_text ((k, v) # map (\<lambda>t. (ascii ''tr'', t)) (t # ts)) =
        k @ [61] @ v @ [38] @ query_text ((ascii ''tr'', t) # map (\<lambda>t. (ascii ''tr'', t)) ts)"
      by (simp add: query_text_def)
    also have "\<dots> = k @ [61] @ v @ [38] @ ascii ''tr'' @ [61] @ t @ ascii ''&tr='' @ join (ascii ''&tr='') ts"
      using Cons.IH [OF False] by simp
    finally show ?thesis using False by (simp add: join_Cons)
  qed (simp add: query_text_def)
qed simp

definition shown_trackers :: "bytes list \<Rightarrow> bytes list" where
  "shown_trackers ts = (if ts = [] then [[]] else ts)"

lemma join_shown: "join sep (shown_trackers ts) = join sep ts"
  by (simp add: shown_trackers_def)

text \<open>A link that shows one \<open>xt\<close> and the trackers.\<close>

lemma shown_link_parses:
  assumes "url_library url_parse query_pairs" "list_all text_byte v" "list_all (list_all text_byte) ts"
    and "t = ascii ''magnet:?xt='' @ v @ ascii ''&tr='' @ join (ascii ''&tr='') ts"
  shows "\<exists>u. url_parse t = Some u \<and> url_scheme u = ascii ''magnet'' \<and>
    query_pairs u = (ascii ''xt'', v) # map (\<lambda>t. (ascii ''tr'', t)) (shown_trackers ts)"
proof -
  let ?kvs = "(ascii ''xt'', v) # map (\<lambda>t. (ascii ''tr'', t)) (shown_trackers ts)"
  have "t = ascii ''magnet:?'' @ query_text ?kvs"
    using assms(4) tracker_query [of "shown_trackers ts" "ascii ''xt''" v] by (simp add: join_shown shown_trackers_def)
  moreover have "text_byte 120" "text_byte 116" "text_byte 114" by (simp_all add: text_byte_def)
  then have "\<forall>(k, v) \<in> set ?kvs. k \<noteq> [] \<and> list_all (\<lambda>b. text_byte b \<and> b \<noteq> 61) k \<and> list_all text_byte v"
    using assms(2,3) by (auto simp: shown_trackers_def list_all_iff split: if_splits)
  ultimately show ?thesis using assms(1) unfolding url_library_def by blast
qed

lemma values_of_trackers:
  "values_of (ascii ''xt'') ((ascii ''xt'', v) # map (\<lambda>t. (ascii ''tr'', t)) ts) = [v]"
  "values_of (ascii ''tr'') ((ascii ''xt'', v) # map (\<lambda>t. (ascii ''tr'', t)) ts) = ts"
  by (simp_all add: values_of_def filter_map comp_def)

lemma parse_shown_link:
  assumes "url_library url_parse query_pairs" "list_all text_byte v" "list_all (list_all text_byte) ts"
    and "t = ascii ''magnet:?xt='' @ v @ ascii ''&tr='' @ join (ascii ''&tr='') ts"
  shows "magnet_parse url_parse query_pairs hex_decode t =
    (if xt_id20 hex_decode v = None \<and> xt_id32 hex_decode v = None then None
     else Some \<lparr>mg_id20 = xt_id20 hex_decode v, mg_id32 = xt_id32 hex_decode v, mg_trackers = shown_trackers ts\<rparr>)"
proof -
  obtain u where u: "url_parse t = Some u" "url_scheme u = ascii ''magnet''"
    "query_pairs u = (ascii ''xt'', v) # map (\<lambda>t. (ascii ''tr'', t)) (shown_trackers ts)"
    using shown_link_parses [OF assms] by blast
  let ?s = "\<lparr>ms_info_hash_found = False, ms_id20 = None, ms_id32 = None, ms_trackers = []\<rparr>"
  have o: "last_opt (List.map_filter f [v]) None = f v" for f :: "bytes \<Rightarrow> bytes option"
    by (cases "f v") (simp_all add: last_opt_def List.map_filter_def)
  show ?thesis
  proof (cases "xt_id20 hex_decode v = None \<and> xt_id32 hex_decode v = None")
    case True
    then have "magnet_pairs hex_decode (query_pairs u) ?s = None"
      using magnet_pairs_iff [of hex_decode "query_pairs u" ?s] unfolding u(3) values_of_trackers by fastforce
    then show ?thesis using True u by (simp add: magnet_parse_def)
  next
    case False
    then have "magnet_pairs hex_decode (query_pairs u) ?s = Some \<lparr>ms_info_hash_found = True,
        ms_id20 = xt_id20 hex_decode v, ms_id32 = xt_id32 hex_decode v, ms_trackers = shown_trackers ts\<rparr>"
      unfolding magnet_pairs_iff u(3) values_of_trackers magnet_scan.select_convs o by simp
    then show ?thesis using False u by (simp add: magnet_parse_def)
  qed
qed

text \<open>
  What a magnet link is displayed as can be parsed, except when it has hashes of both versions. A link
  with one hash and trackers of plain characters comes back as it was, but for an empty tracker when it
  has none; a link with both hashes is displayed with a second question mark, so that the first hash has
  the wrong length and the text is refused.
\<close>

theorem magnet_display_parses:
  assumes "url_library url_parse query_pairs" "hex_library hex_encode hex_decode"
    and "list_all (list_all text_byte) (mg_trackers m)" "mg_id20 m \<noteq> None \<or> mg_id32 m \<noteq> None"
    and "pred_option (\<lambda>i. length i = 20) (mg_id20 m)" "pred_option (\<lambda>i. length i = 32) (mg_id32 m)"
  shows "\<exists>t. magnet_display hex_encode m = Return t \<and> magnet_parse url_parse query_pairs hex_decode t =
    (if mg_id20 m \<noteq> None \<and> mg_id32 m \<noteq> None then None
     else Some (m\<lparr>mg_trackers := shown_trackers (mg_trackers m)\<rparr>))"
proof -
  have hex: "list_all text_byte (hex_encode b)" "length (hex_encode b) = 2 * length b" for b
    using assms(2) by (simp_all add: hex_library_def)
  have tb: "list_all text_byte BTIH" "list_all text_byte BTMH" "list_all text_byte (ascii ''?xt='')"
    by (simp_all add: BTIH_def BTMH_def text_byte_def)
  note parse = parse_shown_link [OF assms(1) _ assms(3), where hex_decode = hex_decode]
  have ids: "xt_id20 hex_decode (BTIH @ hex_encode b) = Some b" if "length b = 20" for b
    using hex_id [OF assms(2) that] by (simp add: xt_id20_def)
  have ids32: "xt_id32 hex_decode (BTMH @ hex_encode b) = Some b" if "length b = 32" for b
    using hex_id [OF assms(2) that] by (simp add: xt_id32_def)
  have no20: "xt_id20 hex_decode (BTMH @ y) = None" for y
    using prefixes_differ [of "BTMH @ y"] by (cases "strip_prefix BTIH (BTMH @ y)") (auto simp: xt_id20_def)
  have no32: "xt_id32 hex_decode (BTIH @ y) = None" for y
    using prefixes_differ [of "BTIH @ y"] by (simp add: xt_id32_def)
  consider (v1) i where "mg_id20 m = Some i" "mg_id32 m = None" | (v2) i where "mg_id20 m = None" "mg_id32 m = Some i"
    | (hybrid) i j where "mg_id20 m = Some i" "mg_id32 m = Some j"
    using assms(4) by (cases "mg_id20 m"; cases "mg_id32 m") auto
  then show ?thesis
  proof cases
    case v1
    have "length i = 20" using assms(5) v1 by simp
    have "magnet_parse url_parse query_pairs hex_decode
        (ascii ''magnet:?xt='' @ (BTIH @ hex_encode i) @ ascii ''&tr='' @ join (ascii ''&tr='') (mg_trackers m)) =
        Some (m\<lparr>mg_trackers := shown_trackers (mg_trackers m)\<rparr>)"
      using parse [OF _ refl, of "BTIH @ hex_encode i"] ids [OF \<open>length i = 20\<close>] no32 hex tb v1 by simp
    then show ?thesis using v1 by (simp add: magnet_display_def BTIH_def)
  next
    case v2
    have "length i = 32" using assms(6) v2 by simp
    have "magnet_parse url_parse query_pairs hex_decode
        (ascii ''magnet:?xt='' @ (BTMH @ hex_encode i) @ ascii ''&tr='' @ join (ascii ''&tr='') (mg_trackers m)) =
        Some (m\<lparr>mg_trackers := shown_trackers (mg_trackers m)\<rparr>)"
      using parse [OF _ refl, of "BTMH @ hex_encode i"] ids32 [OF \<open>length i = 32\<close>] no20 hex tb v2 by simp
    then show ?thesis using v2 by (simp add: magnet_display_def BTMH_def)
  next
    case hybrid
    let ?v = "hex_encode i @ ascii ''?xt='' @ BTMH @ hex_encode j"
    have "length i = 20" using assms(5) hybrid by simp
    then have "id_of_text hex_decode 20 ?v = None"
      using hex(2) [of i] by (simp add: id_of_text_def id_from_str_def)
    then have "xt_id20 hex_decode (BTIH @ ?v) = None" by (simp add: xt_id20_def)
    then have "magnet_parse url_parse query_pairs hex_decode
        (ascii ''magnet:?xt='' @ (BTIH @ ?v) @ ascii ''&tr='' @ join (ascii ''&tr='') (mg_trackers m)) = None"
      using parse [OF _ refl, of "BTIH @ ?v"] no32 [of ?v] hex tb by simp
    then show ?thesis using hybrid by (simp add: magnet_display_def BTIH_def BTMH_def)
  qed
qed

text \<open>A URL library and a text form of bytes, for the witness.\<close>

fun split_on :: "byte \<Rightarrow> bytes \<Rightarrow> bytes list" where
  "split_on c [] = [[]]"
| "split_on c (b # r) = (if b = c then [] # split_on c r else (b # hd (split_on c r)) # tl (split_on c r))"

definition simple_url_parse :: "bytes \<Rightarrow> url option" where
  "simple_url_parse t = map_option
     (\<lambda>q. \<lparr>url_scheme = ascii ''magnet'', url_host_str = None, url_port = None, url_path = [], url_query = Some q\<rparr>)
     (strip_prefix (ascii ''magnet:?'') t)"

definition simple_query_pairs :: "url \<Rightarrow> (bytes \<times> bytes) list" where
  "simple_query_pairs u = map (\<lambda>s. (takeWhile (\<lambda>b. b \<noteq> 61) s, drop 1 (dropWhile (\<lambda>b. b \<noteq> 61) s)))
     (split_on 38 (the (url_query u)))"

definition simple_hex :: "bytes \<Rightarrow> bytes" where
  "simple_hex bs = concat (map (\<lambda>b. [97 + word_of_nat (unat b div 16), 97 + word_of_nat (unat b mod 16)]) bs)"

fun simple_unhex :: "string \<Rightarrow> bytes option" where
  "simple_unhex (a # b # r) =
     map_option (\<lambda>bs. word_of_nat ((of_char a - 97) * 16 + (of_char b - 97)) # bs) (simple_unhex r)"
| "simple_unhex _ = Some []"

lemma split_on_not_Nil [simp]: "split_on c s \<noteq> []"
  by (cases s) simp_all

lemma split_on_append: "c \<notin> set s \<Longrightarrow> split_on c (s @ c # r) = s # split_on c r"
  by (induction s) auto

lemma split_on_free: "c \<notin> set s \<Longrightarrow> split_on c s = [s]"
  by (induction s) auto

lemma split_on_join: "xs \<noteq> [] \<Longrightarrow> list_all (\<lambda>x. c \<notin> set x) xs \<Longrightarrow> split_on c (join [c] xs) = xs"
proof (induction xs)
  case (Cons x xs)
  then show ?case by (cases "xs = []") (simp_all add: join_Cons split_on_append split_on_free)
qed simp

lemma simple_url_library: "url_library simple_url_parse simple_query_pairs"
  unfolding url_library_def
proof (intro allI impI)
  fix kvs :: "(bytes \<times> bytes) list"
  assume a: "kvs \<noteq> [] \<and> (\<forall>(k, v) \<in> set kvs. k \<noteq> [] \<and> list_all (\<lambda>b. text_byte b \<and> b \<noteq> 61) k \<and> list_all text_byte v)"
  let ?u = "\<lparr>url_scheme = ascii ''magnet'', url_host_str = None, url_port = None, url_path = [], url_query = Some (query_text kvs)\<rparr>"
  have amp: "\<not> text_byte 38" by (simp add: text_byte_def)
  have free: "38 \<notin> set (k @ [61] @ v) \<and> 61 \<notin> set k" if "(k, v) \<in> set kvs" for k v
    using a that amp by (auto simp: list_all_iff)
  have "split_on 38 (query_text kvs) = map (\<lambda>(k, v). k @ [61] @ v) kvs"
    unfolding query_text_def using a free by (intro split_on_join) (auto simp: list_all_iff)
  moreover have "takeWhile (\<lambda>b. b \<noteq> 61) (k @ [61] @ v) = k \<and> drop 1 (dropWhile (\<lambda>b. b \<noteq> 61) (k @ [61] @ v)) = v"
    if "(k, v) \<in> set kvs" for k v
  proof -
    have "x \<noteq> 61" if "x \<in> set k" for x using free [OF \<open>(k, v) \<in> set kvs\<close>] that by auto
    then show ?thesis by (simp add: takeWhile_append2 dropWhile_append2)
  qed
  ultimately have "simple_query_pairs ?u = kvs"
    by (auto simp: simple_query_pairs_def intro!: map_idI)
  moreover have "simple_url_parse (ascii ''magnet:?'' @ query_text kvs) = Some ?u"
    by (simp only: simple_url_parse_def strip_prefix_append option.map)
  ultimately show "\<exists>u. simple_url_parse (ascii ''magnet:?'' @ query_text kvs) = Some u \<and>
      url_scheme u = ascii ''magnet'' \<and> simple_query_pairs u = kvs" by force
qed

lemma simple_hex_library: "hex_library simple_hex simple_unhex"
proof -
  have nib: "unat (97 + word_of_nat n :: byte) = 97 + n" if "n < 16" for n
    using that by (subst unat_add_fits) (simp_all add: unat_of_nat)
  have tx: "text_byte (97 + word_of_nat n)" if "n < 16" for n
  proof -
    have "97 + word_of_nat n \<noteq> (x :: byte)" if "unat x < 97" for x
      using nib [OF \<open>n < 16\<close>] that by auto
    then show ?thesis using nib [OF that] that by (simp add: text_byte_def)
  qed
  have "simple_unhex (map (char_of \<circ> unat) (simple_hex b)) = Some b \<and> length (simple_hex b) = 2 * length b \<and>
      list_all text_byte (simple_hex b)" for b
  proof (induction b)
    case (Cons x b)
    have x: "unat x div 16 < 16" "unat x mod 16 < 16" using byte_bound [of x] by auto
    have "(of_char (char_of (unat (97 + word_of_nat n :: byte)) :: char) :: nat) = 97 + n" if "n < 16" for n
      using nib [OF that] that by simp
    with x Cons tx [OF x(1)] tx [OF x(2)] show ?case by (simp add: simple_hex_def)
  qed (simp add: simple_hex_def)
  then show ?thesis by (simp add: hex_library_def)
qed

theorem magnet_display_parses_witness:
  "\<exists>t. magnet_display simple_hex \<lparr>mg_id20 = Some (replicate 20 7), mg_id32 = None, mg_trackers = [ascii ''udp://t:1'']\<rparr> = Return t \<and>
     magnet_parse simple_url_parse simple_query_pairs simple_unhex t =
       Some \<lparr>mg_id20 = Some (replicate 20 7), mg_id32 = None, mg_trackers = [ascii ''udp://t:1'']\<rparr>"
  using magnet_display_parses [OF simple_url_library simple_hex_library,
      of "\<lparr>mg_id20 = Some (replicate 20 7), mg_id32 = None, mg_trackers = [ascii ''udp://t:1'']\<rparr>"]
  by (simp add: text_byte_def shown_trackers_def)

end
