(* ===== verification/AddTorrent.thy ===== *)
theory AddTorrent
  imports Magnet Managed
begin

text \<open>
  Model of what \<open>session.rs\<close> does before a torrent is in its database, and of \<open>dht_utils.rs\<close>: which files
  are wanted, where they go, the sources of peers, and the finding of the metadata of a magnet link.
  Errors are \<open>None\<close> where the source returns an \<open>anyhow::Error\<close>; regular expressions, URLs, hexadecimal
  digits and HTTP are arguments.
\<close>

section \<open>The wanted files\<close>

fun regex_loop :: "(bytes \<Rightarrow> bool) \<Rightarrow> nat \<Rightarrow> (file_iterator_name \<times> u64) list \<Rightarrow> nat list \<Rightarrow> nat list option" where
  "regex_loop is_match i [] only_files = Some only_files"
| "regex_loop is_match i ((filename, _) # names) only_files =
     (case to_pathbuf filename of
        Inl _ \<Rightarrow> None
      | Inr path \<Rightarrow> regex_loop is_match (i + 1) names (if is_match path then only_files @ [i] else only_files))"

definition compute_only_files_regex :: "(bytes \<Rightarrow> (bytes \<Rightarrow> bool) option) \<Rightarrow> torrent_info \<Rightarrow> bytes \<Rightarrow> nat list option" where
  "compute_only_files_regex regex_new torrent filename_re =
     (case regex_new filename_re of
        None \<Rightarrow> None
      | Some is_match \<Rightarrow>
          (case iter_filenames_and_lengths torrent of
             Inl _ \<Rightarrow> None
           | Inr names \<Rightarrow>
               (case regex_loop is_match 0 names [] of
                  None \<Rightarrow> None
                | Some only_files \<Rightarrow> if only_files = [] then None else Some only_files)))"

text \<open>The second pass over the names of the regex case is for the log; it cannot fail after the first.\<close>

definition compute_only_files ::
  "(bytes \<Rightarrow> (bytes \<Rightarrow> bool) option) \<Rightarrow> torrent_info \<Rightarrow> nat list option \<Rightarrow> bytes option \<Rightarrow> nat list option option" where
  "compute_only_files regex_new info only_files only_files_regex =
     (case (only_files, only_files_regex) of
        (Some _, Some _) \<Rightarrow> None
      | (Some ids, None) \<Rightarrow>
          (case iter_file_lengths info of
             Inl _ \<Rightarrow> None
           | Inr ls \<Rightarrow> if list_ex (\<lambda>i. i \<ge> length ls) ids then None else Some (Some ids))
      | (None, Some re) \<Rightarrow> map_option Some (compute_only_files_regex regex_new info re)
      | (None, None) \<Rightarrow> Some None)"

section \<open>The output folder\<close>

text \<open>\<open>Path::file_stem\<close>: the last component, if it is a name, up to its last dot; a dot in front does not count.\<close>

definition stem_of :: "bytes \<Rightarrow> bytes" where
  "stem_of c =
     (if 46 \<notin> set c then c
      else let before = rev (drop 1 (dropWhile (\<lambda>b. b \<noteq> 46) (rev c))) in if before = [] then c else before)"

definition file_stem :: "bytes \<Rightarrow> bytes option" where
  "file_stem p =
     (case rev (path_components p) of [] \<Rightarrow> None | c # _ \<Rightarrow> if c = DOTDOT then None else Some (stem_of c))"

text \<open>\<open>max_by_key\<close> gives the last of the largest.\<close>

fun longest_file :: "(bytes \<times> u64) \<Rightarrow> (bytes \<times> u64) list \<Rightarrow> bytes \<times> u64" where
  "longest_file m [] = m"
| "longest_file m (f # fs) = longest_file (if snd m \<le> snd f then f else m) fs"

fun path_lengths :: "(file_iterator_name \<times> u64) list \<Rightarrow> (bytes \<times> u64) list option" where
  "path_lengths [] = Some []"
| "path_lengths ((f, l) # r) =
     (case to_pathbuf f of Inl _ \<Rightarrow> None | Inr p \<Rightarrow> map_option ((#) (p, l)) (path_lengths r))"

definition get_default_subfolder_for_torrent :: "torrent_info \<Rightarrow> bytes option option" where
  "get_default_subfolder_for_torrent info =
     (case iter_filenames_and_lengths info of
        Inl _ \<Rightarrow> None
      | Inr names \<Rightarrow>
          (case path_lengths names of
             None \<Rightarrow> None
           | Some files \<Rightarrow>
               if length files < 2 then Some None
               else
                 (case ti_name info of
                    Some name \<Rightarrow> if utf8_valid name then Some (Some name) else None
                  | None \<Rightarrow>
                      (case file_stem (fst (longest_file (hd files) (tl files))) of
                         None \<Rightarrow> None
                       | Some longest \<Rightarrow> Some (Some longest)))))"

record peer_opts =
  po_connect_timeout :: "duration option"
  po_read_write_timeout :: "duration option"
  po_keep_alive_interval :: "duration option"

fun or_else :: "'a option \<Rightarrow> 'a option \<Rightarrow> 'a option" where
  "or_else (Some x) _ = Some x"
| "or_else None y = y"

definition merge_peer_opts :: "peer_opts \<Rightarrow> peer_opts option \<Rightarrow> peer_opts" where
  "merge_peer_opts own other =
     (let other = (case other of Some x \<Rightarrow> x | None \<Rightarrow> own) in
      \<lparr>po_connect_timeout = or_else (po_connect_timeout other) (po_connect_timeout own),
       po_read_write_timeout = or_else (po_read_write_timeout other) (po_read_write_timeout own),
       po_keep_alive_interval = or_else (po_keep_alive_interval other) (po_keep_alive_interval own)\<rparr>)"

record add_options =
  ao_paused :: bool
  ao_only_files_regex :: "bytes option"
  ao_only_files :: "nat list option"
  ao_overwrite :: bool
  ao_list_only :: bool
  ao_output_folder :: "bytes option"
  ao_sub_folder :: "bytes option"
  ao_peer_opts :: "peer_opts option"
  ao_force_tracker_interval :: "duration option"
  ao_disable_trackers :: bool
  ao_initial_peers :: "socket_addr list option"
  ao_preferred_id :: "u64 option"

definition default_add_options :: add_options where
  "default_add_options = \<lparr>ao_paused = False, ao_only_files_regex = None, ao_only_files = None, ao_overwrite = False,
     ao_list_only = False, ao_output_folder = None, ao_sub_folder = None, ao_peer_opts = None,
     ao_force_tracker_interval = None, ao_disable_trackers = False, ao_initial_peers = None, ao_preferred_id = None\<rparr>"

definition choose_output_folder :: "bytes \<Rightarrow> torrent_info \<Rightarrow> add_options \<Rightarrow> bytes option" where
  "choose_output_folder own info opts =
     (case (ao_output_folder opts, ao_sub_folder opts) of
        (None, None) \<Rightarrow>
          map_option (\<lambda>sub. path_push own (case sub of Some s \<Rightarrow> s | None \<Rightarrow> [])) (get_default_subfolder_for_torrent info)
      | (Some f, None) \<Rightarrow> Some f
      | (Some _, Some _) \<Rightarrow> None
      | (None, Some s) \<Rightarrow> Some (path_push own s))"

section \<open>The sources of peers\<close>

text \<open>
  A stream of peers is the list of what it reads from: \<open>chain\<close> reads a source to its end before the next.
  The second component of \<open>DhtPeers\<close> is the port that is announced.
\<close>

datatype peer_source =
    DhtPeers bytes "u16 option"
  | TrackerPeers tracker_comms "supported_tracker list"
  | GivenPeers "socket_addr list"

definition merge_two_optional_streams :: "'s list option \<Rightarrow> 's list option \<Rightarrow> 's list option" where
  "merge_two_optional_streams s1 s2 =
     (case (s1, s2) of
        (Some a, None) \<Rightarrow> Some a
      | (None, Some b) \<Rightarrow> Some b
      | (Some a, Some b) \<Rightarrow> Some (a @ b)
      | (None, None) \<Rightarrow> None)"

text \<open>\<open>get_peers\<close> of the DHT does not fail. \<open>own_port\<close> is the port the session listens on.\<close>

definition make_peer_rx ::
  "(bytes \<Rightarrow> url option) \<Rightarrow> bool \<Rightarrow> u16 option \<Rightarrow> bytes \<Rightarrow> bytes \<Rightarrow> bytes list \<Rightarrow> u16 option \<Rightarrow> duration option \<Rightarrow>
    peer_source list option" where
  "make_peer_rx url_parse dht own_port peer_id info_hash trackers announce_port force_tracker_interval =
     (let announce_port = or_else announce_port own_port;
          dht_rx = (if dht then Some [DhtPeers info_hash announce_port] else None);
          comms = \<lparr>tc_info_hash = info_hash, tc_peer_id = peer_id, tc_force_tracker_interval = force_tracker_interval,
                   tc_tcp_listen_port = announce_port\<rparr>;
          peer_rx = map_option (\<lambda>ts. [TrackerPeers comms ts]) (comms_start url_parse trackers) in
      merge_two_optional_streams dht_rx peer_rx)"

section \<open>The metadata of a magnet link\<close>

text \<open>
  What happens while \<open>read_metainfo_from_peer_receiver\<close> waits: an address arrives, the stream of addresses
  ends, or the reading from a peer is over. The semaphore only delays readings.
\<close>

datatype receiver_event = NextAddr socket_addr | AddrsClosed | PeerDone socket_addr "torrent_info option"

datatype metainfo_result = Found torrent_info "socket_addr list" | ChannelClosed "socket_addr list"

definition insert_seen :: "'a \<Rightarrow> 'a list \<Rightarrow> 'a list" where
  "insert_seen a seen = (if a \<in> set seen then seen else seen @ [a])"

text \<open>\<open>unordered\<close> are the readings under way; \<open>None\<close>: nothing has come of it so far.\<close>

fun receiver_loop :: "receiver_event list \<Rightarrow> socket_addr list \<Rightarrow> socket_addr list \<Rightarrow> metainfo_result option" where
  "receiver_loop [] seen unordered = None"
| "receiver_loop (NextAddr addr # es) seen unordered =
     (if addr \<in> set seen then receiver_loop es seen unordered
      else receiver_loop es (insert_seen addr seen) (unordered @ [addr]))"
| "receiver_loop (AddrsClosed # es) seen unordered = Some (ChannelClosed seen)"
| "receiver_loop (PeerDone addr r # es) seen unordered =
     (if addr \<notin> set unordered then receiver_loop es seen unordered
      else case r of
        Some info \<Rightarrow> Some (Found info seen)
      | None \<Rightarrow> receiver_loop es seen (remove1 addr unordered))"

definition read_metainfo_from_peer_receiver ::
  "socket_addr list \<Rightarrow> receiver_event list \<Rightarrow> metainfo_result option" where
  "read_metainfo_from_peer_receiver initial_addrs es =
     receiver_loop es (fold insert_seen initial_addrs []) initial_addrs"

section \<open>What is added\<close>

datatype add_torrent_arg = AddUrl bytes | AddFileBytes bytes | AddInfo torrent_meta

definition SUPPORTED_SCHEMES :: "bytes list" where
  "SUPPORTED_SCHEMES = [ascii ''http:'', ascii ''https:'', ascii ''magnet:'']"

definition from_cli_argument :: "(bytes \<Rightarrow> bytes option) \<Rightarrow> bytes \<Rightarrow> add_torrent_arg option" where
  "from_cli_argument read_file path =
     (if list_ex (\<lambda>s. prefix s path) SUPPORTED_SCHEMES then Some (AddUrl path)
      else map_option AddFileBytes (read_file path))"

record add_env =
  ae_url_parse :: "bytes \<Rightarrow> url option"
  ae_query_pairs :: "url \<Rightarrow> (bytes \<times> bytes) list"
  ae_hex_decode :: "string \<Rightarrow> bytes option"
  ae_regex_new :: "bytes \<Rightarrow> (bytes \<Rightarrow> bool) option"
  ae_sha1 :: "bytes \<Rightarrow> bytes"
  ae_http_get :: "bytes \<Rightarrow> bytes option"
  ae_events :: "receiver_event list"

text \<open>\<open>Itertools::unique\<close> keeps the first of equal elements.\<close>

definition unique :: "'a list \<Rightarrow> 'a list" where
  "unique xs = rev (remdups (rev xs))"

definition torrent_of_bytes :: "(bytes \<Rightarrow> bytes) \<Rightarrow> bytes \<Rightarrow> torrent_meta run" where
  "torrent_of_bytes sha1 b =
     (case torrent_from_bytes sha1 b of Inl (TorrentDe DePanic) \<Rightarrow> Panics | Inl _ \<Rightarrow> Fails | Inr t \<Rightarrow> Done t)"

text \<open>\<open>ae_http_get\<close> is the body of a response with a status of success.\<close>

definition torrent_from_url :: "add_env \<Rightarrow> bytes \<Rightarrow> torrent_meta run" where
  "torrent_from_url e u =
     (case ae_http_get e u of None \<Rightarrow> Fails | Some b \<Rightarrow> torrent_of_bytes (ae_sha1 e) b)"

record resolved =
  rs_info_hash :: bytes
  rs_info :: torrent_info
  rs_trackers :: "bytes list"
  rs_peer_rx :: "peer_source list option"
  rs_initial_peers :: "socket_addr list"

definition initial_peers_of :: "add_options \<Rightarrow> socket_addr list" where
  "initial_peers_of opts = (case ao_initial_peers opts of Some ps \<Rightarrow> ps | None \<Rightarrow> [])"

text \<open>They are collected into a set, whose order no result depends on.\<close>

definition initial_peer_set :: "add_options \<Rightarrow> socket_addr list" where
  "initial_peer_set opts = fold insert_seen (initial_peers_of opts) []"

text \<open>A magnet link: its metadata is read from peers first.\<close>

definition resolve_magnet :: "add_env \<Rightarrow> bool \<Rightarrow> u16 option \<Rightarrow> bytes \<Rightarrow> bytes \<Rightarrow> add_options \<Rightarrow> resolved run" where
  "resolve_magnet e dht own_port peer_id u opts =
     (let paused = ao_list_only opts \<or> ao_paused opts;
          announce_port = (if paused then None else own_port) in
      case magnet_parse (ae_url_parse e) (ae_query_pairs e) (ae_hex_decode e) u of
        None \<Rightarrow> Fails
      | Some m \<Rightarrow>
          (case mg_id20 m of
             None \<Rightarrow> Fails
           | Some info_hash \<Rightarrow>
               (case make_peer_rx (ae_url_parse e) dht own_port peer_id info_hash (mg_trackers m) announce_port
                   (ao_force_tracker_interval opts) of
                  None \<Rightarrow> Fails
                | Some peer_rx \<Rightarrow>
                    (case read_metainfo_from_peer_receiver (initial_peers_of opts) (ae_events e) of
                       None \<Rightarrow> Diverges
                     | Some (ChannelClosed _) \<Rightarrow> Fails
                     | Some (Found info seen) \<Rightarrow>
                         Done \<lparr>rs_info_hash = info_hash, rs_info = info, rs_trackers = unique (mg_trackers m),
                           rs_peer_rx = Some peer_rx, rs_initial_peers = seen\<rparr>))))"

definition resolve_torrent :: "add_env \<Rightarrow> bool \<Rightarrow> u16 option \<Rightarrow> bytes \<Rightarrow> torrent_meta \<Rightarrow> add_options \<Rightarrow> resolved" where
  "resolve_torrent e dht own_port peer_id torrent opts =
     (let paused = ao_list_only opts \<or> ao_paused opts;
          announce_port = (if paused then None else own_port);
          trackers = filter utf8_valid (unique (iter_announce torrent));
          peer_rx = (if paused then None
            else make_peer_rx (ae_url_parse e) dht own_port peer_id (tm_info_hash torrent) trackers announce_port
              (ao_force_tracker_interval opts)) in
      \<lparr>rs_info_hash = tm_info_hash torrent, rs_info = tm_info torrent, rs_trackers = trackers, rs_peer_rx = peer_rx,
       rs_initial_peers = initial_peer_set opts\<rparr>)"

definition resolve_add :: "add_env \<Rightarrow> bool \<Rightarrow> u16 option \<Rightarrow> bytes \<Rightarrow> add_torrent_arg \<Rightarrow> add_options \<Rightarrow> resolved run" where
  "resolve_add e dht own_port peer_id add opts =
     (case add of
        AddUrl u \<Rightarrow>
          if prefix (ascii ''magnet:'') u then resolve_magnet e dht own_port peer_id u opts
          else if prefix (ascii ''http://'') u \<or> prefix (ascii ''https://'') u then
            bind_run (torrent_from_url e u) (\<lambda>t. Done (resolve_torrent e dht own_port peer_id t opts))
          else Fails
      | AddFileBytes b \<Rightarrow>
          bind_run (torrent_of_bytes (ae_sha1 e) b) (\<lambda>t. Done (resolve_torrent e dht own_port peer_id t opts))
      | AddInfo t \<Rightarrow> Done (resolve_torrent e dht own_port peer_id t opts))"

section \<open>Which files\<close>

lemma regex_loop_files:
  "regex_loop is_match i names acc = Some r \<Longrightarrow>
   \<exists>ps. map (to_pathbuf \<circ> fst) names = map Inr ps \<and> r = acc @ map (\<lambda>k. i + k) (filter (\<lambda>k. is_match (ps ! k)) [0..<length ps])"
proof (induction names arbitrary: i acc)
  case (Cons n names)
  obtain f l where n: "n = (f, l)" by (cases n)
  obtain p where p: "to_pathbuf f = Inr p"
    and rest: "regex_loop is_match (i + 1) names (if is_match p then acc @ [i] else acc) = Some r"
    using Cons.prems by (auto simp: n split: sum.splits)
  obtain ps where ps: "map (to_pathbuf \<circ> fst) names = map Inr ps"
    "r = (if is_match p then acc @ [i] else acc) @ map (\<lambda>k. i + 1 + k) (filter (\<lambda>k. is_match (ps ! k)) [0..<length ps])"
    using Cons.IH [OF rest] by blast
  have "filter (\<lambda>k. is_match ((p # ps) ! k)) [0..<length (p # ps)] =
      (if is_match p then [0] else []) @ map Suc (filter (\<lambda>k. is_match (ps ! k)) [0..<length ps])"
    by (simp add: upt_conv_Cons filter_map comp_def del: upt_Suc flip: map_Suc_upt)
  then show ?case using ps p n by (intro exI [of _ "p # ps"]) (simp add: comp_def del: upt_Suc)
qed simp

text \<open>
  The files that are asked for are the ones that are downloaded. A list of files is accepted exactly
  when all of them exist; a regular expression selects exactly the files whose path it matches, and must
  match one; both together are refused, and neither selects no subset.
\<close>

theorem only_files_selected:
  assumes "iter_filenames_and_lengths info = Inr names" "map (to_pathbuf \<circ> fst) names = map Inr ps"
  shows "compute_only_files regex_new info (Some ids) None =
      (if filter (\<lambda>i. i \<ge> length names) ids = [] then Some (Some ids) else None) \<and>
    (regex_new re = Some is_match \<longrightarrow>
      compute_only_files regex_new info None (Some re) =
        (let sel = filter (\<lambda>k. is_match (ps ! k)) [0..<length ps] in if sel = [] then None else Some (Some sel))) \<and>
    compute_only_files regex_new info (Some ids) (Some re) = None \<and>
    compute_only_files regex_new info None None = Some None"
proof -
  have "iter_file_lengths info = Inr (map snd names)" by (simp add: iter_file_lengths_def assms(1))
  moreover have "regex_loop is_match 0 names [] = Some (filter (\<lambda>k. is_match (ps ! k)) [0..<length ps])" for is_match
  proof -
    have "regex_loop is_match i names acc \<noteq> None" for i acc
      using assms(2)
    proof (induction names arbitrary: i acc ps)
      case (Cons n names)
      obtain f l where n: "n = (f, l)" by (cases n)
      obtain p qs where "ps = p # qs" "to_pathbuf f = Inr p" using Cons.prems by (cases ps) (auto simp: n)
      then show ?case using Cons by (auto simp: n)
    qed simp
    then obtain r where r: "regex_loop is_match 0 names [] = Some r" by blast
    from regex_loop_files [OF this] assms(2) show ?thesis by (auto simp: r inj_map_eq_map inj_def)
  qed
  ultimately show ?thesis
    by (simp add: compute_only_files_def compute_only_files_regex_def assms(1) list_ex_iff filter_empty_conv Let_def)
qed

theorem only_files_selected_witness:
  "compute_only_files (\<lambda>re. Some (\<lambda>p. p = re)) (tm_info sample_torrent) None (Some (ascii ''d/f'')) = Some (Some [0])"
proof -
  have 1: "iter_filenames_and_lengths (tm_info sample_torrent) = Inr [(TreeName [ascii ''d'', ascii ''f''], 5)]"
    by (simp add: iter_filenames_and_lengths_def sample_torrent_def)
  have 2: "map (to_pathbuf \<circ> fst) [(TreeName [ascii ''d'', ascii ''f''], 5 :: u64)] = map Inr [ascii ''d/f'']" by code_simp
  show ?thesis
    using only_files_selected [OF 1 2, of "\<lambda>re. Some (\<lambda>p. p = re)" _ "ascii ''d/f''" "\<lambda>p. p = ascii ''d/f''"] by (simp add: Let_def)
qed

section \<open>Where they go\<close>

lemma path_components_rooted: "path_components (SEPARATOR # p) = path_components p"
  by (simp add: path_components_def)

text \<open>
  C16: The name of a torrent is used as a path unchecked. A torrent of several files without folder options
  goes to the session's folder with the torrent's name pushed on it: a name that starts with a separator
  is the folder itself, wherever the session's folder is, and a name that starts with two dots leaves it.
\<close>

theorem torrent_name_escapes:
  assumes "iter_filenames_and_lengths info = Inr names" "path_lengths names \<noteq> None" "2 \<le> length names"
    and "ti_name info = Some name" "utf8_valid name" "ao_output_folder opts = None" "ao_sub_folder opts = None"
  shows "(name = SEPARATOR # r \<longrightarrow> choose_output_folder own info opts = Some name) \<and>
    (name = DOTDOT @ SEPARATOR # r \<longrightarrow> (\<exists>out. choose_output_folder own info opts = Some out \<and>
       path_components out = path_components own @ DOTDOT # path_components r))"
proof -
  have len: "path_lengths ns = Some fs \<Longrightarrow> length fs = length ns" for ns fs
    by (induction ns arbitrary: fs) (auto split: sum.splits)
  have "get_default_subfolder_for_torrent info = Some (Some name)"
    using assms len by (auto simp: get_default_subfolder_for_torrent_def)
  then have out: "choose_output_folder own info opts = Some (path_push own name)"
    using assms(6,7) by (simp add: choose_output_folder_def)
  have "path_components (path_push own name) = path_components own @ DOTDOT # path_components r" if n: "name = DOTDOT @ SEPARATOR # r"
  proof -
    have "name = [] \<or> hd name \<noteq> SEPARATOR" using n by (simp add: DOTDOT_def SEPARATOR_def)
    then have "path_components (path_push own name) = path_components own @ path_components name"
      by (rule path_components_push)
    moreover have "path_components name = DOTDOT # path_components r"
      by (simp add: n path_components_def DOTDOT_def SEPARATOR_def)
    ultimately show ?thesis by simp
  qed
  moreover have "path_push own name = name" if "name = SEPARATOR # r" using that by (simp add: path_push_def)
  ultimately show ?thesis using out by simp
qed

definition escaping_info :: torrent_info where
  "escaping_info = \<lparr>ti_name = Some (ascii ''/etc''), ti_pieces = replicate 20 0, ti_piece_length = 16384, ti_length = None,
     ti_md5sum = None, ti_files = Some [\<lparr>tf_length = 1, tf_path = [ascii ''passwd'']\<rparr>, \<lparr>tf_length = 1, tf_path = [ascii ''b'']\<rparr>]\<rparr>"

theorem torrent_name_escapes_witness:
  "choose_output_folder (ascii ''/home/me/torrents'') escaping_info default_add_options = Some (ascii ''/etc'')"
proof -
  have 1: "iter_filenames_and_lengths escaping_info = Inr [(TreeName [ascii ''passwd''], 1), (TreeName [ascii ''b''], 1)]"
    by (simp add: iter_filenames_and_lengths_def escaping_info_def)
  have 2: "path_lengths [(TreeName [ascii ''passwd''], 1), (TreeName [ascii ''b''], 1)] \<noteq> None" by code_simp
  show ?thesis
    using torrent_name_escapes [OF 1 2, of "ascii ''/etc''" default_add_options "ascii ''etc''" "ascii ''/home/me/torrents''"]
    by (simp add: escaping_info_def default_add_options_def SEPARATOR_def)
qed

section \<open>The sources of peers\<close>

text \<open>With a DHT the trackers come after its stream, which does not end while the session lives.\<close>

lemma trackers_wait_for_dht:
  "make_peer_rx url_parse True own_port peer_id ih trackers port force = Some rx \<Longrightarrow>
   hd rx = DhtPeers ih (or_else port own_port) \<and> (\<forall>s \<in> set (tl rx). \<exists>c ts. s = TrackerPeers c ts)"
  by (auto simp: make_peer_rx_def Let_def merge_two_optional_streams_def split: option.splits)

text \<open>No port to announce is no different from the port of the session.\<close>

lemma announce_port_is_put_back:
  "make_peer_rx url_parse dht own_port peer_id ih trackers None force =
   make_peer_rx url_parse dht own_port peer_id ih trackers own_port force"
  by (cases own_port) (simp_all add: make_peer_rx_def)

section \<open>The metadata of a magnet link\<close>

lemma set_insert_seen [simp]: "set (insert_seen a xs) = insert a (set xs)"
  by (auto simp: insert_seen_def)

lemma distinct_insert_seen: "distinct xs \<Longrightarrow> distinct (insert_seen a xs)"
  by (auto simp: insert_seen_def)

lemma fold_insert_seen: "set (fold insert_seen as xs) = set as \<union> set xs" "distinct xs \<Longrightarrow> distinct (fold insert_seen as xs)"
  by (induction as arbitrary: xs) (auto simp: distinct_insert_seen)

lemma receiver_loop_found:
  "receiver_loop es seen unordered = Some (Found info seen') \<Longrightarrow> set unordered \<subseteq> set seen \<Longrightarrow> distinct seen \<Longrightarrow>
   distinct seen' \<and> set seen \<subseteq> set seen' \<and> set seen' \<subseteq> set seen \<union> {a. NextAddr a \<in> set es} \<and>
   (\<exists>a \<in> set seen'. PeerDone a (Some info) \<in> set es)"
proof (induction es seen unordered rule: receiver_loop.induct)
  case (2 addr es seen unordered)
  show ?case
  proof (cases "addr \<in> set seen")
    case True
    then show ?thesis using 2 by auto
  next
    case False
    then show ?thesis using 2 distinct_insert_seen by fastforce
  qed
next
  case (4 addr r es seen unordered)
  have "set (remove1 addr unordered) \<subseteq> set seen" using "4.prems"(2) set_remove1_subset by fastforce
  then show ?case using 4 by (auto split: if_splits option.splits)
qed auto

end
