(* ===== verification/Session.thy ===== *)
theory Session
  imports AddTorrent "HOL-Library.AList"
begin

text \<open>
  Model of the session of \<open>session.rs\<close>: its database of managed torrents and every operation on it. A handle
  to a torrent is shared in the source; here the torrents live in the database and are named by their ids.
  The hash map of the database is an association list, whose order stands for the iteration order of the
  map; no result below depends on it. The file system and the peers are arguments, as in the components
  the session drives.
\<close>

section \<open>The database\<close>

type_synonym torrent_id = u64

record 'b handle =
  hd_info_hash :: bytes
  hd_trackers :: "bytes list"
  hd_peer_id :: bytes
  hd_force_tracker_interval :: "duration option"
  hd_peer_connect_timeout :: "duration option"
  hd_peer_read_write_timeout :: "duration option"
  hd_torrent :: "'b managed"

record 'b session_db =
  db_next_id :: torrent_id
  db_torrents :: "(torrent_id \<times> 'b handle) list"

definition empty_db :: "'b session_db" where
  "empty_db = \<lparr>db_next_id = 0, db_torrents = []\<rparr>"

definition db_insert_next :: "'b handle \<Rightarrow> 'b session_db \<Rightarrow> torrent_id \<times> 'b session_db" where
  "db_insert_next torrent db =
     (db_next_id db, db\<lparr>db_torrents := AList.update (db_next_id db) torrent (db_torrents db), db_next_id := db_next_id db + 1\<rparr>)"

definition db_add_torrent :: "'b handle \<Rightarrow> torrent_id option \<Rightarrow> 'b session_db \<Rightarrow> torrent_id \<times> 'b session_db" where
  "db_add_torrent torrent preferred_id db =
     (case preferred_id of
        Some i \<Rightarrow>
          if map_of (db_torrents db) i \<noteq> None then db_insert_next torrent db
          else (i, db\<lparr>db_torrents := AList.update i torrent (db_torrents db), db_next_id := max i (db_next_id db) + 1\<rparr>)
      | None \<Rightarrow> db_insert_next torrent db)"

definition find_torrent :: "bytes \<Rightarrow> (torrent_id \<times> 'b handle) list \<Rightarrow> (torrent_id \<times> 'b handle) option" where
  "find_torrent info_hash ts = find (\<lambda>(i, h). hd_info_hash h = info_hash) ts"

definition set_torrent :: "torrent_id \<Rightarrow> 'b managed \<Rightarrow> 'b session_db \<Rightarrow> 'b session_db" where
  "set_torrent i m db = db\<lparr>db_torrents := map (\<lambda>(j, h). (j, if j = i then h\<lparr>hd_torrent := m\<rparr> else h)) (db_torrents db)\<rparr>"

section \<open>The session\<close>

record 'b session =
  se_peer_id :: bytes
  se_dht :: bool
  se_peer_opts :: peer_opts
  se_db :: "'b session_db"
  se_output_folder :: bytes
  se_tcp_listen_port :: "u16 option"
  se_cancelled :: bool

record list_only =
  lo_info_hash :: bytes
  lo_info :: torrent_info
  lo_only_files :: "nat list option"
  lo_output_folder :: bytes
  lo_seen_peers :: "socket_addr list"

text \<open>An added torrent comes with the peers it was started with.\<close>

datatype add_response = AlreadyManaged torrent_id | ListOnly list_only | Added torrent_id "peer_source list option"

text \<open>The builder's calls and \<open>build\<close>.\<close>

definition build_handle ::
  "'b session \<Rightarrow> resolved \<Rightarrow> bytes \<Rightarrow> nat list option \<Rightarrow> add_options \<Rightarrow> 'b handle option" where
  "build_handle se rs out only_files opts =
     (let peer_opts = merge_peer_opts (se_peer_opts se) (ao_peer_opts opts) in
      map_option (\<lambda>m. \<lparr>hd_info_hash = rs_info_hash rs, hd_trackers = remdups (rs_trackers rs), hd_peer_id = se_peer_id se,
          hd_force_tracker_interval = ao_force_tracker_interval opts,
          hd_peer_connect_timeout = po_connect_timeout peer_opts,
          hd_peer_read_write_timeout = po_read_write_timeout peer_opts, hd_torrent = m\<rparr>)
        (build (rs_info rs) out (ao_overwrite opts) only_files))"

definition main_torrent_info ::
  "(bytes \<Rightarrow> (bytes \<Rightarrow> bool) option) \<Rightarrow> resolved \<Rightarrow> add_options \<Rightarrow> 'b session \<Rightarrow> (add_response \<times> 'b session) run" where
  "main_torrent_info regex_new rs opts se =
     (case compute_only_files regex_new (rs_info rs) (ao_only_files opts) (ao_only_files_regex opts) of
        None \<Rightarrow> Fails
      | Some only_files \<Rightarrow>
          (case choose_output_folder (se_output_folder se) (rs_info rs) opts of
             None \<Rightarrow> Fails
           | Some out \<Rightarrow>
               if ao_list_only opts then
                 Done (ListOnly \<lparr>lo_info_hash = rs_info_hash rs, lo_info = rs_info rs, lo_only_files = only_files,
                   lo_output_folder = out, lo_seen_peers = rs_initial_peers rs\<rparr>, se)
               else
                 (case find_torrent (rs_info_hash rs) (db_torrents (se_db se)) of
                    Some (i, _) \<Rightarrow> Done (AlreadyManaged i, se)
                  | None \<Rightarrow>
                      (case build_handle se rs out only_files opts of
                         None \<Rightarrow> Fails
                       | Some h \<Rightarrow>
                           let (i, db) = db_add_torrent h (ao_preferred_id opts) (se_db se);
                               peer_rx = merge_two_optional_streams
                                 (if rs_initial_peers rs \<noteq> [] then Some [GivenPeers (rs_initial_peers rs)] else None)
                                 (rs_peer_rx rs);
                               (ok, m) = managed_start (ao_paused opts) (hd_torrent h) in
                           if ok then Done (Added i peer_rx, se\<lparr>se_db := set_torrent i m db\<rparr>) else Fails))))"

definition session_add_torrent ::
  "add_env \<Rightarrow> add_torrent_arg \<Rightarrow> add_options \<Rightarrow> 'b session \<Rightarrow> (add_response \<times> 'b session) run" where
  "session_add_torrent e add opts se =
     bind_run (resolve_add e (se_dht se) (se_tcp_listen_port se) (se_peer_id se) add opts) (\<lambda>rs.
       main_torrent_info (ae_regex_new e) rs opts se)"

definition session_get :: "torrent_id \<Rightarrow> 'b session \<Rightarrow> 'b handle option" where
  "session_get i se = map_of (db_torrents (se_db se)) i"

text \<open>The files of a torrent, as \<open>initializing.rs\<close> has opened them.\<close>

definition torrent_filenames :: "'b managed \<Rightarrow> bytes list" where
  "torrent_filenames m =
     (case iter_filenames_and_lengths (mi_info (mt_info m)) of
        Inl _ \<Rightarrow> []
      | Inr names \<Rightarrow> List.map_filter (\<lambda>(n, _). case to_pathbuf n of Inl _ \<Rightarrow> None
          | Inr p \<Rightarrow> Some (path_push (mi_out_dir (mt_info m)) p)) names)"

text \<open>
  The state is taken out of the removed torrent: \<open>Some (Some _)\<close> when it is, or can be, paused, \<open>Some None\<close> when
  it is neither paused nor live, \<open>None\<close> when pausing fails.
\<close>

definition take_paused :: "(nat \<Rightarrow> bool) \<Rightarrow> 'b managed \<Rightarrow> paused option option run" where
  "take_paused opens m =
     (case mt_state m of
        MPaused p \<Rightarrow> Done (Some (Some p))
      | MLive s \<Rightarrow> bind_run (pause opens (sw_torrent s)) (\<lambda>(r, _). Done (map_option Some r))
      | _ \<Rightarrow> Done (Some None))"

text \<open>
  \<open>opens\<close>: \<open>/dev/null\<close> opens for the file, \<open>removable\<close>: the operating system removes the file. The result is whether
  the call succeeds, and the files.
\<close>

definition session_delete ::
  "(nat \<Rightarrow> bool) \<Rightarrow> (bytes \<Rightarrow> bool) \<Rightarrow> torrent_id \<Rightarrow> bool \<Rightarrow> file_system \<Rightarrow> 'b session \<Rightarrow> (bool \<times> file_system \<times> 'b session) run" where
  "session_delete opens removable i delete_files fs se =
     (case map_of (db_torrents (se_db se)) i of
        None \<Rightarrow> Done (False, fs, se)
      | Some removed \<Rightarrow>
          let se = se\<lparr>se_db := (se_db se)\<lparr>db_torrents := AList.delete i (db_torrents (se_db se))\<rparr>\<rparr> in
          bind_run (take_paused opens (hd_torrent removed)) (\<lambda>paused.
            case (paused, delete_files) of
              (None, True) \<Rightarrow> Done (False, fs, se)
            | (Some (Some p), True) \<Rightarrow>
                Done (True, fs |` (- {f. f \<in> set (torrent_filenames (hd_torrent removed)) \<and> removable f}), se)
            | _ \<Rightarrow> Done (True, fs, se)))"

definition session_unpause :: "(bytes \<Rightarrow> url option) \<Rightarrow> torrent_id \<Rightarrow> 'b session \<Rightarrow> (peer_source list option \<times> 'b session) run" where
  "session_unpause url_parse i se =
     (case session_get i se of
        None \<Rightarrow> Fails
      | Some h \<Rightarrow>
          let peer_rx = make_peer_rx url_parse (se_dht se) (se_tcp_listen_port se) (se_peer_id se) (hd_info_hash h)
                (hd_trackers h) (se_tcp_listen_port se) (hd_force_tracker_interval h);
              (ok, m) = managed_start False (hd_torrent h) in
          if ok then Done (peer_rx, se\<lparr>se_db := set_torrent i m (se_db se)\<rparr>) else Fails)"

text \<open>\<open>stop\<close> pauses every torrent, whether it can be or not.\<close>

fun pause_each :: "(torrent_id \<Rightarrow> nat \<Rightarrow> bool) \<Rightarrow> (torrent_id \<times> 'b handle) list \<Rightarrow> (torrent_id \<times> 'b handle) list run" where
  "pause_each opens [] = Done []"
| "pause_each opens ((i, h) # ts) =
     bind_run (managed_pause (opens i) (hd_torrent h)) (\<lambda>(_, m).
     bind_run (pause_each opens ts) (\<lambda>ts. Done ((i, h\<lparr>hd_torrent := m\<rparr>) # ts)))"

definition session_stop :: "(torrent_id \<Rightarrow> nat \<Rightarrow> bool) \<Rightarrow> 'b session \<Rightarrow> 'b session run" where
  "session_stop opens se =
     bind_run (pause_each opens (db_torrents (se_db se))) (\<lambda>ts.
       Done (se\<lparr>se_db := (se_db se)\<lparr>db_torrents := ts\<rparr>, se_cancelled := True\<rparr>))"

section \<open>Incoming connections and statistics\<close>

text \<open>\<open>check_incoming_connection\<close>, once a handshake is read: the torrent that gets the connection.\<close>

definition check_incoming_connection :: "handshake \<Rightarrow> 'b session \<Rightarrow> torrent_id option" where
  "check_incoming_connection h se =
     (if h_peer_id h = se_peer_id se then None
      else case find_torrent (h_info_hash h) (db_torrents (se_db se)) of
        None \<Rightarrow> None
      | Some (i, torrent) \<Rightarrow> (case mt_state (hd_torrent torrent) of MLive _ \<Rightarrow> Some i | _ \<Rightarrow> None))"

text \<open>One connection of \<open>task_tcp_listener\<close>: read the handshake, find the torrent, hand the peer over.\<close>

definition accept_connection ::
  "(bytes \<Rightarrow> handshake option) \<Rightarrow> 'b live_env \<Rightarrow> socket_addr \<Rightarrow> net_event list \<Rightarrow> 'b session \<Rightarrow>
    (torrent_id \<times> (bool + peer_handler_state)) option \<times> 'b session" where
  "accept_connection hdec le addr net se =
     (case fst (read_handshake hdec read_buf_new net) of
        Inl _ \<Rightarrow> (None, se)
      | Inr h \<Rightarrow>
          (case check_incoming_connection h se of
             None \<Rightarrow> (None, se)
           | Some i \<Rightarrow>
               (case map_option (\<lambda>t. mt_state (hd_torrent t)) (session_get i se) of
                  Some (MLive s) \<Rightarrow>
                    let (r, st) = add_incoming_peer le addr (h_peer_id h) (sw_torrent s) in
                    (Some (i, r), se\<lparr>se_db := set_torrent i
                       ((hd_torrent (the (session_get i se)))\<lparr>mt_state := MLive (s\<lparr>sw_torrent := st\<rparr>)\<rparr>) (se_db se)\<rparr>)
                | _ \<Rightarrow> (None, se))))"

text \<open>The first port of the range that can be bound.\<close>

definition create_tcp_listener :: "(u16 \<Rightarrow> bool) \<Rightarrow> u16 list \<Rightarrow> u16 option" where
  "create_tcp_listener bindable port_range = find bindable port_range"

text \<open>\<open>PeerRxTorrentInfo::get\<close>: what the trackers are told of a torrent.\<close>

definition session_tracker_stats :: "(torrent_id \<Rightarrow> u64) \<Rightarrow> bytes \<Rightarrow> 'b session \<Rightarrow> comms_stats" where
  "session_tracker_stats checked_bytes info_hash se =
     (case find_torrent info_hash (db_torrents (se_db se)) of
        None \<Rightarrow> default_comms_stats
      | Some (i, mt) \<Rightarrow>
          let stats = managed_stats (checked_bytes i) (hd_torrent mt) in
          \<lparr>cs_uploaded_bytes = ts_uploaded_bytes stats, cs_downloaded_bytes = ts_progress_bytes stats,
           cs_total_bytes = ts_total_bytes stats,
           cs_torrent_state = (case ts_state stats of StInitializing \<Rightarrow> CsInitializing | StLive \<Rightarrow> CsLive
             | StPaused \<Rightarrow> CsPaused | StError \<Rightarrow> CsNone)\<rparr>)"

section \<open>The life of a session\<close>

text \<open>The calls of a session, and the steps of its torrents; a pause of one torrent is a step of that torrent.\<close>

inductive session_step :: "'b session \<Rightarrow> 'b session \<Rightarrow> bool" for se where
  adds: "session_add_torrent e add opts se = Done (r, se') \<Longrightarrow> session_step se se'"
| deletes: "session_delete opens removable i delete_files fs se = Done (ok, fs', se') \<Longrightarrow> session_step se se'"
| unpauses: "session_unpause url_parse i se = Done (rx, se') \<Longrightarrow> session_step se se'"
| stops: "session_stop opens se = Done se' \<Longrightarrow> session_step se se'"
| torrent: "session_get i se = Some h \<Longrightarrow> managed_step (hd_torrent h) m \<Longrightarrow>
    session_step se (se\<lparr>se_db := set_torrent i m (se_db se)\<rparr>)"

inductive session_reach :: "'b session \<Rightarrow> 'b session \<Rightarrow> bool" for se0 where
  opened: "session_reach se0 se0"
| step: "session_reach se0 se \<Longrightarrow> session_step se se' \<Longrightarrow> session_reach se0 se'"

section \<open>What holds of every session\<close>

abbreviation ids_of :: "'b session \<Rightarrow> torrent_id list" where
  "ids_of se \<equiv> map fst (db_torrents (se_db se))"

abbreviation hashes_of :: "(torrent_id \<times> 'b handle) list \<Rightarrow> bytes list" where
  "hashes_of ts \<equiv> map (\<lambda>(i, h). hd_info_hash h) ts"

definition torrent_ok :: "'b managed \<Rightarrow> bool" where
  "torrent_ok m \<longleftrightarrow> mt_state m \<noteq> MNone \<and> (geometry_ok (mi_lengths (mt_info m)) \<longrightarrow> managed_ok m)"

definition torrents_ok :: "(torrent_id \<times> 'b handle) list \<Rightarrow> bool" where
  "torrents_ok ts \<longleftrightarrow> distinct (map fst ts) \<and> distinct (hashes_of ts) \<and> (\<forall>(i, h) \<in> set ts. torrent_ok (hd_torrent h))"

lemma find_torrent_None: "find_torrent ih ts = None \<longleftrightarrow> ih \<notin> set (hashes_of ts)"
  by (auto simp: find_torrent_def find_None_iff)

lemma find_torrent_Some: "find_torrent ih ts = Some (i, h) \<Longrightarrow> (i, h) \<in> set ts \<and> hd_info_hash h = ih"
  by (auto simp: find_torrent_def find_Some_iff) (metis nth_mem)

lemma find_torrent_unique:
  assumes "(i, h) \<in> set ts" "distinct (hashes_of ts)"
  shows "find_torrent (hd_info_hash h) ts = Some (i, h)"
proof -
  obtain j g where j: "find_torrent (hd_info_hash h) ts = Some (j, g)"
    using assms(1) find_torrent_None [of "hd_info_hash h" ts] by (cases "find_torrent (hd_info_hash h) ts") force+
  then have "(j, g) \<in> set ts" "hd_info_hash g = hd_info_hash h" using find_torrent_Some by blast+
  then have "(j, g) = (i, h)" using assms by (auto simp: distinct_map inj_on_def)
  then show ?thesis using j by simp
qed

lemma update_hash_set: "set (hashes_of (AList.update i h ts)) \<subseteq> insert (hd_info_hash h) (set (hashes_of ts))"
  by (induction ts) auto

lemma update_hashes:
  "distinct (hashes_of ts) \<Longrightarrow> hd_info_hash h \<notin> set (hashes_of ts) \<Longrightarrow> distinct (hashes_of (AList.update i h ts))"
proof (induction ts)
  case (Cons t ts)
  obtain j g where t: "t = (j, g)" by (cases t)
  have "hd_info_hash g \<notin> set (hashes_of (AList.update i h ts))"
  proof
    assume "hd_info_hash g \<in> set (hashes_of (AList.update i h ts))"
    then have "hd_info_hash g \<in> insert (hd_info_hash h) (set (hashes_of ts))" using update_hash_set by (rule subsetD [rotated])
    then show False using Cons.prems by (auto simp: t)
  qed
  then show ?case using Cons by (simp add: t)
qed simp

lemma update_members: "(j, g) \<in> set (AList.update i h ts) \<Longrightarrow> (j, g) = (i, h) \<or> (j, g) \<in> set ts"
  by (induction ts) (auto split: if_splits)

lemma torrents_ok_update:
  "torrents_ok ts \<Longrightarrow> hd_info_hash h \<notin> set (hashes_of ts) \<Longrightarrow> torrent_ok (hd_torrent h) \<Longrightarrow> torrents_ok (AList.update i h ts)"
  using update_hashes [of ts h i] update_members [of _ _ i h ts]
  by (fastforce simp: torrents_ok_def distinct_update)

lemma torrents_ok_delete: "torrents_ok ts \<Longrightarrow> torrents_ok (AList.delete i ts)"
  by (auto simp: torrents_ok_def AList.delete_eq distinct_map_filter)

lemma db_torrents_set [simp]:
  "db_torrents (set_torrent i m db) = map (\<lambda>(j, h). (j, if j = i then h\<lparr>hd_torrent := m\<rparr> else h)) (db_torrents db)"
  by (simp add: set_torrent_def)

lemma torrents_ok_set:
  assumes "torrents_ok (db_torrents db)" "torrent_ok m"
  shows "torrents_ok (db_torrents (set_torrent i m db))"
proof -
  have eq: "map fst (db_torrents (set_torrent i m db)) = map fst (db_torrents db)"
    "hashes_of (db_torrents (set_torrent i m db)) = hashes_of (db_torrents db)"
    by (auto simp: comp_def case_prod_unfold)
  have "torrent_ok (hd_torrent h)" if "(j, h) \<in> set (db_torrents (set_torrent i m db))" for j h
    using that assms by (auto simp: torrents_ok_def split: if_splits)
  then show ?thesis using assms unfolding torrents_ok_def eq by blast
qed

lemma db_add_ok:
  assumes "torrents_ok (db_torrents db)" "hd_info_hash h \<notin> set (hashes_of (db_torrents db))" "torrent_ok (hd_torrent h)"
  shows "torrents_ok (db_torrents (snd (db_add_torrent h pref db)))"
  using torrents_ok_update [OF assms] by (auto simp: db_add_torrent_def db_insert_next_def split: option.splits)

lemma torrent_step_ok: "managed_step m m' \<Longrightarrow> torrent_ok m \<Longrightarrow> geometry_ok (mi_lengths (mt_info m)) \<Longrightarrow> torrent_ok m'"
  using managed_step_ok [of m m'] managed_step_proper [of m m'] by (simp add: torrent_ok_def)

lemma managed_step_info: "managed_step m m' \<Longrightarrow> mt_info m' = mt_info m"
  by (induction rule: managed_step.induct)
    (auto simp: managed_start_def managed_pause_def init_done_def init_failed_def stop_with_error_def
      split: managed_state.splits option.splits)

lemma torrent_ok_step: "managed_step m m' \<Longrightarrow> torrent_ok m \<Longrightarrow> torrent_ok m'"
  using torrent_step_ok [of m m'] managed_step_info [of m m'] managed_step_proper [of m m'] by (auto simp: torrent_ok_def)

lemma start_ok: "torrent_ok m \<Longrightarrow> torrent_ok (snd (managed_start b m))"
  using torrent_ok_step [OF managed_step.starts] by blast

lemma pause_each_ok:
  "pause_each opens ts = Done ts' \<Longrightarrow> torrents_ok ts \<Longrightarrow> torrents_ok ts' \<and> map fst ts' = map fst ts \<and> hashes_of ts' = hashes_of ts"
proof (induction ts arbitrary: ts')
  case (Cons t ts)
  obtain i h where t: "t = (i, h)" by (cases t)
  obtain ok m us where m: "managed_pause (opens i) (hd_torrent h) = Done (ok, m)" and us: "pause_each opens ts = Done us"
    "ts' = (i, h\<lparr>hd_torrent := m\<rparr>) # us"
    using Cons.prems(1) by (auto simp: t)
  have "torrent_ok m" using Cons.prems(2) torrent_ok_step [OF managed_step.pauses [OF m]] by (auto simp: t torrents_ok_def)
  moreover have "torrents_ok ts" using Cons.prems(2) by (simp add: torrents_ok_def)
  ultimately show ?case using Cons.IH [OF us(1)] Cons.prems(2) us(2) by (auto simp: torrents_ok_def t)
qed simp

lemma build_handle_ok:
  "build_handle se rs out only_files opts = Some h \<Longrightarrow>
   torrent_ok (hd_torrent h) \<and> hd_info_hash h = rs_info_hash rs \<and> mt_state (hd_torrent h) = MInitializing \<and>
   mi_info (mt_info (hd_torrent h)) = rs_info rs \<and> mi_out_dir (mt_info (hd_torrent h)) = out \<and>
   mt_only_files (hd_torrent h) = only_files \<and> mt_inits (hd_torrent h) = [] \<and> hd_trackers h = remdups (rs_trackers rs)"
  by (auto simp: build_handle_def Let_def torrent_ok_def build_def managed_ok_def)

lemma add_cases:
  assumes "session_add_torrent e add opts se = Done (r, se')"
  obtains (listed) lo rs where "r = ListOnly lo" "se' = se" "ao_list_only opts"
      "resolve_add e (se_dht se) (se_tcp_listen_port se) (se_peer_id se) add opts = Done rs"
      "lo_info_hash lo = rs_info_hash rs" "lo_info lo = rs_info rs" "lo_seen_peers lo = rs_initial_peers rs"
      "compute_only_files (ae_regex_new e) (rs_info rs) (ao_only_files opts) (ao_only_files_regex opts) = Some (lo_only_files lo)"
      "choose_output_folder (se_output_folder se) (rs_info rs) opts = Some (lo_output_folder lo)"
  | (managed) i h rs where "r = AlreadyManaged i" "se' = se" "\<not> ao_list_only opts"
      "resolve_add e (se_dht se) (se_tcp_listen_port se) (se_peer_id se) add opts = Done rs"
      "find_torrent (rs_info_hash rs) (db_torrents (se_db se)) = Some (i, h)"
  | (added) i rx h m db rs out only_files where "r = Added i rx" "se' = se\<lparr>se_db := set_torrent i m db\<rparr>" "\<not> ao_list_only opts"
      "resolve_add e (se_dht se) (se_tcp_listen_port se) (se_peer_id se) add opts = Done rs"
      "find_torrent (rs_info_hash rs) (db_torrents (se_db se)) = None"
      "build_handle se rs out only_files opts = Some h"
      "compute_only_files (ae_regex_new e) (rs_info rs) (ao_only_files opts) (ao_only_files_regex opts) = Some only_files"
      "choose_output_folder (se_output_folder se) (rs_info rs) opts = Some out"
      "db_add_torrent h (ao_preferred_id opts) (se_db se) = (i, db)" "managed_start (ao_paused opts) (hd_torrent h) = (True, m)"
proof -
  obtain rs where rs: "resolve_add e (se_dht se) (se_tcp_listen_port se) (se_peer_id se) add opts = Done rs"
    and main: "main_torrent_info (ae_regex_new e) rs opts se = Done (r, se')"
    using assms by (auto simp: session_add_torrent_def)
  obtain only_files where only: "compute_only_files (ae_regex_new e) (rs_info rs) (ao_only_files opts) (ao_only_files_regex opts) = Some only_files"
    using main by (auto simp: main_torrent_info_def split: option.splits)
  obtain out where out: "choose_output_folder (se_output_folder se) (rs_info rs) opts = Some out"
    using main by (auto simp: main_torrent_info_def split: option.splits)
  show thesis
  proof (cases "ao_list_only opts")
    case True
    then show thesis using main only out rs listed by (auto simp: main_torrent_info_def)
  next
    case False
    show thesis
    proof (cases "find_torrent (rs_info_hash rs) (db_torrents (se_db se))")
      case (Some x)
      then show thesis using main only out False managed [OF _ _ False rs] by (cases x) (auto simp: main_torrent_info_def)
    next
      case None
      obtain h where h: "build_handle se rs out only_files opts = Some h"
        using main only out False None by (auto simp: main_torrent_info_def split: option.splits)
      obtain i db where db: "db_add_torrent h (ao_preferred_id opts) (se_db se) = (i, db)" by fastforce
      obtain ok m where m: "managed_start (ao_paused opts) (hd_torrent h) = (ok, m)" by fastforce
      show thesis
        using main only out False None h db m added [OF _ _ False rs None h only out db]
        by (auto simp: main_torrent_info_def Let_def split: if_splits)
    qed
  qed
qed

lemma session_step_ok: "session_step se se' \<Longrightarrow> torrents_ok (db_torrents (se_db se)) \<Longrightarrow> torrents_ok (db_torrents (se_db se'))"
proof (induction rule: session_step.induct)
  case (adds e add opts r se')
  from adds(1) show ?case
  proof (cases rule: add_cases)
    case (added i rx h m db rs out only_files)
    note h = build_handle_ok [OF added(6)]
    have "hd_info_hash h \<notin> set (hashes_of (db_torrents (se_db se)))"
      using added(5) h by (simp add: find_torrent_None)
    then have "torrents_ok (db_torrents (snd (db_add_torrent h (ao_preferred_id opts) (se_db se))))"
      using db_add_ok adds(2) h by blast
    moreover have "torrent_ok m" using start_ok [of "hd_torrent h" "ao_paused opts"] h added(10) by simp
    ultimately show ?thesis using torrents_ok_set [of db m i] added(2,9) by simp
  qed (use adds(2) in simp_all)
next
  case (deletes opens removable i delete_files fs ok fs' se')
  then have "se' = se \<or> se' = se\<lparr>se_db := (se_db se)\<lparr>db_torrents := AList.delete i (db_torrents (se_db se))\<rparr>\<rparr>"
    by (auto simp: session_delete_def Let_def split: option.splits bool.splits)
  then show ?case using deletes(2) torrents_ok_delete by auto
next
  case (unpauses url_parse i rx se')
  then obtain h m where h: "session_get i se = Some h" "managed_start False (hd_torrent h) = (True, m)"
    "se' = se\<lparr>se_db := set_torrent i m (se_db se)\<rparr>"
    by (auto simp: session_unpause_def Let_def split: option.splits prod.splits if_splits)
  have "torrent_ok (hd_torrent h)" using unpauses(2) map_of_SomeD [OF h(1) [unfolded session_get_def]]
    by (auto simp: torrents_ok_def)
  then have "torrent_ok m" using start_ok [of "hd_torrent h" False] h(2) by simp
  then show ?case using torrents_ok_set [OF unpauses(2), of m i] h(3) by simp
next
  case (stops opens se')
  then show ?case by (auto simp: session_stop_def dest: pause_each_ok)
next
  case (torrent i h m)
  have "torrent_ok (hd_torrent h)" using torrent(3) map_of_SomeD [OF torrent(1) [unfolded session_get_def]]
    by (auto simp: torrents_ok_def)
  then have "torrent_ok m" using torrent_ok_step [OF torrent(2)] by blast
  then show ?case using torrents_ok_set [OF torrent(3), of m i] by simp
qed

lemma session_reach_ok: "session_reach se0 se \<Longrightarrow> torrents_ok (db_torrents (se_db se0)) \<Longrightarrow> torrents_ok (db_torrents (se_db se))"
  by (induction rule: session_reach.induct) (auto intro: session_step_ok)

lemma managed_ok_facts:
  "managed_ok m \<Longrightarrow> (\<forall>p. mt_state m = MPaused p \<longrightarrow> paused_ok p) \<and>
     (\<forall>s. mt_state m = MLive s \<longrightarrow> (\<exists>pa. paused_ok pa \<and> swarm_reach pa s))"
  by (auto simp: managed_ok_def)

text \<open>
  C1: A session keeps its torrents apart and sound. Through any calls that add, delete, start, pause and stop
  torrents, and anything their own tasks do, no two torrents of a session have the same id or the same info
  hash; no torrent is left in the state that only stands in for another; every torrent whose sizes fit the
  counters and whose piece length is a multiple of its chunk length can be started again when it is paused,
  and satisfies the invariants of the download when it is live (for the other torrents, which the session
  accepts too, nothing is said: their tracker panics, \<open>odd_piece_length_panics\<close>); and an incoming connection is
  given to a torrent exactly when it is live, has the hash of the handshake, and the peer is not the session
  itself.
\<close>

theorem session_sound:
  assumes "session_reach se0 se" "db_torrents (se_db se0) = []"
  shows "distinct (ids_of se) \<and> distinct (hashes_of (db_torrents (se_db se))) \<and>
    (\<forall>i h. session_get i se = Some h \<longrightarrow> mt_state (hd_torrent h) \<noteq> MNone \<and>
       (geometry_ok (mi_lengths (mt_info (hd_torrent h))) \<longrightarrow>
         (\<forall>p. mt_state (hd_torrent h) = MPaused p \<longrightarrow> paused_ok p) \<and>
         (\<forall>s. mt_state (hd_torrent h) = MLive s \<longrightarrow> (\<exists>pa. paused_ok pa \<and> swarm_reach pa s)))) \<and>
    (check_incoming_connection hs se = Some i \<longleftrightarrow> h_peer_id hs \<noteq> se_peer_id se \<and>
       (\<exists>h s. session_get i se = Some h \<and> hd_info_hash h = h_info_hash hs \<and> mt_state (hd_torrent h) = MLive s))"
proof -
  let ?ts = "db_torrents (se_db se)"
  have "torrents_ok (db_torrents (se_db se0))" using assms(2) by (simp add: torrents_ok_def)
  then have "torrents_ok ?ts" by (rule session_reach_ok [OF assms(1)])
  then have ok: "distinct (map fst ?ts)" "distinct (hashes_of ?ts)" "\<And>i h. (i, h) \<in> set ?ts \<Longrightarrow> torrent_ok (hd_torrent h)"
    by (auto simp: torrents_ok_def)
  have mem: "session_get i se = Some h \<longleftrightarrow> (i, h) \<in> set ?ts" for i h
    using ok(1) by (simp add: session_get_def)
  have found: "find_torrent ih ?ts = Some (i, h) \<longleftrightarrow> (i, h) \<in> set ?ts \<and> hd_info_hash h = ih" for ih i h
    using find_torrent_unique [OF _ ok(2)] by (auto dest: find_torrent_Some)
  have "check_incoming_connection hs se = Some i \<longleftrightarrow> h_peer_id hs \<noteq> se_peer_id se \<and>
      (\<exists>h s. find_torrent (h_info_hash hs) ?ts = Some (i, h) \<and> mt_state (hd_torrent h) = MLive s)"
    by (auto simp: check_incoming_connection_def split: option.splits managed_state.splits)
  then have incoming: "check_incoming_connection hs se = Some i \<longleftrightarrow> h_peer_id hs \<noteq> se_peer_id se \<and>
      (\<exists>h s. session_get i se = Some h \<and> hd_info_hash h = h_info_hash hs \<and> mt_state (hd_torrent h) = MLive s)"
    unfolding found mem by blast
  have "mt_state (hd_torrent h) \<noteq> MNone \<and> (geometry_ok (mi_lengths (mt_info (hd_torrent h))) \<longrightarrow> managed_ok (hd_torrent h))"
    if "session_get i se = Some h" for i h
    using ok(3) [of i h] that unfolding mem torrent_ok_def by blast
  then show ?thesis using ok(1,2) incoming managed_ok_facts by blast
qed

definition ids_below :: "'b session \<Rightarrow> bool" where
  "ids_below se \<longleftrightarrow> (\<forall>i \<in> set (ids_of se). i < db_next_id (se_db se))"

lemma update_new: "i \<notin> set (map fst ts) \<Longrightarrow> AList.update i h ts = ts @ [(i, h)]"
  by (induction ts) auto

lemma succ_above: "i < x + 1" if "i \<le> x" "x \<noteq> - 1" for i x :: u64
proof -
  have "1 + x \<noteq> 0" using that(2) by (metis add.commute eq_neg_iff_add_eq_0)
  then have "unat (x + 1) = unat x + 1" by (simp add: unatSuc add.commute)
  then show ?thesis using that(1) by (simp add: word_less_nat_alt word_le_nat_alt)
qed

lemma db_add_fresh:
  assumes "\<forall>i \<in> set (map fst (db_torrents db)). i < db_next_id db" "db_next_id db \<noteq> - 1" "pref \<noteq> Some (- 1)"
    and "db_add_torrent h pref db = (i, db')"
  shows "i \<notin> set (map fst (db_torrents db)) \<and> db_torrents db' = db_torrents db @ [(i, h)] \<and>
    (\<forall>j \<in> set (map fst (db_torrents db')). j < db_next_id db')"
proof -
  have next_new: "db_next_id db \<notin> set (map fst (db_torrents db))" using assms(1) by auto
  consider (pref) j where "pref = Some j" "j \<notin> set (map fst (db_torrents db))" | (other) "db_add_torrent h pref db = db_insert_next h db"
  proof (cases pref)
    case None
    then show thesis by (intro that(2)) (simp add: db_add_torrent_def)
  next
    case (Some j)
    then show thesis
      by (cases "map_of (db_torrents db) j")
        (use that in \<open>auto simp: db_add_torrent_def map_of_eq_None_iff\<close>)
  qed
  then show ?thesis
  proof cases
    case pref
    then have j: "map_of (db_torrents db) j = None" by (simp add: map_of_eq_None_iff)
    have "max j (db_next_id db) \<noteq> - 1" using assms(2,3) pref(1) by (simp add: max_def)
    then have "j < max j (db_next_id db) + 1" "\<And>k. k < db_next_id db \<Longrightarrow> k < max j (db_next_id db) + 1"
      by (intro succ_above; simp add: le_max_iff_disj order.strict_implies_order)+
    moreover have "i = j" "db' = db\<lparr>db_torrents := db_torrents db @ [(j, h)], db_next_id := max j (db_next_id db) + 1\<rparr>"
      using assms(4) pref(1) j update_new [OF pref(2)] by (auto simp: db_add_torrent_def)
    ultimately show ?thesis using assms(1) pref(2) by simp
  next
    case other
    have "\<And>k. k \<le> db_next_id db \<Longrightarrow> k < db_next_id db + 1" using assms(2) by (intro succ_above)
    moreover have "i = db_next_id db"
      "db' = db\<lparr>db_torrents := db_torrents db @ [(db_next_id db, h)], db_next_id := db_next_id db + 1\<rparr>"
      using assms(4) other update_new [OF next_new] by (auto simp: db_insert_next_def)
    ultimately show ?thesis using assms(1) next_new by (simp add: order.strict_implies_order)
  qed
qed

text \<open>The info hash that a call names: of the torrent file, or of the magnet link.\<close>

definition named_hash :: "add_env \<Rightarrow> add_torrent_arg \<Rightarrow> bytes option" where
  "named_hash e add =
     (case add of
        AddInfo t \<Rightarrow> Some (tm_info_hash t)
      | AddFileBytes b \<Rightarrow> (case torrent_of_bytes (ae_sha1 e) b of Done t \<Rightarrow> Some (tm_info_hash t) | _ \<Rightarrow> None)
      | AddUrl u \<Rightarrow>
          if prefix (ascii ''magnet:'') u
          then Option.bind (magnet_parse (ae_url_parse e) (ae_query_pairs e) (ae_hex_decode e) u) mg_id20
          else (case torrent_from_url e u of Done t \<Rightarrow> Some (tm_info_hash t) | _ \<Rightarrow> None))"

lemma resolve_named:
  assumes "resolve_add e dht own_port peer_id add opts = Done rs" shows "named_hash e add = Some (rs_info_hash rs)"
proof (cases add)
  case (AddUrl u)
  then show ?thesis
    using assms
    by (auto simp: resolve_add_def resolve_magnet_def resolve_torrent_def named_hash_def Let_def
      split: if_splits option.splits metainfo_result.splits)
qed (use assms in \<open>auto simp: resolve_add_def resolve_torrent_def named_hash_def Let_def\<close>)

text \<open>
  C11: Adding a torrent adds just this torrent. While no id has reached the largest one, a call that succeeds
  has resolved what it was given to a torrent with the info hash it names, and then: either it only lists,
  as was asked, that torrent, its files that are wanted and the folder they would go to, and changes nothing;
  or the session has a torrent of this info hash, and the id is that torrent's, and nothing changes; or the
  session had none, and exactly one torrent is added, under a new id, with this info hash, this torrent's
  information, its trackers once each, the wanted files and the folder; it is initializing, with its check
  started paused or not as was asked. New ids stay below the next one.
\<close>

theorem adding_a_torrent:
  assumes "session_add_torrent e add opts se = Done (r, se')" "ids_below se" "db_next_id (se_db se) \<noteq> - 1"
    and "ao_preferred_id opts \<noteq> Some (- 1)"
  shows "\<exists>rs. resolve_add e (se_dht se) (se_tcp_listen_port se) (se_peer_id se) add opts = Done rs \<and>
    named_hash e add = Some (rs_info_hash rs) \<and>
    (case r of
      ListOnly lo \<Rightarrow> ao_list_only opts \<and> se' = se \<and> lo_info_hash lo = rs_info_hash rs \<and> lo_info lo = rs_info rs \<and>
        lo_seen_peers lo = rs_initial_peers rs \<and>
        compute_only_files (ae_regex_new e) (rs_info rs) (ao_only_files opts) (ao_only_files_regex opts) = Some (lo_only_files lo) \<and>
        choose_output_folder (se_output_folder se) (rs_info rs) opts = Some (lo_output_folder lo)
    | AlreadyManaged i \<Rightarrow> \<not> ao_list_only opts \<and> se' = se \<and>
        (\<exists>h. (i, h) \<in> set (db_torrents (se_db se)) \<and> hd_info_hash h = rs_info_hash rs)
    | Added i _ \<Rightarrow> \<not> ao_list_only opts \<and> rs_info_hash rs \<notin> set (hashes_of (db_torrents (se_db se))) \<and>
        i \<notin> set (ids_of se) \<and> ids_below se' \<and>
        (\<exists>h. db_torrents (se_db se') = db_torrents (se_db se) @ [(i, h)] \<and>
             hd_info_hash h = rs_info_hash rs \<and> mi_info (mt_info (hd_torrent h)) = rs_info rs \<and>
             hd_trackers h = remdups (rs_trackers rs) \<and>
             compute_only_files (ae_regex_new e) (rs_info rs) (ao_only_files opts) (ao_only_files_regex opts) =
               Some (mt_only_files (hd_torrent h)) \<and>
             choose_output_folder (se_output_folder se) (rs_info rs) opts = Some (mi_out_dir (mt_info (hd_torrent h))) \<and>
             mt_state (hd_torrent h) = MInitializing \<and> mt_inits (hd_torrent h) = [ao_paused opts]))"
  using assms(1)
proof (cases rule: add_cases)
  case (listed lo rs)
  then show ?thesis using resolve_named [OF listed(4)] by simp
next
  case (managed i h rs)
  then show ?thesis using resolve_named [OF managed(4)] find_torrent_Some [OF managed(5)] by auto
next
  case (added i rx h m db rs out only_files)
  have fresh: "i \<notin> set (ids_of se)" "db_torrents db = db_torrents (se_db se) @ [(i, h)]"
    "\<forall>j \<in> set (map fst (db_torrents db)). j < db_next_id db"
    using db_add_fresh [OF assms(2) [unfolded ids_below_def] assms(3,4) added(9)] by blast+
  note h = build_handle_ok [OF added(6)]
  have m: "m = (hd_torrent h)\<lparr>mt_inits := [ao_paused opts]\<rparr>"
    using added(10) h by (auto simp: managed_start_def)
  have ts: "db_torrents (set_torrent i m db) = db_torrents (se_db se) @ [(i, h\<lparr>hd_torrent := m\<rparr>)]"
    using fresh(1) by (force simp: fresh(2) intro!: map_idI)
  moreover have "rs_info_hash rs \<notin> set (hashes_of (db_torrents (se_db se)))"
    using added(5) by (simp add: find_torrent_None)
  moreover have "ids_below se'"
    using fresh(3) unfolding ids_below_def added(2) by (auto simp: set_torrent_def fresh(2))
  ultimately show ?thesis
    using added(1-4,7,8) resolve_named [OF added(4)] fresh(1) m h by simp
qed

definition demo_session :: "unit session" where
  "demo_session = \<lparr>se_peer_id = replicate 20 1, se_dht = False, se_peer_opts = \<lparr>po_connect_timeout = None,
     po_read_write_timeout = None, po_keep_alive_interval = None\<rparr>, se_db = empty_db, se_output_folder = [47],
     se_tcp_listen_port = None, se_cancelled = False\<rparr>"

definition demo_env :: add_env where
  "demo_env = \<lparr>ae_url_parse = (\<lambda>_. None), ae_query_pairs = (\<lambda>_. []), ae_hex_decode = (\<lambda>_. None),
     ae_regex_new = (\<lambda>_. None), ae_sha1 = (\<lambda>_. replicate 20 9), ae_http_get = (\<lambda>_. None), ae_events = []\<rparr>"

definition demo_torrent :: torrent_meta where
  "demo_torrent = \<lparr>tm_announce = [], tm_announce_list = [], tm_info = small_info, tm_comment = None,
     tm_created_by = None, tm_encoding = None, tm_publisher = None, tm_publisher_url = None,
     tm_creation_date = None, tm_info_hash = replicate 20 2\<rparr>"

lemma demo_added:
  obtains rx se where "session_add_torrent demo_env (AddInfo demo_torrent) default_add_options demo_session = Done (Added 0 rx, se)"
    "map (\<lambda>(i, h). (i, hd_info_hash h)) (db_torrents (se_db se)) = [(0, replicate 20 2)]"
proof -
  have c: "case session_add_torrent demo_env (AddInfo demo_torrent) default_add_options demo_session of
      Done (Added i rx, se) \<Rightarrow> i = 0 \<and>
        map (\<lambda>(i, h). (i, hd_info_hash h)) (db_torrents (se_db se)) = [(0, replicate 20 2)]
    | _ \<Rightarrow> False"
    by code_simp
  then obtain r se where "session_add_torrent demo_env (AddInfo demo_torrent) default_add_options demo_session = Done (r, se)"
    by (cases "session_add_torrent demo_env (AddInfo demo_torrent) default_add_options demo_session") auto
  then show thesis using c that by (cases r) auto
qed

theorem adding_a_torrent_witness:
  "\<exists>rx se. session_add_torrent demo_env (AddInfo demo_torrent) default_add_options demo_session = Done (Added 0 rx, se) \<and>
     ids_below se"
proof -
  obtain rx se where se: "session_add_torrent demo_env (AddInfo demo_torrent) default_add_options demo_session = Done (Added 0 rx, se)"
    by (rule demo_added)
  have "ids_below demo_session" "db_next_id (se_db demo_session) \<noteq> - 1" "ao_preferred_id default_add_options \<noteq> Some (- 1)"
    by (simp_all add: ids_below_def demo_session_def empty_db_def default_add_options_def)
  then show ?thesis using adding_a_torrent [OF se] se by auto
qed

theorem session_sound_witness:
  "\<exists>rx se. session_add_torrent demo_env (AddInfo demo_torrent) default_add_options demo_session = Done (Added 0 rx, se) \<and>
     distinct (hashes_of (db_torrents (se_db se))) \<and> ids_of se = [0]"
proof -
  obtain rx se where se: "session_add_torrent demo_env (AddInfo demo_torrent) default_add_options demo_session = Done (Added 0 rx, se)"
    "map (\<lambda>(i, h). (i, hd_info_hash h)) (db_torrents (se_db se)) = [(0, replicate 20 2)]"
    by (rule demo_added)
  have "session_reach demo_session se"
    by (rule session_reach.step [OF session_reach.opened session_step.adds]) (rule se(1))
  from session_sound [OF this] se show ?thesis by (auto simp: demo_session_def empty_db_def)
qed

text \<open>The largest id wraps the counter around, and the next torrent replaces the one with id zero.\<close>

lemma last_id_wraps:
  assumes "map_of (db_torrents db) (- 1) = None" "map_of (db_torrents db) 0 = Some old"
    and "db' = snd (db_add_torrent h (Some (- 1)) db)"
  shows "map_of (db_torrents (snd (db_add_torrent g None db'))) 0 = Some g"
  using assms
  by (auto simp: db_add_torrent_def db_insert_next_def max_def update_conv' word_order.extremum_unique)

end
