(* ===== verification/SessionStore.thy ===== *)
theory SessionStore
  imports Session
begin

text \<open>
  Model of the part of \<open>session.rs\<close> that stores a session in a file and takes it up again, and of the making of a
  session. JSON, base64 and the hexadecimal form belong to libraries and are arguments; a session is written
  through a buffer, and how much of it reaches the disk is up to the operating system.
\<close>

section \<open>What is stored\<close>

text \<open>\<open>SerializedTorrent\<close>, with its info dictionary, and with the text that stands for it in the file.\<close>

record 'i stored_torrent =
  st_info_hash :: bytes
  st_info :: 'i
  st_trackers :: "bytes list"
  st_output_folder :: bytes
  st_only_files :: "nat list option"
  st_is_paused :: bool

definition with_info :: "'j \<Rightarrow> 'i stored_torrent \<Rightarrow> 'j stored_torrent" where
  "with_info x t = \<lparr>st_info_hash = st_info_hash t, st_info = x, st_trackers = st_trackers t,
     st_output_folder = st_output_folder t, st_only_files = st_only_files t, st_is_paused = st_is_paused t\<rparr>"

record store_env =
  sv_hex_encode :: "bytes \<Rightarrow> bytes"
  sv_hex_decode :: "string \<Rightarrow> bytes option"
  sv_base64_encode :: "bytes \<Rightarrow> bytes"
  sv_base64_decode :: "bytes \<Rightarrow> bytes option"
  sv_json_write :: "(torrent_id \<times> bytes stored_torrent) list \<Rightarrow> bytes"
  sv_json_read :: "bytes \<Rightarrow> (torrent_id \<times> bytes stored_torrent) list option"

definition session_serialize :: "store_env \<Rightarrow> 'b session_db \<Rightarrow> (torrent_id \<times> torrent_info stored_torrent) list" where
  "session_serialize v db =
     map (\<lambda>(i, h). (i,
       \<lparr>st_info_hash = sv_hex_encode v (hd_info_hash h), st_info = mi_info (mt_info (hd_torrent h)),
        st_trackers = hd_trackers h, st_output_folder = mi_out_dir (mt_info (hd_torrent h)),
        st_only_files = mt_only_files (hd_torrent h),
        st_is_paused = (case mt_state (hd_torrent h) of MPaused _ \<Rightarrow> True | _ \<Rightarrow> False)\<rparr>)) (db_torrents db)"

definition serialize_info_text :: "store_env \<Rightarrow> torrent_info \<Rightarrow> bytes" where
  "serialize_info_text v t = sv_base64_encode v (serialize_torrent_info t)"

definition deserialize_info_text :: "store_env \<Rightarrow> (bytes \<Rightarrow> bytes) \<Rightarrow> bytes \<Rightarrow> torrent_info run" where
  "deserialize_info_text v sha1 s =
     (case sv_base64_decode v s of
        None \<Rightarrow> Fails
      | Some b \<Rightarrow>
          (case deserialize_torrent_info sha1 (new_from_buf b) of
             Inl DePanic \<Rightarrow> Panics | Inl _ \<Rightarrow> Fails | Inr (t, _) \<Rightarrow> Done t))"

text \<open>A folder is written as a string, which it must be.\<close>

definition session_text :: "store_env \<Rightarrow> (torrent_id \<times> torrent_info stored_torrent) list \<Rightarrow> bytes option" where
  "session_text v ts =
     (if list_all (\<lambda>(i, t). utf8_valid (st_output_folder t)) ts
      then Some (sv_json_write v (map (\<lambda>(i, t). (i, with_info (serialize_info_text v (st_info t)) t)) ts)) else None)"

section \<open>Writing the file\<close>

text \<open>
  What the operating system does for a dump: whether the file opens, what has been written when the
  serializer fails, how much the buffer has passed on before it is dropped, how much of the text
  reaches the file at all, and whether it can be renamed.
\<close>

record dump_io =
  di_opens :: bool
  di_partial :: bytes
  di_flushed :: nat
  di_room :: nat
  di_renames :: bool

definition TMP :: bytes where "TMP = ascii ''.tmp''"

text \<open>The drop of the buffer writes what is left in it, and passes over an error.\<close>

definition dump_to_disk :: "store_env \<Rightarrow> dump_io \<Rightarrow> bytes \<Rightarrow> 'b session \<Rightarrow> file_system \<Rightarrow> (bool \<times> file_system) run" where
  "dump_to_disk v io filename se fs =
     (if \<not> utf8_valid filename then Panics
      else if \<not> di_opens io then Done (False, fs)
      else
        (case session_text v (session_serialize v (se_db se)) of
           None \<Rightarrow> Done (False, fs(filename @ TMP \<mapsto> di_partial io))
         | Some data \<Rightarrow>
             let tmp = take (di_room io) data in
             if di_room io < min (length data) (di_flushed io) then Done (False, fs(filename @ TMP \<mapsto> tmp))
             else if \<not> di_renames io then Done (False, fs(filename @ TMP \<mapsto> tmp))
             else Done (True, fs(filename \<mapsto> tmp, filename @ TMP := None))))"

section \<open>Reading the file\<close>

datatype open_result = NotFound | OpenError | Opened bytes

fun read_infos :: "store_env \<Rightarrow> (bytes \<Rightarrow> bytes) \<Rightarrow> (torrent_id \<times> bytes stored_torrent) list \<Rightarrow>
    (torrent_id \<times> torrent_info stored_torrent) list run" where
  "read_infos v sha1 [] = Done []"
| "read_infos v sha1 ((i, t) # ts) =
     bind_run (deserialize_info_text v sha1 (st_info t)) (\<lambda>info.
     bind_run (read_infos v sha1 ts) (\<lambda>r. Done ((i, with_info info t) # r)))"

definition RETRACKER :: bytes where "RETRACKER = ascii ''http://retracker.local/announce''"

definition stored_meta :: "store_env \<Rightarrow> torrent_info stored_torrent \<Rightarrow> torrent_meta option" where
  "stored_meta v t =
     map_option (\<lambda>ih. \<lparr>tm_announce = (case st_trackers t of [] \<Rightarrow> RETRACKER | a # _ \<Rightarrow> a),
         tm_announce_list = [st_trackers t], tm_info = st_info t, tm_comment = None, tm_created_by = None,
         tm_encoding = None, tm_publisher = None, tm_publisher_url = None, tm_creation_date = None, tm_info_hash = ih\<rparr>)
       (id_of_text (sv_hex_decode v) 20 (st_info_hash t))"

definition stored_options :: "torrent_id \<Rightarrow> torrent_info stored_torrent \<Rightarrow> add_options" where
  "stored_options i t = default_add_options\<lparr>ao_paused := st_is_paused t, ao_output_folder := Some (st_output_folder t),
     ao_only_files := st_only_files t, ao_overwrite := True, ao_preferred_id := Some i\<rparr>"

text \<open>A bad info hash ends the loop before any torrent is added.\<close>

fun stored_adds :: "store_env \<Rightarrow> (torrent_id \<times> torrent_info stored_torrent) list \<Rightarrow> (torrent_meta \<times> add_options) list option" where
  "stored_adds v [] = Some []"
| "stored_adds v ((i, t) # ts) =
     (case stored_meta v t of
        None \<Rightarrow> None
      | Some m \<Rightarrow> map_option (\<lambda>r. (m, stored_options i t) # r) (stored_adds v ts))"

text \<open>The torrents are added one after the other, as nothing in it waits; one that fails is left out.\<close>

fun add_each :: "add_env \<Rightarrow> (torrent_meta \<times> add_options) list \<Rightarrow> 'b session \<Rightarrow> 'b session run" where
  "add_each e [] se = Done se"
| "add_each e ((m, opts) # r) se =
     (case session_add_torrent e (AddInfo m) opts se of
        Done (_, se') \<Rightarrow> add_each e r se'
      | Fails \<Rightarrow> add_each e r se
      | Panics \<Rightarrow> Panics
      | Diverges \<Rightarrow> Diverges)"

definition populate_from_stored :: "store_env \<Rightarrow> add_env \<Rightarrow> open_result \<Rightarrow> 'b session \<Rightarrow> (bool \<times> 'b session) run" where
  "populate_from_stored v e opened se =
     (case opened of
        NotFound \<Rightarrow> Done (True, se)
      | OpenError \<Rightarrow> Done (False, se)
      | Opened b \<Rightarrow>
          (case sv_json_read v b of
             None \<Rightarrow> Done (False, se)
           | Some ts \<Rightarrow>
               (case read_infos v (ae_sha1 e) ts of
                  Done infos \<Rightarrow>
                    (case stored_adds v infos of
                       None \<Rightarrow> Done (False, se)
                     | Some adds \<Rightarrow> bind_run (add_each e adds se) (\<lambda>se. Done (True, se)))
                | Fails \<Rightarrow> Done (False, se)
                | Panics \<Rightarrow> Panics
                | Diverges \<Rightarrow> Diverges)))"

section \<open>The making of a session\<close>

record session_options =
  so_disable_dht :: bool
  so_disable_dht_persistence :: bool
  so_persistence :: bool
  so_persistence_filename :: "bytes option"
  so_peer_id :: "bytes option"
  so_peer_opts :: "peer_opts option"
  so_listen_port_range :: "u16 list option"
  so_enable_upnp_port_forwarding :: bool

datatype session_task = TcpListen u16 | UpnpForward u16 | Persistence bytes

text \<open>What the system gives: the ports that can be bound, whether a DHT starts (with a stored table or not), a random UUID, the default file.\<close>

record system_env =
  sy_bindable :: "u16 \<Rightarrow> bool"
  sy_dht :: "bool \<Rightarrow> bool"
  sy_uuid :: bytes
  sy_default_filename :: "bytes option"
  sy_mkdir :: "bytes \<Rightarrow> bool"

definition session_new_with_opts :: "system_env \<Rightarrow> bytes \<Rightarrow> session_options \<Rightarrow> ('b session \<times> session_task list) option" where
  "session_new_with_opts sy output_folder opts =
     (let peer_id = (case so_peer_id opts of Some i \<Rightarrow> i | None \<Rightarrow> generate_peer_id (sy_uuid sy));
          peer_opts = (case so_peer_opts opts of Some p \<Rightarrow> p | None \<Rightarrow>
            \<lparr>po_connect_timeout = None, po_read_write_timeout = None, po_keep_alive_interval = None\<rparr>) in
      case (case so_listen_port_range opts of
              None \<Rightarrow> Some None
            | Some ports \<Rightarrow> map_option Some (create_tcp_listener (sy_bindable sy) ports)) of
        None \<Rightarrow> None
      | Some port \<Rightarrow>
          if \<not> so_disable_dht opts \<and> \<not> sy_dht sy (\<not> so_disable_dht_persistence opts) then None
          else
            (case or_else (so_persistence_filename opts) (sy_default_filename sy) of
               None \<Rightarrow> None
             | Some filename \<Rightarrow>
                 if so_persistence opts \<and> \<not> sy_mkdir sy filename then None
                 else Some (\<lparr>se_peer_id = peer_id, se_dht = \<not> so_disable_dht opts, se_peer_opts = peer_opts,
                       se_db = empty_db, se_output_folder = output_folder, se_tcp_listen_port = port,
                       se_cancelled = False\<rparr>,
                     (case port of None \<Rightarrow> [] | Some p \<Rightarrow> [TcpListen p])
                     @ (case port of Some p \<Rightarrow> if so_enable_upnp_port_forwarding opts then [UpnpForward p] else []
                        | None \<Rightarrow> [])
                     @ (if so_persistence opts then [Persistence filename] else []))))"


text \<open>A new session has no torrents, listens on a port of the range that was free, and reads its file only when told to.\<close>

lemma new_session:
  assumes "session_new_with_opts sy out opts = Some (se, tasks)"
  shows "db_torrents (se_db se) = [] \<and> (TcpListen p \<in> set tasks \<longleftrightarrow> se_tcp_listen_port se = Some p) \<and>
    (se_tcp_listen_port se = Some p \<longrightarrow> sy_bindable sy p \<and> (\<exists>ps. so_listen_port_range opts = Some ps \<and> p \<in> set ps)) \<and>
    (UpnpForward p \<in> set tasks \<longleftrightarrow> se_tcp_listen_port se = Some p \<and> so_enable_upnp_port_forwarding opts) \<and>
    ((\<exists>f. Persistence f \<in> set tasks) \<longleftrightarrow> so_persistence opts)"
  using assms
  by (auto simp: session_new_with_opts_def create_tcp_listener_def empty_db_def Let_def find_Some_iff
      split: option.splits if_splits)

section \<open>What is left by a dump\<close>

lemma TMP_nonempty [simp]: "TMP \<noteq> []"
  by (simp add: TMP_def)

text \<open>
  C14: A dump replaces the stored session as a whole or not at all, except when the disk fills up at its end.
  A dump that reports an error leaves the file as it was. One that reports success puts as much of the
  text into it as the system has taken; so when the end of the text, which is still in the buffer when
  it is dropped, is refused, success is reported and the good file is replaced by one cut short, which
  the next start cannot read: the session is empty then.
\<close>

theorem cut_dump_replaces_session:
  assumes "utf8_valid filename" "session_text v (session_serialize v (se_db se)) = Some data"
    and "\<And>p. strict_prefix p data \<Longrightarrow> sv_json_read v p = None"
  shows "\<exists>ok fs'. dump_to_disk v io filename se fs = Done (ok, fs') \<and>
    fs' filename = (if ok then Some (take (di_room io) data) else fs filename) \<and>
    (ok \<longleftrightarrow> di_opens io \<and> di_renames io \<and> min (length data) (di_flushed io) \<le> di_room io) \<and>
    (ok \<and> di_room io < length data \<longrightarrow> populate_from_stored v e (Opened (the (fs' filename))) new = Done (False, new))"
proof -
  have cut: "populate_from_stored v e (Opened (take (di_room io) data)) new = Done (False, new)" if "di_room io < length data"
  proof -
    have "strict_prefix (take (di_room io) data) data"
      using that by (auto simp: strict_prefix_def take_is_prefix dest: arg_cong [of _ _ length])
    then show ?thesis by (simp add: populate_from_stored_def assms(3))
  qed
  consider "\<not> di_opens io" | "di_opens io" "di_room io < min (length data) (di_flushed io) \<or> \<not> di_renames io"
    | "di_opens io" "min (length data) (di_flushed io) \<le> di_room io" "di_renames io"
    by linarith
  then show ?thesis
    by cases (use cut assms(1,2) in \<open>auto simp: dump_to_disk_def Let_def\<close>)
qed

section \<open>What every torrent of a session is\<close>

text \<open>It was made from its info dictionary, and its selection was accepted.\<close>

definition made :: "'b managed \<Rightarrow> bool" where
  "made m \<longleftrightarrow> lengths_from_torrent (mi_info (mt_info m)) = Some (mi_lengths (mt_info m)) \<and>
     compute_only_files (\<lambda>_. None) (mi_info (mt_info m)) (mt_only_files m) None = Some (mt_only_files m)"

lemma made_cong: "mt_info m' = mt_info m \<Longrightarrow> mt_only_files m' = mt_only_files m \<Longrightarrow> made m' = made m"
  by (simp add: made_def)

lemma managed_step_only_files: "managed_step m m' \<Longrightarrow> mt_only_files m' = mt_only_files m"
  by (induction rule: managed_step.induct)
    (auto simp: managed_start_def managed_pause_def init_done_def init_failed_def stop_with_error_def
      split: managed_state.splits option.splits)

lemma made_step: "managed_step m m' \<Longrightarrow> made m' = made m"
  by (intro made_cong managed_step_info managed_step_only_files)

lemma made_start: "made (snd (managed_start b m)) = made m"
  by (rule made_step [OF managed_step.starts])

lemma selected_again:
  assumes "compute_only_files regex_new info given re = Some sel"
  shows "compute_only_files r info sel None = Some sel"
proof (cases "(given, re)")
  case (Pair a b)
  have range: "\<forall>i \<in> set ks. i < length names"
    if names: "iter_filenames_and_lengths info = Inr names" and ks: "regex_loop is_match 0 names [] = Some ks" for names ks is_match
  proof -
    obtain ps where "map (to_pathbuf \<circ> fst) names = map Inr ps"
      "ks = [] @ map (\<lambda>k. 0 + k) (filter (\<lambda>k. is_match (ps ! k)) [0..<length ps])"
      using regex_loop_files [OF ks] by blast
    then show ?thesis using map_eq_imp_length_eq [of "to_pathbuf \<circ> fst" names Inr ps] by auto
  qed
  show ?thesis
  proof (cases given)
    case None
    show ?thesis
    proof (cases re)
      case (Some x)
      then obtain ks where sel: "sel = Some ks" and ks: "compute_only_files_regex regex_new info x = Some ks"
        using assms None by (auto simp: compute_only_files_def)
      obtain is_match where "regex_new x = Some is_match"
        using ks by (auto simp: compute_only_files_regex_def split: option.splits)
      moreover obtain names where "iter_filenames_and_lengths info = Inr names"
        using ks by (auto simp: compute_only_files_regex_def split: option.splits sum.splits)
      ultimately have "iter_filenames_and_lengths info = Inr names" "regex_loop is_match 0 names [] = Some ks"
        using ks by (auto simp: compute_only_files_regex_def split: option.splits if_splits)
      then show ?thesis using range sel
        by (fastforce simp: compute_only_files_def iter_file_lengths_def list_ex_iff)
    qed (use assms None in \<open>simp add: compute_only_files_def\<close>)
  next
    case (Some ids)
    then show ?thesis using assms
      by (cases re) (auto simp: compute_only_files_def split: sum.splits if_splits)
  qed
qed

lemma build_handle_made:
  assumes "build_handle se rs out only_files opts = Some h"
    and "compute_only_files regex_new (rs_info rs) given re = Some only_files"
  shows "made (hd_torrent h)"
  using assms(1) selected_again [OF assms(2)] by (auto simp: build_handle_def build_def made_def Let_def)

lemma pause_each_made:
  "pause_each opens ts = Done ts' \<Longrightarrow> \<forall>(i, h) \<in> set ts. made (hd_torrent h) \<Longrightarrow> \<forall>(i, h) \<in> set ts'. made (hd_torrent h)"
proof (induction ts arbitrary: ts')
  case (Cons t ts)
  obtain i h where t: "t = (i, h)" by (cases t)
  obtain ok m us where m: "managed_pause (opens i) (hd_torrent h) = Done (ok, m)" and us: "pause_each opens ts = Done us"
    "ts' = (i, h\<lparr>hd_torrent := m\<rparr>) # us"
    using Cons.prems(1) by (auto simp: t)
  have "made m" using Cons.prems(2) made_step [OF managed_step.pauses [OF m]] by (simp add: t)
  then show ?case using Cons.IH [OF us(1)] Cons.prems(2) us(2) by simp
qed simp

abbreviation all_made :: "'b session \<Rightarrow> bool" where
  "all_made se \<equiv> \<forall>(i, h) \<in> set (db_torrents (se_db se)). made (hd_torrent h)"

lemma all_made_set: "all_made se \<Longrightarrow> made m \<Longrightarrow> all_made (se\<lparr>se_db := set_torrent i m (se_db se)\<rparr>)"
  by auto

lemma all_made_get: "all_made se \<Longrightarrow> session_get i se = Some h \<Longrightarrow> made (hd_torrent h)"
  by (auto simp: session_get_def dest: map_of_SomeD)

lemma db_add_members: "(j, g) \<in> set (db_torrents (snd (db_add_torrent h pref db))) \<Longrightarrow> g = h \<or> (j, g) \<in> set (db_torrents db)"
  by (auto simp: db_add_torrent_def db_insert_next_def split: option.splits if_splits dest: update_members)

lemma session_step_made: "session_step se se' \<Longrightarrow> all_made se \<Longrightarrow> all_made se'"
proof (induction rule: session_step.induct)
  case (adds e add opts r se')
  from adds(1) show ?case
  proof (cases rule: add_cases)
    case (added i rx h m db rs out only_files)
    have h: "made (hd_torrent h)" using build_handle_made [OF added(6,7)] .
    then have "made m" using made_start [of "ao_paused opts" "hd_torrent h"] added(10) by simp
    moreover have "made (hd_torrent g)" if "(j, g) \<in> set (db_torrents db)" for j g
      using db_add_members [of j g h "ao_preferred_id opts" "se_db se"] that added(9) adds(2) h by auto
    ultimately show ?thesis unfolding added(2) by auto
  qed (use adds(2) in simp_all)
next
  case (deletes opens removable i delete_files fs ok fs' se')
  then have "se' = se \<or> se' = se\<lparr>se_db := (se_db se)\<lparr>db_torrents := AList.delete i (db_torrents (se_db se))\<rparr>\<rparr>"
    by (auto simp: session_delete_def Let_def split: option.splits bool.splits)
  then show ?case using deletes(2) by (auto simp: AList.delete_eq)
next
  case (unpauses url_parse i rx se')
  then obtain h m where h: "session_get i se = Some h" "managed_start False (hd_torrent h) = (True, m)"
    "se' = se\<lparr>se_db := set_torrent i m (se_db se)\<rparr>"
    by (auto simp: session_unpause_def Let_def split: option.splits prod.splits if_splits)
  then show ?case using all_made_set [OF unpauses(2)] all_made_get [OF unpauses(2) h(1)] made_start [of False "hd_torrent h"] by simp
next
  case (stops opens se')
  then show ?case by (auto simp: session_stop_def dest!: pause_each_made)
next
  case (torrent i h m)
  then show ?case using all_made_set [OF torrent(3)] all_made_get [OF torrent(3,1)] made_step [OF torrent(2)] by blast
qed

lemma session_reach_made: "session_reach se0 se \<Longrightarrow> all_made se0 \<Longrightarrow> all_made se"
  by (induction rule: session_reach.induct) (blast dest: session_step_made)+


section \<open>A stored session comes back\<close>

definition restored :: "'b session \<Rightarrow> torrent_info stored_torrent \<Rightarrow> torrent_meta \<Rightarrow> lengths \<Rightarrow> 'b handle" where
  "restored se t m L =
     \<lparr>hd_info_hash = tm_info_hash m, hd_trackers = remdups (filter utf8_valid (unique (iter_announce m))),
      hd_peer_id = se_peer_id se, hd_force_tracker_interval = None,
      hd_peer_connect_timeout = po_connect_timeout (merge_peer_opts (se_peer_opts se) None),
      hd_peer_read_write_timeout = po_read_write_timeout (merge_peer_opts (se_peer_opts se) None),
      hd_torrent = \<lparr>mt_info = \<lparr>mi_info = st_info t, mi_out_dir = st_output_folder t, mi_lengths = L, mi_overwrite = True\<rparr>,
        mt_only_files = st_only_files t, mt_state = MInitializing, mt_inits = [st_is_paused t]\<rparr>\<rparr>"

lemma restored_db [simp]: "restored (se\<lparr>se_db := db\<rparr>) t m L = restored se t m L"
  by (simp add: restored_def)

lemma add_stored:
  assumes "stored_meta v t = Some m" "lengths_from_torrent (st_info t) = Some L"
    and "compute_only_files (\<lambda>_. None) (st_info t) (st_only_files t) None = Some (st_only_files t)"
    and "i \<notin> set (ids_of se)" "tm_info_hash m \<notin> set (hashes_of (db_torrents (se_db se)))"
  shows "\<exists>r n. session_add_torrent e (AddInfo m) (stored_options i t) se =
    Done (r, se\<lparr>se_db := \<lparr>db_next_id = n, db_torrents = db_torrents (se_db se) @ [(i, restored se t m L)]\<rparr>\<rparr>)"
proof -
  have m: "tm_info m = st_info t" using assms(1) by (auto simp: stored_meta_def)
  have only: "compute_only_files (ae_regex_new e) (st_info t) (st_only_files t) None = Some (st_only_files t)"
    by (rule selected_again [OF assms(3)])
  have new: "find_torrent (tm_info_hash m) (db_torrents (se_db se)) = None" using assms(5) by (simp add: find_torrent_None)
  have j: "map_of (db_torrents (se_db se)) i = None" using assms(4) by (simp add: map_of_eq_None_iff)
  have keep: "map (\<lambda>(j, h). (j, if j = i then h\<lparr>hd_torrent := k\<rparr> else h)) (db_torrents (se_db se)) = db_torrents (se_db se)" for k
    using assms(4) by (force intro!: map_idI)
  show ?thesis
    by (simp add: session_add_torrent_def resolve_add_def resolve_torrent_def main_torrent_info_def stored_options_def
        default_add_options_def choose_output_folder_def m only new build_handle_def build_def assms(2) db_add_torrent_def
        j update_new [OF assms(4)] managed_start_def set_torrent_def keep Let_def restored_def initial_peer_set_def initial_peers_of_def)
      (rule exI [of _ "max i (db_next_id (se_db se)) + 1"], cases "se_db se", simp)
qed

abbreviation meta_of :: "store_env \<Rightarrow> torrent_info stored_torrent \<Rightarrow> torrent_meta" where
  "meta_of v t \<equiv> the (stored_meta v t)"

abbreviation lengths_of :: "torrent_info stored_torrent \<Rightarrow> lengths" where
  "lengths_of t \<equiv> the (lengths_from_torrent (st_info t))"

definition restorable :: "store_env \<Rightarrow> torrent_info stored_torrent \<Rightarrow> bool" where
  "restorable v t \<longleftrightarrow> stored_meta v t \<noteq> None \<and> lengths_from_torrent (st_info t) \<noteq> None \<and>
     compute_only_files (\<lambda>_. None) (st_info t) (st_only_files t) None = Some (st_only_files t)"

lemma stored_adds_all:
  "\<forall>(i, t) \<in> set ts. restorable v t \<Longrightarrow> stored_adds v ts = Some (map (\<lambda>(i, t). (meta_of v t, stored_options i t)) ts)"
  by (induction ts) (auto simp: restorable_def)

lemma add_each_stored:
  assumes "\<forall>(i, t) \<in> set ts. restorable v t" "distinct (ids_of se @ map fst ts)"
    and "distinct (hashes_of (db_torrents (se_db se)) @ map (\<lambda>(i, t). tm_info_hash (meta_of v t)) ts)"
  shows "\<exists>n. add_each e (map (\<lambda>(i, t). (meta_of v t, stored_options i t)) ts) se =
    Done (se\<lparr>se_db := \<lparr>db_next_id = n, db_torrents = db_torrents (se_db se) @
      map (\<lambda>(i, t). (i, restored se t (meta_of v t) (lengths_of t))) ts\<rparr>\<rparr>)"
  using assms
proof (induction ts arbitrary: se)
  case Nil
  then show ?case by (intro exI [of _ "db_next_id (se_db se)"]) simp
next
  case (Cons x ts)
  obtain i t where x: "x = (i, t)" by (cases x)
  have t: "stored_meta v t = Some (meta_of v t)" "lengths_from_torrent (st_info t) = Some (lengths_of t)"
    "compute_only_files (\<lambda>_. None) (st_info t) (st_only_files t) None = Some (st_only_files t)"
    using Cons.prems(1) by (auto simp: x restorable_def)
  have "i \<notin> set (ids_of se)" "tm_info_hash (meta_of v t) \<notin> set (hashes_of (db_torrents (se_db se)))"
    using Cons.prems(2,3) by (auto simp: x)
  from add_stored [OF t this, of e] obtain r n where add: "session_add_torrent e (AddInfo (meta_of v t)) (stored_options i t) se =
      Done (r, se\<lparr>se_db := \<lparr>db_next_id = n, db_torrents = db_torrents (se_db se) @
        [(i, restored se t (meta_of v t) (lengths_of t))]\<rparr>\<rparr>)"
    by blast
  let ?se = "se\<lparr>se_db := \<lparr>db_next_id = n, db_torrents = db_torrents (se_db se) @
    [(i, restored se t (meta_of v t) (lengths_of t))]\<rparr>\<rparr>"
  have "hd_info_hash (restored se t (meta_of v t) (lengths_of t)) = tm_info_hash (meta_of v t)" by (simp add: restored_def)
  then show ?case
    using Cons.IH [of ?se] Cons.prems add by (simp add: x)
qed

lemma read_infos_text:
  assumes "\<forall>b. sv_base64_decode v (sv_base64_encode v b) = Some b"
    and "\<forall>(i, t) \<in> set ts. wf_info (st_info t) \<and> length (serialize_torrent_info (st_info t)) < 2 ^ 64"
  shows "read_infos v sha1 (map (\<lambda>(i, t). (i, with_info (serialize_info_text v (st_info t)) t)) ts) = Done ts"
  using assms(2)
proof (induction ts)
  case (Cons x ts)
  obtain i t where x: "x = (i, t)" by (cases x)
  have "deserialize_torrent_info sha1 (new_from_buf (serialize_torrent_info (st_info t))) = Inr (st_info t, new_from_buf [])"
    using readsD [OF reads_info, of "st_info t" "new_from_buf (serialize_torrent_info (st_info t))" "[]" sha1] Cons.prems
    by (simp add: x)
  then show ?case using Cons assms(1)
    by (simp add: x deserialize_info_text_def serialize_info_text_def with_info_def)
qed simp

lemma map_image: "set ys \<subseteq> f ` S \<Longrightarrow> \<exists>xs. ys = map f xs \<and> set xs \<subseteq> S"
proof (induction ys)
  case (Cons y ys)
  then obtain x xs where "y = f x" "x \<in> S" "ys = map f xs" "set xs \<subseteq> S" by auto
  then show ?case by (intro exI [of _ "x # xs"]) simp
qed simp


text \<open>What the text formats can carry.\<close>

definition storable :: "'b handle \<Rightarrow> bool" where
  "storable h \<longleftrightarrow> length (hd_info_hash h) = 20 \<and> wf_info (mi_info (mt_info (hd_torrent h))) \<and>
     length (serialize_torrent_info (mi_info (mt_info (hd_torrent h)))) < 2 ^ 64 \<and>
     utf8_valid (mi_out_dir (mt_info (hd_torrent h))) \<and> list_all utf8_valid (hd_trackers h)"

abbreviation stored_of :: "store_env \<Rightarrow> 'b session \<Rightarrow> (torrent_id \<times> bytes stored_torrent) list" where
  "stored_of v se \<equiv> map (\<lambda>(i, t). (i, with_info (serialize_info_text v (st_info t)) t)) (session_serialize v (se_db se))"

abbreviation is_paused :: "'b managed \<Rightarrow> bool" where
  "is_paused m \<equiv> (case mt_state m of MPaused _ \<Rightarrow> True | _ \<Rightarrow> False)"

lemma serialized_member:
  "(i, t) \<in> set (session_serialize v db) \<longleftrightarrow> (\<exists>h. (i, h) \<in> set (db_torrents db) \<and>
     t = \<lparr>st_info_hash = sv_hex_encode v (hd_info_hash h), st_info = mi_info (mt_info (hd_torrent h)),
        st_trackers = hd_trackers h, st_output_folder = mi_out_dir (mt_info (hd_torrent h)),
        st_only_files = mt_only_files (hd_torrent h), st_is_paused = is_paused (hd_torrent h)\<rparr>)"
  by (force simp: session_serialize_def)

lemma serialized_ids: "map fst (session_serialize v db) = map fst (db_torrents db)"
  by (auto simp: session_serialize_def)

lemma retracker_utf8: "utf8_valid RETRACKER"
  unfolding RETRACKER_def by code_simp

lemma restored_trackers:
  assumes "list_all utf8_valid (st_trackers t)" "stored_meta v t = Some m"
  shows "set (hd_trackers (restored se t m L)) = (if st_trackers t = [] then {RETRACKER} else set (st_trackers t))"
  using assms retracker_utf8
  by (auto simp: restored_def stored_meta_def unique_def iter_announce_def list_all_iff)

lemma dumped_text:
  assumes "dump_to_disk v io filename se fs = Done (True, fs')"
  shows "list_all (\<lambda>(i, t). utf8_valid (st_output_folder t)) (session_serialize v (se_db se)) \<and>
    fs' filename = Some (take (di_room io) (sv_json_write v (stored_of v se)))"
  using assms by (auto simp: dump_to_disk_def session_text_def Let_def split: if_splits option.splits)

text \<open>What the file has of a torrent, and what comes of it.\<close>

definition stored_as :: "store_env \<Rightarrow> 'b handle \<Rightarrow> torrent_info stored_torrent \<Rightarrow> bool" where
  "stored_as v h t \<longleftrightarrow> storable h \<and> restorable v t \<and> tm_info_hash (meta_of v t) = hd_info_hash h \<and>
     mt_info (hd_torrent h) = \<lparr>mi_info = st_info t, mi_out_dir = st_output_folder t, mi_lengths = lengths_of t,
       mi_overwrite = mi_overwrite (mt_info (hd_torrent h))\<rparr> \<and>
     st_trackers t = hd_trackers h \<and> st_only_files t = mt_only_files (hd_torrent h) \<and> st_is_paused t = is_paused (hd_torrent h)"

lemma serialized_as:
  assumes "(i, t) \<in> set (session_serialize v (se_db se))" "all_made se"
    and "\<forall>(i, h) \<in> set (db_torrents (se_db se)). storable h" "hex_library (sv_hex_encode v) (sv_hex_decode v)"
  shows "\<exists>h. (i, h) \<in> set (db_torrents (se_db se)) \<and> stored_as v h t"
proof -
  from serialized_member [THEN iffD1, OF assms(1)]
  obtain h where h: "(i, h) \<in> set (db_torrents (se_db se))" and t: "t = \<lparr>st_info_hash = sv_hex_encode v (hd_info_hash h),
      st_info = mi_info (mt_info (hd_torrent h)), st_trackers = hd_trackers h,
      st_output_folder = mi_out_dir (mt_info (hd_torrent h)), st_only_files = mt_only_files (hd_torrent h),
      st_is_paused = is_paused (hd_torrent h)\<rparr>"
    by (elim exE conjE)
  have st: "storable h" "made (hd_torrent h)" using assms(2,3) h by blast+
  then have "stored_meta v t \<noteq> None" "tm_info_hash (meta_of v t) = hd_info_hash h"
    using hex_id [OF assms(4), of "hd_info_hash h" 20] by (simp_all add: storable_def stored_meta_def t)
  then have "stored_as v h t" using st by (simp add: t made_def restorable_def stored_as_def)
  then show ?thesis using h by blast
qed

lemma stored_as_wf:
  "stored_as v h t \<Longrightarrow> wf_info (st_info t) \<and> length (serialize_torrent_info (st_info t)) < 2 ^ 64"
  by (cases "mt_info (hd_torrent h)") (simp add: stored_as_def storable_def)

lemma stored_as_restored:
  assumes "stored_as v h t" "h' = restored se t (meta_of v t) (lengths_of t)"
  shows "hd_info_hash h' = hd_info_hash h \<and> mt_info (hd_torrent h') = (mt_info (hd_torrent h))\<lparr>mi_overwrite := True\<rparr> \<and>
    mt_only_files (hd_torrent h') = mt_only_files (hd_torrent h) \<and> mt_state (hd_torrent h') = MInitializing \<and>
    mt_inits (hd_torrent h') = [is_paused (hd_torrent h)] \<and>
    set (hd_trackers h') = (if hd_trackers h = [] then {RETRACKER} else set (hd_trackers h))"
proof -
  have "list_all utf8_valid (st_trackers t)" "stored_meta v t = Some (meta_of v t)"
    using assms(1) by (auto simp: stored_as_def storable_def restorable_def)
  from restored_trackers [OF this, of se "lengths_of t"] show ?thesis
    using assms by (cases "mt_info (hd_torrent h)") (simp add: stored_as_def restored_def)
qed

lemma same_members:
  assumes "set (map (\<lambda>(i, t). (i, g t)) us) = set (map (\<lambda>(i, t). (i, g t)) S)" "set us \<subseteq> set S" "distinct (map fst S)"
  shows "set us = set S"
proof (intro equalityI assms(2) subsetI)
  fix x assume x: "x \<in> set S"
  have "(\<lambda>(i, t). (i, g t)) ` set us = (\<lambda>(i, t). (i, g t)) ` set S" using assms(1) by (simp only: set_map)
  then have "(\<lambda>(i, t). (i, g t)) x \<in> (\<lambda>(i, t). (i, g t)) ` set us" using x by blast
  then obtain y where y: "y \<in> set us" "(\<lambda>(i, t). (i, g t)) y = (\<lambda>(i, t). (i, g t)) x" by auto
  then have "fst y = fst x" by (auto simp: case_prod_unfold)
  have "inj_on fst (set S)" using assms(3) by (simp only: distinct_map)
  then have "y = x" by (rule inj_onD) (use \<open>fst y = fst x\<close> x y(1) assms(2) in blast)+
  then show "x \<in> set us" using y(1) by simp
qed

lemma stored_hashes:
  assumes "\<And>i t. (i, t) \<in> set us \<Longrightarrow> \<exists>h. (i, h) \<in> set (db_torrents db) \<and> stored_as v h t"
    and "distinct (hashes_of (db_torrents db))" "distinct (map fst us)"
  shows "distinct (map (\<lambda>(i, t). tm_info_hash (meta_of v t)) us)"
proof -
  have "x = y" if x: "x \<in> set us" and y: "y \<in> set us"
    and eq: "tm_info_hash (meta_of v (snd x)) = tm_info_hash (meta_of v (snd y))" for x y
  proof -
    obtain h where h: "(fst x, h) \<in> set (db_torrents db)" "tm_info_hash (meta_of v (snd x)) = hd_info_hash h"
      using assms(1) [of "fst x" "snd x"] x by (auto simp: stored_as_def)
    obtain g where g: "(fst y, g) \<in> set (db_torrents db)" "tm_info_hash (meta_of v (snd y)) = hd_info_hash g"
      using assms(1) [of "fst y" "snd y"] y by (auto simp: stored_as_def)
    have "fst x = fst y"
      using find_torrent_unique [OF h(1) assms(2)] find_torrent_unique [OF g(1) assms(2)] h(2) g(2) eq by simp
    moreover have "inj_on fst (set us)" using assms(3) by (simp only: distinct_map)
    ultimately show "x = y" using x y by (blast dest: inj_onD)
  qed
  then show ?thesis using assms(3) by (auto simp: distinct_map inj_on_def case_prod_unfold)
qed

text \<open>
  C2: A session comes back as it was stored. When a session that came about by its own operations has been
  dumped completely, a new session that reads the file has the same torrents under the same ids: each
  with its info hash, its info dictionary, its folder, its selection of files and its trackers, being
  checked again, and paused after the check exactly when it was paused. Only a torrent without trackers
  gets one, the local retracker.
\<close>

theorem stored_session_comes_back:
  assumes "session_reach se0 se" "db_torrents (se_db se0) = []" "\<forall>(i, h) \<in> set (db_torrents (se_db se)). storable h"
    and "hex_library (sv_hex_encode v) (sv_hex_decode v)" "\<forall>b. sv_base64_decode v (sv_base64_encode v b) = Some b"
    and "sv_json_read v (sv_json_write v (stored_of v se)) = Some ts" "set ts = set (stored_of v se)" "distinct (map fst ts)"
    and "dump_to_disk v io filename se fs = Done (True, fs')" "length (sv_json_write v (stored_of v se)) \<le> di_room io"
    and "db_torrents (se_db new) = []"
  shows "\<exists>se'. populate_from_stored v e (Opened (the (fs' filename))) new = Done (True, se') \<and>
    set (ids_of se') = set (ids_of se) \<and>
    (\<forall>i h. session_get i se = Some h \<longrightarrow> (\<exists>h'. session_get i se' = Some h' \<and> hd_info_hash h' = hd_info_hash h \<and>
      mt_info (hd_torrent h') = (mt_info (hd_torrent h))\<lparr>mi_overwrite := True\<rparr> \<and>
      mt_only_files (hd_torrent h') = mt_only_files (hd_torrent h) \<and> mt_state (hd_torrent h') = MInitializing \<and>
      mt_inits (hd_torrent h') = [is_paused (hd_torrent h)] \<and>
      set (hd_trackers h') = (if hd_trackers h = [] then {RETRACKER} else set (hd_trackers h))))"
proof -
  let ?S = "session_serialize v (se_db se)"
  let ?h = "\<lambda>t. restored new t (meta_of v t) (lengths_of t)"
  have ok: "torrents_ok (db_torrents (se_db se))" using session_reach_ok [OF assms(1)] assms(2) by (simp add: torrents_ok_def)
  have made: "all_made se" using session_reach_made [OF assms(1)] assms(2) by simp
  have dist: "distinct (map fst ?S)" "distinct (ids_of se)" "distinct (hashes_of (db_torrents (se_db se)))"
    using ok by (simp_all add: torrents_ok_def serialized_ids)
  let ?f = "\<lambda>(i, t). (i, with_info (serialize_info_text v (st_info t)) t)"
  obtain us where us: "ts = map ?f us" "set us \<subseteq> set ?S" using map_image [of ts ?f "set ?S"] assms(7) by auto
  have same: "set us = set ?S"
    by (rule same_members [where g = "\<lambda>t. with_info (serialize_info_text v (st_info t)) t", OF _ us(2) dist(1)])
      (use assms(7) in \<open>simp only: us(1)\<close>)
  have "map fst us = map fst ts" by (auto simp: us(1))
  then have keys: "distinct (map fst us)" using assms(8) by simp
  have origin: "\<exists>h. (i, h) \<in> set (db_torrents (se_db se)) \<and> stored_as v h t" if "(i, t) \<in> set us" for i t
    using serialized_as [OF _ made assms(3,4)] that us(2) by blast
  have wf: "\<forall>(i, t) \<in> set us. wf_info (st_info t) \<and> length (serialize_torrent_info (st_info t)) < 2 ^ 64"
    using origin stored_as_wf by blast
  have rest: "\<forall>(i, t) \<in> set us. restorable v t" using origin by (fastforce simp: stored_as_def)
  obtain n where add: "add_each e (map (\<lambda>(i, t). (meta_of v t, stored_options i t)) us) new =
      Done (new\<lparr>se_db := \<lparr>db_next_id = n, db_torrents = db_torrents (se_db new) @ map (\<lambda>(i, t). (i, ?h t)) us\<rparr>\<rparr>)"
    using add_each_stored [OF rest, of new] keys stored_hashes [OF origin dist(3) keys] assms(11) by auto
  let ?se = "new\<lparr>se_db := \<lparr>db_next_id = n, db_torrents = map (\<lambda>(i, t). (i, ?h t)) us\<rparr>\<rparr>"
  have "the (fs' filename) = sv_json_write v (stored_of v se)" using dumped_text [OF assms(9)] assms(10) by simp
  then have pop: "populate_from_stored v e (Opened (the (fs' filename))) new = Done (True, ?se)"
    using read_infos_text [OF assms(5) wf, of "ae_sha1 e"] stored_adds_all [OF rest] add assms(6,11)
    by (simp add: populate_from_stored_def us(1))
  have ids: "set (map fst us) = set (ids_of se)"
    using arg_cong [OF serialized_ids [of v "se_db se"], of set] by (simp only: set_map same)
  have get: "\<exists>t. session_get i ?se = Some (?h t) \<and> stored_as v h t" if "session_get i se = Some h" for i h
  proof -
    have h: "(i, h) \<in> set (db_torrents (se_db se))" using that by (auto simp: session_get_def dest: map_of_SomeD)
    then have "i \<in> set (map fst us)" unfolding ids by force
    then obtain t where it: "(i, t) \<in> set us" by auto
    obtain g where g: "(i, g) \<in> set (db_torrents (se_db se))" "stored_as v g t" using origin [OF it] by blast
    have "g = h" using map_of_is_SomeI [OF dist(2) g(1)] map_of_is_SomeI [OF dist(2) h] by simp
    then show ?thesis using g(2) map_of_is_SomeI [OF keys it] by (auto simp: session_get_def map_of_map)
  qed
  have "set (ids_of ?se) = set (ids_of se)" unfolding ids [symmetric] by (auto simp: case_prod_unfold)
  then show ?thesis using pop get stored_as_restored [OF _ refl, of v _ _ new] by blast
qed


section \<open>Examples\<close>

text \<open>A store for one session: the text of its JSON is \<open>{}\<close>, which stands for it alone.\<close>

definition plain_store :: store_env where
  "plain_store = \<lparr>sv_hex_encode = simple_hex, sv_hex_decode = simple_unhex, sv_base64_encode = id, sv_base64_decode = Some,
     sv_json_write = (\<lambda>_. [123, 125]), sv_json_read = (\<lambda>_. None)\<rparr>"

definition demo_store :: "'b session \<Rightarrow> store_env" where
  "demo_store se = plain_store\<lparr>sv_json_read := (\<lambda>b. if b = [123, 125] then Some (stored_of plain_store se) else None)\<rparr>"

lemma demo_stored: "stored_of (demo_store se) db = stored_of plain_store db"
  by (simp add: demo_store_def session_serialize_def serialize_info_text_def comp_def)

lemma demo_store_sel [simp]:
  "sv_hex_encode (demo_store se) = simple_hex" "sv_hex_decode (demo_store se) = simple_unhex"
  "sv_base64_encode (demo_store se) = id" "sv_base64_decode (demo_store se) = Some"
  "sv_json_write (demo_store se) = (\<lambda>_. [123, 125])"
  "sv_json_read (demo_store se) b = (if b = [123, 125] then Some (stored_of plain_store se) else None)"
  by (simp_all add: demo_store_def plain_store_def)

definition demo_io :: "nat \<Rightarrow> dump_io" where
  "demo_io room = \<lparr>di_opens = True, di_partial = [], di_flushed = 0, di_room = room, di_renames = True\<rparr>"

lemma demo_storable:
  obtains rx se where "session_add_torrent demo_env (AddInfo demo_torrent) default_add_options demo_session = Done (Added 0 rx, se)"
    "list_all (\<lambda>(i, h). storable h) (db_torrents (se_db se))" "ids_of se = [0]"
proof -
  have c: "case session_add_torrent demo_env (AddInfo demo_torrent) default_add_options demo_session of
      Done (Added i rx, se) \<Rightarrow> i = 0 \<and> list_all (\<lambda>(i, h). length (hd_info_hash h) = 20 \<and>
        mi_info (mt_info (hd_torrent h)) = small_info \<and> utf8_valid (mi_out_dir (mt_info (hd_torrent h))) \<and>
        list_all utf8_valid (hd_trackers h)) (db_torrents (se_db se)) \<and> ids_of se = [0]
    | _ \<Rightarrow> False"
    by code_simp
  have info: "wf_info small_info" "length (serialize_torrent_info small_info) < 2 ^ 64"
    by (simp add: wf_info_def small_u64_def small_info_def) code_simp
  obtain r se where "session_add_torrent demo_env (AddInfo demo_torrent) default_add_options demo_session = Done (r, se)"
    using c by (cases "session_add_torrent demo_env (AddInfo demo_torrent) default_add_options demo_session") auto
  then show thesis using c info that by (cases r) (auto simp: list_all_iff storable_def)
qed

lemma demo_dump:
  assumes "list_all (\<lambda>(i, h). storable h) (db_torrents (se_db se))"
  shows "session_text (demo_store s) (session_serialize (demo_store s) (se_db se)) = Some [123, 125]"
proof -
  have "storable h" if "(i, h) \<in> set (db_torrents (se_db se))" for i h using assms that by (auto simp: list_all_iff)
  then show ?thesis by (auto simp: session_text_def list_all_iff serialized_member storable_def)
qed

theorem stored_session_comes_back_witness:
  "\<exists>(se :: unit session) (se' :: unit session). session_reach demo_session se \<and> ids_of se = [0] \<and>
     populate_from_stored (demo_store se) demo_env (Opened [123, 125]) demo_session = Done (True, se') \<and> set (ids_of se') = {0}"
proof -
  obtain rx and se :: "unit session" where se:
    "session_add_torrent demo_env (AddInfo demo_torrent) default_add_options demo_session = Done (Added 0 rx, se)"
    "list_all (\<lambda>(i, h). storable h) (db_torrents (se_db se))" "ids_of se = [0]"
    by (rule demo_storable)
  have reach: "session_reach demo_session se"
    by (rule session_reach.step [OF session_reach.opened session_step.adds]) (rule se(1))
  have "\<forall>(i, h) \<in> set (db_torrents (se_db se)). storable h" using se(2) by (simp add: list_all_iff)
  moreover have "dump_to_disk (demo_store se) (demo_io 2) [97] se (\<lambda>_. None) =
      Done (True, (\<lambda>_. None)([97] \<mapsto> [123, 125], [97] @ TMP := None))"
    using demo_dump [OF se(2), of se] by (simp add: dump_to_disk_def demo_io_def utf8_valid.simps)
  moreover have "sv_json_read (demo_store se) (sv_json_write (demo_store se) (stored_of (demo_store se) se)) = Some (stored_of plain_store se)"
    by simp
  moreover have "distinct (map fst (stored_of plain_store se))" using se(3) by (simp add: session_serialize_def comp_def case_prod_unfold)
  moreover have "db_torrents (se_db demo_session) = []" by (simp add: demo_session_def empty_db_def)
  ultimately show ?thesis
    using stored_session_comes_back [OF reach, of "demo_store se" "stored_of plain_store se" "demo_io 2" "[97]" "\<lambda>_. None" _ demo_session demo_env]
      reach se(3) simple_hex_library
    by (auto simp: demo_stored demo_io_def)
qed

theorem cut_dump_replaces_session_witness:
  "\<exists>fs'. dump_to_disk (demo_store demo_session) (demo_io 1) [97] demo_session [[97] \<mapsto> [123, 125]] = Done (True, fs') \<and>
     fs' [97] = Some [123] \<and>
     populate_from_stored (demo_store demo_session) demo_env (Opened [123]) demo_session = Done (False, demo_session)"
proof -
  have written: "session_text (demo_store demo_session) (session_serialize (demo_store demo_session) (se_db demo_session)) = Some [123, 125]"
    by (rule demo_dump) (simp add: demo_session_def empty_db_def)
  have cut: "sv_json_read (demo_store demo_session) p = None" if "strict_prefix p [123, 125]" for p
    using that by (auto simp: strict_prefix_def)
  show ?thesis
    using cut_dump_replaces_session [OF _ written cut, of "[97]" "demo_io 1" "[[97] \<mapsto> [123, 125]]" demo_env demo_session]
    by (auto simp: demo_io_def)
qed

end
