(* ===== verification/Spec2Isabelle.thy ===== *)
theory Spec2Isabelle
  imports CreateTorrent MetadataReader Delivery DhtWorker SessionStore
begin

text \<open>
  A model of the core of a BitTorrent client written in Rust (the crates under \<open>src/crates/\<close>), and the theorems
  that make it correct. A definition has the name of the function, method or type it translates wherever
  the name is free, and each theory says at its start which source it models.

  The program. A session (\<open>librqbit/src/session.rs\<close>) is given magnet links, URLs and torrent files. It finds the
  info dictionary, from the file or from peers, chooses the files and where they go, and puts a managed
  torrent into its database. A managed torrent (\<open>torrent_state\<close>) checks the files that are there, and is then
  paused or live. A live torrent keeps connections to peers, which come from the DHT (\<open>dht\<close>), from trackers
  (\<open>tracker_comms\<close>) and from incoming connections; each connection speaks the peer protocol
  (\<open>peer_binary_protocol\<close>) over a receive buffer and asks the chunk tracker which piece to get next. Blocks that
  arrive are written to the files; a piece that is complete is hashed and is then had, or needed again.

  \<^bold>\<open>Theories and sources.\<close> From the bottom up.

  \<^item> \<open>Prelude\<close>: names for the integers and byte strings, the outcomes of a Rust function (\<open>outcome\<close>: a value or a
    panic; sums for \<open>Result\<close>), slices, big-endian integers, the collections of hints.
  \<^item> \<open>Lengths\<close> (\<open>librqbit_core/lengths.rs\<close>), \<open>Bitfield\<close>, \<open>HashId\<close> (\<open>hash_id.rs\<close>): the arithmetic of pieces and chunks at its
    widths, bit vectors, identifiers as bytes and as 160-bit words.
  \<^item> \<open>Bencode\<close> and \<open>Readers\<close> (crate \<open>bencode\<close>): values, the serializer and the stateful deserializer with its hook for
    the hash of the info dictionary, and the readers serde derives for structs.
  \<^item> \<open>Extended\<close>, \<open>PeerProtocol\<close> (crate \<open>peer_binary_protocol\<close>): the messages, the handshake, and their byte forms.
  \<^item> \<open>ReadBuf\<close>, \<open>PeerConnection\<close> (\<open>read_buf.rs\<close>, \<open>peer_connection.rs\<close>): the receive buffer and a connection's two loops,
    as a step relation labelled with what is received and sent. \<open>MetadataReader\<close> (\<open>peer_info_reader/mod.rs\<close>) is a
    handler of such a connection that fetches the info dictionary.
  \<^item> \<open>ChunkTracker\<close> (\<open>chunk_tracker.rs\<close>), \<open>TorrentMetainfo\<close> and \<open>TorrentFile\<close> (\<open>torrent_metainfo.rs\<close>), \<open>FileOps\<close> (\<open>file_ops.rs\<close>),
    \<open>CreateTorrent\<close> (\<open>create_torrent_file.rs\<close>): which pieces are needed and had, the torrent file and its paths,
    reading, writing and hashing pieces over several files, making a torrent from files.
  \<^item> \<open>PeerStates\<close>, \<open>Live\<close> (\<open>torrent_state/live\<close>): the table of peers with its counters, and every handler and task of a
    live torrent. \<open>Swarm\<close> is the interleaving of all of them as a step relation; \<open>Progress\<close>, \<open>Delivery\<close> and \<open>Resume\<close>
    are what holds over every interleaving; \<open>Schedule\<close> and \<open>Scenario\<close> compute runs that the witnesses use.
  \<^item> \<open>Managed\<close> (\<open>torrent_state/mod.rs\<close>, \<open>initializing.rs\<close>, \<open>paused.rs\<close>, \<open>stats.rs\<close>): the check of the files and the states
    of a torrent.
  \<^item> \<open>UdpTracker\<close>, \<open>TrackerComms\<close> (crate \<open>tracker_comms\<close>), \<open>Magnet\<close> (\<open>magnet.rs\<close>, \<open>peer_id.rs\<close>).
  \<^item> \<open>AddTorrent\<close>, \<open>Session\<close>, \<open>SessionStore\<close> (\<open>session.rs\<close>, \<open>dht_utils.rs\<close>): what a link or a file comes to, the session's
    database with every operation on it, and the file a session is stored in.
  \<^item> \<open>BProtocol\<close>, \<open>RoutingTable\<close>, \<open>PeerStore\<close>, \<open>Dht\<close>, \<open>DhtWorker\<close> (crate \<open>dht\<close>): the messages of the DHT, its table of nodes
    as a tree of buckets, the announced peers, a node (requests in flight, answers, the steps of lookups), and
    what runs it: a lookup for the table from start to end, bootstrapping, upkeep, its stored table.
\<close>

text \<open>
  \<^bold>\<open>What is proved.\<close>

  \<^item> Wire formats: each message, handshake, torrent file, DHT message and tracker answer that is written is read
    back, with anything behind it left alone; the deserializers are total, and where the code panics or
    accepts too much, a theorem says on which bytes.
  \<^item> Geometry and files: pieces tile the torrent and chunks the piece; a written chunk lands in the files as in one
    long array, whatever the files' lengths; the check of the files finds exactly the verified pieces; the
    paths of a torrent's files stay below its folder (but not its own name, \<open>torrent_name_escapes\<close>).
  \<^item> The chunk tracker: an invariant of every run, and that a piece is reported complete exactly once.
  \<^item> Connections: messages are delivered in order and as sent, for every way the network cuts the bytes.
  \<^item> The live torrent, over every interleaving: the peers' counters count, only requested blocks are written, no
    piece is lost or worked on twice, progress is what was verified, pause and resume keep the work, also when a
    pause fails half-way, and the two orders in which the source loses a piece or never finishes.
  \<^item> Managed torrents and sessions: states, ids, info hashes, what adding does, which torrent gets a connection;
    a stored session comes back, unless the end of its file was lost without an error.
  \<^item> DHT: the routing table is a partition of the identifiers with at most eight nodes in a leaf and refines a map
    from identifiers to nodes; queries are answered; responses reach their request; lookups and the peer
    store are bounded, and a lookup ends; a stored table comes back in order.

  Interfaces are locales, interpreted on the model's definitions where they are provided: \<open>bincode_request\<close> and
  \<open>bincode_handshake\<close> (the formats of the bincode crate), \<open>framing\<close> (what a receive loop needs of a codec),
  \<open>handler_keeps\<close> (an invariant kept by a connection's handler) and \<open>peer_op\<close> (an operation on one peer that
  keeps the counters).

  \<^bold>\<open>Bounds and fuel.\<close> The recursive deserializer takes fuel; \<open>fuel_for\<close> gives it one more than the bytes that are left,
  and each of its calls consumes a byte, so it never runs out (\<open>dyn_from_bytes_total\<close>). A bucket is split at most
  once per bit of an identifier, so \<open>insert_into_leaf\<close> runs with 161. All other recursions are structural or
  have a measure; a receive loop that may wait forever is over the finite list of the network's events.
  Integers are words of the source's width; lengths of lists stand for \<open>usize\<close>, with the side condition of fitting
  where it matters. Where Rust panics on overflow only in debug builds, the release behaviour is modelled.

  \<^bold>\<open>Geometry.\<close> \<open>geometry_ok\<close> says of a torrent that its sizes fit the counters and that its piece length is a multiple
  of the chunk length, 16 KiB (\<open>torrent_geometry\<close>). The source checks neither. What is said of the chunk tracker, and
  so of a download, is said of such torrents; on others the tracker panics (\<open>odd_piece_length_panics\<close>).

  \<^bold>\<open>Parameters.\<close> What the source calls and does not contain is an argument: SHA-1, the bincode, hex, regex, URL and
  percent-encoding libraries, HTTP, the clock, random numbers, the backoff policy, how many bytes a read gives
  and whether the operating system grants a call, such as to open \<open>/dev/null\<close> when a torrent is paused. The laws assumed of them are the hypotheses of the
  theorems (\<open>hex_library\<close>, \<open>url_library\<close>, that JSON and base64 are read back), each with a witness that gives concrete functions. The comparison of
  floating-point rates by which a piece is stolen from a slow peer is an argument too.

  \<^bold>\<open>Coarse steps.\<close> A requester that looks for a piece takes up to three short locks in the source and is one step here;
  a writer writes, checks and records a block in one step; an accepted connection is read, matched and
  handed over in one step. Ids of torrents are assumed below the largest word where a theorem says so.
\<close>

text \<open>
  \<^bold>\<open>Not modelled.\<close>

  \<^item> The timers and select loops of the DHT node that run the modelled steps side by side, its rate limiter and
    sockets (\<open>dht.rs\<close>), and the timers that repeat the dumps: input, output and time around the modelled steps.
  \<^item> The HTTP interface and its client, the JSON forms of the statistics (\<open>api.rs\<close>, \<open>http_api.rs\<close>, \<open>http_api_client.rs\<close>,
    \<open>api_error.rs\<close>): glue between a web framework and the session's calls.
  \<^item> Port forwarding (\<open>upnp\<close>): requests to a router, over XML and HTTP libraries.
  \<^item> The command line (\<open>gnostr-bits\<close>) and the desktop program: they parse options and print.
  \<^item> Small helpers whose model is the identity or an argument here: \<open>buffers\<close>, \<open>clone_to_owned\<close>, \<open>sha1w\<close>, \<open>spawn_utils\<close>,
    \<open>directories\<close>, and the speed estimator, whose result is only displayed.
\<close>

end
